(* ===== verification/Prelude.thy ===== *)
theory Prelude
  imports Main "HOL-Library.Word" "HOL-Library.Char_ord" "HOL-Library.List_Lexorder"
    "HOL-Library.While_Combinator"
begin

text \<open>
  Shared vocabulary of the development: the machine integers, the result type of fallible and
  panicking code, Rust strings as byte strings, slices, and the generic lemmas on lists and
  results that the component theories use.

  A Rust \<open>String\<close> or \<open>&str\<close> is its UTF-8 byte sequence. It is modelled by \<^typ>\<open>string\<close>, one
  \<^typ>\<open>char\<close> per byte, so \<^const>\<open>length\<close> is Rust's \<open>len()\<close> and the order of
  \<^theory_text>\<open>List_Lexorder\<close> is the byte order of \<open>Ord for String\<close>.

  A \<open>usize\<close> that only measures the length of something in memory is a \<^typ>\<open>nat\<close>, with
  \<open>checked_mul\<close> and overflow written out; a counter or an index that wraps is a
  \<open>64 word\<close>. \<open>u32\<close> and \<open>i32\<close> data are \<open>32 word\<close>s.
\<close>

type_synonym u32 = "32 word"
type_synonym i32 = "32 word"
type_synonym u64 = "64 word"
type_synonym usize = nat

named_theorems res_simps "unfolding of the result operations"
named_theorems panic_free "facts that discharge a possible panic"

section \<open>Results\<close>

text \<open>
  \<open>Ok\<close> and \<open>Err\<close> are Rust's; \<open>Panic\<close> is an unwinding panic (an overflow check, a failed
  \<open>assert!\<close>, a slice index out of range, an allocation that exceeds \<open>isize::MAX\<close>).
\<close>

datatype ('a, 'e) res = Ok 'a | Err 'e | Panic

fun and_then :: "('a, 'e) res \<Rightarrow> ('a \<Rightarrow> ('b, 'e) res) \<Rightarrow> ('b, 'e) res" where
  "and_then (Ok a) f = f a"
| "and_then (Err e) f = Err e"
| "and_then Panic f = Panic"

fun map_err :: "('e \<Rightarrow> 'd) \<Rightarrow> ('a, 'e) res \<Rightarrow> ('a, 'd) res" where
  "map_err g (Ok a) = Ok a"
| "map_err g (Err e) = Err (g e)"
| "map_err g Panic = Panic"

fun ok_or :: "'e \<Rightarrow> 'a option \<Rightarrow> ('a, 'e) res" where
  "ok_or e (Some a) = Ok a"
| "ok_or e None = Err e"

fun is_ok :: "('a, 'e) res \<Rightarrow> bool" where
  "is_ok (Ok a) = True"
| "is_ok (Err e) = False"
| "is_ok Panic = False"

fun traverse :: "('a \<Rightarrow> ('b, 'e) res) \<Rightarrow> 'a list \<Rightarrow> ('b list, 'e) res" where
  "traverse f [] = Ok []"
| "traverse f (x # xs) = and_then (f x) (\<lambda>y. and_then (traverse f xs) (\<lambda>ys. Ok (y # ys)))"

lemma and_then_eq_Ok [res_simps]:
  "and_then r f = Ok b \<longleftrightarrow> (\<exists>a. r = Ok a \<and> f a = Ok b)"
  by (cases r) auto

lemma and_then_eq_Panic [res_simps]:
  "and_then r f = Panic \<longleftrightarrow> r = Panic \<or> (\<exists>a. r = Ok a \<and> f a = Panic)"
  by (cases r) auto

lemma map_err_eq_Ok [res_simps, simp]: "map_err g r = Ok a \<longleftrightarrow> r = Ok a"
  by (cases r) auto

lemma ok_or_eq_Ok [res_simps, simp]: "ok_or e x = Ok a \<longleftrightarrow> x = Some a"
  by (cases x) auto

lemma ok_or_not_Panic [simp, panic_free]: "ok_or e x \<noteq> Panic"
  by (cases x) auto

lemma is_ok_iff: "is_ok r \<longleftrightarrow> (\<exists>a. r = Ok a)"
  by (cases r) auto

lemma traverse_map_Ok:
  "(\<And>x. x \<in> set xs \<Longrightarrow> f (g x) = Ok x) \<Longrightarrow> traverse f (map g xs) = Ok xs"
  by (induction xs) auto

lemma traverse_length: "traverse f xs = Ok ys \<Longrightarrow> length ys = length xs"
  by (induction xs arbitrary: ys) (auto simp: res_simps)

section \<open>Checked arithmetic on \<open>usize\<close>\<close>

definition usize_bound :: nat where
  "usize_bound = 2 ^ 64"

definition isize_max :: nat where
  "isize_max = 2 ^ 63 - 1"

definition checked_mul :: "usize \<Rightarrow> usize \<Rightarrow> usize option" where
  "checked_mul a b = (if a * b < usize_bound then Some (a * b) else None)"

definition checked_add :: "usize \<Rightarrow> usize \<Rightarrow> usize option" where
  "checked_add a b = (if a + b < usize_bound then Some (a + b) else None)"

text \<open>Plain \<open>-\<close> and \<open>/\<close> panic (overflow checks, division by zero).\<close>

definition usize_sub :: "usize \<Rightarrow> usize \<Rightarrow> (usize, 'e) res" where
  "usize_sub a b = (if b \<le> a then Ok (a - b) else Panic)"

definition usize_div :: "usize \<Rightarrow> usize \<Rightarrow> (usize, 'e) res" where
  "usize_div a b = (if b = 0 then Panic else Ok (a div b))"

lemma checked_mul_eq_Some [simp]:
  "checked_mul a b = Some c \<longleftrightarrow> c = a * b \<and> a * b < usize_bound"
  by (auto simp: checked_mul_def)

lemma checked_add_eq_Some [simp]:
  "checked_add a b = Some c \<longleftrightarrow> c = a + b \<and> a + b < usize_bound"
  by (auto simp: checked_add_def)

lemma usize_sub_ok [simp, panic_free]: "b \<le> a \<Longrightarrow> usize_sub a b = Ok (a - b)"
  by (simp add: usize_sub_def)

lemma usize_div_ok [simp, panic_free]: "b \<noteq> 0 \<Longrightarrow> usize_div a b = Ok (a div b)"
  by (simp add: usize_div_def)

lemma unat_of_nat_u64: "n < usize_bound \<Longrightarrow> unat (of_nat n :: u64) = n"
  by (simp add: unat_of_nat usize_bound_def)

section \<open>Lists and slices\<close>

text \<open>\<open>xs[start..][..len]\<close>, with the two bounds checks of the slice expressions.\<close>

definition slice :: "nat \<Rightarrow> nat \<Rightarrow> 'a list \<Rightarrow> ('a list, 'e) res" where
  "slice start len xs = (if start + len \<le> length xs then Ok (take len (drop start xs)) else Panic)"

lemma slice_ok [simp, panic_free]:
  "start + len \<le> length xs \<Longrightarrow> slice start len xs = Ok (take len (drop start xs))"
  by (simp add: slice_def)

lemma frame_bounds:
  fixes i n c :: nat
  assumes "i < n" "k < c"
  shows "i * c + k < n * c"
proof -
  have "i * c + k < Suc i * c" using assms(2) by simp
  also have "\<dots> \<le> n * c" using assms(1) by (intro mult_le_mono1) simp
  finally show ?thesis .
qed

lemma frame_slice_bound:
  fixes i n c :: nat
  assumes "i < n"
  shows "i * c + c \<le> n * c"
proof -
  have "i * c + c = Suc i * c" by simp
  also have "\<dots> \<le> n * c" using assms by (intro mult_le_mono1) simp
  finally show ?thesis .
qed

lemma list_all_take: "list_all P xs \<Longrightarrow> list_all P (take n xs)"
  by (auto simp: list_all_iff dest: in_set_takeD)

lemma list_all_drop: "list_all P xs \<Longrightarrow> list_all P (drop n xs)"
  by (auto simp: list_all_iff dest: in_set_dropD)

section \<open>Bytes\<close>

definition byte :: "char \<Rightarrow> nat" where
  "byte c = of_char c"

definition is_ascii_digit :: "char \<Rightarrow> bool" where
  "is_ascii_digit c = (48 \<le> byte c \<and> byte c \<le> 57)"

definition is_ascii_alphanumeric :: "char \<Rightarrow> bool" where
  "is_ascii_alphanumeric c =
     (is_ascii_digit c \<or> (65 \<le> byte c \<and> byte c \<le> 90) \<or> (97 \<le> byte c \<and> byte c \<le> 122))"

lemma byte_bound [simp]: "byte c < 256"
  by (simp add: byte_def)

lemma byte_char_of [simp]: "n < 256 \<Longrightarrow> byte (char_of n) = n"
  by (simp add: byte_def)

lemma byte_inject [simp]: "byte c = byte d \<longleftrightarrow> c = d"
  by (simp add: byte_def)

section \<open>Computations that may not return\<close>

text \<open>A \<open>comp\<close> is \<open>None\<close> when a loop inside it does not end.\<close>

type_synonym ('a, 'e) comp = "('a, 'e) res option"

fun and_run :: "('a, 'e) comp \<Rightarrow> ('a \<Rightarrow> ('b, 'e) comp) \<Rightarrow> ('b, 'e) comp" where
  "and_run (Some (Ok a)) f = f a"
| "and_run (Some (Err e)) f = Some (Err e)"
| "and_run (Some Panic) f = Some Panic"
| "and_run None f = None"

abbreviation ret :: "'a \<Rightarrow> ('a, 'e) comp" where
  "ret a \<equiv> Some (Ok a)"

text \<open>\<open>while cond { body }\<close> whose body may fail.\<close>

definition while_res :: "('s \<Rightarrow> bool) \<Rightarrow> ('s \<Rightarrow> ('s, 'e) res) \<Rightarrow> 's \<Rightarrow> ('s, 'e) comp" where
  "while_res c b s =
     while_option (\<lambda>r. case r of Ok s \<Rightarrow> c s | _ \<Rightarrow> False) (\<lambda>r. and_then r b) (Ok s)"

lemma while_res_unfold:
  "while_res c b s = (if c s then and_run (Some (b s)) (while_res c b) else ret s)"
proof (cases "c s")
  case True
  then have "while_res c b s = while_option (\<lambda>r. case r of Ok s \<Rightarrow> c s | _ \<Rightarrow> False) (\<lambda>r. and_then r b) (b s)"
    by (subst while_res_def, subst while_option_unfold) simp
  also have "\<dots> = and_run (Some (b s)) (while_res c b)"
  proof (cases "b s")
    case (Ok t)
    then show ?thesis by (simp add: while_res_def)
  next
    case (Err e)
    then show ?thesis by (subst while_option_unfold) simp
  next
    case Panic
    then show ?thesis by (subst while_option_unfold) simp
  qed
  finally show ?thesis using True by simp
next
  case False
  then show ?thesis by (subst while_res_def, subst while_option_unfold) simp
qed

section \<open>\<open>chunks_exact\<close>\<close>

function chunks_exact :: "nat \<Rightarrow> 'a list \<Rightarrow> 'a list list" where
  "chunks_exact c xs =
     (if c = 0 \<or> length xs < c then [] else take c xs # chunks_exact c (drop c xs))"
  by pat_completeness auto
termination by (relation "measure (\<lambda>(c, xs). length xs)") auto

declare chunks_exact.simps [simp del]

lemma chunks_exact_Nil [simp]: "length xs < c \<Longrightarrow> chunks_exact c xs = []"
  by (subst chunks_exact.simps) simp

lemma chunks_exact_Cons:
  "0 < c \<Longrightarrow> c \<le> length xs \<Longrightarrow> chunks_exact c xs = take c xs # chunks_exact c (drop c xs)"
  by (subst chunks_exact.simps) simp

lemma chunks_exact_append:
  "0 < c \<Longrightarrow> length xs = n * c \<Longrightarrow> chunks_exact c (xs @ ys) = chunks_exact c xs @ chunks_exact c ys"
proof (induction n arbitrary: xs)
  case (Suc n)
  then have l: "c \<le> length xs" "length (drop c xs) = n * c" by auto
  have "chunks_exact c (xs @ ys) = take c xs # chunks_exact c (drop c xs @ ys)"
    using Suc.prems(1) l(1) chunks_exact_Cons [of c "xs @ ys"] by simp
  then show ?case
    using Suc.IH [OF Suc.prems(1) l(2)] chunks_exact_Cons [OF Suc.prems(1) l(1)] by simp
qed simp

lemma length_chunks_exact: "0 < c \<Longrightarrow> length (chunks_exact c xs) = length xs div c"
proof (induction c xs rule: chunks_exact.induct)
  case (1 c xs)
  show ?case
  proof (cases "length xs < c")
    case False
    then have "length xs div c = Suc ((length xs - c) div c)"
      using "1.prems" by (simp add: le_div_geq)
    then show ?thesis using 1 False by (simp add: chunks_exact_Cons)
  qed simp
qed

lemma chunks_exact_lengths: "f \<in> set (chunks_exact c xs) \<Longrightarrow> length f = c"
proof (induction c xs rule: chunks_exact.induct)
  case (1 c xs)
  then show ?case
    by (cases "c = 0 \<or> length xs < c") (auto simp: chunks_exact.simps [of c xs])
qed

lemma chunks_exact_single: "0 < c \<Longrightarrow> length xs = c \<Longrightarrow> chunks_exact c xs = [xs]"
  by (subst chunks_exact.simps) simp

lemma chunks_exact_concat: "0 < c \<Longrightarrow> (\<And>f. f \<in> set fs \<Longrightarrow> length f = c) \<Longrightarrow> chunks_exact c (concat fs) = fs"
  by (induction fs) (simp_all add: chunks_exact_Cons)

end
