(* ===== verification/BTreeMap.thy ===== *)
theory BTreeMap
  imports Prelude
begin

text \<open>
  \<open>std::collections::BTreeMap\<close>, as far as the sources use it: lookup, insertion (which
  replaces), removal, and iteration in ascending key order. The map is the list of its entries
  sorted strictly by key. The locale \<open>ordered_map\<close> states what the routing graph and the daemon
  rely on; it is interpreted on these operations.
\<close>

type_synonym ('k, 'v) btree = "('k \<times> 'v) list"

section \<open>Operations\<close>

definition bt_empty :: "('k, 'v) btree" where
  "bt_empty = []"

fun bt_get :: "('k::linorder, 'v) btree \<Rightarrow> 'k \<Rightarrow> 'v option" where
  "bt_get [] k = None"
| "bt_get ((k', v) # m) k = (if k = k' then Some v else bt_get m k)"

fun bt_insert :: "'k::linorder \<Rightarrow> 'v \<Rightarrow> ('k, 'v) btree \<Rightarrow> ('k, 'v) btree" where
  "bt_insert k v [] = [(k, v)]"
| "bt_insert k v ((k', v') # m) =
     (if k < k' then (k, v) # (k', v') # m
      else if k = k' then (k, v) # m
      else (k', v') # bt_insert k v m)"

fun bt_remove :: "'k::linorder \<Rightarrow> ('k, 'v) btree \<Rightarrow> ('k, 'v) btree" where
  "bt_remove k [] = []"
| "bt_remove k ((k', v') # m) = (if k = k' then m else (k', v') # bt_remove k m)"

definition bt_contains :: "('k::linorder, 'v) btree \<Rightarrow> 'k \<Rightarrow> bool" where
  "bt_contains m k = (bt_get m k \<noteq> None)"

definition bt_values :: "('k, 'v) btree \<Rightarrow> 'v list" where
  "bt_values m = map snd m"

definition bt_sorted :: "('k::linorder, 'v) btree \<Rightarrow> bool" where
  "bt_sorted m = sorted_wrt (<) (map fst m)"

section \<open>The interface\<close>

locale ordered_map =
  fixes empty :: "'m"
    and get :: "'m \<Rightarrow> 'k::linorder \<Rightarrow> 'v option"
    and insert :: "'k \<Rightarrow> 'v \<Rightarrow> 'm \<Rightarrow> 'm"
    and remove :: "'k \<Rightarrow> 'm \<Rightarrow> 'm"
    and entries :: "'m \<Rightarrow> ('k \<times> 'v) list"
    and invar :: "'m \<Rightarrow> bool"
  assumes invar_empty: "invar empty"
    and invar_insert: "invar m \<Longrightarrow> invar (insert k v m)"
    and invar_remove: "invar m \<Longrightarrow> invar (remove k m)"
    and get_empty: "get empty k = None"
    and get_insert: "invar m \<Longrightarrow> get (insert k v m) k' = (if k' = k then Some v else get m k')"
    and get_remove: "invar m \<Longrightarrow> get (remove k m) k' = (if k' = k then None else get m k')"
    and entries_get: "invar m \<Longrightarrow> (k, v) \<in> set (entries m) \<longleftrightarrow> get m k = Some v"
    and entries_sorted: "invar m \<Longrightarrow> sorted_wrt (<) (map fst (entries m))"
begin

lemma values_iff: "invar m \<Longrightarrow> v \<in> snd ` set (entries m) \<longleftrightarrow> (\<exists>k. get m k = Some v)"
  by (force simp: entries_get [symmetric])

lemma values_insert_fresh:
  assumes "invar m" "get m k = None"
  shows "snd ` set (entries (insert k v m)) = Set.insert v (snd ` set (entries m))"
proof -
  have "u \<in> snd ` set (entries (insert k v m)) \<longleftrightarrow> u = v \<or> u \<in> snd ` set (entries m)" for u
    unfolding values_iff [OF assms(1)] values_iff [OF invar_insert [OF assms(1)]]
    using assms by (metis get_insert option.distinct(1) option.inject)
  then show ?thesis by blast
qed

lemma values_insert_subset:
  assumes "invar m"
  shows "snd ` set (entries (insert k v m)) \<subseteq> Set.insert v (snd ` set (entries m))"
proof
  fix u assume "u \<in> snd ` set (entries (insert k v m))"
  then obtain k' where "get (insert k v m) k' = Some u"
    using assms by (auto simp: values_iff invar_insert)
  then show "u \<in> Set.insert v (snd ` set (entries m))"
    unfolding insert_iff values_iff [OF assms]
    using assms by (auto simp: get_insert split: if_splits)
qed

lemma values_remove_subset:
  assumes "invar m"
  shows "snd ` set (entries (remove k m)) \<subseteq> snd ` set (entries m)"
proof
  fix u assume "u \<in> snd ` set (entries (remove k m))"
  then obtain k' where "get (remove k m) k' = Some u"
    using assms by (auto simp: values_iff invar_remove)
  then show "u \<in> snd ` set (entries m)"
    unfolding values_iff [OF assms] using assms by (auto simp: get_remove split: if_splits)
qed

lemma distinct_keys: "invar m \<Longrightarrow> distinct (map fst (entries m))"
  using entries_sorted strict_sorted_iff by blast

lemma entries_remove:
  assumes "invar m"
  shows "set (entries (remove k m)) = {e \<in> set (entries m). fst e \<noteq> k}"
proof -
  have "e \<in> set (entries (remove k m)) \<longleftrightarrow> e \<in> set (entries m) \<and> fst e \<noteq> k" for e
    by (cases e) (auto simp: entries_get assms invar_remove get_remove)
  then show ?thesis by blast
qed

end

section \<open>The sorted list provides it\<close>

lemma bt_insert_keys: "fst ` set (bt_insert k v m) = insert k (fst ` set m)"
  by (induction k v m rule: bt_insert.induct) auto

lemma bt_remove_keys: "set (bt_remove k m) \<subseteq> set m"
  by (induction k m rule: bt_remove.induct) auto

lemma bt_sorted_Cons:
  "bt_sorted ((k, v) # m) \<longleftrightarrow> (\<forall>k' \<in> fst ` set m. k < k') \<and> bt_sorted m"
  by (auto simp: bt_sorted_def)

lemma bt_sorted_insert: "bt_sorted m \<Longrightarrow> bt_sorted (bt_insert k v m)"
  by (induction k v m rule: bt_insert.induct)
    (auto simp: bt_sorted_Cons bt_insert_keys bt_sorted_def [of "[]"])

lemma bt_sorted_remove: "bt_sorted m \<Longrightarrow> bt_sorted (bt_remove k m)"
  by (induction k m rule: bt_remove.induct)
    (auto simp: bt_sorted_Cons dest: bt_remove_keys [THEN subsetD])

lemma bt_get_None: "k \<notin> fst ` set m \<Longrightarrow> bt_get m k = None"
  by (induction m k rule: bt_get.induct) auto

lemma bt_get_insert:
  "bt_sorted m \<Longrightarrow> bt_get (bt_insert k v m) k' = (if k' = k then Some v else bt_get m k')"
  by (induction k v m rule: bt_insert.induct) (auto simp: bt_sorted_Cons)

lemma bt_get_remove:
  "bt_sorted m \<Longrightarrow> bt_get (bt_remove k m) k' = (if k' = k then None else bt_get m k')"
proof (induction k m rule: bt_remove.induct)
  case (2 k j u m)
  then have "k' = j \<Longrightarrow> bt_get m k' = None"
    by (intro bt_get_None) (auto simp: bt_sorted_Cons)
  with 2 show ?case by (auto simp: bt_sorted_Cons)
qed simp

lemma bt_entries_get: "bt_sorted m \<Longrightarrow> (k, v) \<in> set m \<longleftrightarrow> bt_get m k = Some v"
  by (induction m k rule: bt_get.induct) (auto simp: bt_sorted_Cons)

interpretation bm: ordered_map bt_empty bt_get bt_insert bt_remove "\<lambda>m. m" bt_sorted
  by unfold_locales
    (auto simp: bt_empty_def bt_sorted_insert bt_sorted_remove bt_get_insert bt_get_remove
      bt_entries_get, simp_all add: bt_sorted_def)

lemma set_bt_values: "set (bt_values m) = snd ` set m"
  by (simp add: bt_values_def)

lemma bt_values_iff: "bt_sorted m \<Longrightarrow> v \<in> set (bt_values m) \<longleftrightarrow> (\<exists>k. bt_get m k = Some v)"
  by (simp add: set_bt_values bm.values_iff)

lemma bt_values_insert_fresh:
  "bt_sorted m \<Longrightarrow> bt_get m k = None \<Longrightarrow>
    set (bt_values (bt_insert k v m)) = insert v (set (bt_values m))"
  by (simp add: set_bt_values bm.values_insert_fresh)

lemma bt_values_remove: "bt_sorted m \<Longrightarrow> set (bt_values (bt_remove k m)) \<subseteq> set (bt_values m)"
  by (simp add: set_bt_values bm.values_remove_subset)

lemma bt_get_in_values: "bt_sorted m \<Longrightarrow> bt_get m k = Some v \<Longrightarrow> v \<in> set (bt_values m)"
  by (auto simp: bt_values_iff)

text \<open>Two sorted maps with the same lookups are the same list, so iteration depends on nothing else.\<close>

lemma bt_ext:
  assumes "bt_sorted m" "bt_sorted m'" "\<And>k. bt_get m k = bt_get m' k"
  shows "m = m'"
proof -
  have set_eq: "set m = set m'"
    using assms by (auto simp: bt_entries_get)
  have d: "distinct (map fst m)" "distinct (map fst m')"
    using assms bm.distinct_keys by auto
  have "inj_on fst (set m \<union> set m')"
    using d(1) set_eq by (simp add: distinct_map)
  moreover have "sorted (map fst m)" "sorted (map fst m')"
    using assms(1,2) by (simp_all add: bt_sorted_def strict_sorted_imp_sorted)
  ultimately show ?thesis
    using d set_eq by (intro map_sorted_distinct_set_unique)
qed

end
