(* ===== verification/IeeeFloat.thy ===== *)
theory IeeeFloat
  imports Prelude
begin

text \<open>
  Rust's \<open>f32\<close> and \<open>f64\<close>: IEEE 754 binary arithmetic with round-to-nearest, ties to even. A value
  is a NaN (payloads are not observed by the sources), an infinity, or a sign, a significand and
  the exponent of its last bit. Every operation computes the exact dyadic result (or, for
  division, a quotient with a sticky bit) and rounds it once. A representable finite value has
  one canonical \<open>Fin\<close>, so equality of representable values is identity of bit patterns.
\<close>

datatype ieee = NaN | Inf bool | Fin bool nat int

record fmt =
  prec :: nat
  emin :: int
  emax :: int

definition F32 :: fmt where
  "F32 = \<lparr>prec = 24, emin = -149, emax = 104\<rparr>"

definition F64 :: fmt where
  "F64 = \<lparr>prec = 53, emin = -1074, emax = 971\<rparr>"

type_synonym f32 = ieee
type_synonym f64 = ieee

named_theorems float_simps "evaluation of float operations on classes of values"

section \<open>Rounding\<close>

fun bits :: "nat \<Rightarrow> nat" where
  "bits n = (if n = 0 then 0 else Suc (bits (n div 2)))"

declare bits.simps [simp del]

definition shift_rne :: "nat \<Rightarrow> nat \<Rightarrow> nat" where
  "shift_rne m k =
     (let t = m div 2 ^ k; r = m mod 2 ^ k; h = 2 ^ (k - 1)
      in if h < r \<or> (r = h \<and> odd t) then Suc t else t)"

definition round_fin :: "fmt \<Rightarrow> bool \<Rightarrow> nat \<Rightarrow> int \<Rightarrow> ieee" where
  "round_fin F s m e =
     (if m = 0 then Fin s 0 (emin F)
      else let q = max (emin F) (e + int (bits m) - int (prec F));
               t = (if q \<le> e then m * 2 ^ nat (e - q) else shift_rne m (nat (q - e)))
           in if t = 2 ^ prec F
              then (if emax F < q + 1 then Inf s else Fin s (2 ^ (prec F - 1)) (q + 1))
              else (if emax F < q then Inf s else Fin s t q))"

definition round_frac :: "fmt \<Rightarrow> bool \<Rightarrow> nat \<Rightarrow> nat \<Rightarrow> int \<Rightarrow> ieee" where
  \<comment> \<open>the value \<open>(a / b) * 2 ^ e\<close> for \<open>b > 0\<close>, with a sticky last bit\<close>
  "round_frac F s a b e =
     (let k = prec F + 2 + bits b; n = a * 2 ^ k
      in round_fin F s (2 * (n div b) + (if n mod b = 0 then 0 else 1)) (e - int k - 1))"

section \<open>Operations\<close>

fun is_finite :: "ieee \<Rightarrow> bool" where
  "is_finite (Fin s m e) = True"
| "is_finite _ = False"

fun fneg :: "ieee \<Rightarrow> ieee" where
  "fneg NaN = NaN"
| "fneg (Inf s) = Inf (\<not> s)"
| "fneg (Fin s m e) = Fin (\<not> s) m e"

definition sval :: "bool \<Rightarrow> nat \<Rightarrow> int" where
  "sval s m = (if s then - int m else int m)"

definition scaled :: "int \<Rightarrow> bool \<Rightarrow> nat \<Rightarrow> int \<Rightarrow> int" where
  \<comment> \<open>the value of \<open>Fin s m e\<close> in units of \<open>2 ^ e0\<close>, for \<open>e0 \<le> e\<close>\<close>
  "scaled e0 s m e = sval s m * 2 ^ nat (e - e0)"

fun fadd :: "fmt \<Rightarrow> ieee \<Rightarrow> ieee \<Rightarrow> ieee" where
  "fadd F NaN b = NaN"
| "fadd F a NaN = NaN"
| "fadd F (Inf s) (Inf t) = (if s = t then Inf s else NaN)"
| "fadd F (Inf s) b = Inf s"
| "fadd F a (Inf t) = Inf t"
| "fadd F (Fin s m e) (Fin t n f) =
     (let e0 = min e f; v = scaled e0 s m e + scaled e0 t n f
      in if v = 0 then Fin (s \<and> t) 0 (emin F)
         else round_fin F (v < 0) (nat \<bar>v\<bar>) e0)"

definition fsub :: "fmt \<Rightarrow> ieee \<Rightarrow> ieee \<Rightarrow> ieee" where
  "fsub F a b = fadd F a (fneg b)"

fun fmul :: "fmt \<Rightarrow> ieee \<Rightarrow> ieee \<Rightarrow> ieee" where
  "fmul F NaN b = NaN"
| "fmul F a NaN = NaN"
| "fmul F (Inf s) (Inf t) = Inf (s \<noteq> t)"
| "fmul F (Inf s) (Fin t n f) = (if n = 0 then NaN else Inf (s \<noteq> t))"
| "fmul F (Fin s m e) (Inf t) = (if m = 0 then NaN else Inf (s \<noteq> t))"
| "fmul F (Fin s m e) (Fin t n f) = round_fin F (s \<noteq> t) (m * n) (e + f)"

fun fdiv :: "fmt \<Rightarrow> ieee \<Rightarrow> ieee \<Rightarrow> ieee" where
  "fdiv F NaN b = NaN"
| "fdiv F a NaN = NaN"
| "fdiv F (Inf s) (Inf t) = NaN"
| "fdiv F (Inf s) (Fin t n f) = Inf (s \<noteq> t)"
| "fdiv F (Fin s m e) (Inf t) = Fin (s \<noteq> t) 0 (emin F)"
| "fdiv F (Fin s m e) (Fin t n f) =
     (if n = 0 then (if m = 0 then NaN else Inf (s \<noteq> t))
      else round_frac F (s \<noteq> t) m n (e - f))"

fun fle :: "ieee \<Rightarrow> ieee \<Rightarrow> bool" where
  "fle NaN b = False"
| "fle a NaN = False"
| "fle (Inf s) (Inf t) = (s \<or> \<not> t)"
| "fle (Inf s) (Fin t n f) = s"
| "fle (Fin s m e) (Inf t) = (\<not> t)"
| "fle (Fin s m e) (Fin t n f) =
     (let e0 = min e f in scaled e0 s m e \<le> scaled e0 t n f)"

fun flt :: "ieee \<Rightarrow> ieee \<Rightarrow> bool" where
  "flt NaN b = False"
| "flt a NaN = False"
| "flt (Inf s) (Inf t) = (s \<and> \<not> t)"
| "flt (Inf s) (Fin t n f) = s"
| "flt (Fin s m e) (Inf t) = (\<not> t)"
| "flt (Fin s m e) (Fin t n f) =
     (let e0 = min e f in scaled e0 s m e < scaled e0 t n f)"

definition feq :: "ieee \<Rightarrow> ieee \<Rightarrow> bool" where
  "feq a b = (fle a b \<and> fle b a)"

definition of_natural :: "fmt \<Rightarrow> nat \<Rightarrow> ieee" where
  "of_natural F n = round_fin F False n 0"

definition of_integer :: "fmt \<Rightarrow> int \<Rightarrow> ieee" where
  "of_integer F i = round_fin F (i < 0) (nat \<bar>i\<bar>) 0"

definition decimal :: "fmt \<Rightarrow> bool \<Rightarrow> nat \<Rightarrow> nat \<Rightarrow> ieee" where
  \<comment> \<open>a decimal literal, as the correctly rounded fraction\<close>
  "decimal F s a b = round_frac F s a b 0"

fun convert :: "fmt \<Rightarrow> ieee \<Rightarrow> ieee" where
  "convert F NaN = NaN"
| "convert F (Inf s) = Inf s"
| "convert F (Fin s m e) = round_fin F s m e"

text \<open>\<open>f64::clamp\<close>: it asserts \<open>min <= max\<close>, and a NaN receiver is returned unchanged.\<close>

definition fclamp :: "ieee \<Rightarrow> ieee \<Rightarrow> ieee \<Rightarrow> (ieee, 'e) res" where
  "fclamp x lo hi =
     (if \<not> fle lo hi then Panic
      else Ok (let x1 = (if flt x lo then lo else x) in if flt hi x1 then hi else x1))"

definition fzero :: "fmt \<Rightarrow> ieee" where
  "fzero F = Fin False 0 (emin F)"

definition fone :: "fmt \<Rightarrow> ieee" where
  "fone F = Fin False (2 ^ (prec F - 1)) (1 - int (prec F))"

section \<open>Representable values\<close>

fun rep :: "fmt \<Rightarrow> ieee \<Rightarrow> bool" where
  "rep F (Fin s m e) =
     (m < 2 ^ prec F \<and> emin F \<le> e \<and> e \<le> emax F \<and> (2 ^ (prec F - 1) \<le> m \<or> e = emin F))"
| "rep F _ = True"

definition wf_fmt :: "fmt \<Rightarrow> bool" where
  "wf_fmt F \<longleftrightarrow> 1 < prec F \<and> emin F \<le> - int (prec F) \<and> 1 < emax F"

definition fin_rep :: "fmt \<Rightarrow> ieee \<Rightarrow> bool" where
  "fin_rep F x \<longleftrightarrow> is_finite x \<and> rep F x"

lemma wf_F32 [simp]: "wf_fmt F32" and wf_F64 [simp]: "wf_fmt F64"
  by (simp_all add: wf_fmt_def F32_def F64_def)

lemma bits_bounds: "n < 2 ^ bits n \<and> (0 < n \<longrightarrow> 2 ^ (bits n - 1) \<le> n)"
proof (induction n rule: bits.induct)
  case (1 n)
  show ?case
  proof (cases "n = 0")
    case True
    then show ?thesis by (simp add: bits.simps)
  next
    case False
    then have b: "bits n = Suc (bits (n div 2))" by (subst bits.simps) simp
    have IH: "n div 2 < 2 ^ bits (n div 2)" "0 < n div 2 \<Longrightarrow> 2 ^ (bits (n div 2) - 1) \<le> n div 2"
      using 1 False by auto
    have "n < 2 * 2 ^ bits (n div 2)" using IH(1) by linarith
    moreover have "2 ^ bits (n div 2) \<le> n"
    proof (cases "n div 2 = 0")
      case True
      then show ?thesis using False by (simp add: bits.simps [of 0])
    next
      case nz: False
      then obtain b' where b': "bits (n div 2) = Suc b'"
        by (metis bits.simps)
      then show ?thesis using IH(2) nz by simp
    qed
    ultimately show ?thesis using b by simp
  qed
qed

lemma bits_numeral [simp]:
  "bits 0 = 0" "bits (Suc 0) = 1" "bits 1 = 1"
  "bits (numeral (Num.Bit0 k)) = bits (numeral k) + 1"
  "bits (numeral (Num.Bit1 k)) = bits (numeral k) + 1"
  "bits (numeral Num.One) = 1"
  by (simp_all add: bits.simps [of 0] bits.simps [of "Suc 0"]
      bits.simps [of "numeral (Num.Bit0 k)"] bits.simps [of "numeral (Num.Bit1 k)"])

lemma pow2_less: "(2::nat) ^ a < 2 ^ b \<Longrightarrow> a < b"
  by simp

lemma bits_eqI: "2 ^ k \<le> n \<Longrightarrow> n < 2 ^ Suc k \<Longrightarrow> bits n = Suc k"
proof -
  assume a: "2 ^ k \<le> n" "n < (2::nat) ^ Suc k"
  then have "0 < n" by (metis gr_zeroI not_one_le_zero one_le_power one_le_numeral order_trans)
  with bits_bounds [of n] have l: "2 ^ (bits n - 1) \<le> n" and u: "n < 2 ^ bits n" by auto
  have "k < bits n" using le_less_trans [OF a(1) u] by (rule pow2_less)
  moreover have "bits n - 1 < Suc k" using le_less_trans [OF l a(2)] by (rule pow2_less)
  ultimately show ?thesis by linarith
qed

lemma bits_pos: "0 < n \<Longrightarrow> 0 < bits n"
  by (subst bits.simps) simp

lemma bits_le_iff: "bits n \<le> k \<longleftrightarrow> n < 2 ^ k"
proof
  assume "bits n \<le> k"
  then have "(2::nat) ^ bits n \<le> 2 ^ k" by (simp add: power_increasing)
  then show "n < 2 ^ k" using bits_bounds [of n] by linarith
next
  assume a: "n < 2 ^ k"
  show "bits n \<le> k"
  proof (cases "n = 0")
    case True then show ?thesis by (simp add: bits.simps)
  next
    case False
    then have "2 ^ (bits n - 1) < (2::nat) ^ k"
      using bits_bounds [of n] a by (meson le_less_trans neq0_conv)
    then have "bits n - 1 < k" by (rule pow2_less)
    then show ?thesis by linarith
  qed
qed

lemma bits_shift: "0 < n \<Longrightarrow> bits (n * 2 ^ k) = bits n + k"
proof -
  assume n: "0 < n"
  obtain b where b: "bits n = Suc b" using bits_pos [OF n] by (metis gr0_implies_Suc)
  have "2 ^ (b + k) \<le> n * 2 ^ k" "n * 2 ^ k < 2 ^ Suc (b + k)"
    using bits_bounds [of n] n b by (simp_all add: power_add)
  then show ?thesis using bits_eqI b by simp
qed


section \<open>Rounding is exact on representable values\<close>

lemma shift_rne_exact [simp]: "shift_rne (m * 2 ^ k) k = m"
  by (simp add: shift_rne_def Let_def)

lemma bits_canonical:
  assumes "rep F (Fin s m e)" "0 < m"
  shows "max (emin F) (e + int (bits m) - int (prec F)) = e"
proof -
  have le: "bits m \<le> prec F" using assms by (simp add: bits_le_iff)
  have "bits m = prec F" if "2 ^ (prec F - 1) \<le> m"
  proof -
    have "(2::nat) ^ (prec F - 1) < 2 ^ bits m"
      using that bits_bounds [of m] by linarith
    then have "prec F - 1 < bits m" by (rule pow2_less)
    then show ?thesis using le by linarith
  qed
  then show ?thesis using assms le by auto
qed

lemma round_fin_scaled_up:
  assumes "rep F (Fin s m e)" "0 < m"
  shows "round_fin F s (m * 2 ^ k) (e - int k) = Fin s m e"
proof -
  have q: "max (emin F) (e - int k + int (bits (m * 2 ^ k)) - int (prec F)) = e"
    using bits_canonical [OF assms] bits_shift [OF assms(2), of k] by (simp add: algebra_simps)
  have t: "(if e \<le> e - int k then m * 2 ^ k * 2 ^ nat (e - int k - e)
      else shift_rne (m * 2 ^ k) (nat (e - (e - int k)))) = m"
    by auto
  show ?thesis
    using assms unfolding round_fin_def Let_def q t by auto
qed

lemma round_fin_scaled_down:
  assumes "rep F (Fin s (m * 2 ^ k) e)" "0 < m"
  shows "round_fin F s m (e + int k) = Fin s (m * 2 ^ k) e"
proof -
  have p: "0 < m * 2 ^ k" using assms(2) by simp
  have q: "max (emin F) (e + int k + int (bits m) - int (prec F)) = e"
    using bits_canonical [OF assms(1) p] bits_shift [OF assms(2), of k] by (simp add: algebra_simps)
  show ?thesis
    using assms unfolding round_fin_def Let_def q by auto
qed

lemma round_fin_exact: "rep F (Fin s m e) \<Longrightarrow> 0 < m \<Longrightarrow> round_fin F s m e = Fin s m e"
  using round_fin_scaled_up [of F s m e 0] by simp

lemma convert_rep: "rep F x \<Longrightarrow> (case x of Fin s m e \<Rightarrow> 0 < m | _ \<Rightarrow> True) \<Longrightarrow> convert F x = x"
  by (cases x) (auto simp: round_fin_exact)

section \<open>Results are representable, and finite when small enough\<close>

lemma shift_rne_bounds:
  assumes "bits m \<le> p + k"
  shows "shift_rne m k \<le> 2 ^ p"
proof -
  have "m < 2 ^ (p + k)" using assms by (simp add: bits_le_iff)
  then have "m div 2 ^ k < 2 ^ p"
    by (simp add: power_add less_mult_imp_div_less)
  then show ?thesis by (simp add: shift_rne_def Let_def)
qed

lemma shift_rne_lower:
  assumes "2 ^ (p + k) \<le> m"
  shows "2 ^ p \<le> shift_rne m k"
proof -
  have "(2::nat) ^ p = 2 ^ (p + k) div 2 ^ k" by (simp add: power_add)
  also have "\<dots> \<le> m div 2 ^ k" using assms by (rule div_le_mono)
  finally show ?thesis by (simp add: shift_rne_def Let_def)
qed

text \<open>The significand that rounding produces, before the overflow test.\<close>

definition round_sig :: "fmt \<Rightarrow> nat \<Rightarrow> int \<Rightarrow> int \<Rightarrow> nat" where
  "round_sig F m e q = (if q \<le> e then m * 2 ^ nat (e - q) else shift_rne m (nat (q - e)))"

lemma round_sig_bounds:
  assumes "0 < m" "q = max (emin F) (e + int (bits m) - int (prec F))" "0 < prec F"
  shows "round_sig F m e q \<le> 2 ^ prec F"
    and "q = emin F \<or> 2 ^ (prec F - 1) \<le> round_sig F m e q"
proof -
  obtain b where b: "bits m = Suc b" using bits_pos [OF assms(1)] by (metis gr0_implies_Suc)
  have mb: "2 ^ b \<le> m" "m < 2 ^ Suc b" using bits_bounds [of m] assms(1) b by auto
  show "round_sig F m e q \<le> 2 ^ prec F"
  proof (cases "q \<le> e")
    case True
    then have le: "bits m + nat (e - q) \<le> prec F" using assms(2) by linarith
    have "m * 2 ^ nat (e - q) < 2 ^ prec F"
      using le bits_shift [OF assms(1), of "nat (e - q)"] by (metis bits_le_iff)
    then show ?thesis using True by (simp add: round_sig_def)
  next
    case False
    then have "bits m \<le> prec F + nat (q - e)" using assms(2) by linarith
    then show ?thesis using False by (simp add: round_sig_def shift_rne_bounds)
  qed
  show "q = emin F \<or> 2 ^ (prec F - 1) \<le> round_sig F m e q"
  proof (cases "q = emin F")
    case False
    then have q: "q = e + int (bits m) - int (prec F)" using assms(2) by linarith
    show ?thesis
    proof (cases "q \<le> e")
      case True
      then have "prec F - 1 = b + nat (e - q)" using q b assms(3) by linarith
      then have "2 ^ (prec F - 1) \<le> m * 2 ^ nat (e - q)" using mb(1) by (simp add: power_add)
      then show ?thesis using True by (simp add: round_sig_def)
    next
      case nle: False
      then have "b = prec F - 1 + nat (q - e)" using q b assms(3) by linarith
      then show ?thesis using nle mb(1) by (simp add: round_sig_def shift_rne_lower)
    qed
  qed simp
qed

lemma round_fin_rep:
  assumes "wf_fmt F"
  shows "rep F (round_fin F s m e)"
proof (cases "m = 0")
  case True
  then show ?thesis using assms by (auto simp: round_fin_def wf_fmt_def)
next
  case False
  define q where "q = max (emin F) (e + int (bits m) - int (prec F))"
  have p: "0 < prec F" "prec F - 1 < prec F" using assms by (auto simp: wf_fmt_def)
  note b = round_sig_bounds [OF _ q_def p(1)]
  have eq: "round_fin F s m e =
     (if round_sig F m e q = 2 ^ prec F
              then (if emax F < q + 1 then Inf s else Fin s (2 ^ (prec F - 1)) (q + 1))
              else (if emax F < q then Inf s else Fin s (round_sig F m e q) q))"
    using False by (simp add: round_fin_def Let_def q_def round_sig_def)
  have "emin F \<le> q" by (simp add: q_def)
  then show ?thesis
    using b False p(2) unfolding eq by auto
qed

lemma round_fin_finite:
  assumes "wf_fmt F" "m < 2 ^ j" "int j + e < emax F + int (prec F)"
  shows "is_finite (round_fin F s m e)"
proof (cases "m = 0")
  case False
  have "bits m \<le> j" using assms(2) by (simp add: bits_le_iff)
  then have "max (emin F) (e + int (bits m) - int (prec F)) + 1 \<le> emax F"
    using assms(1,3) by (auto simp: wf_fmt_def)
  then show ?thesis using False by (auto simp: round_fin_def Let_def)
qed (simp add: round_fin_def)

section \<open>Operations on zeros, ones and finite values\<close>

fun is_zero :: "ieee \<Rightarrow> bool" where
  "is_zero (Fin s m e) = (m = 0)"
| "is_zero _ = False"

lemma is_finite_iff: "is_finite x \<longleftrightarrow> (\<exists>s m e. x = Fin s m e)"
  by (cases x) auto

lemma fin_repE:
  assumes "fin_rep F x"
  obtains s m e where "x = Fin s m e" "rep F (Fin s m e)"
  using assms by (cases x) (auto simp: fin_rep_def)

lemma scaled_zero [simp]: "scaled e0 s 0 e = 0"
  by (simp add: scaled_def sval_def)

lemma scaled_eq_0 [simp]: "scaled e0 s m e = 0 \<longleftrightarrow> m = 0"
  by (simp add: scaled_def sval_def)

lemma scaled_sign: "0 < m \<Longrightarrow> (scaled e0 s m e < 0) = s"
  by (auto simp: scaled_def sval_def mult_less_0_iff zero_less_mult_iff)

lemma nat_abs_scaled: "nat \<bar>scaled e0 s m e\<bar> = m * 2 ^ nat (e - e0)"
  by (simp add: scaled_def sval_def abs_mult nat_mult_distrib nat_power_eq)

lemma round_fin_min:
  assumes "rep F (Fin s m e)" "0 < m"
  shows "round_fin F s (m * 2 ^ nat (e - min f e)) (min f e) = Fin s m e"
proof -
  have "min f e = e - int (nat (e - min f e))" by simp
  then show ?thesis using round_fin_scaled_up [OF assms] by metis
qed

lemma fadd_zero_left [float_simps]:
  assumes "rep F (Fin s m e)" "0 < m"
  shows "fadd F (Fin z 0 f) (Fin s m e) = Fin s m e"
  using assms by (simp add: Let_def scaled_sign nat_abs_scaled round_fin_min)

lemma fadd_zero_right [float_simps]:
  assumes "rep F (Fin s m e)" "0 < m"
  shows "fadd F (Fin s m e) (Fin z 0 f) = Fin s m e"
  using assms by (simp add: Let_def scaled_sign nat_abs_scaled round_fin_min min.commute [of e f])

lemma fadd_zero_zero [float_simps]: "fadd F (Fin s 0 e) (Fin t 0 f) = Fin (s \<and> t) 0 (emin F)"
  by simp

lemma fmul_zero [float_simps]:
  "fmul F (Fin z 0 f) (Fin s m e) = Fin (z \<noteq> s) 0 (emin F)"
  "fmul F (Fin s m e) (Fin z 0 f) = Fin (s \<noteq> z) 0 (emin F)"
  by (simp_all add: round_fin_def)

lemma fmul_one_left [float_simps]:
  assumes "wf_fmt F" "fin_rep F x"
  shows "fmul F (fone F) x = x"
proof -
  obtain s m e where x: "x = Fin s m e" "rep F (Fin s m e)" using assms(2) by (rule fin_repE)
  have p: "1 - int (prec F) + e = e - int (prec F - 1)" using assms(1) by (auto simp: wf_fmt_def)
  show ?thesis
  proof (cases "m = 0")
    case True
    then show ?thesis using x assms(1) by (auto simp: fone_def round_fin_def wf_fmt_def)
  next
    case False
    then show ?thesis
      using x round_fin_scaled_up [of F s m e "prec F - 1"] by (simp add: fone_def p mult.commute)
  qed
qed

lemma fmul_commute: "fmul F x y = fmul F y x"
proof -
  have "(s \<noteq> t) = (t \<noteq> s)" for s t :: bool by auto
  then show ?thesis
    by (cases x; cases y) (simp_all only: fmul.simps mult.commute add.commute if_cancel)
qed

lemma fmul_one_right [float_simps]: "wf_fmt F \<Longrightarrow> fin_rep F x \<Longrightarrow> fmul F x (fone F) = x"
  by (simp add: fmul_commute [of F x] fmul_one_left)

lemma fin_rep_fone [simp]: "wf_fmt F \<Longrightarrow> fin_rep F (fone F)"
  by (auto simp: fin_rep_def fone_def wf_fmt_def)

lemma fin_rep_fzero [simp]: "wf_fmt F \<Longrightarrow> fin_rep F (fzero F)"
  by (auto simp: fin_rep_def fzero_def wf_fmt_def)

lemma rep_fzero_fin: "wf_fmt F \<Longrightarrow> rep F (Fin z 0 (emin F))"
  by (auto simp: wf_fmt_def)

lemma fadd_rep: "wf_fmt F \<Longrightarrow> rep F a \<Longrightarrow> rep F b \<Longrightarrow> rep F (fadd F a b)"
  by (cases a; cases b) (auto simp: Let_def round_fin_rep wf_fmt_def simp del: rep.simps(1) intro: rep_fzero_fin)

lemma fneg_rep [simp]: "rep F (fneg a) = rep F a"
  by (cases a) auto

lemma fneg_finite [simp]: "is_finite (fneg a) = is_finite a"
  by (cases a) auto

lemma fsub_rep: "wf_fmt F \<Longrightarrow> rep F a \<Longrightarrow> rep F b \<Longrightarrow> rep F (fsub F a b)"
  by (simp add: fsub_def fadd_rep)

lemma fmul_rep: "wf_fmt F \<Longrightarrow> rep F (fmul F a b)"
  by (cases a; cases b) (auto simp: round_fin_rep simp del: rep.simps(1))

lemma fdiv_rep: "wf_fmt F \<Longrightarrow> rep F (fdiv F a b)"
  by (cases a; cases b)
    (auto simp: round_fin_rep round_frac_def Let_def simp del: rep.simps(1) intro: rep_fzero_fin)

lemma of_natural_rep: "wf_fmt F \<Longrightarrow> rep F (of_natural F n)"
  by (simp add: of_natural_def round_fin_rep)

lemma of_integer_rep: "wf_fmt F \<Longrightarrow> rep F (of_integer F i)"
  by (simp add: of_integer_def round_fin_rep)

lemma decimal_rep: "wf_fmt F \<Longrightarrow> rep F (decimal F s a b)"
  by (simp add: decimal_def round_frac_def Let_def round_fin_rep)

lemma convert_is_rep: "wf_fmt F \<Longrightarrow> rep F (convert F x)"
  by (cases x) (simp_all add: round_fin_rep)

section \<open>Comparison\<close>

lemma fle_not_flt: "a \<noteq> NaN \<Longrightarrow> b \<noteq> NaN \<Longrightarrow> \<not> flt a b \<longleftrightarrow> fle b a"
  by (cases a; cases b) (auto simp: Let_def min.commute)

lemma fle_NaN [simp]: "\<not> fle NaN b" "\<not> fle a NaN"
  by (cases a; auto)+

lemma fle_refl [simp]: "a \<noteq> NaN \<Longrightarrow> fle a a"
  by (cases a) auto

lemma feq_refl [simp]: "a \<noteq> NaN \<Longrightarrow> feq a a"
  by (simp add: feq_def)

lemma feq_zero: "is_zero a \<Longrightarrow> is_zero b \<Longrightarrow> feq a b"
  by (cases a; cases b) (auto simp: feq_def Let_def)

lemma finite_not_NaN [simp]: "is_finite a \<Longrightarrow> a \<noteq> NaN"
  by auto

lemma fclamp_ok: "fle lo hi \<Longrightarrow> \<exists>y. fclamp x lo hi = Ok y"
  by (simp add: fclamp_def)

lemma fclamp_bounds:
  assumes "fclamp x lo hi = Ok y" "x \<noteq> NaN"
  shows "fle lo y" "fle y hi"
proof -
  have lh: "fle lo hi" using assms(1) by (auto simp: fclamp_def split: if_splits)
  then have nn: "lo \<noteq> NaN" "hi \<noteq> NaN" by auto
  have y: "y = (let x1 = (if flt x lo then lo else x) in if flt hi x1 then hi else x1)"
    using assms(1) lh by (simp add: fclamp_def)
  show "fle lo y" "fle y hi"
    using lh nn assms(2) fle_not_flt [of x lo] fle_not_flt [of hi x] fle_not_flt [of hi lo]
    by (auto simp: y Let_def split: if_splits)
qed

lemma fclamp_mem:
  "fclamp x lo hi = Ok y \<Longrightarrow> y = x \<or> y = lo \<or> y = hi"
  by (auto simp: fclamp_def Let_def split: if_splits)

section \<open>Sums of products: the dot product of the mixers\<close>

text \<open>
  \<open>Iterator::sum::<f32>()\<close> folds addition from \<open>-0.0\<close>. A sum in which every addend but one is a
  zero is the remaining addend, up to the sign of a zero.
\<close>

definition fsum :: "fmt \<Rightarrow> ieee list \<Rightarrow> ieee" where
  "fsum F xs = foldl (fadd F) (Fin True 0 (emin F)) xs"

definition same_value :: "ieee \<Rightarrow> ieee \<Rightarrow> bool" where
  "same_value x y \<longleftrightarrow> x = y \<or> (is_zero x \<and> is_zero y)"

lemma same_value_feq: "same_value x y \<Longrightarrow> x \<noteq> NaN \<Longrightarrow> feq x y"
  by (auto simp: same_value_def feq_zero)

lemma same_value_refl [simp]: "same_value x x"
  by (simp add: same_value_def)

lemma fadd_is_zero: "is_zero a \<Longrightarrow> is_zero b \<Longrightarrow> is_zero (fadd F a b)"
  by (cases a; cases b) auto

lemma fadd_zero_same:
  assumes "fin_rep F x" "is_zero z"
  shows "same_value (fadd F z x) x" "same_value (fadd F x z) x"
proof -
  obtain s m e where x: "x = Fin s m e" "rep F (Fin s m e)" using assms(1) by (rule fin_repE)
  obtain t f where z: "z = Fin t 0 f" using assms(2) by (cases z) auto
  have "same_value (fadd F z x) x \<and> same_value (fadd F x z) x"
  proof (cases "m = 0")
    case False
    then show ?thesis
      using x z by (simp add: fadd_zero_left fadd_zero_right del: fadd.simps)
  qed (use x z in \<open>auto simp: same_value_def\<close>)
  then show "same_value (fadd F z x) x" "same_value (fadd F x z) x" by auto
qed

lemma fin_rep_zeroI: "wf_fmt F \<Longrightarrow> is_zero z \<Longrightarrow> rep F z \<Longrightarrow> fin_rep F z"
  by (cases z) (auto simp: fin_rep_def)

lemma same_value_fin_rep:
  "same_value y x \<Longrightarrow> fin_rep F x \<Longrightarrow> rep F y \<Longrightarrow> fin_rep F y"
  by (cases y) (auto simp: same_value_def fin_rep_def)

lemma same_value_trans: "same_value x y \<Longrightarrow> same_value y z \<Longrightarrow> same_value x z"
  by (auto simp: same_value_def)

lemma foldl_fadd_zeros:
  assumes "wf_fmt F" "fin_rep F a" "list_all is_zero xs" "list_all (rep F) xs"
  shows "same_value (foldl (fadd F) a xs) a \<and> fin_rep F (foldl (fadd F) a xs)"
  using assms(2-)
proof (induction xs arbitrary: a)
  case (Cons x xs)
  have s: "same_value (fadd F a x) a" using Cons.prems by (simp add: fadd_zero_same)
  moreover have "rep F (fadd F a x)"
    using Cons.prems assms(1) by (simp add: fadd_rep fin_rep_def)
  ultimately have "fin_rep F (fadd F a x)"
    using Cons.prems same_value_fin_rep by blast
  then show ?case
    using Cons.IH [of "fadd F a x"] Cons.prems s same_value_trans by auto
qed simp

lemma fsum_single:
  assumes "wf_fmt F" "list_all is_zero xs" "list_all (rep F) xs"
    and "list_all is_zero ys" "list_all (rep F) ys" "fin_rep F x"
  shows "same_value (fsum F (xs @ x # ys)) x \<and> fin_rep F (fsum F (xs @ x # ys))"
proof -
  define a where "a = foldl (fadd F) (Fin True 0 (emin F)) xs"
  have z: "fin_rep F (Fin True 0 (emin F))"
    using assms(1) by (auto simp: fin_rep_def intro: rep_fzero_fin simp del: rep.simps)
  have a: "same_value a (Fin True 0 (emin F))" "fin_rep F a"
    using foldl_fadd_zeros [OF assms(1) z assms(2,3)] by (auto simp: a_def)
  then have "is_zero a" by (auto simp: same_value_def)
  then have s: "same_value (fadd F a x) x" using assms(6) by (simp add: fadd_zero_same)
  have "fin_rep F (fadd F a x)"
    using same_value_fin_rep [OF s assms(6)] fadd_rep assms a(2) by (simp add: fin_rep_def)
  then have "same_value (foldl (fadd F) (fadd F a x) ys) (fadd F a x)
      \<and> fin_rep F (foldl (fadd F) (fadd F a x) ys)"
    using foldl_fadd_zeros [OF assms(1) _ assms(4,5)] by blast
  then show ?thesis using s same_value_trans by (auto simp: fsum_def a_def)
qed

section \<open>Evaluation\<close>

lemmas float_eval =
  round_fin_def round_frac_def shift_rne_def scaled_def sval_def fsub_def of_natural_def
  of_integer_def decimal_def fzero_def fone_def F32_def F64_def fsum_def

end
