(* ===== verification/ChannelMatrix.thy ===== *)
theory ChannelMatrix
  imports IeeeFloat
begin

text \<open>
  \<open>crates/vcable-core/src/matrix.rs\<close>: the row-major output-by-input channel matrix, its
  validation, and the mixer that adds a routed signal to an interleaved output buffer. Slices are
  taken with their bounds checks, so a wrong index would be a \<open>Panic\<close>.
\<close>

section \<open>Data\<close>

record ChannelMatrix =
  output_channels :: usize
  input_channels :: usize
  coefficients :: "f32 list"

datatype MatrixError =
    ZeroChannels
  | WrongCoefficientCount nat nat        \<comment> \<open>expected, actual\<close>
  | NonFiniteCoefficient nat             \<comment> \<open>index\<close>
  | BufferLengthMismatch
  | FrameCountOverflow

fun position :: "('a \<Rightarrow> bool) \<Rightarrow> 'a list \<Rightarrow> nat option" where
  "position p [] = None"
| "position p (x # xs) = (if p x then Some 0 else map_option Suc (position p xs))"

definition matrix_new :: "usize \<Rightarrow> usize \<Rightarrow> f32 list \<Rightarrow> (ChannelMatrix, MatrixError) res" where
  "matrix_new oc ic cs =
     (if oc = 0 \<or> ic = 0 then Err ZeroChannels
      else and_then (ok_or FrameCountOverflow (checked_mul oc ic)) (\<lambda>expected.
        if length cs \<noteq> expected then Err (WrongCoefficientCount expected (length cs))
        else case position (\<lambda>v. \<not> is_finite v) cs of
          Some index \<Rightarrow> Err (NonFiniteCoefficient index)
        | None \<Rightarrow> Ok \<lparr>output_channels = oc, input_channels = ic, coefficients = cs\<rparr>))"

text \<open>
  \<open>channels * channels\<close> is an overflow-checked multiplication and \<open>vec!\<close> panics when the
  allocation exceeds \<open>isize::MAX\<close> bytes.
\<close>

definition matrix_identity :: "usize \<Rightarrow> (ChannelMatrix, MatrixError) res" where
  "matrix_identity channels =
     (if channels = 0 then Err ZeroChannels
      else if usize_bound \<le> channels * channels \<or> isize_max < 4 * (channels * channels) then Panic
      else matrix_new channels channels
        (fold (\<lambda>ch cs. cs[ch * channels + ch := fone F32]) [0..<channels]
          (replicate (channels * channels) (fzero F32))))"

section \<open>Mixing\<close>

definition dot :: "f32 list \<Rightarrow> f32 list \<Rightarrow> f32" where
  "dot row frame = fsum F32 (map (\<lambda>(c, s). fmul F32 c s) (zip row frame))"

definition mix_frame ::
  "ChannelMatrix \<Rightarrow> f32 \<Rightarrow> f32 list \<Rightarrow> f32 list \<Rightarrow> (f32 list, MatrixError) res" where
  "mix_frame m gain input_frame output_frame =
     traverse (\<lambda>(ch, sample).
         and_then (slice (ch * input_channels m) (input_channels m) (coefficients m)) (\<lambda>row.
           Ok (fadd F32 sample (fmul F32 (dot row input_frame) gain))))
       (enumerate 0 output_frame)"

fun mix_frames ::
  "ChannelMatrix \<Rightarrow> f32 \<Rightarrow> f32 list \<Rightarrow> nat list \<Rightarrow> f32 list \<Rightarrow> (f32 list, MatrixError) res" where
  "mix_frames m gain input [] output = Ok output"
| "mix_frames m gain input (frame # frames) output =
     (let ic = input_channels m; oc = output_channels m
      in and_then (slice (frame * ic) ic input) (\<lambda>input_frame.
         and_then (slice (frame * oc) oc output) (\<lambda>output_frame.
         and_then (mix_frame m gain input_frame output_frame) (\<lambda>mixed.
           mix_frames m gain input frames
             (take (frame * oc) output @ mixed @ drop (frame * oc + oc) output)))))"

definition mix_interleaved ::
  "ChannelMatrix \<Rightarrow> usize \<Rightarrow> f32 list \<Rightarrow> f32 list \<Rightarrow> f32 \<Rightarrow> (f32 list, MatrixError) res" where
  "mix_interleaved m frames input output gain =
     and_then (ok_or FrameCountOverflow (checked_mul frames (input_channels m))) (\<lambda>expected_input.
     and_then (ok_or FrameCountOverflow (checked_mul frames (output_channels m))) (\<lambda>expected_output.
       if length input \<noteq> expected_input \<or> length output \<noteq> expected_output \<or> \<not> is_finite gain
       then Err BufferLengthMismatch
       else mix_frames m gain input [0..<frames] output))"

section \<open>Well-formed matrices\<close>

definition matrix_wf :: "ChannelMatrix \<Rightarrow> bool" where
  "matrix_wf m \<longleftrightarrow> 0 < output_channels m \<and> 0 < input_channels m
     \<and> length (coefficients m) = output_channels m * input_channels m
     \<and> length (coefficients m) < usize_bound
     \<and> list_all is_finite (coefficients m)"

lemma position_None: "position p xs = None \<longleftrightarrow> list_all (\<lambda>x. \<not> p x) xs"
  by (induction xs) auto

lemma position_Some:
  "position p xs = Some i \<longleftrightarrow> i < length xs \<and> p (xs ! i) \<and> (\<forall>j < i. \<not> p (xs ! j))"
proof (induction xs arbitrary: i)
  case (Cons x xs)
  show ?case by (cases i) (auto simp: Cons.IH All_less_Suc2)
qed simp

lemma matrix_new_Ok:
  "matrix_new oc ic cs = Ok m \<longleftrightarrow>
     m = \<lparr>output_channels = oc, input_channels = ic, coefficients = cs\<rparr> \<and> matrix_wf m"
  using position_None [of "\<lambda>v. \<not> is_finite v" cs]
  by (cases "position (\<lambda>v. \<not> is_finite v) cs") (auto simp: matrix_new_def matrix_wf_def res_simps)

lemma matrix_new_total: "matrix_new oc ic cs \<noteq> Panic"
  by (auto simp: matrix_new_def res_simps split: option.splits)

lemma fold_update_length [simp]:
  "length (fold (\<lambda>ch cs. cs[f ch := v]) xs cs) = length cs"
  by (induction xs arbitrary: cs) auto

lemma fold_update_nth:
  "i < length cs \<Longrightarrow> fold (\<lambda>ch cs. cs[f ch := v]) xs cs ! i = (if i \<in> f ` set xs then v else cs ! i)"
  by (induction xs arbitrary: cs) (auto simp: nth_list_update)

definition identity_coefficients :: "usize \<Rightarrow> f32 list" where
  "identity_coefficients n =
     fold (\<lambda>ch cs. cs[ch * n + ch := fone F32]) [0..<n] (replicate (n * n) (fzero F32))"

lemma row_col_inj:
  fixes i j k n :: nat
  assumes "i * n + j = k * n + k" "j < n" "k < n"
  shows "i = k \<and> j = k"
proof -
  have "(i * n + j) div n = (k * n + k) div n" "(i * n + j) mod n = (k * n + k) mod n"
    using assms(1) by simp_all
  then show ?thesis using assms(2,3) by simp
qed

lemma identity_coefficients_nth:
  assumes "i < n" "j < n"
  shows "identity_coefficients n ! (i * n + j) = (if i = j then fone F32 else fzero F32)"
proof -
  have "i * n + j < n * n" by (rule frame_bounds [OF assms])
  moreover have "i * n + j \<in> (\<lambda>ch. ch * n + ch) ` set [0..<n] \<longleftrightarrow> i = j"
    using row_col_inj [of i n j] assms by auto
  ultimately show ?thesis
    by (simp add: identity_coefficients_def fold_update_nth)
qed

lemma length_identity_coefficients [simp]: "length (identity_coefficients n) = n * n"
  by (simp add: identity_coefficients_def)

lemma fold_update_all:
  "list_all P cs \<Longrightarrow> P v \<Longrightarrow> list_all P (fold (\<lambda>ch cs. cs[f ch := v]) xs cs)"
  by (simp add: list_all_length fold_update_nth)

lemma identity_coefficients_finite: "list_all is_finite (identity_coefficients n)"
  unfolding identity_coefficients_def
  by (rule fold_update_all) (simp_all add: fone_def fzero_def list_all_iff)

lemma matrix_identity_Ok:
  assumes "0 < n" "4 * (n * n) \<le> isize_max"
  shows "matrix_identity n =
    Ok \<lparr>output_channels = n, input_channels = n, coefficients = identity_coefficients n\<rparr>"
proof -
  have "n * n < usize_bound" using assms(2) by (simp add: isize_max_def usize_bound_def)
  then show ?thesis
    using assms identity_coefficients_finite [of n]
    unfolding matrix_identity_def identity_coefficients_def [symmetric]
    by (simp add: matrix_new_Ok matrix_wf_def)
qed

section \<open>What the mixer computes\<close>

definition row :: "ChannelMatrix \<Rightarrow> nat \<Rightarrow> f32 list" where
  "row m ch = take (input_channels m) (drop (ch * input_channels m) (coefficients m))"

definition frame_of :: "nat \<Rightarrow> nat \<Rightarrow> 'a list \<Rightarrow> 'a list" where
  "frame_of c i xs = take c (drop (i * c) xs)"

definition mixed :: "ChannelMatrix \<Rightarrow> f32 \<Rightarrow> f32 list \<Rightarrow> nat \<Rightarrow> nat \<Rightarrow> f32" where
  "mixed m gain input frame ch =
     fmul F32 (dot (row m ch) (frame_of (input_channels m) frame input)) gain"

lemma length_row: "matrix_wf m \<Longrightarrow> ch < output_channels m \<Longrightarrow> length (row m ch) = input_channels m"
  using frame_slice_bound [of ch "output_channels m" "input_channels m"]
  by (simp add: row_def matrix_wf_def)

lemma traverse_enumerate:
  assumes "\<And>i. i < length xs \<Longrightarrow> f (n + i, xs ! i) = Ok (g i (xs ! i))"
  shows "traverse f (enumerate n xs) = Ok (map (\<lambda>i. g i (xs ! i)) [0..<length xs])"
  using assms
proof (induction xs arbitrary: n g)
  case (Cons x xs)
  have "traverse f (enumerate (Suc n) xs) = Ok (map (\<lambda>i. g (Suc i) (xs ! i)) [0..<length xs])"
    using Cons.prems [of "Suc i" for i] by (intro Cons.IH) auto
  moreover have "f (n, x) = Ok (g 0 x)" using Cons.prems [of 0] by simp
  ultimately show ?case
    by (simp add: upt_conv_Cons map_Suc_upt [symmetric] del: upt_Suc)
qed simp

lemma mix_frame_Ok:
  assumes "matrix_wf m" "length output_frame = output_channels m"
  shows "mix_frame m gain input_frame output_frame =
    Ok (map (\<lambda>ch. fadd F32 (output_frame ! ch) (fmul F32 (dot (row m ch) input_frame) gain))
      [0..<output_channels m])"
proof -
  have "ch * input_channels m + input_channels m \<le> length (coefficients m)"
    if "ch < output_channels m" for ch
    using frame_slice_bound [OF that] assms(1) by (simp add: matrix_wf_def)
  then show ?thesis
    using assms(2) unfolding mix_frame_def
    by (subst traverse_enumerate [where
        g = "\<lambda>ch smp. fadd F32 smp (fmul F32 (dot (row m ch) input_frame) gain)"])
      (auto simp: row_def)
qed

lemma mix_frames_spec:
  assumes wf: "matrix_wf m" and "length input = n * input_channels m"
    and "length out = n * output_channels m" "k \<le> n"
  shows "\<exists>out'. mix_frames m gain input [k..<n] out = Ok out' \<and> length out' = length out
    \<and> (\<forall>f < n. \<forall>ch < output_channels m.
      out' ! (f * output_channels m + ch) =
        (if k \<le> f then fadd F32 (out ! (f * output_channels m + ch)) (mixed m gain input f ch)
         else out ! (f * output_channels m + ch)))"
  using assms(3,4)
proof (induction "n - k" arbitrary: k out)
  case 0
  then show ?case by simp
next
  case (Suc d)
  let ?oc = "output_channels m" and ?ic = "input_channels m"
  have kn: "k < n" using Suc.hyps(2) by simp
  then have upt: "[k..<n] = k # [Suc k..<n]" by (simp add: upt_conv_Cons)
  have bi: "k * ?ic + ?ic \<le> length input"
    using frame_slice_bound [OF kn, of ?ic] assms(2) by simp
  have bo: "k * ?oc + ?oc \<le> length out"
    using frame_slice_bound [OF kn, of ?oc] Suc.prems(1) by simp
  define new where "new = map (\<lambda>ch. fadd F32 (out ! (k * ?oc + ch)) (mixed m gain input k ch)) [0..<?oc]"
  define output1 where "output1 = take (k * ?oc) out @ new @ drop (k * ?oc + ?oc) out"
  have "mix_frame m gain (take ?ic (drop (k * ?ic) input)) (take ?oc (drop (k * ?oc) out)) = Ok new"
    using bo by (subst mix_frame_Ok [OF wf]) (auto simp: new_def mixed_def frame_of_def)
  then have step: "mix_frames m gain input [k..<n] out = mix_frames m gain input [Suc k..<n] output1"
    using bi bo by (simp add: upt output1_def Let_def)
  have len1: "length output1 = length out" using bo by (simp add: output1_def new_def)
  have d: "d = n - Suc k" using Suc.hyps(2) by simp
  obtain out' where out': "mix_frames m gain input [Suc k..<n] output1 = Ok out'"
      "length out' = length output1"
      "\<And>f ch. f < n \<Longrightarrow> ch < ?oc \<Longrightarrow> out' ! (f * ?oc + ch) =
        (if Suc k \<le> f then fadd F32 (output1 ! (f * ?oc + ch)) (mixed m gain input f ch)
         else output1 ! (f * ?oc + ch))"
    using Suc.hyps(1) [OF d, of output1] Suc.prems(1) kn len1 by auto
  have at: "output1 ! (f * ?oc + ch) =
      (if f = k then fadd F32 (out ! (k * ?oc + ch)) (mixed m gain input k ch)
       else out ! (f * ?oc + ch))" if "f < n" "ch < ?oc" for f ch
  proof -
    consider "f < k" | "f = k" | "k < f" by linarith
    then show ?thesis
    proof cases
      case 1
      then have "f * ?oc + ch < k * ?oc" using that(2) by (intro frame_bounds)
      then show ?thesis using 1 bo by (simp add: output1_def nth_append)
    next
      case 2
      then show ?thesis using that(2) bo by (simp add: output1_def nth_append new_def)
    next
      case 3
      then have "k * ?oc + ?oc \<le> f * ?oc" by (rule frame_slice_bound)
      then have "\<not> f * ?oc + ch - k * ?oc < ?oc" "\<not> f * ?oc + ch < k * ?oc"
        "k * ?oc + ?oc + (f * ?oc + ch - k * ?oc - ?oc) = f * ?oc + ch" by linarith+
      then show ?thesis using 3 bo by (simp add: output1_def nth_append new_def)
    qed
  qed
  have "out' ! (f * ?oc + ch) = (if k \<le> f
      then fadd F32 (out ! (f * ?oc + ch)) (mixed m gain input f ch)
      else out ! (f * ?oc + ch))" if "f < n" "ch < ?oc" for f ch
    using out'(3) [OF that] at [OF that] by (cases "f = k") auto
  then show ?case using step out'(1,2) len1 by auto
qed

text \<open>The mixer as one expression over the whole buffer.\<close>

definition mix_reference :: "ChannelMatrix \<Rightarrow> f32 list \<Rightarrow> f32 list \<Rightarrow> f32 \<Rightarrow> f32 list" where
  "mix_reference m input out gain =
     map (\<lambda>i. fadd F32 (out ! i)
         (mixed m gain input (i div output_channels m) (i mod output_channels m)))
       [0..<length out]"

lemma mix_frames_reference:
  assumes wf: "matrix_wf m" and len: "length input = n * input_channels m"
    "length out = n * output_channels m"
  shows "mix_frames m gain input [0..<n] out = Ok (mix_reference m input out gain)"
proof -
  let ?oc = "output_channels m"
  have oc: "0 < ?oc" using wf by (simp add: matrix_wf_def)
  obtain out' where out': "mix_frames m gain input [0..<n] out = Ok out'" "length out' = length out"
    "\<And>f ch. f < n \<Longrightarrow> ch < ?oc \<Longrightarrow>
      out' ! (f * ?oc + ch) = fadd F32 (out ! (f * ?oc + ch)) (mixed m gain input f ch)"
    using mix_frames_spec [OF wf len, of 0 gain] by auto
  have "out' = mix_reference m input out gain"
  proof (rule nth_equalityI)
    fix i assume "i < length out'"
    then have i: "i < n * ?oc" using out'(2) len(2) by simp
    have "i div ?oc < n" using i by (simp add: less_mult_imp_div_less)
    moreover have "i mod ?oc < ?oc" using oc by simp
    ultimately show "out' ! i = mix_reference m input out gain ! i"
      using out'(3) [of "i div ?oc" "i mod ?oc"] i len(2) by (simp add: mix_reference_def)
  qed (simp add: out'(2) mix_reference_def)
  then show ?thesis using out'(1) by simp
qed

section \<open>The identity matrix\<close>

lemma dot_identity:
  assumes "ch < n" "length frame = n" "list_all (fin_rep F32) frame" "length r = n"
    and r: "\<And>j. j < n \<Longrightarrow> r ! j = (if ch = j then fone F32 else fzero F32)"
  shows "same_value (dot r frame) (frame ! ch) \<and> fin_rep F32 (dot r frame)"
proof -
  define L where "L = map (\<lambda>(c, s). fmul F32 c s) (zip r frame)"
  have len: "length L = n" using assms by (simp add: L_def)
  have fr: "fin_rep F32 (frame ! j)" if "j < n" for j
    using assms(2,3) that by (simp add: list_all_length)
  have nth: "L ! j = fmul F32 (if ch = j then fone F32 else fzero F32) (frame ! j)" if "j < n" for j
    using that assms by (simp add: L_def r)
  have zero: "is_zero (L ! j) \<and> rep F32 (L ! j)" if "j < n" "j \<noteq> ch" for j
    using that nth [OF that(1)] fr [OF that(1)]
    by (elim fin_repE) (auto simp: fzero_def fmul_zero rep_fzero_fin simp del: fmul.simps rep.simps)
  have at: "L ! ch = frame ! ch"
    using nth [OF assms(1)] fr [OF assms(1)] by (simp add: fmul_one_left)
  have split: "L = take ch L @ frame ! ch # drop (Suc ch) L"
    using assms(1) len at by (metis id_take_nth_drop)
  have l: "list_all is_zero (take ch L)" "list_all (rep F32) (take ch L)"
      "list_all is_zero (drop (Suc ch) L)" "list_all (rep F32) (drop (Suc ch) L)"
    using zero len assms(1) by (auto simp: list_all_length)
  show ?thesis
    using fsum_single [OF wf_F32 l fr [OF assms(1)]] split
    unfolding dot_def L_def [symmetric] by simp
qed

lemma mixed_identity:
  assumes m: "matrix_identity n = Ok m" and "f < frames" "ch < n"
    and "length input = frames * n" "list_all (fin_rep F32) input"
  shows "same_value (mixed m (fone F32) input f ch) (input ! (f * n + ch))
    \<and> fin_rep F32 (mixed m (fone F32) input f ch)"
proof -
  have m': "m = \<lparr>output_channels = n, input_channels = n, coefficients = identity_coefficients n\<rparr>"
    using m by (auto simp: matrix_identity_def matrix_new_Ok identity_coefficients_def split: if_splits)
  have bounds: "f * n + n \<le> length input" "ch * n + n \<le> n * n"
    using frame_slice_bound [OF assms(2), of n] frame_slice_bound [OF assms(3), of n] assms(4) by auto
  have r: "row m ch ! j = (if ch = j then fone F32 else fzero F32)" if "j < n" for j
    using that assms(3) bounds by (simp add: row_def m' identity_coefficients_nth)
  have "same_value (dot (row m ch) (frame_of n f input)) (frame_of n f input ! ch)
      \<and> fin_rep F32 (dot (row m ch) (frame_of n f input))"
    using bounds assms(3,5)
    by (intro dot_identity r) (auto simp: frame_of_def row_def m' list_all_take list_all_drop)
  moreover have "frame_of n f input ! ch = input ! (f * n + ch)"
    using bounds assms(3) by (simp add: frame_of_def)
  ultimately show ?thesis by (simp add: mixed_def m' fmul_one_right)
qed

section \<open>Properties\<close>

text \<open>\<open>ChannelMatrix::new\<close> accepts exactly the well-formed matrices (nonzero dimensions whose
  product is a \<open>usize\<close>, one finite coefficient per cell) and stores its arguments unchanged; a
  \<open>NonFiniteCoefficient\<close> error names the first such coefficient; it never panics.\<close>

theorem matrix_new_exact:
  "(matrix_new oc ic cs = Ok m \<longleftrightarrow>
      m = \<lparr>output_channels = oc, input_channels = ic, coefficients = cs\<rparr> \<and> matrix_wf m)
   \<and> (matrix_new oc ic cs = Err (NonFiniteCoefficient i) \<longleftrightarrow>
      0 < oc \<and> 0 < ic \<and> length cs = oc * ic \<and> oc * ic < usize_bound
      \<and> i < length cs \<and> \<not> is_finite (cs ! i) \<and> list_all is_finite (take i cs))
   \<and> matrix_new oc ic cs \<noteq> Panic"
proof (intro conjI)
  show "matrix_new oc ic cs = Ok m \<longleftrightarrow>
      m = \<lparr>output_channels = oc, input_channels = ic, coefficients = cs\<rparr> \<and> matrix_wf m"
    by (rule matrix_new_Ok)
  have "position (\<lambda>v. \<not> is_finite v) cs = Some i \<longleftrightarrow>
      i < length cs \<and> \<not> is_finite (cs ! i) \<and> list_all is_finite (take i cs)"
    by (auto simp: position_Some list_all_length)
  then show "matrix_new oc ic cs = Err (NonFiniteCoefficient i) \<longleftrightarrow>
      0 < oc \<and> 0 < ic \<and> length cs = oc * ic \<and> oc * ic < usize_bound
      \<and> i < length cs \<and> \<not> is_finite (cs ! i) \<and> list_all is_finite (take i cs)"
    by (auto simp: matrix_new_def checked_mul_def split: option.split)
  show "matrix_new oc ic cs \<noteq> Panic" by (rule matrix_new_total)
qed

text \<open>C39: On a well-formed matrix \<open>mix_interleaved\<close> never panics, reports the two error cases
  exactly, and otherwise every output sample becomes the old sample plus gain times the dot
  product of its matrix row with the input frame, so routes into one sink add up.\<close>

theorem mix_interleaved_exact:
  assumes "matrix_wf m"
  shows "mix_interleaved m frames input out gain =
    (if usize_bound \<le> frames * input_channels m \<or> usize_bound \<le> frames * output_channels m
     then Err FrameCountOverflow
     else if length input \<noteq> frames * input_channels m
        \<or> length out \<noteq> frames * output_channels m \<or> \<not> is_finite gain
     then Err BufferLengthMismatch
     else Ok (mix_reference m input out gain))"
  using assms by (simp add: mix_interleaved_def checked_mul_def mix_frames_reference)

definition downmix :: ChannelMatrix where
  "downmix = \<lparr>output_channels = 1, input_channels = 2,
     coefficients = [Fin False 8388608 (-24), Fin False 8388608 (-24)]\<rparr>"

theorem mix_interleaved_exact_witness:
  "matrix_new 1 2 [Fin False 8388608 (-24), Fin False 8388608 (-24)] = Ok downmix
   \<and> mix_interleaved downmix 2
      [Fin False 8388608 (-23), Fin False 12582912 (-22),
       Fin False 8388608 (-22), Fin False 12582912 (-21)]
      [fzero F32, fzero F32] (fone F32)
     = Ok [Fin False 8388608 (-22), Fin False 8388608 (-21)]"
proof
  have wf: "matrix_wf downmix" by (simp add: matrix_wf_def downmix_def usize_bound_def)
  then show "matrix_new 1 2 [Fin False 8388608 (-24), Fin False 8388608 (-24)] = Ok downmix"
    by (simp add: matrix_new_Ok downmix_def)
  show "mix_interleaved downmix 2
      [Fin False 8388608 (-23), Fin False 12582912 (-22),
       Fin False 8388608 (-22), Fin False 12582912 (-21)]
      [fzero F32, fzero F32] (fone F32)
     = Ok [Fin False 8388608 (-22), Fin False 8388608 (-21)]"
    unfolding mix_interleaved_exact [OF wf]
    by (simp add: downmix_def usize_bound_def mix_reference_def mixed_def row_def frame_of_def
        dot_def float_eval upt_conv_Cons)
qed

text \<open>Mixing through the identity matrix at gain 1.0 into a cleared buffer reproduces every
  finite input sample exactly, up to the sign of a zero (so \<open>==\<close> holds sample by sample).\<close>

theorem identity_preserves_audio:
  assumes "matrix_identity n = Ok m"
    and "length input = frames * n" "frames * n < usize_bound" "list_all (fin_rep F32) input"
  shows "\<exists>out'. mix_interleaved m frames input (replicate (frames * n) (fzero F32)) (fone F32) = Ok out'
    \<and> length out' = length input
    \<and> (\<forall>i < length input. same_value (out' ! i) (input ! i) \<and> feq (out' ! i) (input ! i))"
proof -
  have m': "m = \<lparr>output_channels = n, input_channels = n, coefficients = identity_coefficients n\<rparr>"
      and wf: "matrix_wf m"
    using assms(1)
    by (auto simp: matrix_identity_def matrix_new_Ok identity_coefficients_def split: if_splits)
  let ?zeros = "replicate (frames * n) (fzero F32)"
  have ok: "mix_interleaved m frames input ?zeros (fone F32)
      = Ok (mix_reference m input ?zeros (fone F32))"
    using assms(2,3) wf by (simp add: mix_interleaved_exact m' fone_def)
  have "same_value (mix_reference m input ?zeros (fone F32) ! i) (input ! i)
      \<and> feq (mix_reference m input ?zeros (fone F32) ! i) (input ! i)"
    if "i < length input" for i
  proof -
    have i: "i < frames * n" using that assms(2) by simp
    then have n: "0 < n" by (cases n) auto
    have b: "i div n < frames" "i mod n < n" using i n by (simp_all add: less_mult_imp_div_less)
    define x where "x = mixed m (fone F32) input (i div n) (i mod n)"
    have x: "same_value x (input ! i)" "fin_rep F32 x"
      using mixed_identity [OF assms(1) b assms(2,4)] by (simp_all add: x_def)
    have "same_value (fadd F32 (fzero F32) x) x"
      using x(2) by (intro fadd_zero_same) (auto simp: fzero_def)
    then have s: "same_value (fadd F32 (fzero F32) x) (input ! i)" using x(1) same_value_trans by blast
    moreover have "fin_rep F32 (input ! i)" using assms(4) that by (simp add: list_all_length)
    then have "fadd F32 (fzero F32) x \<noteq> NaN"
      using s by (auto simp: same_value_def fin_rep_def)
    ultimately show ?thesis
      using i by (simp add: mix_reference_def x_def m' same_value_feq)
  qed
  moreover have "length (mix_reference m input ?zeros (fone F32)) = length input"
    by (simp add: mix_reference_def assms(2))
  ultimately show ?thesis using ok by blast
qed

theorem identity_preserves_audio_witness:
  "\<exists>m out'. matrix_identity 2 = Ok m
    \<and> mix_interleaved m 1 [Fin False 8388608 (-23), Fin True 12582912 (-22)]
        (replicate 2 (fzero F32)) (fone F32) = Ok out'
    \<and> feq (out' ! 1) (Fin True 12582912 (-22))"
proof -
  let ?in = "[Fin False 8388608 (-23), Fin True 12582912 (-22)]"
  obtain m where m: "matrix_identity 2 = Ok m"
    using matrix_identity_Ok [of 2] by (simp add: isize_max_def)
  have "\<exists>out'. mix_interleaved m 1 ?in (replicate (1 * 2) (fzero F32)) (fone F32) = Ok out'
    \<and> length out' = length ?in
    \<and> (\<forall>i < length ?in. same_value (out' ! i) (?in ! i) \<and> feq (out' ! i) (?in ! i))"
    by (rule identity_preserves_audio [OF m]) (simp_all add: usize_bound_def fin_rep_def F32_def)
  then show ?thesis using m by force
qed

end
