(* ===== verification/RoutingGraph.thy ===== *)
theory RoutingGraph
  imports BTreeMap ChannelMatrix
begin

text \<open>
  \<open>crates/vcable-core/src/graph.rs\<close>: identifiers, endpoint descriptors, routes, and the validated
  routing graph with its feedback check. The graph is the record of its two \<open>BTreeMap\<close>s; every
  operation returns the new graph or the error of the first check that fails, in the source's
  order. \<open>path_exists\<close> is the worklist loop over node names.
\<close>

section \<open>Identifiers\<close>

datatype EndpointId = EndpointId (endpoint_str: string)
datatype RouteId = RouteId (route_str: string)
datatype ClockDomain = ClockDomain (clock_str: string)

instantiation EndpointId :: linorder
begin
definition less_eq_EndpointId :: "EndpointId \<Rightarrow> EndpointId \<Rightarrow> bool" where
  "less_eq_EndpointId a b = (endpoint_str a \<le> endpoint_str b)"
definition less_EndpointId :: "EndpointId \<Rightarrow> EndpointId \<Rightarrow> bool" where
  "less_EndpointId a b = (endpoint_str a < endpoint_str b)"
instance
  by standard (auto simp: less_eq_EndpointId_def less_EndpointId_def EndpointId.expand)
end

instantiation RouteId :: linorder
begin
definition less_eq_RouteId :: "RouteId \<Rightarrow> RouteId \<Rightarrow> bool" where
  "less_eq_RouteId a b = (route_str a \<le> route_str b)"
definition less_RouteId :: "RouteId \<Rightarrow> RouteId \<Rightarrow> bool" where
  "less_RouteId a b = (route_str a < route_str b)"
instance
  by standard (auto simp: less_eq_RouteId_def less_RouteId_def RouteId.expand)
end

datatype GraphError =
    InvalidIdentifier string
  | GraphZeroChannels
  | InvalidSampleRate u32
  | EndpointExists EndpointId
  | EndpointNotFound EndpointId
  | EndpointInUse EndpointId
  | RouteExists RouteId
  | RouteNotFound RouteId
  | SourceDirectionRequired EndpointId
  | SinkDirectionRequired EndpointId
  | MatrixInputMismatch nat nat      \<comment> \<open>expected, actual\<close>
  | MatrixOutputMismatch nat nat
  | GainNotFinite
  | CycleDetected string string      \<comment> \<open>source node, sink node\<close>
  | GraphMatrix MatrixError

definition id_byte :: "char \<Rightarrow> bool" where
  "id_byte c = (is_ascii_alphanumeric c \<or> c \<in> set ''._:-'')"

definition valid_identifier :: "string \<Rightarrow> bool" where
  "valid_identifier value = (value \<noteq> [] \<and> length value \<le> 255 \<and> list_all id_byte value)"

definition EndpointId_new :: "string \<Rightarrow> (EndpointId, GraphError) res" where
  "EndpointId_new value =
     (if value = [] \<or> 255 < length value \<or> \<not> list_all id_byte value
      then Err (InvalidIdentifier value) else Ok (EndpointId value))"

definition RouteId_new :: "string \<Rightarrow> (RouteId, GraphError) res" where
  "RouteId_new value =
     (if value = [] \<or> 255 < length value \<or> \<not> list_all id_byte value
      then Err (InvalidIdentifier value) else Ok (RouteId value))"

definition ClockDomain_new :: "string \<Rightarrow> (ClockDomain, GraphError) res" where
  "ClockDomain_new value =
     (if value = [] \<or> 255 < length value
      then Err (InvalidIdentifier value) else Ok (ClockDomain value))"

section \<open>Endpoints, routes and the graph\<close>

datatype EndpointDirection = Source | Sink

record EndpointDescriptor =
  ep_id :: EndpointId
  node :: string
  direction :: EndpointDirection
  channels :: usize
  sample_rate :: u32
  clock_domain :: ClockDomain
  is_loopback :: bool

record Route =
  route_id :: RouteId
  route_source :: EndpointId
  route_sink :: EndpointId
  gain :: f32
  matrix :: ChannelMatrix

record RoutingGraph =
  endpoints :: "(EndpointId, EndpointDescriptor) btree"
  routes :: "(RouteId, Route) btree"

definition graph_default :: RoutingGraph where
  "graph_default = \<lparr>endpoints = bt_empty, routes = bt_empty\<rparr>"

definition endpoint :: "RoutingGraph \<Rightarrow> EndpointId \<Rightarrow> EndpointDescriptor option" where
  "endpoint g i = bt_get (endpoints g) i"

definition add_endpoint :: "EndpointDescriptor \<Rightarrow> RoutingGraph \<Rightarrow> (RoutingGraph, GraphError) res" where
  "add_endpoint e g =
     (if channels e = 0 then Err GraphZeroChannels
      else if sample_rate e < 8000 \<or> 768000 < sample_rate e
      then Err (InvalidSampleRate (sample_rate e))
      else if node e = [] \<or> 255 < length (node e) then Err (InvalidIdentifier (node e))
      else if bt_contains (endpoints g) (ep_id e) then Err (EndpointExists (ep_id e))
      else Ok (g\<lparr>endpoints := bt_insert (ep_id e) e (endpoints g)\<rparr>))"

definition remove_endpoint ::
  "EndpointId \<Rightarrow> RoutingGraph \<Rightarrow> (EndpointDescriptor \<times> RoutingGraph, GraphError) res" where
  "remove_endpoint i g =
     (if list_ex (\<lambda>r. route_source r = i \<or> route_sink r = i) (bt_values (routes g))
      then Err (EndpointInUse i)
      else and_then (ok_or (EndpointNotFound i) (bt_get (endpoints g) i)) (\<lambda>e.
        Ok (e, g\<lparr>endpoints := bt_remove i (endpoints g)\<rparr>)))"

definition remove_route :: "RouteId \<Rightarrow> RoutingGraph \<Rightarrow> (Route \<times> RoutingGraph, GraphError) res" where
  "remove_route i g =
     and_then (ok_or (RouteNotFound i) (bt_get (routes g) i)) (\<lambda>r.
       Ok (r, g\<lparr>routes := bt_remove i (routes g)\<rparr>))"

section \<open>The feedback check\<close>

definition node_is_loopback :: "RoutingGraph \<Rightarrow> string \<Rightarrow> bool" where
  "node_is_loopback g n = list_ex (\<lambda>e. node e = n \<and> is_loopback e) (bt_values (endpoints g))"

text \<open>The nodes the inner \<open>for\<close> loop pushes, in its order.\<close>

definition pushed_by :: "RoutingGraph \<Rightarrow> string \<Rightarrow> Route \<Rightarrow> string list" where
  "pushed_by g n r =
     (case bt_get (endpoints g) (route_source r) of
        None \<Rightarrow> []
      | Some source \<Rightarrow>
          if node source \<noteq> n then []
          else (case bt_get (endpoints g) (route_sink r) of
              None \<Rightarrow> []
            | Some sink \<Rightarrow> if node_is_loopback g (node sink) then [node sink] else []))"

definition pushed_sinks :: "RoutingGraph \<Rightarrow> string \<Rightarrow> string list" where
  "pushed_sinks g n = concat (map (pushed_by g n) (bt_values (routes g)))"

lemma in_pushed_by:
  "w \<in> set (pushed_by g n r) \<longleftrightarrow>
     (\<exists>source sink. bt_get (endpoints g) (route_source r) = Some source \<and> node source = n
       \<and> bt_get (endpoints g) (route_sink r) = Some sink \<and> node_is_loopback g (node sink)
       \<and> w = node sink)"
  by (cases "bt_get (endpoints g) (route_source r)"; cases "bt_get (endpoints g) (route_sink r)")
    (auto simp: pushed_by_def)

definition graph_nodes :: "RoutingGraph \<Rightarrow> string set" where
  "graph_nodes g = node ` set (bt_values (endpoints g))"

lemma bt_get_value: "bt_get m k = Some v \<Longrightarrow> v \<in> set (bt_values m)"
  by (induction m k rule: bt_get.induct) (auto simp: bt_values_def split: if_splits)

lemma finite_graph_nodes [simp]: "finite (graph_nodes g)"
  by (simp add: graph_nodes_def)

lemma pushed_sinks_node: "w \<in> set (pushed_sinks g n) \<Longrightarrow> n \<in> graph_nodes g"
  by (auto simp: pushed_sinks_def graph_nodes_def in_pushed_by dest: bt_get_value)

text \<open>The \<open>while let Some(node) = pending.pop()\<close> loop; \<open>pending\<close> has its top at the head.\<close>

function path_loop :: "RoutingGraph \<Rightarrow> string \<Rightarrow> string list \<Rightarrow> string set \<Rightarrow> bool" where
  "path_loop g target [] visited = False"
| "path_loop g target (n # pending) visited =
     (if n = target then True
      else if n \<in> visited then path_loop g target pending visited
      else path_loop g target (rev (pushed_sinks g n) @ pending) (insert n visited))"
  by pat_completeness auto
termination
proof (relation "measures [\<lambda>(g, t, p, v). card (graph_nodes g - v), \<lambda>(g, t, p, v). length p]",
    goal_cases)
  case (3 g target n pending visited)
  show ?case
  proof (cases "n \<in> graph_nodes g")
    case True
    then have "card (graph_nodes g - insert n visited) < card (graph_nodes g - visited)"
      using 3 by (intro psubset_card_mono) auto
    then show ?thesis by simp
  next
    case False
    then have "pushed_sinks g n = []" using pushed_sinks_node by (metis last_in_set)
    moreover have "graph_nodes g - insert n visited = graph_nodes g - visited" using False by auto
    ultimately show ?thesis by simp
  qed
qed auto

definition path_exists :: "RoutingGraph \<Rightarrow> string \<Rightarrow> string \<Rightarrow> bool" where
  "path_exists g start target =
     (if \<not> node_is_loopback g start then False else path_loop g target [start] {})"

definition add_route :: "Route \<Rightarrow> RoutingGraph \<Rightarrow> (RoutingGraph, GraphError) res" where
  "add_route r g =
     (if bt_contains (routes g) (route_id r) then Err (RouteExists (route_id r))
      else and_then (ok_or (EndpointNotFound (route_source r)) (bt_get (endpoints g) (route_source r)))
        (\<lambda>source.
      and_then (ok_or (EndpointNotFound (route_sink r)) (bt_get (endpoints g) (route_sink r)))
        (\<lambda>sink.
      if direction source \<noteq> Source then Err (SourceDirectionRequired (ep_id source))
      else if direction sink \<noteq> Sink then Err (SinkDirectionRequired (ep_id sink))
      else if input_channels (matrix r) \<noteq> channels source
      then Err (MatrixInputMismatch (channels source) (input_channels (matrix r)))
      else if output_channels (matrix r) \<noteq> channels sink
      then Err (MatrixOutputMismatch (channels sink) (output_channels (matrix r)))
      else if \<not> is_finite (gain r) then Err GainNotFinite
      else if path_exists g (node sink) (node source)
      then Err (CycleDetected (node source) (node sink))
      else Ok (g\<lparr>routes := bt_insert (route_id r) r (routes g)\<rparr>))))"

section \<open>The worklist loop decides reachability\<close>

definition route_edge :: "RoutingGraph \<Rightarrow> Route \<Rightarrow> (string \<times> string) set" where
  "route_edge g r = {(a, b). \<exists>source sink. bt_get (endpoints g) (route_source r) = Some source
     \<and> bt_get (endpoints g) (route_sink r) = Some sink \<and> a = node source \<and> b = node sink}"

definition edges :: "RoutingGraph \<Rightarrow> (string \<times> string) set" where
  "edges g = (\<Union>r \<in> set (bt_values (routes g)). route_edge g r)"

text \<open>Edges into a loopback node: the ones along which the signal can go on.\<close>

definition passing :: "RoutingGraph \<Rightarrow> (string \<times> string) set" where
  "passing g = {(a, b) \<in> edges g. node_is_loopback g b}"

text \<open>Edges between loopback nodes: the ones a feedback loop is made of.\<close>

definition feedback :: "RoutingGraph \<Rightarrow> (string \<times> string) set" where
  "feedback g = {(a, b) \<in> edges g. node_is_loopback g a \<and> node_is_loopback g b}"

lemma set_pushed_sinks: "set (pushed_sinks g n) = passing g `` {n}"
  by (fastforce simp: pushed_sinks_def in_pushed_by passing_def edges_def route_edge_def)

lemma path_loop_sound:
  "path_loop g t pending visited \<Longrightarrow> \<exists>p \<in> set pending. (p, t) \<in> (passing g)\<^sup>*"
proof (induction g t pending visited rule: path_loop.induct)
  case (2 g t n pending visited)
  consider "n = t" | "n \<noteq> t" "n \<in> visited" | "n \<noteq> t" "n \<notin> visited" by blast
  then show ?case
  proof cases
    case 3
    then obtain p where p: "p \<in> set (rev (pushed_sinks g n) @ pending)" "(p, t) \<in> (passing g)\<^sup>*"
      using 2 by auto
    then show ?thesis
      by (auto simp: set_pushed_sinks intro: converse_rtrancl_into_rtrancl)
  qed (use 2 in auto)
qed simp

lemma path_loop_closed:
  "\<not> path_loop g t pending visited \<Longrightarrow> t \<notin> visited \<Longrightarrow>
    passing g `` visited \<subseteq> visited \<union> set pending \<Longrightarrow>
    \<exists>C. visited \<union> set pending \<subseteq> C \<and> passing g `` C \<subseteq> C \<and> t \<notin> C"
proof (induction g t pending visited rule: path_loop.induct)
  case (1 g t visited)
  then show ?case by auto
next
  case (2 g t n pending visited)
  note tv = "2.prems"(2) and closed = "2.prems"(3)
  have nt: "n \<noteq> t" using "2.prems"(1) by auto
  show ?case
  proof (cases "n \<in> visited")
    case True
    have "\<not> path_loop g t pending visited" using "2.prems"(1) nt True by simp
    moreover have "passing g `` visited \<subseteq> visited \<union> set pending" using closed True by auto
    ultimately obtain C where "visited \<union> set pending \<subseteq> C" "passing g `` C \<subseteq> C" "t \<notin> C"
      using "2.IH"(1) [OF nt True _ tv] by blast
    then show ?thesis using True by (intro exI [of _ C]) auto
  next
    case False
    let ?p = "rev (pushed_sinks g n) @ pending"
    have "\<not> path_loop g t ?p (insert n visited)" using "2.prems"(1) nt False by simp
    moreover have "passing g `` insert n visited \<subseteq> insert n visited \<union> set ?p"
      using closed by (auto simp: set_pushed_sinks)
    ultimately obtain C where "insert n visited \<union> set ?p \<subseteq> C" "passing g `` C \<subseteq> C" "t \<notin> C"
      using "2.IH"(2) [OF nt False] tv nt by blast
    then show ?thesis by (intro exI [of _ C]) auto
  qed
qed

lemma path_loop_complete:
  assumes "(p, t) \<in> (passing g)\<^sup>*"
  shows "path_loop g t [p] {}"
proof (rule ccontr)
  assume "\<not> path_loop g t [p] {}"
  then obtain C where C: "p \<in> C" "passing g `` C \<subseteq> C" "t \<notin> C"
    using path_loop_closed [of g t "[p]" "{}"] by auto
  from assms have "t \<in> C"
    by (induction rule: rtrancl_induct) (use C in auto)
  then show False using C by simp
qed

lemma path_exists_iff:
  "path_exists g a t \<longleftrightarrow> node_is_loopback g a \<and> (a, t) \<in> (passing g)\<^sup>*"
  using path_loop_sound [of g t "[a]" "{}"] path_loop_complete [of a t g]
  by (auto simp: path_exists_def)

lemma passing_feedback:
  assumes "(a, t) \<in> (passing g)\<^sup>*" "node_is_loopback g a"
  shows "(a, t) \<in> (feedback g)\<^sup>* \<and> node_is_loopback g t"
  using assms
proof (induction rule: rtrancl_induct)
  case (step y z)
  then show ?case
    by (auto simp: passing_def feedback_def intro: rtrancl_into_rtrancl)
qed simp

lemma feedback_passing: "(a, t) \<in> (feedback g)\<^sup>* \<Longrightarrow> (a, t) \<in> (passing g)\<^sup>*"
  by (rule rtrancl_mono [THEN subsetD, rotated]) (auto simp: feedback_def passing_def)

section \<open>Invariant\<close>

definition endpoint_ok :: "EndpointDescriptor \<Rightarrow> bool" where
  "endpoint_ok e \<longleftrightarrow> 0 < channels e \<and> 8000 \<le> sample_rate e \<and> sample_rate e \<le> 768000
     \<and> node e \<noteq> [] \<and> length (node e) \<le> 255"

definition route_ok :: "RoutingGraph \<Rightarrow> Route \<Rightarrow> bool" where
  "route_ok g r \<longleftrightarrow> matrix_wf (matrix r) \<and> is_finite (gain r)
     \<and> (\<exists>source sink. endpoint g (route_source r) = Some source \<and> endpoint g (route_sink r) = Some sink
       \<and> direction source = Source \<and> direction sink = Sink
       \<and> input_channels (matrix r) = channels source \<and> output_channels (matrix r) = channels sink)"

definition graph_inv :: "RoutingGraph \<Rightarrow> bool" where
  "graph_inv g \<longleftrightarrow> bt_sorted (endpoints g) \<and> bt_sorted (routes g)
     \<and> (\<forall>i e. bt_get (endpoints g) i = Some e \<longrightarrow> ep_id e = i \<and> endpoint_ok e)
     \<and> (\<forall>i r. bt_get (routes g) i = Some r \<longrightarrow> route_id r = i \<and> route_ok g r)"

lemma graph_inv_default: "graph_inv graph_default"
  by (simp add: graph_inv_def graph_default_def bm.get_empty bm.invar_empty)

lemma add_endpoint_Ok:
  "add_endpoint e g = Ok g' \<longleftrightarrow> endpoint_ok e \<and> endpoint g (ep_id e) = None
     \<and> g' = g\<lparr>endpoints := bt_insert (ep_id e) e (endpoints g)\<rparr>"
  by (auto simp: add_endpoint_def endpoint_ok_def endpoint_def bt_contains_def not_less)

lemma add_endpoint_inv:
  assumes "graph_inv g" "add_endpoint e g = Ok g'"
  shows "graph_inv g'"
proof -
  have g': "g' = g\<lparr>endpoints := bt_insert (ep_id e) e (endpoints g)\<rparr>" "endpoint_ok e"
      "bt_get (endpoints g) (ep_id e) = None"
    using assms(2) by (auto simp: add_endpoint_Ok endpoint_def)
  have get: "bt_get (endpoints g') i = (if i = ep_id e then Some e else bt_get (endpoints g) i)" for i
    using assms(1) by (simp add: g' bm.get_insert graph_inv_def)
  have "route_ok g r \<Longrightarrow> route_ok g' r" for r
    unfolding route_ok_def endpoint_def get using g'(3) by (metis option.distinct(1))
  then show ?thesis
    using assms(1) g'(1,2) get by (auto simp: graph_inv_def bm.invar_insert split: if_splits)
qed

lemma remove_endpoint_Ok:
  "remove_endpoint i g = Ok (e, g') \<longleftrightarrow> endpoint g i = Some e
     \<and> (\<forall>r \<in> set (bt_values (routes g)). route_source r \<noteq> i \<and> route_sink r \<noteq> i)
     \<and> g' = g\<lparr>endpoints := bt_remove i (endpoints g)\<rparr>"
  by (auto simp: remove_endpoint_def endpoint_def res_simps list_ex_iff)

lemma remove_endpoint_inv:
  assumes "graph_inv g" "remove_endpoint i g = Ok (e, g')"
  shows "graph_inv g'"
proof -
  have g': "g' = g\<lparr>endpoints := bt_remove i (endpoints g)\<rparr>"
    and un: "\<And>r. r \<in> set (bt_values (routes g)) \<Longrightarrow> route_source r \<noteq> i \<and> route_sink r \<noteq> i"
    using assms(2) by (auto simp: remove_endpoint_Ok)
  have get: "bt_get (endpoints g') j = (if j = i then None else bt_get (endpoints g) j)" for j
    using assms(1) by (simp add: g' bm.get_remove graph_inv_def)
  have "route_ok g' r" if "bt_get (routes g) j = Some r" for j r
    using assms(1) that un [OF bt_get_value [OF that]]
    by (auto simp: graph_inv_def route_ok_def endpoint_def get)
  then show ?thesis
    using assms(1) get by (auto simp: graph_inv_def g' bm.invar_remove split: if_splits)
qed

definition route_checks :: "RoutingGraph \<Rightarrow> Route \<Rightarrow> bool" where
  \<comment> \<open>all the checks of \<open>add_route\<close> but the feedback check\<close>
  "route_checks g r \<longleftrightarrow> bt_get (routes g) (route_id r) = None \<and> is_finite (gain r)
     \<and> (\<exists>source sink. endpoint g (route_source r) = Some source \<and> endpoint g (route_sink r) = Some sink
       \<and> direction source = Source \<and> direction sink = Sink
       \<and> input_channels (matrix r) = channels source \<and> output_channels (matrix r) = channels sink)"

definition source_node :: "RoutingGraph \<Rightarrow> Route \<Rightarrow> string" where
  "source_node g r = node (the (endpoint g (route_source r)))"

definition sink_node :: "RoutingGraph \<Rightarrow> Route \<Rightarrow> string" where
  "sink_node g r = node (the (endpoint g (route_sink r)))"

definition insert_route :: "Route \<Rightarrow> RoutingGraph \<Rightarrow> RoutingGraph" where
  "insert_route r g = g\<lparr>routes := bt_insert (route_id r) r (routes g)\<rparr>"

lemma add_route_checked:
  assumes "route_checks g r"
  shows "add_route r g =
    (if path_exists g (sink_node g r) (source_node g r)
     then Err (CycleDetected (source_node g r) (sink_node g r)) else Ok (insert_route r g))"
  using assms
  by (auto simp: add_route_def route_checks_def endpoint_def bt_contains_def source_node_def
      sink_node_def insert_route_def)

lemma add_route_unchecked:
  assumes "\<not> route_checks g r"
  shows "\<exists>e. add_route r g = Err e \<and> (\<forall>a b. e \<noteq> CycleDetected a b)"
proof (cases "bt_get (endpoints g) (route_source r)")
  case None
  then show ?thesis by (auto simp: add_route_def)
next
  case (Some source)
  then show ?thesis
    using assms
    by (cases "bt_get (endpoints g) (route_sink r)"; cases "direction source")
      (auto simp: add_route_def route_checks_def endpoint_def bt_contains_def)
qed

lemma add_route_Ok:
  "add_route r g = Ok g' \<longleftrightarrow> route_checks g r \<and> g' = insert_route r g
     \<and> \<not> path_exists g (sink_node g r) (source_node g r)"
proof (cases "route_checks g r")
  case True
  then show ?thesis by (auto simp: add_route_checked)
next
  case False
  then show ?thesis using add_route_unchecked by fastforce
qed

lemma add_route_total: "add_route r g \<noteq> Panic"
proof (cases "route_checks g r")
  case True
  then show ?thesis by (simp add: add_route_checked)
next
  case False
  then obtain e where "add_route r g = Err e" using add_route_unchecked by blast
  then show ?thesis by simp
qed

lemma insert_route_inv:
  assumes "graph_inv g" "route_checks g r" "matrix_wf (matrix r)"
  shows "graph_inv (insert_route r g)"
proof -
  have get: "bt_get (routes (insert_route r g)) i = (if i = route_id r then Some r else bt_get (routes g) i)"
    for i using assms(1) by (simp add: insert_route_def bm.get_insert graph_inv_def)
  have ep: "endpoints (insert_route r g) = endpoints g" by (simp add: insert_route_def)
  have ok: "route_ok (insert_route r g) r' = route_ok g r'" for r'
    by (simp add: route_ok_def endpoint_def ep)
  have "route_ok g r" using assms(2,3) by (simp add: route_checks_def route_ok_def)
  moreover have "bt_sorted (routes (insert_route r g))"
    using assms(1) by (simp add: insert_route_def graph_inv_def bm.invar_insert)
  ultimately show ?thesis
    using assms(1) by (simp add: graph_inv_def get ep ok)
qed

lemma remove_route_Ok:
  "remove_route i g = Ok (r, g') \<longleftrightarrow> bt_get (routes g) i = Some r
     \<and> g' = g\<lparr>routes := bt_remove i (routes g)\<rparr>"
  by (auto simp: remove_route_def res_simps)

lemma remove_route_inv:
  assumes "graph_inv g" "remove_route i g = Ok (r, g')"
  shows "graph_inv g'"
proof -
  have g': "g' = g\<lparr>routes := bt_remove i (routes g)\<rparr>" using assms(2) by (simp add: remove_route_Ok)
  have get: "bt_get (routes g') j = (if j = i then None else bt_get (routes g) j)" for j
    using assms(1) by (simp add: g' bm.get_remove graph_inv_def)
  have ok: "route_ok g' r' = route_ok g r'" for r' by (simp add: g' route_ok_def endpoint_def)
  have "bt_sorted (routes g')" using assms(1) by (simp add: g' bm.invar_remove graph_inv_def)
  then show ?thesis
    using assms(1) ok by (simp add: graph_inv_def get) (simp add: g')
qed

section \<open>Feedback\<close>

lemma node_is_loopback_routes [simp]:
  "node_is_loopback (g\<lparr>routes := rs\<rparr>) n = node_is_loopback g n"
  by (simp add: node_is_loopback_def)

lemma route_edge_routes [simp]: "route_edge (g\<lparr>routes := rs\<rparr>) r = route_edge g r"
  by (simp add: route_edge_def)

lemma edges_insert_route:
  assumes "graph_inv g" "route_checks g r"
  shows "edges (insert_route r g) = insert (source_node g r, sink_node g r) (edges g)"
proof -
  have "set (bt_values (routes (insert_route r g))) = insert r (set (bt_values (routes g)))"
    using assms by (simp add: insert_route_def bt_values_insert_fresh graph_inv_def route_checks_def)
  moreover have "route_edge g r = {(source_node g r, sink_node g r)}"
    using assms(2) by (auto simp: route_edge_def route_checks_def source_node_def sink_node_def endpoint_def)
  ultimately show ?thesis by (simp add: edges_def insert_route_def)
qed

lemma feedback_insert_route:
  assumes "graph_inv g" "route_checks g r"
  shows "feedback (insert_route r g) =
    (if node_is_loopback g (source_node g r) \<and> node_is_loopback g (sink_node g r)
     then insert (source_node g r, sink_node g r) (feedback g) else feedback g)"
  unfolding feedback_def edges_insert_route [OF assms] by (auto simp: insert_route_def)

lemma path_exists_feedback:
  "path_exists g b a \<longleftrightarrow>
     node_is_loopback g b \<and> node_is_loopback g a \<and> (b, a) \<in> (feedback g)\<^sup>*"
  using passing_feedback [of b a g] feedback_passing [of b a g] by (auto simp: path_exists_iff)

lemma remove_route_feedback:
  assumes "graph_inv g" "remove_route i g = Ok (r, g')"
  shows "feedback g' \<subseteq> feedback g"
proof -
  have g': "g' = g\<lparr>routes := bt_remove i (routes g)\<rparr>" using assms(2) by (simp add: remove_route_Ok)
  then have "edges g' \<subseteq> edges g"
    using bt_values_remove [of "routes g" i] assms(1) by (auto simp: edges_def graph_inv_def)
  then show ?thesis by (auto simp: feedback_def g')
qed

lemma remove_endpoint_feedback:
  assumes "graph_inv g" "remove_endpoint i g = Ok (e, g')"
  shows "feedback g' \<subseteq> feedback g"
proof -
  have g': "g' = g\<lparr>endpoints := bt_remove i (endpoints g)\<rparr>" using assms(2) by (simp add: remove_endpoint_Ok)
  have s: "bt_sorted (endpoints g)" using assms(1) by (simp add: graph_inv_def)
  have "node_is_loopback g' n \<Longrightarrow> node_is_loopback g n" for n
    using bt_values_remove [OF s, of i] by (auto simp: node_is_loopback_def g' list_ex_iff)
  moreover have "edges g' \<subseteq> edges g"
    using s by (auto simp: edges_def route_edge_def g' bm.get_remove split: if_splits)
  ultimately show ?thesis by (auto simp: feedback_def)
qed

section \<open>Histories of a graph\<close>

text \<open>
  The ways a graph comes about in the daemon: all endpoints first, then routes are added and
  removed and endpoints removed. Matrices come from \<open>ChannelMatrix::new\<close>.
\<close>

inductive graph_history :: "RoutingGraph \<Rightarrow> bool" where
  start: "graph_history graph_default"
| endpoint_added: "graph_history g \<Longrightarrow> routes g = bt_empty \<Longrightarrow> add_endpoint e g = Ok g' \<Longrightarrow>
    graph_history g'"
| endpoint_removed: "graph_history g \<Longrightarrow> remove_endpoint i g = Ok (e, g') \<Longrightarrow> graph_history g'"
| route_added: "graph_history g \<Longrightarrow> matrix_wf (matrix r) \<Longrightarrow> add_route r g = Ok g' \<Longrightarrow>
    graph_history g'"
| route_removed: "graph_history g \<Longrightarrow> remove_route i g = Ok (r, g') \<Longrightarrow> graph_history g'"

lemma no_routes_no_feedback: "routes g = bt_empty \<Longrightarrow> acyclic (feedback g)"
  by (simp add: feedback_def edges_def bt_empty_def bt_values_def acyclic_def)

lemma add_endpoint_routes: "add_endpoint e g = Ok g' \<Longrightarrow> routes g' = routes g"
  by (auto simp: add_endpoint_Ok)

lemma add_route_acyclic:
  assumes "graph_inv g" "acyclic (feedback g)" "add_route r g = Ok g'"
  shows "acyclic (feedback g')"
proof -
  have r: "route_checks g r" "g' = insert_route r g"
      "\<not> path_exists g (sink_node g r) (source_node g r)"
    using assms(3) by (auto simp: add_route_Ok)
  show ?thesis
    using assms(2) r(3) unfolding r(2) feedback_insert_route [OF assms(1) r(1)]
    by (auto simp: path_exists_feedback acyclic_insert)
qed

lemma graph_history_inv: "graph_history g \<Longrightarrow> graph_inv g \<and> acyclic (feedback g)"
proof (induction rule: graph_history.induct)
  case start
  have "routes graph_default = bt_empty" by (simp add: graph_default_def)
  then show ?case using graph_inv_default no_routes_no_feedback by blast
next
  case (endpoint_added g e g')
  then have "routes g' = bt_empty" by (simp add: add_endpoint_routes)
  then show ?case
    using add_endpoint_inv [OF _ endpoint_added.hyps(3)] endpoint_added.IH no_routes_no_feedback
    by blast
next
  case (endpoint_removed g i e g')
  then show ?case
    using remove_endpoint_inv [OF _ endpoint_removed.hyps(2)]
      acyclic_subset [OF _ remove_endpoint_feedback [OF _ endpoint_removed.hyps(2)]] by blast
next
  case (route_added g r g')
  then have "graph_inv g'" using insert_route_inv by (auto simp: add_route_Ok)
  then show ?case using add_route_acyclic [OF _ _ route_added.hyps(3)] route_added.IH by blast
next
  case (route_removed g i r g')
  then show ?case
    using remove_route_inv [OF _ route_removed.hyps(2)]
      acyclic_subset [OF _ remove_route_feedback [OF _ route_removed.hyps(2)]] by blast
qed

fun add_endpoints :: "EndpointDescriptor list \<Rightarrow> RoutingGraph \<Rightarrow> (RoutingGraph, GraphError) res" where
  "add_endpoints [] g = Ok g"
| "add_endpoints (e # es) g = and_then (add_endpoint e g) (add_endpoints es)"

fun add_routes :: "Route list \<Rightarrow> RoutingGraph \<Rightarrow> (RoutingGraph, GraphError) res" where
  "add_routes [] g = Ok g"
| "add_routes (r # rs) g = and_then (add_route r g) (add_routes rs)"

definition build_graph ::
  "EndpointDescriptor list \<Rightarrow> Route list \<Rightarrow> (RoutingGraph, GraphError) res" where
  "build_graph es rs = and_then (add_endpoints es graph_default) (add_routes rs)"

lemma add_endpoints_history:
  "graph_history g \<Longrightarrow> routes g = bt_empty \<Longrightarrow> add_endpoints es g = Ok g' \<Longrightarrow>
    graph_history g' \<and> routes g' = bt_empty"
proof (induction es g rule: add_endpoints.induct)
  case (2 e es g)
  then obtain g1 where g1: "add_endpoint e g = Ok g1" "add_endpoints es g1 = Ok g'"
    by (auto simp: res_simps)
  have "graph_history g1" using endpoint_added "2.prems" g1(1) by blast
  then show ?case using "2.IH" g1(2) "2.prems"(2) add_endpoint_routes [OF g1(1)] by simp
qed simp

lemma add_routes_history:
  "graph_history g \<Longrightarrow> list_all (\<lambda>r. matrix_wf (matrix r)) rs \<Longrightarrow> add_routes rs g = Ok g' \<Longrightarrow>
    graph_history g'"
  by (induction rs g rule: add_routes.induct) (auto simp: res_simps intro: route_added)

lemma build_graph_history:
  assumes "build_graph es rs = Ok g" "list_all (\<lambda>r. matrix_wf (matrix r)) rs"
  shows "graph_history g"
proof -
  obtain g1 where g1: "add_endpoints es graph_default = Ok g1" "add_routes rs g1 = Ok g"
    using assms(1) by (auto simp: build_graph_def res_simps)
  have "graph_history g1"
    using add_endpoints_history [OF start _ g1(1)] by (simp add: graph_default_def)
  then show ?thesis using add_routes_history assms(2) g1(2) by blast
qed

section \<open>A concrete graph\<close>

definition ex_ep :: "string \<Rightarrow> string \<Rightarrow> EndpointDirection \<Rightarrow> bool \<Rightarrow> EndpointDescriptor" where
  "ex_ep i n d l = \<lparr>ep_id = EndpointId i, node = n, direction = d, channels = 1,
     sample_rate = 48000, clock_domain = ClockDomain n, is_loopback = l\<rparr>"

definition ex_route :: "string \<Rightarrow> string \<Rightarrow> string \<Rightarrow> Route" where
  "ex_route i a b = \<lparr>route_id = RouteId i, route_source = EndpointId a, route_sink = EndpointId b,
     gain = fzero F32,
     matrix = \<lparr>output_channels = 1, input_channels = 1, coefficients = [fzero F32]\<rparr>\<rparr>"

definition ex_endpoints :: "EndpointDescriptor list" where
  "ex_endpoints = [ex_ep ''a.in'' ''a'' Source True, ex_ep ''a.out'' ''a'' Sink True,
     ex_ep ''b.in'' ''b'' Source True, ex_ep ''b.out'' ''b'' Sink True,
     ex_ep ''p.in'' ''p'' Source False, ex_ep ''p.out'' ''p'' Sink False]"

definition ex_routes :: "Route list" where
  "ex_routes = [ex_route ''a-to-b'' ''a.in'' ''b.out'', ex_route ''monitor'' ''p.in'' ''p.out'']"

lemma ex_routes_wf: "list_all (\<lambda>r. matrix_wf (matrix r)) (ex_route i a b # ex_routes)"
  by (simp add: ex_routes_def ex_route_def matrix_wf_def usize_bound_def fzero_def)

definition ex_graph :: RoutingGraph where
  "ex_graph = (case build_graph ex_endpoints ex_routes of Ok g \<Rightarrow> g | _ \<Rightarrow> graph_default)"

lemma ex_graph_built: "build_graph ex_endpoints ex_routes = Ok ex_graph"
proof -
  have "is_ok (build_graph ex_endpoints ex_routes)" by code_simp
  then show ?thesis by (auto simp: ex_graph_def is_ok_iff)
qed

lemma ex_graph_history: "graph_history ex_graph"
  using build_graph_history [OF ex_graph_built] ex_routes_wf by simp

lemma ex_graph_inv: "graph_inv ex_graph" "acyclic (feedback ex_graph)"
  using graph_history_inv [OF ex_graph_history] by auto

section \<open>Properties\<close>

text \<open>The stack-based search of \<open>path_exists\<close> terminates and decides exactly whether the signal
  entering a node can reach the target: the start node must be a loopback device, and every node
  passed on the way (all of \<open>passing\<close>) must be one too.\<close>

theorem path_exists_correct:
  "path_exists g start target \<longleftrightarrow>
     node_is_loopback g start \<and> (start, target) \<in> (passing g)\<^sup>*"
  by (rule path_exists_iff)

text \<open>C1: However a graph is built (endpoints, then any adding and removing of routes and removing
  of endpoints), it satisfies the graph invariant (every route joins an existing source to an
  existing sink with matching matrix dimensions and finite gain, keys match identifiers,
  endpoints are in range) and the loopback devices are never connected in a cycle.\<close>

theorem graph_never_feeds_back:
  assumes "graph_history g"
  shows "graph_inv g \<and> acyclic (feedback g)"
  using graph_history_inv [OF assms] .

theorem graph_never_feeds_back_witness:
  "graph_history ex_graph \<and> acyclic (feedback ex_graph) \<and> bt_values (routes ex_graph) \<noteq> []"
proof -
  have "bt_values (routes ex_graph) \<noteq> []" by code_simp
  then show ?thesis using graph_never_feeds_back [OF ex_graph_history] ex_graph_history by simp
qed

text \<open>C16: The feedback check is exact. A route that passes the other checks is refused with
  \<open>CycleDetected\<close> if and only if adding it would close a cycle of loopback devices; otherwise it
  is added. A route that fails another check is never reported as a cycle, and no input panics.\<close>

theorem add_route_exact:
  assumes "graph_inv g" "acyclic (feedback g)"
  shows "(route_checks g r \<longrightarrow> add_route r g =
      (if acyclic (feedback (insert_route r g)) then Ok (insert_route r g)
       else Err (CycleDetected (source_node g r) (sink_node g r))))
    \<and> (\<not> route_checks g r \<longrightarrow> (\<exists>e. add_route r g = Err e \<and> (\<forall>a b. e \<noteq> CycleDetected a b)))"
proof (intro conjI impI)
  assume r: "route_checks g r"
  have "acyclic (feedback (insert_route r g)) \<longleftrightarrow> \<not> path_exists g (sink_node g r) (source_node g r)"
    using assms(2) unfolding feedback_insert_route [OF assms(1) r]
    by (auto simp: path_exists_feedback acyclic_insert)
  then show "add_route r g =
      (if acyclic (feedback (insert_route r g)) then Ok (insert_route r g)
       else Err (CycleDetected (source_node g r) (sink_node g r)))"
    using add_route_checked [OF r] by simp
qed (rule add_route_unchecked)

theorem add_route_exact_witness:
  "add_route (ex_route ''b-to-a'' ''b.in'' ''a.out'') ex_graph = Err (CycleDetected ''b'' ''a'')
   \<and> \<not> acyclic (feedback (insert_route (ex_route ''b-to-a'' ''b.in'' ''a.out'') ex_graph))"
proof -
  let ?r = "ex_route ''b-to-a'' ''b.in'' ''a.out''"
  have e: "add_route ?r ex_graph = Err (CycleDetected ''b'' ''a'')" by code_simp
  note exact = add_route_exact [OF ex_graph_inv, of ?r]
  then have "route_checks ex_graph ?r" using e by (cases "route_checks ex_graph ?r") auto
  then show ?thesis using exact e by (auto split: if_splits)
qed

text \<open>Each of the four mutating operations keeps the graph invariant.\<close>

theorem graph_operations_keep_invariant:
  assumes "graph_inv g" "matrix_wf (matrix r)"
  shows "(\<forall>g'. add_endpoint e g = Ok g' \<longrightarrow> graph_inv g')
    \<and> (\<forall>g' d. remove_endpoint i g = Ok (d, g') \<longrightarrow> graph_inv g')
    \<and> (\<forall>g'. add_route r g = Ok g' \<longrightarrow> graph_inv g')
    \<and> (\<forall>g' q. remove_route j g = Ok (q, g') \<longrightarrow> graph_inv g')"
proof (intro conjI allI impI)
  fix g' assume "add_route r g = Ok g'"
  then show "graph_inv g'" using insert_route_inv assms by (auto simp: add_route_Ok)
qed (use assms add_endpoint_inv remove_endpoint_inv remove_route_inv in blast)+

theorem graph_operations_keep_invariant_witness:
  "\<exists>g'. add_route (ex_route ''b-to-p'' ''b.in'' ''p.out'') ex_graph = Ok g' \<and> graph_inv g'"
proof -
  let ?r = "ex_route ''b-to-p'' ''b.in'' ''p.out''"
  have "is_ok (add_route ?r ex_graph)" by code_simp
  moreover have "matrix_wf (matrix ?r)" using ex_routes_wf by simp
  ultimately show ?thesis
    using graph_operations_keep_invariant [OF ex_graph_inv(1), of ?r] by (auto simp: is_ok_iff)
qed

text \<open>\<open>remove_endpoint\<close> refuses exactly the endpoints some route refers to; otherwise it returns
  and forgets the endpoint, or reports that there is none, and leaves the rest alone.\<close>

theorem remove_endpoint_exact:
  assumes "graph_inv g"
  shows "(remove_endpoint i g = Err (EndpointInUse i) \<longleftrightarrow>
      (\<exists>r \<in> set (bt_values (routes g)). route_source r = i \<or> route_sink r = i))
    \<and> (\<forall>e g'. remove_endpoint i g = Ok (e, g') \<longrightarrow> endpoint g i = Some e
      \<and> routes g' = routes g \<and> (\<forall>j. endpoint g' j = (if j = i then None else endpoint g j)))
    \<and> (remove_endpoint i g = Err (EndpointNotFound i) \<longleftrightarrow> endpoint g i = None)"
proof (intro conjI allI impI)
  have used: "endpoint g i \<noteq> None"
    if mem: "r \<in> set (bt_values (routes g))" and ref: "route_source r = i \<or> route_sink r = i" for r
  proof -
    have "bt_sorted (routes g)" using assms by (simp add: graph_inv_def)
    then obtain k where "bt_get (routes g) k = Some r"
      using mem by (auto simp: bt_values_iff)
    then have "route_ok g r" using assms by (simp add: graph_inv_def)
    then show ?thesis using ref by (auto simp: route_ok_def)
  qed
  show "remove_endpoint i g = Err (EndpointInUse i) \<longleftrightarrow>
      (\<exists>r \<in> set (bt_values (routes g)). route_source r = i \<or> route_sink r = i)"
    by (cases "bt_get (endpoints g) i") (auto simp: remove_endpoint_def list_ex_iff)
  show "remove_endpoint i g = Err (EndpointNotFound i) \<longleftrightarrow> endpoint g i = None"
    using used
    by (cases "bt_get (endpoints g) i") (auto simp: remove_endpoint_def list_ex_iff endpoint_def)
next
  fix e g' j assume "remove_endpoint i g = Ok (e, g')"
  then show "endpoint g i = Some e" "routes g' = routes g"
      "endpoint g' j = (if j = i then None else endpoint g j)"
    using assms by (auto simp: remove_endpoint_Ok endpoint_def bm.get_remove graph_inv_def)
qed

theorem remove_endpoint_exact_witness:
  "remove_endpoint (EndpointId ''a.in'') ex_graph = Err (EndpointInUse (EndpointId ''a.in''))
   \<and> (\<exists>r \<in> set (bt_values (routes ex_graph)).
        route_source r = EndpointId ''a.in'' \<or> route_sink r = EndpointId ''a.in'')"
proof -
  have "remove_endpoint (EndpointId ''a.in'') ex_graph = Err (EndpointInUse (EndpointId ''a.in''))"
    by code_simp
  then show ?thesis using remove_endpoint_exact [OF ex_graph_inv(1), of "EndpointId ''a.in''"] by blast
qed

text \<open>
  The order of construction matters: \<open>add_endpoint\<close> does not repeat the feedback check, so giving
  a node of a graph with routes its first loopback endpoint can create a cycle unnoticed. (The
  daemon rebuilds its graph with all endpoints first.)
\<close>

definition ex_late_graph :: RoutingGraph where
  "ex_late_graph = (case add_endpoint (ex_ep ''p.aux'' ''p'' Source True) ex_graph of
     Ok g \<Rightarrow> g | _ \<Rightarrow> graph_default)"

lemma late_loopback_endpoint_feeds_back:
  "graph_history ex_graph
   \<and> add_endpoint (ex_ep ''p.aux'' ''p'' Source True) ex_graph = Ok ex_late_graph
   \<and> \<not> acyclic (feedback ex_late_graph)"
proof -
  have "is_ok (add_endpoint (ex_ep ''p.aux'' ''p'' Source True) ex_graph)" by code_simp
  then have ok: "add_endpoint (ex_ep ''p.aux'' ''p'' Source True) ex_graph = Ok ex_late_graph"
    by (auto simp: ex_late_graph_def is_ok_iff)
  have "''p'' \<in> set (pushed_sinks ex_late_graph ''p'')" by code_simp
  then have "(''p'', ''p'') \<in> feedback ex_late_graph"
    by (simp add: set_pushed_sinks) (simp add: passing_def feedback_def)
  then have "\<not> acyclic (feedback ex_late_graph)" by (meson acyclic_def r_into_trancl)
  then show ?thesis using ok ex_graph_history by simp
qed

end
