(* ===== verification/Ring.thy ===== *)
theory Ring
  imports IeeeFloat
begin

unbundle bit_operations_syntax

text \<open>
  \<open>crates/vcable-core/src/ring.rs\<close>: the single-producer single-consumer ring of samples. The
  shared \<open>Inner\<close> is a record; \<open>Producer\<close> and \<open>Consumer\<close> are the two operations groups on it.
  The read and write indices are free-running \<open>usize\<close> counters (\<^typ>\<open>64 word\<close>) that wrap; a
  slot is the index masked with \<open>capacity - 1\<close>. This theory treats one call as one step and
  refines the ring to a bounded queue; the interleaving of the two threads inside the calls is
  the subject of \<open>RingConcurrency\<close>.

  \<open>capacity () - ...\<close> is computed on words, that is, with the wrap-around of a build without
  overflow checks; under \<open>ring_inv\<close>, which every operation keeps, no subtraction wraps and every
  masked index is inside the slots, so a build with checks takes the same steps.
\<close>

section \<open>State and operations\<close>

datatype RingBufferError = CapacityTooSmall | CapacityNotPowerOfTwo

record ring =
  samples :: "f32 list"
  mask :: u64
  rd :: u64
  wr :: u64

definition is_power_of_two :: "usize \<Rightarrow> bool" where
  "is_power_of_two n = (n \<noteq> 0 \<and> n = 2 ^ (bits n - 1))"

text \<open>Collecting \<open>capacity\<close> cells of four bytes panics beyond \<open>isize::MAX\<close> bytes.\<close>

definition spsc_ring_buffer :: "usize \<Rightarrow> (ring, RingBufferError) res" where
  "spsc_ring_buffer capacity =
     (if capacity < 2 then Err CapacityTooSmall
      else if \<not> is_power_of_two capacity then Err CapacityNotPowerOfTwo
      else if isize_max < 4 * capacity then Panic
      else Ok \<lparr>samples = replicate capacity (fzero F32), mask = of_nat (capacity - 1),
               rd = 0, wr = 0\<rparr>)"

definition capacity :: "ring \<Rightarrow> usize" where
  "capacity r = length (samples r)"

definition slot :: "ring \<Rightarrow> u64 \<Rightarrow> nat" where
  "slot r i = unat (i AND mask r)"

definition producer_available :: "ring \<Rightarrow> usize" where
  "producer_available r = unat (of_nat (capacity r) - (wr r - rd r) :: u64)"

definition consumer_available :: "ring \<Rightarrow> usize" where
  "consumer_available r = unat (wr r - rd r)"

fun store_slots :: "ring \<Rightarrow> u64 \<Rightarrow> f32 list \<Rightarrow> f32 list \<Rightarrow> f32 list" where
  "store_slots r w [] s = s"
| "store_slots r w (x # xs) s = store_slots r (w + 1) xs (s[slot r w := x])"

definition push_slice :: "f32 list \<Rightarrow> ring \<Rightarrow> usize \<times> ring" where
  "push_slice input r =
     (let w = wr r; rr = rd r;
          count = min (length input) (unat (of_nat (capacity r) - (w - rr) :: u64))
      in (count, r\<lparr>samples := store_slots r w (take count input) (samples r),
                   wr := w + of_nat count\<rparr>))"

definition push :: "f32 \<Rightarrow> ring \<Rightarrow> bool \<times> ring" where
  "push x r =
     (if wr r - rd r = of_nat (capacity r) then (False, r)
      else (True, r\<lparr>samples := (samples r)[slot r (wr r) := x], wr := wr r + 1\<rparr>))"

definition load_slots :: "ring \<Rightarrow> u64 \<Rightarrow> nat \<Rightarrow> f32 list" where
  "load_slots r i n = map (\<lambda>k. samples r ! slot r (i + of_nat k)) [0..<n]"

text \<open>\<open>pop_slice\<close> overwrites a prefix of the caller's buffer.\<close>

definition pop_slice :: "f32 list \<Rightarrow> ring \<Rightarrow> usize \<times> f32 list \<times> ring" where
  "pop_slice out r =
     (let rr = rd r; w = wr r;
          count = min (length out) (unat (w - rr))
      in (count, load_slots r rr count @ drop count out, r\<lparr>rd := rr + of_nat count\<rparr>))"

definition pop :: "ring \<Rightarrow> f32 option \<times> ring" where
  "pop r =
     (if wr r = rd r then (None, r)
      else (Some (samples r ! slot r (rd r)), r\<lparr>rd := rd r + 1\<rparr>))"

section \<open>Invariant and abstraction\<close>

definition ring_inv :: "ring \<Rightarrow> bool" where
  "ring_inv r \<longleftrightarrow>
     (\<exists>k. 0 < k \<and> k < 64 \<and> length (samples r) = 2 ^ k \<and> mask r = Bit_Operations.mask k)
     \<and> unat (wr r - rd r) \<le> length (samples r)"

definition contents :: "ring \<Rightarrow> f32 list" where
  "contents r = load_slots r (rd r) (unat (wr r - rd r))"

section \<open>Slots\<close>

lemma mod_add_inj:
  fixes a i j n :: nat
  assumes "(a + i) mod n = (a + j) mod n" "i < n" "j < n"
  shows "i = j"
proof -
  have "\<not> x < y" if "(a + x) mod n = (a + y) mod n" "y < n" for x y
  proof
    assume "x < y"
    then have "n dvd (a + y) - (a + x)"
      using that(1) mod_eq_dvd_iff_nat [of "a + x" "a + y" n] by simp
    then have "n \<le> y - x" using \<open>x < y\<close> by (simp add: dvd_imp_le)
    then show False using that(2) by simp
  qed
  from this [of i j] this [of j i] assms show ?thesis by simp
qed

lemma slot_mod:
  assumes "mask r = Bit_Operations.mask k"
  shows "slot r i = unat i mod 2 ^ k"
  unfolding slot_def assms take_bit_eq_mask [symmetric] unsigned_take_bit_eq
  by (rule take_bit_eq_mod)

lemma unat_add_mod:
  fixes w :: u64
  assumes "k < 64"
  shows "unat (w + of_nat i) mod 2 ^ k = (unat w + i) mod 2 ^ k"
proof -
  have d: "(2::nat) ^ k dvd 2 ^ 64" using assms by (intro le_imp_power_dvd) simp
  have "unat (w + of_nat i) = (unat w + i) mod 2 ^ 64"
    by (simp add: unat_word_ariths unat_of_nat mod_add_right_eq)
  then show ?thesis using d by (simp add: mod_mod_cancel)
qed

lemma slot_add:
  assumes "mask r = Bit_Operations.mask k" "k < 64"
  shows "slot r (w + of_nat i) = (unat w + i) mod 2 ^ k"
  using assms by (simp add: slot_mod unat_add_mod)

lemma ring_invE:
  assumes "ring_inv r"
  obtains k where "0 < k" "k < 64" "length (samples r) = 2 ^ k" "mask r = Bit_Operations.mask k"
    "unat (wr r - rd r) \<le> 2 ^ k"
  using assms by (auto simp: ring_inv_def)

lemma slot_in_bounds: "ring_inv r \<Longrightarrow> slot r i < length (samples r)"
  by (erule ring_invE) (simp add: slot_mod)

lemma slot_cong: "mask r' = mask r \<Longrightarrow> slot r' = slot r"
  by (simp add: slot_def fun_eq_iff)

lemma store_slots_length [simp]: "length (store_slots r w xs s) = length s"
  by (induction r w xs s rule: store_slots.induct) auto

lemma store_slots_other:
  assumes "\<And>i. i < length xs \<Longrightarrow> j \<noteq> slot r (w + of_nat i)"
  shows "store_slots r w xs s ! j = s ! j"
  using assms
proof (induction r w xs s rule: store_slots.induct)
  case (2 r w x xs s)
  have "j \<noteq> slot r (w + 1 + of_nat i)" if "i < length xs" for i
    using "2.prems" [of "Suc i"] that by (simp add: add.assoc)
  moreover have "j \<noteq> slot r w" using "2.prems" [of 0] by simp
  ultimately show ?case using "2.IH" by simp
qed simp

lemma store_slots_at:
  assumes m: "mask r = Bit_Operations.mask k" "k < 64" and len: "length s = 2 ^ k"
    and "length xs \<le> 2 ^ k" "i < length xs"
  shows "store_slots r w xs s ! slot r (w + of_nat i) = xs ! i"
  using assms(3-)
proof (induction xs arbitrary: w s i)
  case (Cons x xs)
  show ?case
  proof (cases i)
    case 0
    have "slot r w \<noteq> slot r (w + 1 + of_nat j)" if "j < length xs" for j
    proof
      assume "slot r w = slot r (w + 1 + of_nat j)"
      then have "slot r (w + of_nat 0) = slot r (w + of_nat (Suc j))" by (simp add: add.assoc)
      then have "(unat w + 0) mod 2 ^ k = (unat w + Suc j) mod 2 ^ k"
        using m by (simp only: slot_add)
      then have "0 = Suc j" by (rule mod_add_inj) (use that Cons.prems in auto)
      then show False by simp
    qed
    then have "store_slots r (w + 1) xs (s[slot r w := x]) ! slot r w = s[slot r w := x] ! slot r w"
      by (intro store_slots_other) auto
    then show ?thesis using 0 Cons.prems(1) m by (simp add: slot_mod)
  next
    case (Suc j)
    then have "store_slots r (w + 1) xs (s[slot r w := x]) ! slot r (w + 1 + of_nat j) = xs ! j"
      using Cons.prems by (intro Cons.IH) auto
    then show ?thesis using Suc by (simp add: add.assoc)
  qed
qed simp

section \<open>Refinement to a bounded queue\<close>

lemma length_contents [simp]: "length (contents r) = consumer_available r"
  by (simp add: contents_def load_slots_def consumer_available_def)

lemma contents_nth:
  "i < consumer_available r \<Longrightarrow> contents r ! i = samples r ! slot r (rd r + of_nat i)"
  by (simp add: contents_def load_slots_def consumer_available_def)

lemma consumer_available_le: "ring_inv r \<Longrightarrow> consumer_available r \<le> capacity r"
  by (simp add: ring_inv_def consumer_available_def capacity_def)

lemma capacity_small: "ring_inv r \<Longrightarrow> capacity r < 2 ^ 64"
  by (erule ring_invE) (metis capacity_def one_less_numeral_iff power_strict_increasing semiring_norm(76))

lemma unat_of_capacity: "ring_inv r \<Longrightarrow> unat (of_nat (capacity r) :: u64) = capacity r"
  using capacity_small [of r] by (simp add: unat_of_nat)

lemma free_space:
  assumes "ring_inv r"
  shows "unat (of_nat (capacity r) - (wr r - rd r) :: u64) = capacity r - consumer_available r"
proof -
  have "wr r - rd r \<le> (of_nat (capacity r) :: u64)"
    using consumer_available_le [OF assms] unat_of_capacity [OF assms]
    by (simp add: word_le_nat_alt consumer_available_def)
  then show ?thesis
    using unat_of_capacity [OF assms] by (simp add: unat_sub consumer_available_def)
qed

lemma producer_available_eq:
  "ring_inv r \<Longrightarrow> producer_available r = capacity r - consumer_available r"
  by (simp add: producer_available_def free_space)

text \<open>Publishing \<open>count\<close> samples: what both push operations do to the state.\<close>

lemma wr_eq: "wr r = rd r + of_nat (consumer_available r)"
  by (simp add: consumer_available_def)

lemma publish_available:
  assumes "ring_inv r" "consumer_available r + length xs \<le> capacity r"
  shows "unat (wr r + of_nat (length xs) - rd r) = consumer_available r + length xs"
proof -
  have small: "consumer_available r + length xs < 2 ^ 64"
    using le_less_trans [OF assms(2) capacity_small [OF assms(1)]] .
  have "wr r + of_nat (length xs) - rd r = of_nat (consumer_available r + length xs)"
    by (simp add: wr_eq)
  also have "unat (of_nat (consumer_available r + length xs) :: u64) = consumer_available r + length xs"
    using small by (intro unat_of_nat_u64) (simp add: usize_bound_def)
  finally show ?thesis .
qed

lemma publish_nth:
  assumes inv: "ring_inv r" and room: "consumer_available r + length xs \<le> capacity r"
    and i: "i < consumer_available r + length xs"
  shows "store_slots r (wr r) xs (samples r) ! slot r (rd r + of_nat i) = (contents r @ xs) ! i"
proof -
  obtain k where k: "k < 64" "length (samples r) = 2 ^ k" "mask r = Bit_Operations.mask k"
    using inv by (rule ring_invE)
  define a where "a = consumer_available r"
  have cap: "a + length xs \<le> 2 ^ k" using room k(2) by (simp add: a_def capacity_def)
  have at: "wr r + of_nat j = rd r + of_nat (a + j)" for j
    unfolding wr_eq [of r] a_def by (simp add: add.assoc)
  show ?thesis
  proof (cases "i < a")
    case True
    have "slot r (rd r + of_nat i) \<noteq> slot r (wr r + of_nat j)" if "j < length xs" for j
    proof
      assume "slot r (rd r + of_nat i) = slot r (wr r + of_nat j)"
      then have "(unat (rd r) + i) mod 2 ^ k = (unat (rd r) + (a + j)) mod 2 ^ k"
        unfolding at slot_add [OF k(3,1)] .
      then have "i = a + j" by (rule mod_add_inj) (use that True cap in linarith)+
      then show False using True by simp
    qed
    then have "store_slots r (wr r) xs (samples r) ! slot r (rd r + of_nat i)
        = samples r ! slot r (rd r + of_nat i)"
      by (rule store_slots_other)
    then show ?thesis using True contents_nth [of i r] by (simp add: nth_append a_def)
  next
    case False
    define j where "j = i - a"
    have j: "i = a + j" "j < length xs" using i False by (auto simp: j_def a_def)
    have "store_slots r (wr r) xs (samples r) ! slot r (wr r + of_nat j) = xs ! j"
      using cap j k by (intro store_slots_at [OF k(3,1,2)]) auto
    then show ?thesis unfolding at using j by (simp add: nth_append a_def)
  qed
qed

lemma publish:
  assumes inv: "ring_inv r" and room: "consumer_available r + length xs \<le> capacity r"
    and r': "r' = r\<lparr>samples := store_slots r (wr r) xs (samples r), wr := wr r + of_nat (length xs)\<rparr>"
  shows "ring_inv r'" "contents r' = contents r @ xs" "capacity r' = capacity r"
proof -
  have av: "consumer_available r' = consumer_available r + length xs"
    using publish_available [OF inv room] by (simp add: consumer_available_def r')
  show "ring_inv r'"
    using inv room publish_available [OF inv room] by (simp add: ring_inv_def r' capacity_def)
  show "capacity r' = capacity r" by (simp add: r' capacity_def)
  show "contents r' = contents r @ xs"
  proof (rule nth_equalityI)
    show "length (contents r') = length (contents r @ xs)" using av by simp
    fix i assume "i < length (contents r')"
    then have i: "i < consumer_available r'" by simp
    have "slot r' = slot r" by (rule slot_cong) (simp add: r')
    then have "contents r' ! i = store_slots r (wr r) xs (samples r) ! slot r (rd r + of_nat i)"
      using contents_nth [OF i] by (simp add: r')
    then show "contents r' ! i = (contents r @ xs) ! i"
      using publish_nth [OF inv room] i av by simp
  qed
qed

text \<open>Releasing \<open>n\<close> samples: what both pop operations do.\<close>

lemma release:
  assumes inv: "ring_inv r" and n: "n \<le> consumer_available r"
    and r': "r' = r\<lparr>rd := rd r + of_nat n\<rparr>"
  shows "ring_inv r'" "contents r' = drop n (contents r)" "capacity r' = capacity r"
    and "load_slots r (rd r) n = take n (contents r)"
proof -
  have small: "consumer_available r < 2 ^ 64"
    using consumer_available_le [OF inv] capacity_small [OF inv] by simp
  have "wr r' - rd r' = (wr r - rd r) - of_nat n" by (simp add: r')
  moreover have "of_nat n \<le> wr r - rd r"
    using n small by (simp add: word_le_nat_alt unat_of_nat consumer_available_def)
  ultimately have av: "consumer_available r' = consumer_available r - n"
    using n small by (simp add: consumer_available_def unat_sub unat_of_nat)
  show "ring_inv r'"
    using inv av n by (auto simp: ring_inv_def r' consumer_available_def)
  show "capacity r' = capacity r" by (simp add: r' capacity_def)
  show "contents r' = drop n (contents r)"
  proof (rule nth_equalityI)
    show "length (contents r') = length (drop n (contents r))" using av by simp
    fix i assume "i < length (contents r')"
    then have i: "i < consumer_available r - n" using av by simp
    then have "contents r' ! i = samples r ! slot r (rd r + of_nat (n + i))"
      using contents_nth [of i r'] av by (simp add: r' slot_cong [of r' r] add.assoc) (simp add: r' slot_def)
    then show "contents r' ! i = drop n (contents r) ! i"
      using i by (simp add: contents_nth)
  qed
  show "load_slots r (rd r) n = take n (contents r)"
    using n by (auto simp: load_slots_def contents_def consumer_available_def take_map)
qed

section \<open>The queue interface\<close>

text \<open>
  What the PCM streams and the router rely on: a bounded queue seen through \<open>queue\<close>, whose two
  slice operations move as much as fits. \<open>push_all\<close> and \<open>pop_all\<close> are the form in which the
  clients use it, after they have checked the room or the fill level.
\<close>

locale bounded_queue =
  fixes queue :: "'q \<Rightarrow> 'a list"
    and cap :: "'q \<Rightarrow> nat"
    and inv :: "'q \<Rightarrow> bool"
    and free :: "'q \<Rightarrow> nat"
    and fill :: "'q \<Rightarrow> nat"
    and push_sl :: "'a list \<Rightarrow> 'q \<Rightarrow> nat \<times> 'q"
    and pop_sl :: "'a list \<Rightarrow> 'q \<Rightarrow> nat \<times> 'a list \<times> 'q"
  assumes bounded: "inv q \<Longrightarrow> length (queue q) \<le> cap q"
    and fill: "fill q = length (queue q)"
    and free: "inv q \<Longrightarrow> free q = cap q - length (queue q)"
    and push_sl: "inv q \<Longrightarrow> push_sl xs q = (n, q') \<Longrightarrow>
      n = min (length xs) (cap q - length (queue q)) \<and> inv q' \<and> cap q' = cap q
      \<and> queue q' = queue q @ take n xs"
    and pop_sl: "inv q \<Longrightarrow> pop_sl out q = (n, out', q') \<Longrightarrow>
      n = min (length out) (length (queue q)) \<and> inv q' \<and> cap q' = cap q
      \<and> queue q' = drop n (queue q) \<and> out' = take n (queue q) @ drop n out"
begin

lemma fill_le_cap: "inv q \<Longrightarrow> fill q \<le> cap q"
  by (simp add: fill bounded)

lemma used_eq: "inv q \<Longrightarrow> cap q - free q = length (queue q)"
  using bounded by (simp add: free)

lemma push_all:
  assumes "inv q" "length xs \<le> free q" "push_sl xs q = (n, q')"
  shows "n = length xs \<and> inv q' \<and> cap q' = cap q \<and> queue q' = queue q @ xs"
  using push_sl [OF assms(1,3)] assms(2) free [OF assms(1)] by simp

lemma pop_all:
  assumes "inv q" "length out \<le> fill q" "pop_sl out q = (n, out', q')"
  shows "n = length out \<and> inv q' \<and> cap q' = cap q \<and> queue q' = drop (length out) (queue q)
    \<and> out' = take (length out) (queue q)"
  using pop_sl [OF assms(1,3)] assms(2) by (simp add: fill)

lemma pop_after_push:
  assumes "inv q" "queue q = []" "length xs \<le> cap q" "length out = length xs"
    and "push_sl xs q = (n, q1)" "pop_sl out q1 = (k, out', q2)"
  shows "out' = xs \<and> queue q2 = []"
proof -
  have 1: "inv q1 \<and> queue q1 = xs"
    using push_all [OF assms(1) _ assms(5)] assms(2,3) by (simp add: free assms(1))
  then show ?thesis using pop_all [OF _ _ assms(6)] assms(4) by (simp add: fill)
qed

end

lemma push_slice_refines:
  assumes inv: "ring_inv r" and eq: "push_slice xs r = (n, r')"
  shows "n = min (length xs) (capacity r - length (contents r))" "ring_inv r'"
    "capacity r' = capacity r" "contents r' = contents r @ take n xs"
proof -
  show n: "n = min (length xs) (capacity r - length (contents r))"
    using eq free_space [OF inv] by (simp add: push_slice_def Let_def)
  have r': "r' = r\<lparr>samples := store_slots r (wr r) (take n xs) (samples r),
      wr := wr r + of_nat (length (take n xs))\<rparr>"
    using eq by (auto simp: push_slice_def Let_def)
  have "consumer_available r + length (take n xs) \<le> capacity r"
    using consumer_available_le [OF inv] n by simp
  then show "ring_inv r'" "capacity r' = capacity r" "contents r' = contents r @ take n xs"
    using publish [OF inv _ r'] by auto
qed

lemma pop_slice_refines:
  assumes inv: "ring_inv r" and eq: "pop_slice out r = (n, out', r')"
  shows "n = min (length out) (length (contents r))" "ring_inv r'" "capacity r' = capacity r"
    "contents r' = drop n (contents r)" "out' = take n (contents r) @ drop n out"
proof -
  show n: "n = min (length out) (length (contents r))"
    using eq by (simp add: pop_slice_def Let_def consumer_available_def)
  have r': "r' = r\<lparr>rd := rd r + of_nat n\<rparr>" and out': "out' = load_slots r (rd r) n @ drop n out"
    using eq by (auto simp: pop_slice_def Let_def)
  have "n \<le> consumer_available r" using n by simp
  then show "ring_inv r'" "capacity r' = capacity r" "contents r' = drop n (contents r)"
    "out' = take n (contents r) @ drop n out"
    using release [OF inv _ r'] out' by auto
qed

interpretation rq: bounded_queue contents capacity ring_inv producer_available consumer_available
    push_slice pop_slice
proof (unfold_locales, goal_cases)
  case (1 q) then show ?case by (simp add: consumer_available_le)
next
  case (2 q) show ?case by simp
next
  case (3 q) then show ?case by (simp add: producer_available_eq)
next
  case (4 q xs n q') then show ?case using push_slice_refines by metis
next
  case (5 q out n out' q') then show ?case using pop_slice_refines by metis
qed

lemma push_refines:
  assumes inv: "ring_inv r" and eq: "push x r = (b, r')"
  shows "b = (length (contents r) < capacity r)" "ring_inv r'" "capacity r' = capacity r"
    "contents r' = (if b then contents r @ [x] else contents r)"
proof -
  have full: "wr r - rd r = of_nat (capacity r) \<longleftrightarrow> consumer_available r = capacity r"
    using unat_of_capacity [OF inv] by (metis consumer_available_def word_unat_eq_iff)
  have le: "consumer_available r \<le> capacity r" by (rule consumer_available_le [OF inv])
  show b: "b = (length (contents r) < capacity r)"
    using eq full le by (auto simp: push_def split: if_splits)
  have "ring_inv r' \<and> capacity r' = capacity r
      \<and> contents r' = (if b then contents r @ [x] else contents r)"
  proof (cases b)
    case True
    then have "r' = r\<lparr>samples := store_slots r (wr r) [x] (samples r),
        wr := wr r + of_nat (length [x])\<rparr>"
      using eq by (auto simp: push_def split: if_splits)
    then show ?thesis using publish [OF inv, of "[x]"] True b by simp
  next
    case False
    then show ?thesis using eq inv by (auto simp: push_def split: if_splits)
  qed
  then show "ring_inv r'" "capacity r' = capacity r"
    "contents r' = (if b then contents r @ [x] else contents r)" by auto
qed

lemma pop_refines:
  assumes inv: "ring_inv r" and eq: "pop r = (x, r')"
  shows "x = (case contents r of [] \<Rightarrow> None | y # _ \<Rightarrow> Some y)" "ring_inv r'"
    "capacity r' = capacity r" "contents r' = tl (contents r)"
proof -
  have empty: "wr r = rd r \<longleftrightarrow> consumer_available r = 0"
    by (simp add: consumer_available_def unat_eq_zero)
  have "x = (case contents r of [] \<Rightarrow> None | y # _ \<Rightarrow> Some y) \<and> ring_inv r'
      \<and> capacity r' = capacity r \<and> contents r' = tl (contents r)"
  proof (cases "wr r = rd r")
    case True
    then have "contents r = []" using empty by (metis length_contents length_0_conv)
    then show ?thesis using True eq inv by (auto simp: pop_def)
  next
    case False
    then have n: "1 \<le> consumer_available r" using empty by simp
    have r': "r' = r\<lparr>rd := rd r + of_nat 1\<rparr>" and x: "x = Some (samples r ! slot r (rd r))"
      using eq False by (auto simp: pop_def)
    have "contents r ! 0 = samples r ! slot r (rd r)"
      using n contents_nth [of 0 r] by simp
    moreover have "contents r \<noteq> []" using n by (metis length_contents list.size(3) not_one_le_zero)
    ultimately show ?thesis
      using release [OF inv n r'] x by (cases "contents r") (auto simp: drop_Suc)
  qed
  then show "x = (case contents r of [] \<Rightarrow> None | y # _ \<Rightarrow> Some y)" "ring_inv r'"
    "capacity r' = capacity r" "contents r' = tl (contents r)" by auto
qed

lemma spsc_ring_buffer_Ok:
  assumes "spsc_ring_buffer c = Ok r"
  shows "ring_inv r" "capacity r = c" "contents r = []"
proof -
  have c: "2 \<le> c" "c = 2 ^ (bits c - 1)" "4 * c \<le> isize_max"
    and r: "r = \<lparr>samples = replicate c (fzero F32), mask = of_nat (c - 1), rd = 0, wr = 0\<rparr>"
    using assms by (auto simp: spsc_ring_buffer_def is_power_of_two_def split: if_splits)
  define k where "k = bits c - 1"
  have ck: "c = 2 ^ k" using c(2) by (simp add: k_def)
  have "k \<noteq> 0" using c(1) ck by (cases k) auto
  moreover have "(2::nat) ^ k < 2 ^ 64" using c(3) ck by (simp add: isize_max_def)
  then have "k < 64" by (rule pow2_less)
  moreover have "of_nat (c - 1) = (Bit_Operations.mask k :: u64)"
    by (simp add: ck mask_eq_exp_minus_1 of_nat_diff)
  ultimately show "ring_inv r" by (auto simp: ring_inv_def r ck intro!: exI [of _ k])
  show "capacity r = c" "contents r = []"
    by (simp_all add: r capacity_def contents_def load_slots_def)
qed

section \<open>The properties of the ring\<close>

text \<open>\<open>spsc_ring_buffer\<close> accepts exactly the powers of two from 2 on (up to the allocation
  limit), reports the two errors for the other capacities, and returns an empty ring of that
  capacity which satisfies the invariant.\<close>

theorem spsc_ring_buffer_exact:
  "case spsc_ring_buffer c of
     Ok r \<Rightarrow> (\<exists>k>0. c = 2 ^ k) \<and> ring_inv r \<and> capacity r = c \<and> contents r = []
       \<and> producer_available r = c
   | Err e \<Rightarrow> e = (if c < 2 then CapacityTooSmall else CapacityNotPowerOfTwo) \<and> (\<nexists>k. 0 < k \<and> c = 2 ^ k)
   | Panic \<Rightarrow> isize_max < 4 * c"
proof (cases "spsc_ring_buffer c")
  case (Ok r)
  note r = spsc_ring_buffer_Ok [OF this]
  from r(1) obtain k where "0 < k" "length (samples r) = 2 ^ k" by (rule ring_invE)
  moreover have "producer_available r = c" using r by (simp add: rq.free)
  ultimately show ?thesis using Ok r by (auto simp: capacity_def)
next
  case (Err e)
  have "c = 2 ^ (bits c - 1)" if "c = 2 ^ k" for k
  proof -
    have "bits c = Suc k" by (rule bits_eqI) (simp_all add: that)
    then show ?thesis using that by simp
  qed
  moreover have "\<not> c < 2" if "0 < k" "c = 2 ^ k" for k
    using that self_le_power [of 2 k] by (cases k) auto
  ultimately show ?thesis
    using Err by (auto simp: spsc_ring_buffer_def is_power_of_two_def split: if_splits)
next
  case Panic
  then show ?thesis by (auto simp: spsc_ring_buffer_def split: if_splits)
qed

text \<open>
  A history of one-call-at-a-time uses: what the producer's calls accepted and what the
  consumer's calls delivered, in order.
\<close>

datatype ring_call = PushSlice "f32 list" | Push f32 | PopSlice "f32 list" | Pop

fun ring_calls :: "ring_call list \<Rightarrow> ring \<Rightarrow> f32 list \<times> f32 list \<times> ring" where
  "ring_calls [] r = ([], [], r)"
| "ring_calls (PushSlice xs # cs) r =
     (let (n, r1) = push_slice xs r; (a, d, r2) = ring_calls cs r1 in (take n xs @ a, d, r2))"
| "ring_calls (Push x # cs) r =
     (let (b, r1) = push x r; (a, d, r2) = ring_calls cs r1 in ((if b then [x] else []) @ a, d, r2))"
| "ring_calls (PopSlice out # cs) r =
     (let (n, out', r1) = pop_slice out r; (a, d, r2) = ring_calls cs r1 in (a, take n out' @ d, r2))"
| "ring_calls (Pop # cs) r =
     (let (y, r1) = pop r; (a, d, r2) = ring_calls cs r1
      in (a, (case y of None \<Rightarrow> [] | Some v \<Rightarrow> [v]) @ d, r2))"

lemma ring_calls_contents:
  "ring_inv r \<Longrightarrow> ring_calls cs r = (a, d, r') \<Longrightarrow>
     ring_inv r' \<and> capacity r' = capacity r \<and> contents r @ a = d @ contents r'"
proof (induction cs arbitrary: r a d r')
  case (Cons c cs)
  note inv = \<open>ring_inv r\<close> and eq = \<open>ring_calls (c # cs) r = (a, d, r')\<close>
  show ?case
  proof (cases c)
    case (PushSlice xs)
    obtain n r1 where p: "push_slice xs r = (n, r1)" by (cases "push_slice xs r") simp
    obtain a1 d1 r2 where q: "ring_calls cs r1 = (a1, d1, r2)" by (cases "ring_calls cs r1") simp
    note f = push_slice_refines [OF inv p]
    show ?thesis using Cons.IH [OF f(2) q] f(3,4) eq p q PushSlice by simp
  next
    case (Push x)
    obtain b r1 where p: "push x r = (b, r1)" by (cases "push x r") simp
    obtain a1 d1 r2 where q: "ring_calls cs r1 = (a1, d1, r2)" by (cases "ring_calls cs r1") simp
    note f = push_refines [OF inv p]
    show ?thesis using Cons.IH [OF f(2) q] f(3,4) eq p q Push by (cases b) simp_all
  next
    case (PopSlice out)
    obtain n out' r1 where p: "pop_slice out r = (n, out', r1)" by (cases "pop_slice out r") simp
    obtain a1 d1 r2 where q: "ring_calls cs r1 = (a1, d1, r2)" by (cases "ring_calls cs r1") simp
    note f = pop_slice_refines [OF inv p]
    have "contents r = take n out' @ contents r1" using f(1,4,5) by simp
    then show ?thesis using Cons.IH [OF f(2) q] f(3) eq p q PopSlice by auto
  next
    case Pop
    obtain y r1 where p: "pop r = (y, r1)" by (cases "pop r") simp
    obtain a1 d1 r2 where q: "ring_calls cs r1 = (a1, d1, r2)" by (cases "ring_calls cs r1") simp
    note f = pop_refines [OF inv p]
    have "contents r = (case y of None \<Rightarrow> [] | Some v \<Rightarrow> [v]) @ contents r1"
      using f(1,4) by (cases "contents r") simp_all
    then show ?thesis using Cons.IH [OF f(2) q] f(3) eq p q Pop by auto
  qed
qed simp

text \<open>C15: The ring refines a bounded queue of samples. A slice push appends the longest prefix that
  fits and reports its length; a slice pop removes the longest prefix the output has room for,
  copies it to the front of the output and leaves the rest of the output untouched; the single
  operations are the same for one sample. All keep the invariant and the capacity.\<close>

theorem ring_refines_bounded_queue:
  assumes "ring_inv r"
  shows "(let (n, r') = push_slice xs r in
      n = min (length xs) (capacity r - length (contents r)) \<and> ring_inv r'
      \<and> capacity r' = capacity r \<and> contents r' = contents r @ take n xs)
    \<and> (let (b, r') = push x r in
      b = (length (contents r) < capacity r) \<and> ring_inv r'
      \<and> capacity r' = capacity r \<and> contents r' = (if b then contents r @ [x] else contents r))
    \<and> (let (n, out', r') = pop_slice out r in
      n = min (length out) (length (contents r)) \<and> ring_inv r' \<and> capacity r' = capacity r
      \<and> contents r' = drop n (contents r) \<and> out' = take n (contents r) @ drop n out)
    \<and> (let (y, r') = pop r in
      y = (case contents r of [] \<Rightarrow> None | z # _ \<Rightarrow> Some z) \<and> ring_inv r'
      \<and> capacity r' = capacity r \<and> contents r' = tl (contents r))"
proof (intro conjI, goal_cases)
  case 1
  obtain n r' where p: "push_slice xs r = (n, r')" by (cases "push_slice xs r") simp
  show ?case unfolding p Let_def split_conv using push_slice_refines [OF assms p] by blast
next
  case 2
  obtain b r' where p: "push x r = (b, r')" by (cases "push x r") simp
  show ?case unfolding p Let_def split_conv using push_refines [OF assms p] by blast
next
  case 3
  obtain n out' r' where p: "pop_slice out r = (n, out', r')" by (cases "pop_slice out r") simp
  show ?case unfolding p Let_def split_conv using pop_slice_refines [OF assms p] by blast
next
  case 4
  obtain y r' where p: "pop r = (y, r')" by (cases "pop r") simp
  show ?case unfolding p Let_def split_conv using pop_refines [OF assms p] by blast
qed

text \<open>A ring of two cells whose counters are about to wrap, holding one sample.\<close>

definition ring_at_wrap :: ring where
  "ring_at_wrap = \<lparr>samples = [fzero F32, Inf False], mask = 1, rd = - 1, wr = 0\<rparr>"

lemma ring_inv_at_wrap: "ring_inv ring_at_wrap"
  unfolding ring_inv_def ring_at_wrap_def by (intro conjI exI [of _ 1]) (simp_all add: mask_eq_exp_minus_1)

theorem ring_refines_bounded_queue_witness:
  "(let (n, r') = push_slice [NaN, NaN, NaN] ring_at_wrap in
      n = 1 \<and> contents r' = [Inf False, NaN])
   \<and> (let (y, r') = pop ring_at_wrap in y = Some (Inf False) \<and> contents r' = [])"
proof -
  have c: "contents ring_at_wrap = [Inf False]" "capacity ring_at_wrap = 2"
    by (simp_all add: ring_at_wrap_def contents_def load_slots_def slot_def capacity_def)
  show ?thesis
    using ring_refines_bounded_queue [OF ring_inv_at_wrap, of "[NaN, NaN, NaN]" NaN "[]"]
    by (auto simp: c split: prod.splits)
qed

text \<open>From a new ring, whatever the sequence of pushes and pops, no sample is lost, repeated or
  reordered: the samples accepted from the producer are exactly the samples delivered to the
  consumer followed by those still in the ring, and at most \<open>capacity\<close> of them are in flight.\<close>

theorem ring_delivers_in_order:
  assumes "spsc_ring_buffer c = Ok r" "ring_calls cs r = (accepted, delivered, r')"
  shows "accepted = delivered @ contents r' \<and> length accepted \<le> length delivered + c"
  using ring_calls_contents [OF _ assms(2)] spsc_ring_buffer_Ok [OF assms(1)] rq.bounded [of r']
  by auto

theorem ring_delivers_in_order_witness:
  "case spsc_ring_buffer 2 of Ok r \<Rightarrow>
     (case ring_calls [Push NaN, PushSlice [Inf True, NaN], Pop, PopSlice [NaN]] r of
        (a, d, r') \<Rightarrow> a = [NaN, Inf True] \<and> a = d @ contents r' \<and> length a \<le> length d + 2)
   | Err e \<Rightarrow> False | Panic \<Rightarrow> False"
proof -
  define r where "r = \<lparr>samples = replicate 2 (fzero F32), mask = 1, rd = 0, wr = 0\<rparr>"
  have r: "spsc_ring_buffer 2 = Ok r"
    by (simp add: r_def spsc_ring_buffer_def is_power_of_two_def isize_max_def)
  obtain a d r' where cs: "ring_calls [Push NaN, PushSlice [Inf True, NaN], Pop, PopSlice [NaN]] r = (a, d, r')"
    by (cases "ring_calls [Push NaN, PushSlice [Inf True, NaN], Pop, PopSlice [NaN]] r") simp
  have "a = [NaN, Inf True]"
    using cs by (auto simp: r_def push_def push_slice_def capacity_def Let_def split: prod.splits)
  then show ?thesis using ring_delivers_in_order [OF r cs] by (simp add: r cs del: ring_calls.simps)
qed

end
