(* ===== verification/RingConcurrency.thy ===== *)
theory RingConcurrency
  imports Ring "HOL-Library.Sublist"
begin

text \<open>
  The producer and the consumer thread of \<open>crates/vcable-core/src/ring.rs\<close>, interleaved at the
  granularity of single loads and stores. Each atomic load, each slot access and each publishing
  store of \<open>push_slice\<close> and \<open>pop_slice\<close> is one step; the scheduler is arbitrary. (\<open>push\<close> and
  \<open>pop\<close> make the same accesses as the slice operations on one sample.) Steps are interleaved
  sequentially consistently; that the accesses to the slots never conflict, which is what the
  acquire/release pairs need to justify this view, is proved here rather than assumed.

  \<open>sent\<close> and \<open>received\<close> are history variables: all samples published and all samples whose slots
  have been released, since the ring was created.
\<close>

section \<open>Threads\<close>

datatype ppc =
    PIdle
  | PLoadedWrite "f32 list" u64        \<comment> \<open>input, loaded \<open>write\<close>\<close>
  | PWriting "f32 list" u64 nat        \<comment> \<open>\<open>input[..count]\<close>, \<open>write\<close>, slots stored so far\<close>

datatype cpc =
    CIdle
  | CLoadedRead nat u64                \<comment> \<open>length of \<open>output\<close>, loaded \<open>read\<close>\<close>
  | CReading nat u64 "f32 list"        \<comment> \<open>\<open>count\<close>, \<open>read\<close>, samples copied so far\<close>

record spsc =
  shared :: ring
  ppc :: ppc
  cpc :: cpc
  sent :: "f32 list"
  received :: "f32 list"

definition spsc_init :: "ring \<Rightarrow> spsc" where
  "spsc_init r = \<lparr>shared = r, ppc = PIdle, cpc = CIdle, sent = [], received = []\<rparr>"

inductive spsc_step :: "spsc \<Rightarrow> spsc \<Rightarrow> bool" where
  p_begin: "ppc s = PIdle \<Longrightarrow>
    spsc_step s (s\<lparr>ppc := PLoadedWrite input (wr (shared s))\<rparr>)"
| p_load: "ppc s = PLoadedWrite input w \<Longrightarrow>
    count = min (length input) (unat (of_nat (capacity (shared s)) - (w - rd (shared s)) :: u64)) \<Longrightarrow>
    spsc_step s (s\<lparr>ppc := PWriting (take count input) w 0\<rparr>)"
| p_store: "ppc s = PWriting xs w i \<Longrightarrow> i < length xs \<Longrightarrow>
    spsc_step s (s\<lparr>ppc := PWriting xs w (Suc i),
      shared := (shared s)\<lparr>samples := (samples (shared s))[slot (shared s) (w + of_nat i) := xs ! i]\<rparr>\<rparr>)"
| p_publish: "ppc s = PWriting xs w (length xs) \<Longrightarrow>
    spsc_step s (s\<lparr>ppc := PIdle, sent := sent s @ xs,
      shared := (shared s)\<lparr>wr := w + of_nat (length xs)\<rparr>\<rparr>)"
| c_begin: "cpc s = CIdle \<Longrightarrow>
    spsc_step s (s\<lparr>cpc := CLoadedRead n (rd (shared s))\<rparr>)"
| c_load: "cpc s = CLoadedRead n r \<Longrightarrow> count = min n (unat (wr (shared s) - r)) \<Longrightarrow>
    spsc_step s (s\<lparr>cpc := CReading count r []\<rparr>)"
| c_copy: "cpc s = CReading count r acc \<Longrightarrow> length acc < count \<Longrightarrow>
    spsc_step s (s\<lparr>cpc := CReading count r
      (acc @ [samples (shared s) ! slot (shared s) (r + of_nat (length acc))])\<rparr>)"
| c_publish: "cpc s = CReading count r acc \<Longrightarrow> length acc = count \<Longrightarrow>
    spsc_step s (s\<lparr>cpc := CIdle, received := received s @ acc,
      shared := (shared s)\<lparr>rd := r + of_nat count\<rparr>\<rparr>)"

inductive_cases spsc_stepE: "spsc_step s t"

inductive spsc_reachable :: "usize \<Rightarrow> spsc \<Rightarrow> bool" for c where
  init: "spsc_ring_buffer c = Ok r \<Longrightarrow> spsc_reachable c (spsc_init r)"
| step: "spsc_reachable c s \<Longrightarrow> spsc_step s t \<Longrightarrow> spsc_reachable c t"

section \<open>Invariant\<close>

definition geometry :: "nat \<Rightarrow> ring \<Rightarrow> bool" where
  "geometry k r \<longleftrightarrow> 0 < k \<and> k < 64 \<and> length (samples r) = 2 ^ k \<and> mask r = Bit_Operations.mask k"

definition stored :: "nat \<Rightarrow> spsc \<Rightarrow> nat \<Rightarrow> f32" where
  \<comment> \<open>the sample in the slot of the unbounded index \<open>i\<close>\<close>
  "stored k s i = samples (shared s) ! (i mod 2 ^ k)"

definition indices_ok :: "nat \<Rightarrow> spsc \<Rightarrow> bool" where
  "indices_ok k s \<longleftrightarrow>
     wr (shared s) = of_nat (length (sent s)) \<and> rd (shared s) = of_nat (length (received s))
     \<and> length (received s) \<le> length (sent s) \<and> length (sent s) \<le> length (received s) + 2 ^ k"

definition data_ok :: "nat \<Rightarrow> spsc \<Rightarrow> bool" where
  "data_ok k s \<longleftrightarrow>
     received s = take (length (received s)) (sent s)
     \<and> (\<forall>i. length (received s) \<le> i \<and> i < length (sent s) \<longrightarrow> stored k s i = sent s ! i)"

fun producer_ok :: "nat \<Rightarrow> spsc \<Rightarrow> ppc \<Rightarrow> bool" where
  "producer_ok k s PIdle = True"
| "producer_ok k s (PLoadedWrite xs w) = (w = wr (shared s))"
| "producer_ok k s (PWriting xs w i) =
     (w = wr (shared s) \<and> i \<le> length xs
      \<and> length (sent s) + length xs \<le> length (received s) + 2 ^ k
      \<and> (\<forall>j < i. stored k s (length (sent s) + j) = xs ! j))"

fun consumer_ok :: "spsc \<Rightarrow> cpc \<Rightarrow> bool" where
  "consumer_ok s CIdle = True"
| "consumer_ok s (CLoadedRead n r) = (r = rd (shared s))"
| "consumer_ok s (CReading c r acc) =
     (r = rd (shared s) \<and> length (received s) + c \<le> length (sent s) \<and> length acc \<le> c
      \<and> acc = take (length acc) (drop (length (received s)) (sent s)))"

definition spsc_inv :: "nat \<Rightarrow> spsc \<Rightarrow> bool" where
  "spsc_inv k s \<longleftrightarrow> geometry k (shared s) \<and> indices_ok k s \<and> data_ok k s
     \<and> producer_ok k s (ppc s) \<and> consumer_ok s (cpc s)"

lemmas spsc_defs = spsc_inv_def indices_ok_def data_ok_def stored_def

section \<open>Index arithmetic\<close>

lemma slot_of_nat:
  assumes "geometry k r"
  shows "slot r (of_nat n + of_nat i) = (n + i) mod 2 ^ k"
proof -
  have "(2::nat) ^ k dvd 2 ^ 64" using assms by (intro le_imp_power_dvd) (simp add: geometry_def)
  moreover have "unat (of_nat (n + i) :: u64) = (n + i) mod 2 ^ 64" by (subst unat_of_nat) simp
  ultimately show ?thesis
    using assms slot_mod [of r k "of_nat (n + i)"]
    by (simp add: geometry_def mod_mod_cancel)
qed

lemma pow_small: "k < 64 \<Longrightarrow> (2::nat) ^ k < usize_bound"
  unfolding usize_bound_def by (rule power_strict_increasing) auto

lemma diff_of_nat:
  assumes "m \<le> n" "n \<le> m + 2 ^ k" "k < 64"
  shows "unat (of_nat n - of_nat m :: u64) = n - m"
proof -
  have "n - m < usize_bound" using assms pow_small [of k] by linarith
  moreover have "of_nat n - of_nat m = (of_nat (n - m) :: u64)" using assms(1) by (simp add: of_nat_diff)
  ultimately show ?thesis by (simp only: unat_of_nat_u64)
qed

lemma free_of_nat:
  assumes "m \<le> n" "n \<le> m + 2 ^ k" "k < 64"
  shows "unat (of_nat (2 ^ k) - (of_nat n - of_nat m) :: u64) = 2 ^ k - (n - m)"
proof -
  have "of_nat (2 ^ k) - (of_nat n - of_nat m) = (of_nat (2 ^ k - (n - m)) :: u64)"
    using assms by (simp add: of_nat_diff)
  moreover have "2 ^ k - (n - m) < usize_bound" using pow_small [OF assms(3)] by linarith
  ultimately show ?thesis by (simp only: unat_of_nat_u64)
qed

lemma mod_distinct:
  fixes i j n :: nat
  assumes "i < j" "j < i + n"
  shows "i mod n \<noteq> j mod n"
proof
  assume "i mod n = j mod n"
  then have "(i + 0) mod n = (i + (j - i)) mod n" using assms(1) by simp
  then have "0 = j - i" by (rule mod_add_inj) (use assms in auto)
  then show False using assms(1) by simp
qed

section \<open>Every step keeps the invariant\<close>

lemma geometry_cong [simp]:
  "geometry k (r\<lparr>wr := w\<rparr>) = geometry k r" "geometry k (r\<lparr>rd := w\<rparr>) = geometry k r"
  "geometry k (r\<lparr>samples := (samples r)[j := x]\<rparr>) = geometry k r"
  by (simp_all add: geometry_def)

lemma consumer_ok_frame [simp]:
  "consumer_ok (s\<lparr>ppc := p\<rparr>) c = consumer_ok s c"
  "consumer_ok (s\<lparr>ppc := p, shared := (shared s)\<lparr>samples := xs\<rparr>\<rparr>) c = consumer_ok s c"
  by (cases c; simp)+

lemma producer_ok_frame [simp]: "producer_ok k (s\<lparr>cpc := c\<rparr>) p = producer_ok k s p"
  by (cases p) (simp_all add: stored_def)

lemma spsc_inv_init:
  assumes "spsc_ring_buffer c = Ok r"
  shows "\<exists>k. 2 ^ k = c \<and> spsc_inv k (spsc_init r)"
proof -
  have "ring_inv r" "capacity r = c" "contents r = []" using spsc_ring_buffer_Ok [OF assms] by auto
  then obtain k where "geometry k r" "2 ^ k = c"
    by (elim ring_invE) (auto simp: geometry_def capacity_def)
  moreover have "wr r = 0" "rd r = 0" using assms by (auto simp: spsc_ring_buffer_def split: if_splits)
  ultimately show ?thesis by (auto simp: spsc_defs spsc_init_def)
qed

lemma store_keeps_others:
  assumes "geometry k r" "j mod 2 ^ k \<noteq> i mod 2 ^ k"
  shows "(samples r)[i mod 2 ^ k := x] ! (j mod 2 ^ k) = samples r ! (j mod 2 ^ k)"
  using assms by simp

lemma inv_p_load:
  assumes inv: "spsc_inv k s" and pc: "ppc s = PLoadedWrite input w"
    and count: "count = min (length input)
      (unat (of_nat (capacity (shared s)) - (w - rd (shared s)) :: u64))"
  shows "spsc_inv k (s\<lparr>ppc := PWriting (take count input) w 0\<rparr>)"
proof -
  let ?W = "length (sent s)" and ?R = "length (received s)"
  have w: "w = of_nat ?W" "rd (shared s) = of_nat ?R" "?R \<le> ?W" "?W \<le> ?R + 2 ^ k" "k < 64"
    "capacity (shared s) = 2 ^ k"
    using inv pc by (auto simp: spsc_defs geometry_def capacity_def)
  have "count \<le> 2 ^ k - (?W - ?R)"
    unfolding count w(1,2,6) free_of_nat [OF w(3,4,5)] by simp
  then have "?W + length (take count input) \<le> ?R + 2 ^ k" using w(3,4) by auto
  then show ?thesis using inv pc by (auto simp: spsc_defs)
qed

lemma inv_p_store:
  assumes inv: "spsc_inv k s" and pc: "ppc s = PWriting xs w i" "i < length xs"
  shows "spsc_inv k (s\<lparr>ppc := PWriting xs w (Suc i),
    shared := (shared s)\<lparr>samples := (samples (shared s))[slot (shared s) (w + of_nat i) := xs ! i]\<rparr>\<rparr>)"
    (is "spsc_inv k ?t")
proof -
  let ?W = "length (sent s)" and ?R = "length (received s)"
  have g: "geometry k (shared s)" and w: "w = of_nat ?W"
    and room: "?W + length xs \<le> ?R + 2 ^ k" and RW: "?R \<le> ?W"
    and filled: "\<And>j. j < i \<Longrightarrow> stored k s (?W + j) = xs ! j"
    using inv pc by (auto simp: spsc_defs)
  have sl: "slot (shared s) (w + of_nat i) = (?W + i) mod 2 ^ k"
    unfolding w by (rule slot_of_nat [OF g])
  have other: "stored k ?t j = stored k s j" if "?R \<le> j" "j < ?W + i" for j
  proof -
    have "j mod 2 ^ k \<noteq> (?W + i) mod 2 ^ k"
      by (rule mod_distinct) (use that room pc(2) in auto)
    then show ?thesis by (simp add: stored_def sl store_keeps_others [OF g])
  qed
  have here: "stored k ?t (?W + i) = xs ! i"
    using g by (simp add: stored_def sl geometry_def)
  have "stored k ?t (?W + j) = xs ! j" if "j < Suc i" for j
    using that here other [of "?W + j"] filled [of j] RW by (cases "j = i") auto
  moreover have "stored k ?t j = sent s ! j" if "?R \<le> j" "j < ?W" for j
    using that other [of j] inv by (auto simp: spsc_inv_def data_ok_def)
  ultimately show ?thesis
    using inv pc g by (auto simp: spsc_inv_def indices_ok_def data_ok_def)
qed

lemma inv_p_publish:
  assumes inv: "spsc_inv k s" and pc: "ppc s = PWriting xs w (length xs)"
  shows "spsc_inv k (s\<lparr>ppc := PIdle, sent := sent s @ xs,
    shared := (shared s)\<lparr>wr := w + of_nat (length xs)\<rparr>\<rparr>)" (is "spsc_inv k ?t")
proof -
  let ?W = "length (sent s)" and ?R = "length (received s)"
  have g: "geometry k (shared s)" and w: "w = of_nat ?W"
    and room: "?W + length xs \<le> ?R + 2 ^ k" and RW: "?R \<le> ?W"
    and rcv: "received s = take ?R (sent s)"
    and written: "\<And>j. j < length xs \<Longrightarrow> stored k s (?W + j) = xs ! j"
    and old: "\<And>j. ?R \<le> j \<Longrightarrow> j < ?W \<Longrightarrow> stored k s j = sent s ! j"
    and cons: "consumer_ok s (cpc s)"
    using inv pc by (auto simp: spsc_inv_def indices_ok_def data_ok_def)
  have "stored k ?t j = (sent s @ xs) ! j" if "?R \<le> j" "j < ?W + length xs" for j
    using that old [of j] written [of "j - ?W"] by (auto simp: stored_def nth_append)
  moreover have "received s = take ?R (sent s @ xs)" using rcv RW by simp
  moreover have "consumer_ok ?t (cpc s)"
    using cons by (cases "cpc s") auto
  moreover have "indices_ok k ?t"
    using inv w room RW by (auto simp: spsc_inv_def indices_ok_def)
  ultimately show ?thesis
    using g by (simp add: spsc_inv_def data_ok_def)
qed

lemma inv_c_load:
  assumes inv: "spsc_inv k s" and pc: "cpc s = CLoadedRead n r"
    and count: "count = min n (unat (wr (shared s) - r))"
  shows "spsc_inv k (s\<lparr>cpc := CReading count r []\<rparr>)"
proof -
  let ?W = "length (sent s)" and ?R = "length (received s)"
  have w: "wr (shared s) = of_nat ?W" "r = of_nat ?R" "?R \<le> ?W" "?W \<le> ?R + 2 ^ k" "k < 64"
    using inv pc by (auto simp: spsc_defs geometry_def)
  have "count \<le> ?W - ?R" unfolding count w(1,2) diff_of_nat [OF w(3,4,5)] by simp
  then show ?thesis using inv pc w(3) by (auto simp: spsc_defs)
qed

lemma inv_c_copy:
  assumes inv: "spsc_inv k s" and pc: "cpc s = CReading count r acc" "length acc < count"
  shows "spsc_inv k (s\<lparr>cpc := CReading count r
    (acc @ [samples (shared s) ! slot (shared s) (r + of_nat (length acc))])\<rparr>)"
proof -
  let ?W = "length (sent s)" and ?R = "length (received s)"
  have g: "geometry k (shared s)" and r: "r = of_nat ?R" and le: "?R + count \<le> ?W"
    and acc: "acc = take (length acc) (drop ?R (sent s))"
    and old: "\<And>j. ?R \<le> j \<Longrightarrow> j < ?W \<Longrightarrow> stored k s j = sent s ! j"
    using inv pc by (auto simp: spsc_inv_def indices_ok_def data_ok_def)
  have "samples (shared s) ! slot (shared s) (r + of_nat (length acc)) = stored k s (?R + length acc)"
    unfolding r slot_of_nat [OF g] stored_def ..
  also have "\<dots> = drop ?R (sent s) ! length acc"
    using old [of "?R + length acc"] le pc(2) by simp
  finally have "acc @ [samples (shared s) ! slot (shared s) (r + of_nat (length acc))]
      = take (Suc (length acc)) (drop ?R (sent s))"
    using le pc(2) acc by (metis (no_types, lifting) add_less_cancel_left length_drop less_diff_conv
        less_le_trans add.commute take_Suc_conv_app_nth)
  then show ?thesis
    using inv pc by (auto simp: spsc_defs)
qed

lemma inv_c_publish:
  assumes inv: "spsc_inv k s" and pc: "cpc s = CReading count r acc" "length acc = count"
  shows "spsc_inv k (s\<lparr>cpc := CIdle, received := received s @ acc,
    shared := (shared s)\<lparr>rd := r + of_nat count\<rparr>\<rparr>)" (is "spsc_inv k ?t")
proof -
  let ?W = "length (sent s)" and ?R = "length (received s)"
  have r: "r = of_nat ?R" and le: "?R + count \<le> ?W"
    and acc: "acc = take count (drop ?R (sent s))" and rcv: "received s = take ?R (sent s)"
    using inv pc by (auto simp: spsc_inv_def indices_ok_def data_ok_def)
  have "received s @ acc = take (?R + count) (sent s)"
    using acc rcv by (metis take_add)
  then have "data_ok k ?t"
    using inv pc(2) le by (auto simp: spsc_inv_def data_ok_def stored_def min_absorb2)
  moreover have "producer_ok k ?t (ppc s)"
    using inv by (cases "ppc s") (auto simp: spsc_inv_def stored_def)
  moreover have "indices_ok k ?t"
    using inv r le pc(2) by (auto simp: spsc_inv_def indices_ok_def)
  ultimately show ?thesis using inv by (simp add: spsc_inv_def)
qed

lemma spsc_step_inv: "spsc_step s t \<Longrightarrow> spsc_inv k s \<Longrightarrow> spsc_inv k t"
proof (induction rule: spsc_step.induct)
  case (p_begin s input)
  then show ?case by (auto simp: spsc_defs)
next
  case (c_begin s n)
  then show ?case by (auto simp: spsc_defs)
qed (auto intro: inv_p_load inv_p_store inv_p_publish inv_c_load inv_c_copy inv_c_publish)

lemma spsc_reachable_inv:
  assumes "spsc_reachable c s"
  shows "\<exists>k. 2 ^ k = c \<and> spsc_inv k s"
  using assms
proof induction
  case (init r)
  then show ?case by (rule spsc_inv_init)
next
  case (step s t)
  then show ?case using spsc_step_inv by blast
qed

section \<open>What the two threads observe\<close>

lemma spsc_contents:
  assumes "spsc_inv k s"
  shows "ring_inv (shared s)" "contents (shared s) = drop (length (received s)) (sent s)"
proof -
  let ?W = "length (sent s)" and ?R = "length (received s)"
  have g: "geometry k (shared s)" and le: "?R \<le> ?W" "?W \<le> ?R + 2 ^ k"
    and i: "wr (shared s) = of_nat ?W" "rd (shared s) = of_nat ?R" and k: "k < 64"
    using assms by (auto simp: spsc_inv_def indices_ok_def geometry_def)
  have n: "unat (wr (shared s) - rd (shared s)) = ?W - ?R"
    unfolding i by (rule diff_of_nat [OF le k])
  show "ring_inv (shared s)" using g n le by (auto simp: ring_inv_def geometry_def)
  have "samples (shared s) ! slot (shared s) (rd (shared s) + of_nat j) = drop ?R (sent s) ! j"
    if "j < ?W - ?R" for j
    using that assms unfolding i slot_of_nat [OF g]
    by (auto simp: spsc_inv_def data_ok_def stored_def)
  then show "contents (shared s) = drop ?R (sent s)"
    by (intro nth_equalityI) (auto simp: contents_def load_slots_def n)
qed

lemma race_free_inv:
  assumes inv: "spsc_inv k s"
    and p: "ppc s = PWriting xs w i" "i < length xs"
    and c: "cpc s = CReading n r acc" "length acc < n"
  shows "slot (shared s) (w + of_nat i) \<noteq> slot (shared s) (r + of_nat (length acc))"
proof -
  let ?W = "length (sent s)" and ?R = "length (received s)"
  have g: "geometry k (shared s)" and i: "w = of_nat ?W" "r = of_nat ?R"
    and le: "?W + length xs \<le> ?R + 2 ^ k" "?R + n \<le> ?W"
    using inv p c by (auto simp: spsc_inv_def indices_ok_def)
  have "(?R + length acc) mod 2 ^ k \<noteq> (?W + i) mod 2 ^ k"
    by (rule mod_distinct) (use le p c in auto)
  then show ?thesis unfolding i slot_of_nat [OF g] by simp
qed

text \<open>
  Wait-freedom of one call: with its thread at the start of \<open>push_slice\<close>, the producer alone
  publishes after at most \<open>length input + 3\<close> of its own steps. \<open>producer_rank\<close> counts the steps
  left, and no step of the consumer changes it.
\<close>

fun producer_rank :: "ppc \<Rightarrow> nat" where
  "producer_rank PIdle = 0"
| "producer_rank (PLoadedWrite xs w) = length xs + 2"
| "producer_rank (PWriting xs w i) = length xs - i + 1"

fun consumer_rank :: "cpc \<Rightarrow> nat" where
  "consumer_rank CIdle = 0"
| "consumer_rank (CLoadedRead n r) = n + 2"
| "consumer_rank (CReading n r acc) = n - length acc + 1"

lemma spsc_step_rank:
  assumes "spsc_step s t"
  shows "cpc t = cpc s \<and> (ppc s = PIdle \<or> producer_rank (ppc t) < producer_rank (ppc s))
    \<or> ppc t = ppc s \<and> (cpc s = CIdle \<or> consumer_rank (cpc t) < consumer_rank (cpc s))"
  using assms by (cases rule: spsc_step.cases) auto

lemma producer_can_step:
  assumes "spsc_inv k s" "ppc s \<noteq> PIdle"
  shows "\<exists>t. spsc_step s t \<and> ppc t \<noteq> ppc s"
proof (cases "ppc s")
  case (PLoadedWrite xs w)
  from p_load [OF this refl] show ?thesis using PLoadedWrite by fastforce
next
  case (PWriting xs w i)
  then have "i < length xs \<or> i = length xs" using assms(1) by (auto simp: spsc_inv_def)
  then show ?thesis
  proof
    assume "i < length xs"
    from p_store [OF PWriting this] show ?thesis using PWriting by fastforce
  next
    assume "i = length xs"
    with PWriting have "ppc s = PWriting xs w (length xs)" by simp
    from p_publish [OF this] show ?thesis using PWriting by fastforce
  qed
qed (use assms(2) in simp)

lemma consumer_can_step:
  assumes "spsc_inv k s" "cpc s \<noteq> CIdle"
  shows "\<exists>t. spsc_step s t \<and> cpc t \<noteq> cpc s"
proof (cases "cpc s")
  case (CLoadedRead n r)
  from c_load [OF this refl] show ?thesis using CLoadedRead by fastforce
next
  case (CReading n r acc)
  then have "length acc < n \<or> length acc = n" using assms(1) by (auto simp: spsc_inv_def)
  then show ?thesis
  proof
    assume "length acc < n"
    from c_copy [OF CReading this] show ?thesis using CReading by fastforce
  next
    assume "length acc = n"
    from c_publish [OF CReading this] show ?thesis using CReading by fastforce
  qed
qed (use assms(2) in simp)

section \<open>The properties of the concurrent ring\<close>

text \<open>C3: Under every interleaving of the loads and stores of one producer and one consumer thread,
  the samples the consumer has received are a prefix of the samples the producer has published,
  in order, without loss or repetition; the ring holds exactly the published samples not yet
  released, at most \<open>capacity\<close> of them, however often the index counters have wrapped.\<close>

theorem concurrent_ring_is_fifo:
  assumes "spsc_reachable c s"
  shows "prefix (received s) (sent s)
    \<and> sent s = received s @ contents (shared s)
    \<and> length (sent s) \<le> length (received s) + c
    \<and> ring_inv (shared s) \<and> capacity (shared s) = c"
proof -
  obtain k where k: "2 ^ k = c" "spsc_inv k s" using spsc_reachable_inv [OF assms] by blast
  have r: "received s = take (length (received s)) (sent s)"
    and le: "length (sent s) \<le> length (received s) + c" and cap: "capacity (shared s) = c"
    using k by (auto simp: spsc_inv_def data_ok_def indices_ok_def geometry_def capacity_def)
  have s: "sent s = received s @ contents (shared s)"
    using spsc_contents(2) [OF k(2)] r by (metis append_take_drop_id)
  then have "prefix (received s) (sent s)" by (metis prefixI)
  with s le cap spsc_contents(1) [OF k(2)] show ?thesis by simp
qed

text \<open>C40: The claim of the comments on the \<open>unsafe\<close> blocks: in no reachable state can the producer be
  about to write the very slot that the consumer is about to read, so there is no data race; and
  what the consumer copies is a sample the producer has published.\<close>

theorem slot_accesses_never_race:
  assumes "spsc_reachable c s"
    and "ppc s = PWriting xs w i" "i < length xs"
    and "cpc s = CReading n r acc" "length acc < n"
  shows "slot (shared s) (w + of_nat i) \<noteq> slot (shared s) (r + of_nat (length acc))
    \<and> samples (shared s) ! slot (shared s) (r + of_nat (length acc))
        = sent s ! (length (received s) + length acc)"
proof -
  obtain k where inv: "spsc_inv k s" using spsc_reachable_inv [OF assms(1)] by blast
  let ?R = "length (received s)"
  have g: "geometry k (shared s)" and r: "r = of_nat ?R" and "?R + n \<le> length (sent s)"
    and "\<And>j. ?R \<le> j \<Longrightarrow> j < length (sent s) \<Longrightarrow> stored k s j = sent s ! j"
    using inv assms(4) by (auto simp: spsc_inv_def indices_ok_def data_ok_def)
  then have "samples (shared s) ! slot (shared s) (r + of_nat (length acc)) = sent s ! (?R + length acc)"
    using assms(5) unfolding r slot_of_nat [OF g] by (simp add: stored_def)
  then show ?thesis using race_free_inv [OF inv assms(2-5)] by blast
qed

text \<open>The calls are wait-free: in every reachable state a thread inside a call can take a step,
  every step of a thread inside a call brings it closer to the end of the call, and no step of the
  other thread changes how far it has got.\<close>

theorem ring_calls_are_wait_free:
  assumes "spsc_reachable c s"
  shows "(ppc s \<noteq> PIdle \<longrightarrow> (\<exists>t. spsc_step s t \<and> producer_rank (ppc t) < producer_rank (ppc s)))
    \<and> (cpc s \<noteq> CIdle \<longrightarrow> (\<exists>t. spsc_step s t \<and> consumer_rank (cpc t) < consumer_rank (cpc s)))
    \<and> (\<forall>t. spsc_step s t \<longrightarrow>
         cpc t = cpc s \<and> (ppc s = PIdle \<or> producer_rank (ppc t) < producer_rank (ppc s))
         \<or> ppc t = ppc s \<and> (cpc s = CIdle \<or> consumer_rank (cpc t) < consumer_rank (cpc s)))"
proof -
  obtain k where inv: "spsc_inv k s" using spsc_reachable_inv [OF assms] by blast
  have "\<exists>t. spsc_step s t \<and> producer_rank (ppc t) < producer_rank (ppc s)" if "ppc s \<noteq> PIdle"
    using producer_can_step [OF inv that] spsc_step_rank that by metis
  moreover have "\<exists>t. spsc_step s t \<and> consumer_rank (cpc t) < consumer_rank (cpc s)" if "cpc s \<noteq> CIdle"
    using consumer_can_step [OF inv that] spsc_step_rank that by metis
  ultimately show ?thesis using spsc_step_rank by blast
qed

text \<open>What a thread has seen of the other is still there later: the other thread only adds room, or samples.\<close>

lemma step_histories: "spsc_step s t \<Longrightarrow> prefix (sent s) (sent t) \<and> prefix (received s) (received t)"
  by (erule spsc_stepE) auto

lemma unpublished_run:
  assumes "rtranclp (\<lambda>s t. spsc_step s t \<and> sent t = sent s) s t" "spsc_inv k s"
  shows "spsc_inv k t \<and> sent t = sent s \<and> length (received s) \<le> length (received t)"
  using assms
proof (induction rule: rtranclp_induct)
  case (step t u)
  then have "spsc_inv k u" "prefix (received t) (received u)" using spsc_step_inv step_histories by blast+
  then show ?case using step by (auto dest!: prefix_length_le)
qed simp

lemma unreleased_run:
  assumes "rtranclp (\<lambda>s t. spsc_step s t \<and> received t = received s) s t" "spsc_inv k s"
  shows "spsc_inv k t \<and> received t = received s \<and> length (sent s) \<le> length (sent t)"
  using assms
proof (induction rule: rtranclp_induct)
  case (step t u)
  then have "spsc_inv k u" "prefix (sent t) (sent u)" using spsc_step_inv step_histories by blast+
  then show ?case using step by (auto dest!: prefix_length_le)
qed simp

lemma seen_available:
  assumes "spsc_inv k s"
  shows "producer_available (shared s) = 2 ^ k - (length (sent s) - length (received s))"
    "consumer_available (shared s) = length (sent s) - length (received s)"
proof -
  have w: "wr (shared s) = of_nat (length (sent s))" "rd (shared s) = of_nat (length (received s))"
    "length (received s) \<le> length (sent s)" "length (sent s) \<le> length (received s) + 2 ^ k" "k < 64"
    "capacity (shared s) = 2 ^ k"
    using assms by (auto simp: spsc_defs geometry_def capacity_def)
  show "producer_available (shared s) = 2 ^ k - (length (sent s) - length (received s))"
    unfolding producer_available_def w(1,2,6) by (rule free_of_nat [OF w(3,4,5)])
  show "consumer_available (shared s) = length (sent s) - length (received s)"
    unfolding consumer_available_def w(1,2) by (rule diff_of_nat [OF w(3,4,5)])
qed

text \<open>A checked call is never cut short. The streams and the router look at \<open>available\<close> first and then
  push or pop as much as they have seen: whatever the other thread does between the check and the
  call, and inside of it, the call takes up all samples of its input, or fills the whole output.\<close>

theorem checked_calls_are_whole:
  assumes "spsc_reachable c s"
  shows "(\<forall>t u input w. rtranclp (\<lambda>s t. spsc_step s t \<and> sent t = sent s) s t
        \<and> length input \<le> producer_available (shared s) \<and> ppc t = PLoadedWrite input w \<and> spsc_step t u
        \<longrightarrow> ppc u = ppc t \<or> ppc u = PWriting input w 0)
    \<and> (\<forall>t u n r. rtranclp (\<lambda>s t. spsc_step s t \<and> received t = received s) s t
        \<and> n \<le> consumer_available (shared s) \<and> cpc t = CLoadedRead n r \<and> spsc_step t u
        \<longrightarrow> cpc u = cpc t \<or> cpc u = CReading n r [])"
proof -
  obtain k where inv: "spsc_inv k s" using spsc_reachable_inv [OF assms] by blast
  have "ppc u = ppc t \<or> ppc u = PWriting input w 0"
    if run: "rtranclp (\<lambda>s t. spsc_step s t \<and> sent t = sent s) s t"
      and room: "length input \<le> producer_available (shared s)"
      and t: "ppc t = PLoadedWrite input w" and u: "spsc_step t u" for t u input w
  proof -
    note q = unpublished_run [OF run inv]
    have "producer_available (shared s) \<le> producer_available (shared t)"
      unfolding seen_available(1) [OF inv] seen_available(1) [OF conjunct1 [OF q]]
      using q by (intro diff_le_mono2) (simp add: diff_le_mono2)
    then have "length input \<le> producer_available (shared t)" using room by simp
    moreover have "w = wr (shared t)" using q t by (auto simp: spsc_inv_def)
    ultimately show ?thesis using u t by (auto simp: producer_available_def elim!: spsc_stepE)
  qed
  moreover have "cpc u = cpc t \<or> cpc u = CReading n r []"
    if run: "rtranclp (\<lambda>s t. spsc_step s t \<and> received t = received s) s t"
      and there: "n \<le> consumer_available (shared s)"
      and t: "cpc t = CLoadedRead n r" and u: "spsc_step t u" for t u n r
  proof -
    note q = unreleased_run [OF run inv]
    have "consumer_available (shared s) \<le> consumer_available (shared t)"
      unfolding seen_available(2) [OF inv] seen_available(2) [OF conjunct1 [OF q]]
      using q by (simp add: diff_le_mono)
    then have "n \<le> consumer_available (shared t)" using there by simp
    moreover have "r = rd (shared t)" using q t by (auto simp: spsc_inv_def)
    ultimately show ?thesis using u t by (auto simp: consumer_available_def elim!: spsc_stepE)
  qed
  ultimately show ?thesis by blast
qed

text \<open>
  A run on a ring of two cells: the producer publishes one sample and starts on a second, the
  consumer has loaded both indices and is about to copy the first.
\<close>

definition racing :: "spsc" where
  "racing = \<lparr>shared = \<lparr>samples = [Inf True, fzero F32], mask = 1, rd = 0, wr = 1\<rparr>,
     ppc = PWriting [NaN] 1 0, cpc = CReading 1 0 [], sent = [Inf True], received = []\<rparr>"

lemma racing_reachable: "spsc_reachable 2 racing"
proof -
  let ?r0 = "\<lparr>samples = [fzero F32, fzero F32], mask = 1, rd = 0, wr = 0\<rparr>"
  let ?r1 = "\<lparr>samples = [Inf True, fzero F32], mask = 1, rd = 0, wr = 0\<rparr>"
  let ?r2 = "\<lparr>samples = [Inf True, fzero F32], mask = 1, rd = 0, wr = 1\<rparr>"
  let ?st = "\<lambda>r p c xs. \<lparr>shared = r, ppc = p, cpc = c, sent = xs, received = []\<rparr>"
  let ?c = "CReading 1 0 []"
  note more = spsc_reachable.step [of 2]
  have "replicate 2 (fzero F32) = [fzero F32, fzero F32]" by (simp add: numeral_2_eq_2)
  then have "spsc_ring_buffer 2 = Ok ?r0"
    by (simp add: spsc_ring_buffer_def is_power_of_two_def isize_max_def)
  from spsc_reachable.init [OF this]
  have "spsc_reachable 2 (?st ?r0 PIdle CIdle [])" by (simp add: spsc_init_def)
  from more [OF this p_begin [of _ "[Inf True]"]]
  have "spsc_reachable 2 (?st ?r0 (PLoadedWrite [Inf True] 0) CIdle [])" by simp
  from more [OF this p_load [OF _ refl]]
  have "spsc_reachable 2 (?st ?r0 (PWriting [Inf True] 0 0) CIdle [])" by (simp add: capacity_def)
  from more [OF this p_store]
  have "spsc_reachable 2 (?st ?r1 (PWriting [Inf True] 0 1) CIdle [])" by (simp add: slot_def)
  from more [OF this p_publish]
  have "spsc_reachable 2 (?st ?r2 PIdle CIdle [Inf True])" by simp
  from more [OF this c_begin [of _ 1]]
  have "spsc_reachable 2 (?st ?r2 PIdle (CLoadedRead 1 0) [Inf True])" by simp
  from more [OF this c_load [OF _ refl]]
  have "spsc_reachable 2 (?st ?r2 PIdle ?c [Inf True])" by simp
  from more [OF this p_begin [of _ "[NaN, NaN]"]]
  have "spsc_reachable 2 (?st ?r2 (PLoadedWrite [NaN, NaN] 1) ?c [Inf True])" by simp
  from more [OF this p_load [OF _ refl]]
  show ?thesis by (simp add: capacity_def racing_def)
qed

theorem concurrent_ring_is_fifo_witness:
  "prefix (received racing) (sent racing)
   \<and> [Inf True] = received racing @ contents (shared racing)"
  using concurrent_ring_is_fifo [OF racing_reachable] by (simp add: racing_def)

theorem slot_accesses_never_race_witness:
  "slot (shared racing) (1 + of_nat 0) \<noteq> slot (shared racing) (0 + of_nat (length ([] :: f32 list)))"
  using slot_accesses_never_race [OF racing_reachable, of "[NaN]" 1 0 1 0 "[]"]
  by (simp add: racing_def)

theorem ring_calls_are_wait_free_witness:
  "(\<exists>t. spsc_step racing t \<and> producer_rank (ppc t) < 2)
   \<and> (\<exists>t. spsc_step racing t \<and> consumer_rank (cpc t) < 2)"
  using ring_calls_are_wait_free [OF racing_reachable] by (auto simp: racing_def)

theorem checked_calls_are_whole_witness:
  "\<exists>s u. spsc_reachable 2 s \<and> producer_available (shared s) = 2
     \<and> spsc_step (s\<lparr>ppc := PLoadedWrite [NaN, Inf True] 0\<rparr>) u \<and> ppc u = PWriting [NaN, Inf True] 0 0"
proof -
  let ?r = "\<lparr>samples = [fzero F32, fzero F32], mask = 1, rd = 0, wr = 0\<rparr>"
  let ?s = "spsc_init ?r" and ?xs = "[NaN, Inf True]"
  let ?t = "?s\<lparr>ppc := PLoadedWrite ?xs 0\<rparr>"
  have "replicate 2 (fzero F32) = [fzero F32, fzero F32]" by (simp add: numeral_2_eq_2)
  then have "spsc_ring_buffer 2 = Ok ?r" by (simp add: spsc_ring_buffer_def is_power_of_two_def isize_max_def)
  then have s: "spsc_reachable 2 ?s" by (rule spsc_reachable.init)
  have a: "producer_available (shared ?s) = 2" by (simp add: producer_available_def spsc_init_def capacity_def)
  have "spsc_step ?s ?t" using p_begin [of ?s ?xs] by (simp add: spsc_init_def)
  then have run: "rtranclp (\<lambda>s t. spsc_step s t \<and> sent t = sent s) ?s ?t" by (intro r_into_rtranclp) simp
  obtain u where u: "spsc_step ?t u" "ppc u \<noteq> ppc ?t" using p_load [of ?t ?xs 0, OF _ refl] by fastforce
  then have "ppc u = PWriting ?xs 0 0"
    using checked_calls_are_whole [OF s, THEN conjunct1, rule_format, of ?t ?xs 0 u] run a by simp
  then show ?thesis using s a u(1) by blast
qed

end
