(* ===== verification/PcmStream.thy ===== *)
theory PcmStream
  imports Ring
begin

text \<open>
  \<open>crates/vcable-coreaudio/src/pcm.rs\<close>: the process-facing PCM streams. A stream is a ring
  shared by a writing half (\<open>PcmWriter\<close>, or \<open>CaptureCallbackState\<close>) and a reading half, the
  drift-correcting \<open>RingResampler\<close> (in \<open>PlaybackCallbackState\<close>, or in \<open>PcmReader\<close>), with metrics
  that both update.

  What the halves share through \<open>Arc\<close>s, the ring and the metrics, is the record \<open>pcm_shared\<close>,
  threaded through every operation; each half's own fields are a record of their own. An
  operation is one step here, so both \<open>ensure_open\<close> checks of a call see the same flag.
\<close>

section \<open>Errors, configuration and metrics\<close>

record PcmFormat =
  fmt_sample_rate :: u32
  fmt_channels :: u32

record PcmStreamConfig =
  device_uid :: string
  client_format :: PcmFormat
  capacity_frames :: usize
  target_fill_frames :: usize
  max_drift_ppm :: u32

datatype PcmStreamDirection = InputDirection | OutputDirection

datatype PcmStreamError =
    UnsupportedPlatform
  | DeviceNotFound string
  | AmbiguousDevice string usize
  | WrongDirection string PcmStreamDirection
  | FormatMismatch PcmFormat PcmFormat
  | UnsupportedDevicePcmFormat string
  | InvalidChannelCount
  | InvalidSampleRate
  | InvalidBufferLength
  | InvalidRingCapacity
  | InvalidTargetFill
  | InvalidDriftPpm
  | BufferFull (requested_frames: usize) (available_frames: usize)
  | StreamClosed
  | CoreAudioOsStatus i32
  | CoreAudioProperty string
  | CoreAudio string

record pcm_metrics =
  callbacks :: u64
  transferred_frames :: u64
  underrun_frames :: u64
  overrun_frames :: u64
  format_errors :: u64
  ring_fill_frames :: u64
  ring_capacity_frames :: usize
  closed :: bool

definition metrics_new :: "usize \<Rightarrow> pcm_metrics" where
  "metrics_new cap = \<lparr>callbacks = 0, transferred_frames = 0, underrun_frames = 0,
     overrun_frames = 0, format_errors = 0, ring_fill_frames = 0,
     ring_capacity_frames = cap, closed = False\<rparr>"

record PcmStreamMetrics =
  m_callbacks :: u64
  m_transferred_frames :: u64
  m_underrun_frames :: u64
  m_overrun_frames :: u64
  m_format_errors :: u64
  m_ring_fill_frames :: u64
  m_ring_capacity_frames :: usize

definition snapshot :: "pcm_metrics \<Rightarrow> PcmStreamMetrics" where
  "snapshot m = \<lparr>m_callbacks = callbacks m, m_transferred_frames = transferred_frames m,
     m_underrun_frames = underrun_frames m, m_overrun_frames = overrun_frames m,
     m_format_errors = format_errors m, m_ring_fill_frames = ring_fill_frames m,
     m_ring_capacity_frames = ring_capacity_frames m\<rparr>"

definition callback :: "pcm_metrics \<Rightarrow> pcm_metrics" where
  "callback m = m\<lparr>callbacks := callbacks m + 1\<rparr>"

definition transferred :: "usize \<Rightarrow> pcm_metrics \<Rightarrow> pcm_metrics" where
  "transferred n m = m\<lparr>transferred_frames := transferred_frames m + of_nat n\<rparr>"

definition underrun :: "usize \<Rightarrow> pcm_metrics \<Rightarrow> pcm_metrics" where
  "underrun n m = m\<lparr>underrun_frames := underrun_frames m + of_nat n\<rparr>"

definition overrun :: "usize \<Rightarrow> pcm_metrics \<Rightarrow> pcm_metrics" where
  "overrun n m = m\<lparr>overrun_frames := overrun_frames m + of_nat n\<rparr>"

definition format_error :: "pcm_metrics \<Rightarrow> pcm_metrics" where
  "format_error m = m\<lparr>format_errors := format_errors m + 1\<rparr>"

definition add_fill :: "usize \<Rightarrow> pcm_metrics \<Rightarrow> pcm_metrics" where
  "add_fill n m = m\<lparr>ring_fill_frames := ring_fill_frames m + of_nat n\<rparr>"

definition remove_fill :: "usize \<Rightarrow> pcm_metrics \<Rightarrow> pcm_metrics" where
  "remove_fill n m = m\<lparr>ring_fill_frames := ring_fill_frames m - of_nat n\<rparr>"

definition close :: "pcm_metrics \<Rightarrow> pcm_metrics" where
  "close m = m\<lparr>closed := True\<rparr>"

definition ensure_open :: "pcm_metrics \<Rightarrow> (unit, PcmStreamError) res" where
  "ensure_open m = (if closed m then Err StreamClosed else Ok ())"

record pcm_shared =
  buffer :: ring
  metrics :: pcm_metrics

abbreviation meter :: "(pcm_metrics \<Rightarrow> pcm_metrics) \<Rightarrow> pcm_shared \<Rightarrow> pcm_shared" where
  "meter f sh \<equiv> sh\<lparr>metrics := f (metrics sh)\<rparr>"

section \<open>Validation\<close>

record ValidatedConfig =
  v_channels :: usize
  v_logical_capacity_samples :: usize
  v_internal_sample_capacity :: usize

definition checked_next_power_of_two :: "usize \<Rightarrow> usize option" where
  "checked_next_power_of_two n =
     (let p = (if n \<le> 1 then 1 else 2 ^ bits (n - 1)) in if p < usize_bound then Some p else None)"

definition validate_config :: "PcmStreamConfig \<Rightarrow> (ValidatedConfig, PcmStreamError) res" where
  "validate_config config =
     and_then (ok_or InvalidChannelCount
       (let c = unat (fmt_channels (client_format config)) in if 0 < c then Some c else None)) (\<lambda>channels.
     if fmt_sample_rate (client_format config) = 0 then Err InvalidSampleRate
     else if capacity_frames config < 2 then Err InvalidRingCapacity
     else if target_fill_frames config = 0 \<or> capacity_frames config \<le> target_fill_frames config
       then Err InvalidTargetFill
     else if 1000000 \<le> max_drift_ppm config then Err InvalidDriftPpm
     else
       and_then (ok_or InvalidRingCapacity (checked_mul (capacity_frames config) channels)) (\<lambda>logical.
       and_then (ok_or InvalidRingCapacity (checked_next_power_of_two logical)) (\<lambda>internal.
       Ok \<lparr>v_channels = channels, v_logical_capacity_samples = logical,
           v_internal_sample_capacity = internal\<rparr>)))"

definition create_ring :: "usize \<Rightarrow> (ring, PcmStreamError) res" where
  "create_ring cap = map_err (\<lambda>_. InvalidRingCapacity) (spsc_ring_buffer cap)"

section \<open>The writing halves\<close>

record PcmWriter =
  w_channels :: usize
  w_logical_capacity_samples :: usize

definition try_write_interleaved ::
    "PcmWriter \<Rightarrow> f32 list \<Rightarrow> pcm_shared \<Rightarrow> (unit, PcmStreamError) res \<times> pcm_shared" where
  "try_write_interleaved w pcm sh =
     (case ensure_open (metrics sh) of
        Err e \<Rightarrow> (Err e, sh)
      | Panic \<Rightarrow> (Panic, sh)
      | Ok _ \<Rightarrow>
        if \<not> w_channels w dvd length pcm then (Err InvalidBufferLength, sh)
        else case and_then (usize_div (length pcm) (w_channels w)) (\<lambda>requested.
            and_then (usize_sub (capacity (buffer sh)) (producer_available (buffer sh))) (\<lambda>used.
            and_then (usize_sub (w_logical_capacity_samples w) used) (\<lambda>free.
            and_then (usize_div free (w_channels w)) (\<lambda>available. Ok (requested, available))))) of
          Err e \<Rightarrow> (Err e, sh)
        | Panic \<Rightarrow> (Panic, sh)
        | Ok (requested, available) \<Rightarrow>
            if available < requested then (Err (BufferFull requested available), sh)
            else let sh1 = meter (add_fill requested) sh;
                     (written, ring) = push_slice pcm (buffer sh1);
                     sh2 = sh1\<lparr>buffer := ring\<rparr>
              in if is_ok (ensure_open (metrics sh2)) then (Ok (), sh2) else (Err StreamClosed, sh2))"

record CaptureCallbackState =
  c_channels :: usize
  c_logical_capacity_samples :: usize
  scratch :: "f32 list"

definition capture_new :: "usize \<Rightarrow> usize \<Rightarrow> (CaptureCallbackState, PcmStreamError) res" where
  "capture_new channels cap =
     and_then (case checked_mul cap channels of Some n \<Rightarrow> Ok n | None \<Rightarrow> Panic) (\<lambda>logical.
     Ok \<lparr>c_channels = channels, c_logical_capacity_samples = logical,
         scratch = replicate channels (fzero F32)\<rparr>)"

definition has_capacity_for_frame ::
    "CaptureCallbackState \<Rightarrow> pcm_shared \<Rightarrow> (bool, PcmStreamError) res" where
  "has_capacity_for_frame c sh =
     and_then (usize_sub (capacity (buffer sh)) (producer_available (buffer sh))) (\<lambda>used.
     case checked_add used (c_channels c) of
       Some n \<Rightarrow> Ok (n \<le> c_logical_capacity_samples c)
     | None \<Rightarrow> Panic)"

definition commit_scratch_frame :: "CaptureCallbackState \<Rightarrow> pcm_shared \<Rightarrow> pcm_shared" where
  "commit_scratch_frame c sh =
     (let sh1 = meter (add_fill 1) sh;
          (written, ring) = push_slice (scratch c) (buffer sh1)
      in meter (transferred 1) (sh1\<lparr>buffer := ring\<rparr>))"

section \<open>The resampler\<close>

record RingResampler =
  rs_channels :: usize
  rs_target_fill_frames :: usize
  priming_threshold_frames :: usize
  control_span_frames :: usize
  nominal_step :: f64
  max_drift_ratio :: f64
  current :: "f32 list"
  next_samples :: "f32 list"
  interpolated :: "f32 list"
  phase :: f64
  have_current :: bool
  have_next :: bool
  primed :: bool
  has_primed :: bool

type_synonym reading = "RingResampler \<times> pcm_shared"

definition resampler_new ::
    "usize \<Rightarrow> usize \<Rightarrow> usize \<Rightarrow> f64 \<Rightarrow> u32 \<Rightarrow> (RingResampler, PcmStreamError) res" where
  "resampler_new channels target cap step ppm =
     and_then (usize_sub cap target) (\<lambda>headroom.
     Ok \<lparr>rs_channels = channels, rs_target_fill_frames = target,
         priming_threshold_frames = max target 2, control_span_frames = min target headroom,
         nominal_step = step,
         max_drift_ratio = fdiv F64 (of_natural F64 (unat ppm)) (of_natural F64 1000000),
         current = replicate channels (fzero F32), next_samples = replicate channels (fzero F32),
         interpolated = replicate channels (fzero F32), phase = fzero F64,
         have_current = False, have_next = False, primed = False, has_primed = False\<rparr>)"

definition buffered_frames :: "reading \<Rightarrow> (usize, PcmStreamError) res" where
  "buffered_frames = (\<lambda>(r, sh).
     and_then (usize_div (consumer_available (buffer sh)) (rs_channels r)) (\<lambda>n.
     Ok (n + of_bool (have_current r) + of_bool (have_next r))))"

text \<open>\<open>fill_frames as f64\<close> rounds to nearest even.\<close>

definition drift_correction :: "usize \<Rightarrow> usize \<Rightarrow> usize \<Rightarrow> f64 \<Rightarrow> (f64, 'e) res" where
  "drift_correction fill target span ratio =
     (let error = fsub F64 (of_natural F64 fill) (of_natural F64 target)
      in fclamp (fmul F64 (fdiv F64 error (of_natural F64 span)) ratio) (fneg ratio) ratio)"

definition resampler_drift_correction :: "reading \<Rightarrow> (f64, PcmStreamError) res" where
  "resampler_drift_correction s =
     and_then (buffered_frames s) (\<lambda>fill.
     drift_correction fill (rs_target_fill_frames (fst s)) (control_span_frames (fst s))
       (max_drift_ratio (fst s)))"

definition pop_frame :: "bool \<Rightarrow> reading \<Rightarrow> bool \<times> reading" where
  "pop_frame is_next = (\<lambda>(r, sh).
     if consumer_available (buffer sh) < rs_channels r then (False, (r, sh))
     else let (n, out, ring) = pop_slice (if is_next then next_samples r else current r) (buffer sh)
       in (True, (if is_next then r\<lparr>next_samples := out\<rparr> else r\<lparr>current := out\<rparr>,
             meter (remove_fill 1) (sh\<lparr>buffer := ring\<rparr>))))"

text \<open>\<open>prepare_next_frame\<close>, part by part: priming, filling \<open>current\<close> and \<open>next\<close>, mixing, and
  advancing the phase with its loop.\<close>

definition prime :: "reading \<Rightarrow> (bool \<times> reading, PcmStreamError) res" where
  "prime = (\<lambda>(r, sh).
     if primed r then Ok (True, (r, sh))
     else and_then (buffered_frames (r, sh)) (\<lambda>n.
       if n < priming_threshold_frames r then Ok (False, (r, sh))
       else Ok (True, (r\<lparr>primed := True, has_primed := True\<rparr>, sh))))"

definition fill_current :: "reading \<Rightarrow> bool \<times> reading" where
  "fill_current = (\<lambda>(r, sh).
     if have_current r then (True, (r, sh))
     else let (ok, (r1, sh1)) = pop_frame False (r, sh); r2 = r1\<lparr>have_current := ok\<rparr>
       in if ok then (True, (r2, sh1)) else (False, (r2\<lparr>primed := False\<rparr>, sh1)))"

definition fill_next :: "reading \<Rightarrow> bool \<times> reading" where
  "fill_next = (\<lambda>(r, sh).
     if have_next r then (True, (r, sh))
     else let (ok, (r1, sh1)) = pop_frame True (r, sh); r2 = r1\<lparr>have_next := ok\<rparr>
       in if ok then (True, (r2, sh1)) else (False, (r2\<lparr>primed := False\<rparr>, sh1)))"

definition lerp :: "f32 \<Rightarrow> f32 \<Rightarrow> f32 \<Rightarrow> f32" where
  "lerp a b p = fadd F32 a (fmul F32 (fsub F32 b a) p)"

definition interpolate :: "RingResampler \<Rightarrow> (RingResampler, PcmStreamError) res" where
  "interpolate r =
     (let n = rs_channels r; p = convert F32 (phase r)
      in if n \<le> length (interpolated r) \<and> n \<le> length (current r) \<and> n \<le> length (next_samples r)
         then Ok (r\<lparr>interpolated :=
             map (\<lambda>i. lerp (current r ! i) (next_samples r ! i) p) [0..<n] @ drop n (interpolated r)\<rparr>)
         else Panic)"

definition advance_body :: "reading \<Rightarrow> (reading, PcmStreamError) res" where
  "advance_body = (\<lambda>(r, sh).
     if length (current r) \<noteq> length (next_samples r) then Panic
     else let r1 = r\<lparr>current := next_samples r, have_current := True, have_next := False,
                     phase := fsub F64 (phase r) (fone F64)\<rparr>;
              (ok, (r2, sh2)) = pop_frame True (r1, sh)
       in Ok (r2\<lparr>have_next := ok\<rparr>, sh2))"

definition advance :: "reading \<Rightarrow> (reading, PcmStreamError) comp" where
  "advance s =
     and_run (Some (resampler_drift_correction s)) (\<lambda>correction.
     and_run (while_res (\<lambda>(r, sh). fle (fone F64) (phase r) \<and> have_next r) advance_body
       (let (r, sh) = s in (r\<lparr>phase := fadd F64 (phase r)
          (fmul F64 (nominal_step r) (fadd F64 (fone F64) correction))\<rparr>, sh))) (\<lambda>(r, sh).
     ret (if have_next r then r else r\<lparr>primed := False\<rparr>, sh)))"

definition prepare_next_frame :: "reading \<Rightarrow> (bool \<times> reading, PcmStreamError) comp" where
  "prepare_next_frame s =
     and_run (Some (prime s)) (\<lambda>(go, s1).
     if \<not> go then ret (False, s1)
     else let (ok, s2) = fill_current s1 in if \<not> ok then ret (False, s2)
     else let (ok, s3) = fill_next s2 in if \<not> ok then ret (False, s3)
     else and_run (Some (interpolate (fst s3))) (\<lambda>r.
       and_run (advance (r, snd s3)) (\<lambda>s4. ret (True, s4))))"

definition resampler_next_frame :: "reading \<Rightarrow> (f32 list option \<times> reading, PcmStreamError) comp" where
  "resampler_next_frame s =
     and_run (prepare_next_frame s) (\<lambda>(ok, s1).
     ret (if ok then Some (interpolated (fst s1)) else None, s1))"

section \<open>The reading halves\<close>

text \<open>The loop of \<open>try_read_interleaved\<close> over the remaining chunks of the caller's buffer.\<close>

fun read_chunks ::
    "nat \<Rightarrow> f32 list \<Rightarrow> reading \<Rightarrow> ((usize \<times> f32 list) \<times> reading, PcmStreamError) comp" where
  "read_chunks 0 pcm s = ret ((0, pcm), s)"
| "read_chunks (Suc n) pcm s =
     and_run (resampler_next_frame s) (\<lambda>(frame, s1).
       case frame of
         None \<Rightarrow> ret ((0, pcm), s1)
       | Some f \<Rightarrow>
           let c = rs_channels (fst s1) in
           if length f \<noteq> c then Some Panic
           else and_run (read_chunks n (drop c pcm) s1) (\<lambda>((k, rest), s2). ret ((Suc k, f @ rest), s2)))"

text \<open>The result is the outcome, the caller's buffer afterwards, and the state.\<close>

definition try_read_interleaved ::
    "f32 list \<Rightarrow> reading \<Rightarrow> ((usize, PcmStreamError) res \<times> f32 list \<times> reading, PcmStreamError) comp" where
  "try_read_interleaved pcm s =
     (let c = rs_channels (fst s) in
      case ensure_open (metrics (snd s)) of
        Err e \<Rightarrow> ret (Err e, pcm, s)
      | Panic \<Rightarrow> Some Panic
      | Ok _ \<Rightarrow>
        if \<not> c dvd length pcm then ret (Err InvalidBufferLength, pcm, s)
        else and_run (Some (usize_div (length pcm) c)) (\<lambda>requested.
          and_run (read_chunks requested pcm s) (\<lambda>((n, pcm1), s1).
          ret (if is_ok (ensure_open (metrics (snd s1))) then Ok n else Err StreamClosed, pcm1, s1))))"

definition playback_next_frame :: "reading \<Rightarrow> (f32 list option \<times> reading, PcmStreamError) comp" where
  "playback_next_frame s =
     (let count_as_underrun = has_primed (fst s) in
      and_run (prepare_next_frame s) (\<lambda>(ok, (r, sh)).
        if ok then ret (Some (interpolated r), (r, meter (transferred 1) sh))
        else ret (None, (r, if count_as_underrun then meter (underrun 1) sh else sh))))"

section \<open>Opening a stream\<close>

text \<open>
  The parts of \<open>PcmPlaybackStream::start\<close> and \<open>PcmCaptureStream::start\<close> on macOS between the
  resolution of the device (an argument here: it gives the device's sample rate or an error) and
  the start of the platform stream.
\<close>

definition playback_state_new ::
    "usize \<Rightarrow> PcmStreamConfig \<Rightarrow> u32 \<Rightarrow> (RingResampler, PcmStreamError) res" where
  "playback_state_new channels config device_rate =
     resampler_new channels (target_fill_frames config) (capacity_frames config)
       (fdiv F64 (of_natural F64 (unat (fmt_sample_rate (client_format config))))
          (of_natural F64 (unat device_rate)))
       (max_drift_ppm config)"

definition open_playback ::
    "(PcmStreamConfig \<Rightarrow> PcmStreamDirection \<Rightarrow> (u32, PcmStreamError) res) \<Rightarrow> PcmStreamConfig \<Rightarrow>
     (PcmWriter \<times> reading, PcmStreamError) res" where
  "open_playback resolve config =
     and_then (validate_config config) (\<lambda>v.
     and_then (resolve config OutputDirection) (\<lambda>device_rate.
     and_then (create_ring (v_internal_sample_capacity v)) (\<lambda>ring.
     and_then (playback_state_new (v_channels v) config device_rate) (\<lambda>r.
     Ok (\<lparr>w_channels = v_channels v, w_logical_capacity_samples = v_logical_capacity_samples v\<rparr>,
         (r, \<lparr>buffer = ring, metrics = metrics_new (capacity_frames config)\<rparr>))))))"

definition open_capture ::
    "(PcmStreamConfig \<Rightarrow> PcmStreamDirection \<Rightarrow> (u32, PcmStreamError) res) \<Rightarrow> PcmStreamConfig \<Rightarrow>
     (CaptureCallbackState \<times> reading, PcmStreamError) res" where
  "open_capture resolve config =
     and_then (validate_config config) (\<lambda>v.
     and_then (resolve config InputDirection) (\<lambda>device_rate.
     and_then (create_ring (v_internal_sample_capacity v)) (\<lambda>ring.
     and_then (capture_new (v_channels v) (capacity_frames config)) (\<lambda>c.
     and_then (resampler_new (v_channels v) (target_fill_frames config) (capacity_frames config)
       (fdiv F64 (of_natural F64 (unat device_rate))
          (of_natural F64 (unat (fmt_sample_rate (client_format config)))))
       (max_drift_ppm config)) (\<lambda>r.
     Ok (c, (r, \<lparr>buffer = ring, metrics = metrics_new (capacity_frames config)\<rparr>)))))))"

section \<open>The abstract resampler\<close>

text \<open>
  What the reading half promises: a play head over the list of the frames that are buffered,
  wherever they are held. \<open>frames\<close> are the frames in order, \<open>head_phase\<close> the phase between the
  first two, \<open>running\<close> and \<open>started\<close> the priming flags.
\<close>

record playhead =
  frames :: "f32 list list"
  head_phase :: f64
  running :: bool
  started :: bool

record resampler_params =
  p_channels :: usize
  p_threshold :: usize
  p_target :: usize
  p_span :: usize
  p_step :: f64
  p_ratio :: f64

fun skip_frames :: "f64 \<Rightarrow> 'a list \<Rightarrow> f64 \<times> 'a list" where
  "skip_frames p (x # y # fs) =
     (if fle (fone F64) p then skip_frames (fsub F64 p (fone F64)) (y # fs) else (p, x # y # fs))"
| "skip_frames p fs = (p, fs)"

definition drift :: "resampler_params \<Rightarrow> usize \<Rightarrow> f64" where
  "drift P fill =
     (case drift_correction fill (p_target P) (p_span P) (p_ratio P) :: (f64, PcmStreamError) res of
        Ok c \<Rightarrow> c | _ \<Rightarrow> NaN)"

definition mix :: "f64 \<Rightarrow> f32 list \<Rightarrow> f32 list \<Rightarrow> f32 list" where
  "mix p xs ys = map2 (\<lambda>a b. lerp a b (convert F32 p)) xs ys"

definition resample_step :: "resampler_params \<Rightarrow> playhead \<Rightarrow> f32 list option \<times> playhead" where
  "resample_step P h =
     (if \<not> running h \<and> length (frames h) < p_threshold P then (None, h)
      else case frames h of
        x # y # fs \<Rightarrow>
          (let p = fadd F64 (head_phase h)
                 (fmul F64 (p_step P) (fadd F64 (fone F64) (drift P (length (frames h)))));
               (q, rest) = skip_frames p (frames h)
           in (Some (mix (head_phase h) x y),
               \<lparr>frames = rest, head_phase = q, running = (2 \<le> length rest),
                started = (started h \<or> \<not> running h)\<rparr>))
      | _ \<Rightarrow> (None, h\<lparr>running := False, started := (started h \<or> \<not> running h)\<rparr>))"

text \<open>The abstraction, and the invariant of the two records.\<close>

definition params :: "RingResampler \<Rightarrow> resampler_params" where
  "params r = \<lparr>p_channels = rs_channels r, p_threshold = priming_threshold_frames r,
     p_target = rs_target_fill_frames r, p_span = control_span_frames r,
     p_step = nominal_step r, p_ratio = max_drift_ratio r\<rparr>"

definition ring_frames :: "usize \<Rightarrow> pcm_shared \<Rightarrow> f32 list list" where
  "ring_frames c sh = chunks_exact c (contents (buffer sh))"

definition held_frames :: "RingResampler \<Rightarrow> f32 list list" where
  "held_frames r = (if have_current r then [current r] else []) @ (if have_next r then [next_samples r] else [])"

definition playhead_of :: "reading \<Rightarrow> playhead" where
  "playhead_of = (\<lambda>(r, sh). \<lparr>frames = held_frames r @ ring_frames (rs_channels r) sh,
     head_phase = phase r, running = primed r, started = has_primed r\<rparr>)"

definition shared_inv :: "usize \<Rightarrow> pcm_shared \<Rightarrow> bool" where
  "shared_inv c sh \<longleftrightarrow> 0 < c \<and> ring_inv (buffer sh) \<and> c dvd length (contents (buffer sh))
     \<and> ring_fill_frames (metrics sh) = of_nat (length (ring_frames c sh))"

definition resampler_inv :: "RingResampler \<Rightarrow> bool" where
  "resampler_inv r \<longleftrightarrow> length (current r) = rs_channels r \<and> length (next_samples r) = rs_channels r
     \<and> length (interpolated r) = rs_channels r \<and> (have_next r \<longrightarrow> have_current r)
     \<and> fle (fneg (max_drift_ratio r)) (max_drift_ratio r) \<and> 2 \<le> priming_threshold_frames r"

definition reading_inv :: "reading \<Rightarrow> bool" where
  "reading_inv = (\<lambda>(r, sh). resampler_inv r \<and> shared_inv (rs_channels r) sh)"

text \<open>What reading does to the shared part: frames leave the ring, and only the fill metric moves.\<close>

definition same_meters :: "pcm_metrics \<Rightarrow> pcm_metrics \<Rightarrow> bool" where
  "same_meters m m' \<longleftrightarrow> m' = m\<lparr>ring_fill_frames := ring_fill_frames m'\<rparr>"

definition drained :: "pcm_shared \<Rightarrow> pcm_shared \<Rightarrow> bool" where
  "drained sh sh' \<longleftrightarrow> capacity (buffer sh') = capacity (buffer sh) \<and> same_meters (metrics sh) (metrics sh')
     \<and> (\<exists>n. contents (buffer sh') = drop n (contents (buffer sh)))"

lemma same_meters_refl [simp]: "same_meters m m"
  by (simp add: same_meters_def)

lemma same_meters_trans: "same_meters a b \<Longrightarrow> same_meters b c \<Longrightarrow> same_meters a c"
  by (auto simp: same_meters_def) (metis pcm_metrics.surjective pcm_metrics.update_convs(6))

lemma drained_refl [simp]: "drained sh sh"
  by (auto simp: drained_def intro: exI [of _ 0])

lemma drained_trans: "drained a b \<Longrightarrow> drained b c \<Longrightarrow> drained a c"
  by (auto simp: drained_def intro: same_meters_trans)

section \<open>The resampler's operations\<close>

lemma length_ring_frames:
  "0 < c \<Longrightarrow> length (ring_frames c sh) = consumer_available (buffer sh) div c"
  by (simp add: ring_frames_def length_chunks_exact)

lemma buffered_frames_ok:
  "shared_inv (rs_channels r) sh \<Longrightarrow>
     buffered_frames (r, sh) = Ok (length (frames (playhead_of (r, sh))))"
  by (auto simp: buffered_frames_def playhead_of_def held_frames_def shared_inv_def length_ring_frames)

lemma drift_correction_ok:
  "resampler_inv r \<Longrightarrow> drift_correction n (rs_target_fill_frames r) (control_span_frames r)
     (max_drift_ratio r) = Ok (drift (params r) n)"
proof -
  assume "resampler_inv r"
  then have "fle (fneg (max_drift_ratio r)) (max_drift_ratio r)" by (simp add: resampler_inv_def)
  then show ?thesis by (simp add: drift_def drift_correction_def params_def fclamp_def Let_def)
qed

lemma pop_frame_empty:
  assumes "shared_inv (rs_channels r) sh" "ring_frames (rs_channels r) sh = []"
  shows "pop_frame b (r, sh) = (False, (r, sh))"
proof -
  have "consumer_available (buffer sh) div rs_channels r = 0"
    using assms length_ring_frames [of "rs_channels r" sh] by (simp add: shared_inv_def)
  then have "consumer_available (buffer sh) < rs_channels r"
    using assms(1) by (simp add: shared_inv_def div_eq_0_iff)
  then show ?thesis by (simp add: pop_frame_def)
qed

lemma pop_frame_some:
  assumes inv: "shared_inv (rs_channels r) sh" and fr: "ring_frames (rs_channels r) sh = f # fs"
    and len: "length (current r) = rs_channels r" "length (next_samples r) = rs_channels r"
  obtains sh' where "pop_frame b (r, sh) = (True, (if b then r\<lparr>next_samples := f\<rparr> else r\<lparr>current := f\<rparr>, sh'))"
    "shared_inv (rs_channels r) sh'" "ring_frames (rs_channels r) sh' = fs" "drained sh sh'"
    "length f = rs_channels r"
proof -
  let ?c = "rs_channels r" and ?out = "if b then next_samples r else current r"
  obtain n out ring where p: "pop_slice ?out (buffer sh) = (n, out, ring)"
    by (cases "pop_slice ?out (buffer sh)") simp
  have c: "0 < ?c" and ri: "ring_inv (buffer sh)" and dvd: "?c dvd length (contents (buffer sh))"
    and fill: "ring_fill_frames (metrics sh) = of_nat (Suc (length fs))"
    using inv fr by (auto simp: shared_inv_def)
  have av: "?c \<le> consumer_available (buffer sh)"
    using fr by (cases "consumer_available (buffer sh) < ?c") (auto simp: ring_frames_def)
  have q: "ring_inv ring" "capacity ring = capacity (buffer sh)"
    "contents ring = drop ?c (contents (buffer sh))" "out = take ?c (contents (buffer sh))"
    using rq.pop_all [OF ri _ p] av len by auto
  define sh' where "sh' = meter (remove_fill 1) (sh\<lparr>buffer := ring\<rparr>)"
  have split: "f = take ?c (contents (buffer sh))" "fs = chunks_exact ?c (contents ring)"
    using fr c av q(3) by (auto simp: ring_frames_def chunks_exact_Cons)
  show ?thesis
  proof
    show "pop_frame b (r, sh) = (True, (if b then r\<lparr>next_samples := f\<rparr> else r\<lparr>current := f\<rparr>, sh'))"
      using av p q(4) split(1) by (simp add: pop_frame_def sh'_def)
    show fs: "ring_frames ?c sh' = fs" by (simp add: ring_frames_def sh'_def split(2))
    show "shared_inv ?c sh'"
      using c q(1,3) dvd fill fs
      by (auto simp: shared_inv_def sh'_def remove_fill_def ring_frames_def dvd_diff_nat)
    show "drained sh sh'"
      using q by (auto simp: drained_def sh'_def remove_fill_def same_meters_def)
    show "length f = ?c" using av split(1) by simp
  qed
qed

section \<open>The phase loop\<close>

definition settled :: "RingResampler \<Rightarrow> resampler_params \<times> f32 list \<times> bool \<times> bool" where
  \<comment> \<open>what the loop leaves alone\<close>
  "settled r = (params r, interpolated r, primed r, has_primed r)"

definition phase_loop :: "reading \<Rightarrow> (reading, PcmStreamError) comp" where
  "phase_loop = while_res (\<lambda>(r, sh). fle (fone F64) (phase r) \<and> have_next r) advance_body"

lemma params_cong [simp]:
  "params (r\<lparr>current := x\<rparr>) = params r" "params (r\<lparr>next_samples := x\<rparr>) = params r"
  "params (r\<lparr>have_current := b\<rparr>) = params r" "params (r\<lparr>have_next := b\<rparr>) = params r"
  "params (r\<lparr>phase := p\<rparr>) = params r" "params (r\<lparr>primed := b\<rparr>) = params r"
  "params (r\<lparr>has_primed := b\<rparr>) = params r" "params (r\<lparr>interpolated := x\<rparr>) = params r"
  by (simp_all add: params_def)

lemma phase_loop_stop:
  "\<not> (fle (fone F64) (phase r) \<and> have_next r) \<Longrightarrow> phase_loop (r, sh) = ret (r, sh)"
  unfolding phase_loop_def by (subst while_res_unfold) auto

lemma phase_loop_go:
  assumes "fle (fone F64) (phase r)" "have_next r"
  shows "phase_loop (r, sh) = and_run (Some (advance_body (r, sh))) phase_loop"
  using assms unfolding phase_loop_def by (subst while_res_unfold) simp

lemma playhead_frames:
  "frames (playhead_of (r, sh)) = held_frames r @ ring_frames (rs_channels r) sh"
  by (simp add: playhead_of_def)

text \<open>One turn of the loop drops the first frame; what it leaves is again a reading state.\<close>

lemma advance_body_ok:
  assumes inv: "reading_inv (r, sh)" and held: "have_current r" "have_next r"
  obtains r1 sh1 where "advance_body (r, sh) = Ok (r1, sh1)" "reading_inv (r1, sh1)" "have_current r1"
    "settled r1 = settled r" "drained sh sh1" "phase r1 = fsub F64 (phase r) (fone F64)"
    "frames (playhead_of (r1, sh1)) = next_samples r # ring_frames (rs_channels r) sh"
    "have_next r1 \<longleftrightarrow> ring_frames (rs_channels r) sh \<noteq> []"
proof -
  define r0 where "r0 = r\<lparr>current := next_samples r, have_current := True, have_next := False,
    phase := fsub F64 (phase r) (fone F64)\<rparr>"
  have i: "resampler_inv r" "shared_inv (rs_channels r) sh" using inv by (auto simp: reading_inv_def)
  have c: "rs_channels r0 = rs_channels r" by (simp add: r0_def)
  have body: "advance_body (r, sh) =
      (let (ok, (r2, sh2)) = pop_frame True (r0, sh) in Ok (r2\<lparr>have_next := ok\<rparr>, sh2))"
    using i(1) by (simp add: advance_body_def r0_def resampler_inv_def)
  show ?thesis
  proof (cases "ring_frames (rs_channels r) sh")
    case Nil
    have "pop_frame True (r0, sh) = (False, (r0, sh))"
      by (rule pop_frame_empty) (use i(2) Nil in \<open>simp_all add: c\<close>)
    then show ?thesis
      using i Nil by (intro that [of "r0\<lparr>have_next := False\<rparr>" sh])
        (auto simp: body r0_def reading_inv_def resampler_inv_def settled_def playhead_frames held_frames_def)
  next
    case (Cons f fs)
    have "shared_inv (rs_channels r0) sh" "ring_frames (rs_channels r0) sh = f # fs"
      "length (current r0) = rs_channels r0" "length (next_samples r0) = rs_channels r0"
      using i Cons by (simp_all add: r0_def resampler_inv_def)
    then obtain sh' where p: "pop_frame True (r0, sh) = (True, (r0\<lparr>next_samples := f\<rparr>, sh'))"
      and s: "shared_inv (rs_channels r) sh'" "ring_frames (rs_channels r) sh' = fs" "drained sh sh'"
        "length f = rs_channels r"
      by (rule pop_frame_some [where b = True]) (simp add: c)
    then show ?thesis
      using i Cons by (intro that [of "r0\<lparr>next_samples := f, have_next := True\<rparr>" sh'])
        (auto simp: body r0_def reading_inv_def resampler_inv_def settled_def playhead_frames held_frames_def)
  qed
qed

lemma settled_channels: "settled r' = settled r \<Longrightarrow> rs_channels r' = rs_channels r"
  by (simp add: settled_def params_def)

lemma phase_loop_ok:
  assumes "reading_inv (r, sh)" "have_current r" "have_next r \<or> ring_frames (rs_channels r) sh = []"
  shows "\<exists>r' sh'. phase_loop (r, sh) = ret (r', sh')
    \<and> reading_inv (r', sh') \<and> have_current r' \<and> settled r' = settled r \<and> drained sh sh'
    \<and> (have_next r' \<or> ring_frames (rs_channels r') sh' = [])
    \<and> (phase r', frames (playhead_of (r', sh'))) = skip_frames (phase r) (frames (playhead_of (r, sh)))"
  using assms
proof (induction "length (frames (playhead_of (r, sh)))" arbitrary: r sh rule: less_induct)
  case less
  consider "\<not> have_next r" | "have_next r" "\<not> fle (fone F64) (phase r)"
    | "have_next r" "fle (fone F64) (phase r)" by blast
  then show ?case
  proof cases
    case 1
    then have "frames (playhead_of (r, sh)) = [current r]"
      using less.prems by (simp add: playhead_frames held_frames_def)
    then show ?thesis using less.prems 1 by (auto simp: phase_loop_stop)
  next
    case 2
    then have "frames (playhead_of (r, sh)) = current r # next_samples r # ring_frames (rs_channels r) sh"
      using less.prems by (simp add: playhead_frames held_frames_def)
    then show ?thesis using less.prems 2 by (auto simp: phase_loop_stop)
  next
    case 3
    obtain r1 sh1 where b: "advance_body (r, sh) = Ok (r1, sh1)" and i: "reading_inv (r1, sh1)"
      and h: "have_current r1" "settled r1 = settled r" "drained sh sh1"
      and p: "phase r1 = fsub F64 (phase r) (fone F64)"
      and f: "frames (playhead_of (r1, sh1)) = next_samples r # ring_frames (rs_channels r) sh"
      and n: "have_next r1 \<longleftrightarrow> ring_frames (rs_channels r) sh \<noteq> []"
      using advance_body_ok [OF less.prems(1,2) 3(1)] by blast
    have f0: "frames (playhead_of (r, sh)) = current r # next_samples r # ring_frames (rs_channels r) sh"
      using less.prems 3 by (simp add: playhead_frames held_frames_def)
    have "have_next r1 \<or> ring_frames (rs_channels r1) sh1 = []"
      using n f h(1) by (auto simp: playhead_frames held_frames_def)
    with less.hyps [of r1 sh1] i h(1) f f0 obtain r' sh' where
      "phase_loop (r1, sh1) = ret (r', sh')" "reading_inv (r', sh')" "have_current r'"
      "settled r' = settled r1" "drained sh1 sh'" "have_next r' \<or> ring_frames (rs_channels r') sh' = []"
      "(phase r', frames (playhead_of (r', sh'))) = skip_frames (phase r1) (frames (playhead_of (r1, sh1)))"
      by auto
    then show ?thesis
      using phase_loop_go [OF 3(2,1)] b h p f f0 3 drained_trans by auto
  qed
qed

section \<open>\<open>prepare_next_frame\<close> refines the abstract resampler\<close>

lemma playhead_sel [simp]:
  "running (playhead_of (r, sh)) = primed r" "head_phase (playhead_of (r, sh)) = phase r"
  "started (playhead_of (r, sh)) = has_primed r"
  by (simp_all add: playhead_of_def)

lemma params_sel [simp]:
  "p_channels (params r) = rs_channels r" "p_threshold (params r) = priming_threshold_frames r"
  "p_target (params r) = rs_target_fill_frames r" "p_span (params r) = control_span_frames r"
  "p_step (params r) = nominal_step r" "p_ratio (params r) = max_drift_ratio r"
  by (simp_all add: params_def)

lemma frames_eq:
  "frames (playhead_of (r, sh)) = (if have_current r then [current r] else [])
     @ (if have_next r then [next_samples r] else []) @ ring_frames (rs_channels r) sh"
  by (simp add: playhead_frames held_frames_def)

lemma prime_ok:
  assumes "reading_inv (r, sh)"
  shows "prime (r, sh) =
    (if \<not> primed r \<and> length (frames (playhead_of (r, sh))) < priming_threshold_frames r
     then Ok (False, (r, sh))
     else Ok (True, (r\<lparr>primed := True, has_primed := (has_primed r \<or> \<not> primed r)\<rparr>, sh)))"
  using assms buffered_frames_ok [of r sh]
  by (cases "primed r") (auto simp: prime_def reading_inv_def)

definition filled :: "reading \<Rightarrow> reading \<Rightarrow> bool" where
  \<comment> \<open>a frame may have moved from the ring into \<open>current\<close> or \<open>next\<close>, nothing else\<close>
  "filled = (\<lambda>(r, sh) (r', sh'). reading_inv (r', sh') \<and> drained sh sh' \<and> params r' = params r
     \<and> phase r' = phase r \<and> interpolated r' = interpolated r \<and> has_primed r' = has_primed r
     \<and> frames (playhead_of (r', sh')) = frames (playhead_of (r, sh)))"

lemma params_channels: "params r' = params r \<Longrightarrow> rs_channels r' = rs_channels r"
  by (simp add: params_def)

lemma fill_current_ok:
  assumes inv: "reading_inv (r, sh)"
  obtains r1 sh1 where "fill_current (r, sh) = (frames (playhead_of (r, sh)) \<noteq> [], (r1, sh1))"
    "filled (r, sh) (r1, sh1)" "primed r1 \<longleftrightarrow> primed r \<and> frames (playhead_of (r, sh)) \<noteq> []"
    "have_current r1 \<longleftrightarrow> frames (playhead_of (r, sh)) \<noteq> []"
proof (cases "have_current r")
  case True
  then show ?thesis
    using inv by (intro that [of r sh]) (auto simp: fill_current_def filled_def frames_eq)
next
  case hc: False
  have i: "resampler_inv r" "shared_inv (rs_channels r) sh" using inv by (auto simp: reading_inv_def)
  have hn: "\<not> have_next r" using i(1) hc by (auto simp: resampler_inv_def)
  show ?thesis
  proof (cases "ring_frames (rs_channels r) sh")
    case Nil
    have "pop_frame False (r, sh) = (False, (r, sh))" by (rule pop_frame_empty [OF i(2) Nil])
    then show ?thesis
      using i hc hn Nil by (intro that [of "r\<lparr>have_current := False, primed := False\<rparr>" sh])
        (auto simp: fill_current_def filled_def frames_eq reading_inv_def resampler_inv_def)
  next
    case (Cons f fs)
    have l: "length (current r) = rs_channels r" "length (next_samples r) = rs_channels r"
      using i(1) by (simp_all add: resampler_inv_def)
    obtain sh' where "pop_frame False (r, sh) = (True, (r\<lparr>current := f\<rparr>, sh'))"
      "shared_inv (rs_channels r) sh'" "ring_frames (rs_channels r) sh' = fs" "drained sh sh'"
      "length f = rs_channels r"
      by (rule pop_frame_some [OF i(2) Cons l, of False]) simp
    then show ?thesis
      using i hc hn Cons by (intro that [of "r\<lparr>current := f, have_current := True\<rparr>" sh'])
        (auto simp: fill_current_def filled_def frames_eq reading_inv_def resampler_inv_def)
  qed
qed

lemma fill_next_ok:
  assumes inv: "reading_inv (r, sh)" and hc: "have_current r"
  obtains r1 sh1 where "fill_next (r, sh) = (2 \<le> length (frames (playhead_of (r, sh))), (r1, sh1))"
    "filled (r, sh) (r1, sh1)" "primed r1 \<longleftrightarrow> primed r \<and> 2 \<le> length (frames (playhead_of (r, sh)))"
    "have_current r1" "have_next r1 \<longleftrightarrow> 2 \<le> length (frames (playhead_of (r, sh)))"
proof (cases "have_next r")
  case True
  then show ?thesis
    using inv hc by (intro that [of r sh]) (auto simp: fill_next_def filled_def frames_eq)
next
  case hn: False
  have i: "resampler_inv r" "shared_inv (rs_channels r) sh" using inv by (auto simp: reading_inv_def)
  show ?thesis
  proof (cases "ring_frames (rs_channels r) sh")
    case Nil
    have "pop_frame True (r, sh) = (False, (r, sh))" by (rule pop_frame_empty [OF i(2) Nil])
    then show ?thesis
      using i hc hn Nil by (intro that [of "r\<lparr>have_next := False, primed := False\<rparr>" sh])
        (auto simp: fill_next_def filled_def frames_eq reading_inv_def resampler_inv_def)
  next
    case (Cons f fs)
    have l: "length (current r) = rs_channels r" "length (next_samples r) = rs_channels r"
      using i(1) by (simp_all add: resampler_inv_def)
    obtain sh' where "pop_frame True (r, sh) = (True, (r\<lparr>next_samples := f\<rparr>, sh'))"
      "shared_inv (rs_channels r) sh'" "ring_frames (rs_channels r) sh' = fs" "drained sh sh'"
      "length f = rs_channels r"
      by (rule pop_frame_some [OF i(2) Cons l, of True]) simp
    then show ?thesis
      using i hc hn Cons by (intro that [of "r\<lparr>next_samples := f, have_next := True\<rparr>" sh'])
        (auto simp: fill_next_def filled_def frames_eq reading_inv_def resampler_inv_def)
  qed
qed

lemma interpolate_ok:
  assumes "resampler_inv r"
  shows "interpolate r = Ok (r\<lparr>interpolated := mix (phase r) (current r) (next_samples r)\<rparr>)"
proof -
  have "map (\<lambda>i. lerp (current r ! i) (next_samples r ! i) p) [0..<rs_channels r]
      = map2 (\<lambda>a b. lerp a b p) (current r) (next_samples r)" for p
    using assms by (intro nth_equalityI) (auto simp: resampler_inv_def)
  then show ?thesis
    using assms by (simp add: interpolate_def resampler_inv_def mix_def Let_def)
qed

lemma advance_ok:
  assumes inv: "reading_inv (r, sh)" and h: "have_current r" "have_next r"
  obtains r' sh' where "advance (r, sh) = ret (r', sh')" "reading_inv (r', sh')" "drained sh sh'"
    "params r' = params r" "interpolated r' = interpolated r" "has_primed r' = has_primed r"
    "(phase r', frames (playhead_of (r', sh'))) =
       skip_frames (fadd F64 (phase r) (fmul F64 (nominal_step r)
         (fadd F64 (fone F64) (drift (params r) (length (frames (playhead_of (r, sh))))))))
         (frames (playhead_of (r, sh)))"
    "primed r' \<longleftrightarrow> primed r \<and> 2 \<le> length (frames (playhead_of (r', sh')))"
proof -
  let ?n = "length (frames (playhead_of (r, sh)))"
  let ?p = "fadd F64 (phase r) (fmul F64 (nominal_step r) (fadd F64 (fone F64) (drift (params r) ?n)))"
  let ?r0 = "r\<lparr>phase := ?p\<rparr>"
  have "resampler_drift_correction (r, sh) = Ok (drift (params r) ?n)"
    using inv by (auto simp: resampler_drift_correction_def reading_inv_def buffered_frames_ok drift_correction_ok)
  moreover have i0: "reading_inv (?r0, sh)"
    using inv by (simp add: reading_inv_def resampler_inv_def)
  obtain r1 sh1 where l: "phase_loop (?r0, sh) = ret (r1, sh1)"
    and i1: "reading_inv (r1, sh1)" "have_current r1" "settled r1 = settled ?r0" "drained sh sh1"
      "have_next r1 \<or> ring_frames (rs_channels r1) sh1 = []"
    and f: "(phase r1, frames (playhead_of (r1, sh1))) = skip_frames ?p (frames (playhead_of (?r0, sh)))"
    using phase_loop_ok [OF i0] h by auto
  ultimately have adv: "advance (r, sh) = ret (if have_next r1 then r1 else r1\<lparr>primed := False\<rparr>, sh1)"
    by (simp add: advance_def phase_loop_def)
  define r' where "r' = (if have_next r1 then r1 else r1\<lparr>primed := False\<rparr>)"
  have fs: "frames (playhead_of (?r0, sh)) = frames (playhead_of (r, sh))"
    "frames (playhead_of (r', sh1)) = frames (playhead_of (r1, sh1))"
    by (simp_all add: frames_eq r'_def)
  have n: "have_next r1 \<longleftrightarrow> 2 \<le> length (frames (playhead_of (r1, sh1)))"
    using i1(2,5) by (auto simp: frames_eq)
  have st: "params r1 = params r" "interpolated r1 = interpolated r" "has_primed r1 = has_primed r"
    "primed r1 = primed r"
    using i1(3) by (simp_all add: settled_def)
  show ?thesis
  proof (rule that)
    show "advance (r, sh) = ret (r', sh1)" using adv by (simp add: r'_def)
    show "reading_inv (r', sh1)" using i1(1) by (simp add: r'_def reading_inv_def resampler_inv_def)
    show "drained sh sh1" by (rule i1(4))
    show "params r' = params r" "interpolated r' = interpolated r" "has_primed r' = has_primed r"
      using st by (simp_all add: r'_def)
    show "(phase r', frames (playhead_of (r', sh1))) = skip_frames ?p (frames (playhead_of (r, sh)))"
      using f unfolding fs by (simp add: r'_def)
    show "primed r' \<longleftrightarrow> primed r \<and> 2 \<le> length (frames (playhead_of (r', sh1)))"
      unfolding fs using n st(4) by (auto simp: r'_def)
  qed
qed

text \<open>The refinement, with what it leaves alone.\<close>

lemma prepare_next_frame_ok:
  assumes inv: "reading_inv (r, sh)"
  obtains ok r' sh' where "prepare_next_frame (r, sh) = ret (ok, (r', sh'))" "reading_inv (r', sh')"
    "drained sh sh'" "params r' = params r"
    "resample_step (params r) (playhead_of (r, sh)) =
       (if ok then Some (interpolated r') else None, playhead_of (r', sh'))"
    "\<not> ok \<Longrightarrow> interpolated r' = interpolated r"
proof -
  let ?fs = "frames (playhead_of (r, sh))"
  let ?r1 = "r\<lparr>primed := True, has_primed := (has_primed r \<or> \<not> primed r)\<rparr>"
  show ?thesis
  proof (cases "\<not> primed r \<and> length ?fs < priming_threshold_frames r")
    case True
    then show ?thesis
      using inv by (intro that [of False r sh])
        (auto simp: prepare_next_frame_def prime_ok resample_step_def playhead_of_def params_def)
  next
    case run: False
    then have p: "prime (r, sh) = Ok (True, (?r1, sh))" using prime_ok [OF inv] by simp
    have i1: "reading_inv (?r1, sh)" using inv by (simp add: reading_inv_def resampler_inv_def)
    have fs1: "frames (playhead_of (?r1, sh)) = ?fs" by (simp add: frames_eq)
    have step: "resample_step (params r) (playhead_of (r, sh)) =
      (case ?fs of x # y # fs \<Rightarrow>
         (let p = fadd F64 (phase r)
                (fmul F64 (nominal_step r) (fadd F64 (fone F64) (drift (params r) (length ?fs))));
              (q, rest) = skip_frames p ?fs
          in (Some (mix (phase r) x y), \<lparr>frames = rest, head_phase = q, running = (2 \<le> length rest),
               started = (has_primed r \<or> \<not> primed r)\<rparr>))
       | _ \<Rightarrow> (None, (playhead_of (r, sh))\<lparr>running := False, started := (has_primed r \<or> \<not> primed r)\<rparr>))"
      using run unfolding resample_step_def playhead_sel params_sel by (simp only: if_False)
    obtain r2 sh2 where c: "fill_current (?r1, sh) = (?fs \<noteq> [], (r2, sh2))" "filled (?r1, sh) (r2, sh2)"
      "primed r2 \<longleftrightarrow> ?fs \<noteq> []" "have_current r2 \<longleftrightarrow> ?fs \<noteq> []"
      using fill_current_ok [OF i1] unfolding fs1 by auto
    show ?thesis
    proof (cases "?fs = []")
      case True
      then show ?thesis
        using c p fs1 step by (intro that [of False r2 sh2])
          (auto simp: prepare_next_frame_def filled_def playhead_of_def)
    next
      case False
      have i2: "reading_inv (r2, sh2)" and fs2: "frames (playhead_of (r2, sh2)) = ?fs"
        using c(2) fs1 by (auto simp: filled_def)
      obtain r3 sh3 where n: "fill_next (r2, sh2) = (2 \<le> length ?fs, (r3, sh3))"
        "filled (r2, sh2) (r3, sh3)" "primed r3 \<longleftrightarrow> 2 \<le> length ?fs"
        "have_current r3" "have_next r3 \<longleftrightarrow> 2 \<le> length ?fs"
        using fill_next_ok [OF i2] c(3,4) False unfolding fs2 by auto
      have i3: "reading_inv (r3, sh3)" and fs3: "frames (playhead_of (r3, sh3)) = ?fs"
        and same: "params r3 = params r" "phase r3 = phase r" "has_primed r3 = (has_primed r \<or> \<not> primed r)"
          "interpolated r3 = interpolated r" "drained sh sh3"
        using c(2) n(2) fs1 by (auto simp: filled_def intro: drained_trans)
      show ?thesis
      proof (cases "2 \<le> length ?fs")
        case False
        then obtain x where "?fs = [x]" using \<open>?fs \<noteq> []\<close> by (cases ?fs; cases "tl ?fs") auto
        then show ?thesis
          using c n p fs3 step False same i3 by (intro that [of False r3 sh3])
            (auto simp: prepare_next_frame_def playhead_of_def)
      next
        case True
        let ?x = "current r3" and ?y = "next_samples r3"
        let ?r4 = "r3\<lparr>interpolated := mix (phase r) ?x ?y\<rparr>"
        have xy: "?fs = ?x # ?y # ring_frames (rs_channels r3) sh3"
          using n(4,5) True fs3 by (simp add: frames_eq)
        have int: "interpolate r3 = Ok ?r4"
          using i3 same(2) by (simp add: interpolate_ok reading_inv_def)
        have "frames (playhead_of (?r4, sh3)) = frames (playhead_of (r3, sh3))" by (simp add: frames_eq)
        then have fs4: "frames (playhead_of (?r4, sh3)) = ?fs" using fs3 by (rule trans)
        have len: "length (mix (phase r) ?x ?y) = rs_channels r3"
          using i3 by (simp add: reading_inv_def resampler_inv_def mix_def)
        have i4: "reading_inv (?r4, sh3)"
          using i3 len by (simp add: reading_inv_def resampler_inv_def)
        have h4: "have_current ?r4" "have_next ?r4" using n(4,5) True by simp_all
        obtain r5 sh5 where a: "advance (?r4, sh3) = ret (r5, sh5)" "reading_inv (r5, sh5)"
          "drained sh3 sh5" "params r5 = params r" "interpolated r5 = mix (phase r) ?x ?y"
          "has_primed r5 = (has_primed r \<or> \<not> primed r)"
          and sk: "(phase r5, frames (playhead_of (r5, sh5))) =
            skip_frames (fadd F64 (phase r) (fmul F64 (nominal_step r)
              (fadd F64 (fone F64) (drift (params r) (length ?fs))))) ?fs"
          and pr: "primed r5 \<longleftrightarrow> 2 \<le> length (frames (playhead_of (r5, sh5)))"
        proof (rule advance_ok [OF i4 h4])
          fix r' sh'
          assume a: "advance (?r4, sh3) = ret (r', sh')" "reading_inv (r', sh')" "drained sh3 sh'"
            "params r' = params ?r4" "interpolated r' = interpolated ?r4" "has_primed r' = has_primed ?r4"
            "(phase r', frames (playhead_of (r', sh'))) =
              skip_frames (fadd F64 (phase ?r4) (fmul F64 (nominal_step ?r4) (fadd F64 (fone F64)
                (drift (params ?r4) (length (frames (playhead_of (?r4, sh3)))))))) (frames (playhead_of (?r4, sh3)))"
            "primed r' \<longleftrightarrow> primed ?r4 \<and> 2 \<le> length (frames (playhead_of (r', sh')))"
          have "nominal_step r3 = nominal_step r" using same(1) by (simp add: params_def)
          then show ?thesis using a same n(3) True unfolding fs4 by (intro that [of r' sh']) simp_all
        qed
        have "prepare_next_frame (r, sh) = ret (True, (r5, sh5))"
          using p c(1) n(1) True \<open>?fs \<noteq> []\<close> int a(1) by (simp add: prepare_next_frame_def)
        moreover have "resample_step (params r) (playhead_of (r, sh)) = (Some (interpolated r5), playhead_of (r5, sh5))"
        proof -
          have ph: "playhead_of (r5, sh5) = \<lparr>frames = frames (playhead_of (r5, sh5)), head_phase = phase r5,
              running = (2 \<le> length (frames (playhead_of (r5, sh5)))), started = (has_primed r \<or> \<not> primed r)\<rparr>"
            using pr a(6) by (simp add: playhead_of_def)
          show ?thesis
            unfolding step by (subst ph) (use xy a(5) sk [symmetric] in \<open>simp add: Let_def\<close>)
        qed
        ultimately show ?thesis
          using a same(5) by (intro that [of True r5 sh5]) (auto intro: drained_trans)
      qed
    qed
  qed
qed

end
