(* ===== verification/FloatBounds.thy ===== *)
theory FloatBounds
  imports IeeeFloat
begin

text \<open>
  Magnitudes of floating-point results: \<open>below k x\<close> says that \<open>x\<close> is finite with
  \<open>|x| < 2 ^ k\<close>. Every operation raises the bound by at most two, so expressions over samples
  of ordinary size cannot overflow.
\<close>

fun below :: "int \<Rightarrow> ieee \<Rightarrow> bool" where
  "below k (Fin s m e) = (m = 0 \<or> int (bits m) + e \<le> k)"
| "below k _ = False"

lemma below_finite: "below k x \<Longrightarrow> is_finite x"
  by (cases x) auto

lemma below_mono: "below k x \<Longrightarrow> k \<le> l \<Longrightarrow> below l x"
  by (cases x) auto

lemma below_fneg [simp]: "below k (fneg x) = below k x"
  by (cases x) auto

lemma below_zero [simp]: "below k (fzero F)"
  by (simp add: fzero_def)

lemma bits_mono: "m \<le> n \<Longrightarrow> bits m \<le> bits n"
  using bits_bounds [of n] by (simp add: bits_le_iff)

lemma bits_eq_0_iff [simp]: "bits m = 0 \<longleftrightarrow> m = 0"
  by (metis bits_numeral(1) bits_pos gr0I less_irrefl)

text \<open>The rounded significand is within one bit of the exact one, in both directions.\<close>

lemma round_sig_magnitude:
  assumes "0 < m" "q = max (emin F) (e + int (bits m) - int (prec F))" "0 < prec F"
  shows "int (bits (round_sig F m e q)) + q \<le> max (int (bits m) + e) (emin F) + 1"
proof (cases "q \<le> e")
  case True
  then show ?thesis using bits_shift [OF assms(1), of "nat (e - q)"] by (simp add: round_sig_def)
next
  case False
  define p where "p = bits m - nat (q - e)"
  have "bits m \<le> p + nat (q - e)" by (simp add: p_def)
  then have "shift_rne m (nat (q - e)) \<le> 2 ^ p" by (rule shift_rne_bounds)
  then have "bits (shift_rne m (nat (q - e))) \<le> Suc p"
    using bits_mono bits_eqI [of p "2 ^ p"] by fastforce
  moreover have "int p + q \<le> max (int (bits m) + e) (emin F)"
    using False assms(2,3) by (auto simp: p_def)
  ultimately show ?thesis using False by (simp add: round_sig_def)
qed

lemma round_fin_sig:
  assumes "0 < m" "q = max (emin F) (e + int (bits m) - int (prec F))"
  shows "round_fin F s m e =
     (if round_sig F m e q = 2 ^ prec F
      then (if emax F < q + 1 then Inf s else Fin s (2 ^ (prec F - 1)) (q + 1))
      else (if emax F < q then Inf s else Fin s (round_sig F m e q) q))"
  using assms by (simp add: round_fin_def Let_def round_sig_def)

lemma round_fin_below:
  assumes F: "wf_fmt F" and m: "m = 0 \<or> int (bits m) + e \<le> k" and k: "emin F \<le> k" "k < emax F + int (prec F)"
  shows "below (k + 1) (round_fin F s m e)"
proof (cases "m = 0")
  case True
  then show ?thesis by (simp add: round_fin_def)
next
  case False
  then have m0: "0 < m" by simp
  define q where "q = max (emin F) (e + int (bits m) - int (prec F))"
  have p: "0 < prec F" using F by (simp add: wf_fmt_def)
  have fin: "is_finite (round_fin F s m e)"
    using F k m False by (intro round_fin_finite [where j = "bits m"])
      (auto simp: bits_bounds)
  have b: "int (bits (round_sig F m e q)) + q \<le> k + 1"
    using round_sig_magnitude [OF m0 q_def p] m k False by auto
  have "bits ((2::nat) ^ prec F) = Suc (prec F)" "bits ((2::nat) ^ (prec F - 1)) = Suc (prec F - 1)"
    by (simp_all add: bits_eqI)
  then show ?thesis
    using fin b p unfolding round_fin_sig [OF m0 q_def] by (auto split: if_splits)
qed

lemma round_fin_above:
  assumes F: "wf_fmt F" and m0: "0 < m" and e: "emin F < e + int (bits m) - int (prec F)"
    and r: "round_fin F s m e = Fin t n f"
  shows "int (bits m) + e \<le> int (bits n) + f \<and> 0 < n"
proof -
  define q where "q = max (emin F) (e + int (bits m) - int (prec F))"
  have p: "0 < prec F" using F by (simp add: wf_fmt_def)
  have q: "q = e + int (bits m) - int (prec F)" using e by (simp add: q_def)
  then have "2 ^ (prec F - 1) \<le> round_sig F m e q"
    using round_sig_bounds(2) [OF m0 q_def p] e by auto
  moreover have "bits ((2::nat) ^ (prec F - 1)) = prec F"
    using p bits_eqI [of "prec F - 1" "2 ^ (prec F - 1)"] by simp
  ultimately have b: "prec F \<le> bits (round_sig F m e q)" by (metis bits_mono)
  then have "0 < round_sig F m e q" using p by (metis bits_eq_0_iff gr0I le_zero_eq less_irrefl)
  then show ?thesis
    using r b q p \<open>bits ((2::nat) ^ (prec F - 1)) = prec F\<close>
    unfolding round_fin_sig [OF m0 q_def] by (auto split: if_splits)
qed

lemma scaled_bound:
  assumes "m = 0 \<or> int (bits m) + e \<le> k" "e0 \<le> e" "e0 \<le> k"
  shows "\<bar>scaled e0 s m e\<bar> < 2 ^ nat (k - e0)"
proof (cases "m = 0")
  case False
  have "bits m + nat (e - e0) \<le> nat (k - e0)" using assms False by linarith
  then have "m * 2 ^ nat (e - e0) < 2 ^ nat (k - e0)"
    using bits_shift [of m "nat (e - e0)"] False by (metis bits_le_iff gr0I)
  then have "int (m * 2 ^ nat (e - e0)) < 2 ^ nat (k - e0)" by (metis of_nat_less_iff of_nat_numeral of_nat_power)
  then show ?thesis by (simp add: scaled_def sval_def abs_mult)
qed simp

lemma fadd_below:
  assumes F: "wf_fmt F" and x: "below k x" and y: "below k y"
    and k: "emin F \<le> k" "k + 1 < emax F + int (prec F)"
  shows "below (k + 2) (fadd F x y)"
proof -
  obtain s m e where X: "x = Fin s m e" "m = 0 \<or> int (bits m) + e \<le> k" using x by (cases x) auto
  obtain t n f where Y: "y = Fin t n f" "n = 0 \<or> int (bits n) + f \<le> k" using y by (cases y) auto
  define e0 where "e0 = min e f"
  define v where "v = scaled e0 s m e + scaled e0 t n f"
  show ?thesis
  proof (cases "v = 0")
    case True
    then show ?thesis by (simp add: X Y Let_def v_def e0_def)
  next
    case False
    have "e0 \<le> k"
    proof (rule ccontr)
      assume "\<not> e0 \<le> k"
      then have "m = 0" "n = 0" using X(2) Y(2) by (auto simp: e0_def)
      then show False using False by (simp add: v_def)
    qed
    then have "\<bar>scaled e0 s m e\<bar> < 2 ^ nat (k - e0)" "\<bar>scaled e0 t n f\<bar> < 2 ^ nat (k - e0)"
      using X(2) Y(2) by (auto intro: scaled_bound simp: e0_def)
    then have "\<bar>v\<bar> < 2 ^ nat (k - e0) + 2 ^ nat (k - e0)"
      unfolding v_def by linarith
    also have "(2::int) ^ nat (k - e0) + 2 ^ nat (k - e0) = 2 ^ Suc (nat (k - e0))" by simp
    finally have "int (nat \<bar>v\<bar>) < int (2 ^ Suc (nat (k - e0)))" by simp
    then have "nat \<bar>v\<bar> < 2 ^ Suc (nat (k - e0))" by (simp only: of_nat_less_iff)
    then have "bits (nat \<bar>v\<bar>) \<le> Suc (nat (k - e0))" by (simp only: bits_le_iff)
    then have "int (bits (nat \<bar>v\<bar>)) + e0 \<le> k + 1" using \<open>e0 \<le> k\<close> by linarith
    then have "below (k + 2) (round_fin F (v < 0) (nat \<bar>v\<bar>) e0)"
      using F k round_fin_below [of F "nat \<bar>v\<bar>" e0 "k + 1"] by (simp add: add.commute)
    then show ?thesis using False by (simp add: X Y Let_def v_def e0_def)
  qed
qed

lemma fsub_below:
  "wf_fmt F \<Longrightarrow> below k x \<Longrightarrow> below k y \<Longrightarrow> emin F \<le> k \<Longrightarrow> k + 1 < emax F + int (prec F) \<Longrightarrow>
     below (k + 2) (fsub F x y)"
  by (simp add: fsub_def fadd_below)

lemma of_natural_below:
  assumes "wf_fmt F" "n < 2 ^ j" "int j < emax F + int (prec F)" "emin F \<le> 0"
  shows "below (int j + 1) (of_natural F n)"
  unfolding of_natural_def using assms by (intro round_fin_below) (auto simp: bits_le_iff)

lemma fdiv_natural_below:
  assumes F: "wf_fmt F" and x: "below k x" and n: "0 < n" "n < 2 ^ j"
    and j: "int j < emax F + int (prec F)" "emin F + int (prec F) \<le> 0"
    and k: "emin F \<le> k" "k < emax F + int (prec F)"
  shows "below (k + 1) (fdiv F x (of_natural F n))"
proof -
  obtain s m e where X: "x = Fin s m e" "m = 0 \<or> int (bits m) + e \<le> k" using x by (cases x) auto
  have "below (int j + 1) (of_natural F n)"
    using F n j by (intro of_natural_below) auto
  then obtain t b f where N: "of_natural F n = Fin t b f" by (cases "of_natural F n") auto
  have bn: "0 < bits n" using n(1) by (rule bits_pos)
  have B: "1 \<le> int (bits b) + f" "0 < b"
    using round_fin_above [OF F n(1) _ N [unfolded of_natural_def]] bn j(2) by auto
  define K where "K = prec F + 2 + bits b"
  define N' where "N' = 2 * (m * 2 ^ K div b) + (if m * 2 ^ K mod b = 0 then 0 else 1)"
  have r: "fdiv F x (of_natural F n) = round_fin F (s \<noteq> t) N' (e - f - int K - 1)"
    using B(2) by (simp add: X N round_frac_def Let_def K_def N'_def)
  have "N' = 0 \<or> int (bits N') + (e - f - int K - 1) \<le> k"
  proof (cases "m = 0")
    case True
    then show ?thesis by (simp add: N'_def)
  next
    case False
    obtain c where c: "bits b = Suc c" using B(2) by (metis bits_eq_0_iff not0_implies_Suc less_irrefl)
    have bl: "2 ^ c \<le> b" using bits_bounds [of b] B(2) c by simp
    have "m * 2 ^ K div b \<le> m * 2 ^ K div 2 ^ c" using bl by (rule div_le_mono2 [rotated]) simp
    also have "\<dots> = m * 2 ^ (K - c)"
      using c by (simp add: K_def power_add mult.assoc [symmetric] power_diff)
    finally have "m * 2 ^ K div b \<le> m * 2 ^ (K - c)" .
    then have "N' < 2 * (m * 2 ^ (K - c)) + 2" by (auto simp: N'_def)
    then have "N' \<le> 2 * (m * 2 ^ (K - c)) + 1" by simp
    also have "\<dots> < 2 * 2 ^ (bits m + (K - c))"
    proof -
      have "m * 2 ^ (K - c) < 2 ^ (bits m + (K - c))"
        using bits_shift [of m "K - c"] False by (metis bits_bounds gr0I)
      then show ?thesis by simp
    qed
    finally have "bits N' \<le> Suc (bits m + (K - c))" by (simp add: bits_le_iff)
    moreover have "int (K - c) = int (prec F) + 3" using c by (simp add: K_def)
    ultimately show ?thesis using X(2) False B(1) c by (simp add: K_def)
  qed
  then show ?thesis unfolding r using F k by (intro round_fin_below) auto
qed

lemma natural_positive:
  assumes "0 < n" "n < 2 ^ 64"
  shows "\<exists>s b f. of_natural F64 n = Fin s b f \<and> 0 < b"
proof -
  have "below 65 (of_natural F64 n)"
    using of_natural_below [of F64 n 64] assms(2) by simp (simp add: F64_def)
  then obtain s b f where N: "of_natural F64 n = Fin s b f" by (cases "of_natural F64 n") auto
  have "0 < bits n" using assms(1) by (rule bits_pos)
  then have "0 < b"
    using round_fin_above [OF wf_F64 assms(1) _ N [unfolded of_natural_def]] by (simp add: F64_def)
  then show ?thesis using N by blast
qed

lemma fmul_zero_finite: "is_finite x \<Longrightarrow> is_zero z \<Longrightarrow> is_zero (fmul F x z) \<and> is_zero (fmul F z x)"
  by (cases x; cases z) (auto simp: round_fin_def)

end
