(* ===== verification/PcmProperties.thy ===== *)
theory PcmProperties
  imports PcmStream FloatBounds
begin

text \<open>
  What the PCM streams of \<open>pcm.rs\<close> promise: validation, the invariant of an open stream and its
  preservation by both halves, all-or-nothing writes, the refinement of the reading half to the
  abstract resampler, order and boundedness of a whole history of calls, and the exact
  pass-through of audio when the rates agree and drift correction is off.
\<close>

section \<open>The invariant of a stream\<close>

text \<open>\<open>c\<close> channels, a logical capacity of \<open>k\<close> frames.\<close>

definition stream_inv :: "usize \<Rightarrow> usize \<Rightarrow> reading \<Rightarrow> bool" where
  "stream_inv c k = (\<lambda>(r, sh). reading_inv (r, sh) \<and> rs_channels r = c
     \<and> length (ring_frames c sh) \<le> k \<and> k * c \<le> capacity (buffer sh) \<and> k < usize_bound)"

lemma stream_invD:
  assumes "stream_inv c k (r, sh)"
  shows "reading_inv (r, sh)" "rs_channels r = c" "0 < c" "shared_inv c sh" "ring_inv (buffer sh)"
    "c dvd length (contents (buffer sh))" "length (ring_frames c sh) \<le> k"
    "k * c \<le> capacity (buffer sh)"
  using assms by (auto simp: stream_inv_def reading_inv_def shared_inv_def)

lemma stream_frames_length: "stream_inv c k (r, sh) \<Longrightarrow> f \<in> set (frames (playhead_of (r, sh))) \<Longrightarrow> length f = c"
  by (auto simp: frames_eq stream_inv_def reading_inv_def resampler_inv_def ring_frames_def
      dest: chunks_exact_lengths split: if_splits)

lemma ring_frames_times:
  "shared_inv c sh \<Longrightarrow> length (ring_frames c sh) * c = length (contents (buffer sh))"
  by (simp add: shared_inv_def length_ring_frames)

lemma drained_frames_le:
  assumes "drained sh sh'" "0 < c"
  shows "length (ring_frames c sh') \<le> length (ring_frames c sh)"
proof -
  obtain n where "contents (buffer sh') = drop n (contents (buffer sh))"
    using assms(1) by (auto simp: drained_def)
  then have "consumer_available (buffer sh') \<le> consumer_available (buffer sh)"
    by (metis diff_le_self length_contents length_drop)
  then show ?thesis using assms(2) by (simp add: length_ring_frames div_le_mono)
qed

lemma stream_inv_drained:
  assumes "stream_inv c k (r, sh)" "reading_inv (r', sh')" "drained sh sh'" "params r' = params r"
  shows "stream_inv c k (r', sh')"
  using assms drained_frames_le [OF assms(3), of c] stream_invD(3) [OF assms(1)]
  by (auto simp: stream_inv_def drained_def dest: params_channels)

lemma frames_meter [simp]:
  "frames (playhead_of (r, meter f sh)) = frames (playhead_of (r, sh))"
  "ring_frames c (meter f sh) = ring_frames c sh"
  by (simp_all add: frames_eq ring_frames_def)

lemma stream_inv_meter:
  "ring_fill_frames (f (metrics sh)) = ring_fill_frames (metrics sh) \<Longrightarrow>
     stream_inv c k (r, meter f sh) = stream_inv c k (r, sh)"
  by (simp add: stream_inv_def reading_inv_def shared_inv_def)

lemma same_meters_iff:
  "same_meters m m' \<longleftrightarrow> callbacks m' = callbacks m \<and> transferred_frames m' = transferred_frames m
     \<and> underrun_frames m' = underrun_frames m \<and> overrun_frames m' = overrun_frames m
     \<and> format_errors m' = format_errors m \<and> ring_capacity_frames m' = ring_capacity_frames m
     \<and> closed m' = closed m"
  by (cases m; cases m') (auto simp: same_meters_def)

text \<open>Appending whole frames to the ring: what both writing halves do.\<close>

lemma push_frames:
  assumes inv: "stream_inv c k (r, sh)" and len: "length xs = n * c"
    and room: "length (ring_frames c sh) + n \<le> k"
    and p: "push_slice xs (buffer sh) = (w, ring)"
    and sh': "sh' = meter (add_fill n) (sh\<lparr>buffer := ring\<rparr>)"
  shows "w = length xs" "stream_inv c k (r, sh')" "contents ring = contents (buffer sh) @ xs"
    "ring_frames c sh' = ring_frames c sh @ chunks_exact c xs"
    "frames (playhead_of (r, sh')) = frames (playhead_of (r, sh)) @ chunks_exact c xs"
proof -
  note i = stream_invD [OF inv]
  have "(length (ring_frames c sh) + n) * c \<le> k * c" using room by (rule mult_le_mono1)
  then have fits: "length xs \<le> producer_available (buffer sh)"
    using len i(8) ring_frames_times [OF i(4)] by (simp add: rq.free i(5) add_mult_distrib)
  note q = rq.push_all [OF i(5) fits p]
  show w: "w = length xs" and ring: "contents ring = contents (buffer sh) @ xs" using q by auto
  obtain m where "length (contents (buffer sh)) = m * c" using i(6) by (metis dvd_div_mult_self)
  then show fr: "ring_frames c sh' = ring_frames c sh @ chunks_exact c xs"
    using i(3) by (simp add: ring_frames_def sh' ring chunks_exact_append)
  have n: "length (chunks_exact c xs) = n" using i(3) len by (simp add: length_chunks_exact)
  show "frames (playhead_of (r, sh')) = frames (playhead_of (r, sh)) @ chunks_exact c xs"
    using fr i(2) by (simp add: frames_eq)
  have "shared_inv c sh'"
    using i(3,4) q fr n len by (auto simp: shared_inv_def sh' add_fill_def)
  then show "stream_inv c k (r, sh')"
    using inv fr n room q by (auto simp: stream_inv_def reading_inv_def sh')
qed

section \<open>Writing\<close>

definition writer_of :: "usize \<Rightarrow> usize \<Rightarrow> PcmWriter" where
  "writer_of c k = \<lparr>w_channels = c, w_logical_capacity_samples = k * c\<rparr>"

lemma try_write_cases:
  assumes inv: "stream_inv c k (r, sh)"
  shows "try_write_interleaved (writer_of c k) pcm sh =
    (if closed (metrics sh) then (Err StreamClosed, sh)
     else if \<not> c dvd length pcm then (Err InvalidBufferLength, sh)
     else if k - length (ring_frames c sh) < length pcm div c
       then (Err (BufferFull (length pcm div c) (k - length (ring_frames c sh))), sh)
     else (Ok (), meter (add_fill (length pcm div c))
            (sh\<lparr>buffer := snd (push_slice pcm (buffer sh))\<rparr>)))"
proof -
  note i = stream_invD [OF inv]
  have used: "usize_sub (capacity (buffer sh)) (producer_available (buffer sh))
      = Ok (length (ring_frames c sh) * c)"
    using rq.used_eq [OF i(5)] rq.free [OF i(5)] by (simp add: ring_frames_times [OF i(4)])
  have "length (ring_frames c sh) * c \<le> k * c" using i(7) by (rule mult_le_mono1)
  then have free: "usize_sub (k * c) (length (ring_frames c sh) * c)
      = Ok ((k - length (ring_frames c sh)) * c)"
    by (simp add: diff_mult_distrib)
  show ?thesis
    using i(3)
    by (simp add: try_write_interleaved_def writer_of_def ensure_open_def used free Let_def
        add_fill_def split: prod.splits)
qed

lemma try_write_effect:
  assumes inv: "stream_inv c k (r, sh)" and w: "try_write_interleaved (writer_of c k) pcm sh = (res, sh')"
  shows "stream_inv c k (r, sh') \<and> res \<noteq> Panic
    \<and> frames (playhead_of (r, sh')) = frames (playhead_of (r, sh)) @ (if is_ok res then chunks_exact c pcm else [])
    \<and> (res \<noteq> Ok () \<longrightarrow> sh' = sh)
    \<and> (res = Ok () \<longrightarrow> contents (buffer sh') = contents (buffer sh) @ pcm
        \<and> metrics sh' = add_fill (length pcm div c) (metrics sh))"
proof (cases "closed (metrics sh) \<or> \<not> c dvd length pcm
    \<or> k - length (ring_frames c sh) < length pcm div c")
  case True
  then show ?thesis using w inv unfolding try_write_cases [OF inv] by (auto split: if_splits)
next
  case False
  define sh1 where "sh1 = meter (add_fill (length pcm div c))
    (sh\<lparr>buffer := snd (push_slice pcm (buffer sh))\<rparr>)"
  have res: "res = Ok ()" "sh' = sh1"
    using w False unfolding try_write_cases [OF inv] by (auto simp: sh1_def)
  have len: "length pcm = length pcm div c * c" using False by simp
  have room: "length (ring_frames c sh) + length pcm div c \<le> k"
    using False stream_invD(7) [OF inv] by linarith
  have p: "push_slice pcm (buffer sh)
      = (fst (push_slice pcm (buffer sh)), snd (push_slice pcm (buffer sh)))" by simp
  note q = push_frames [OF inv len room p sh1_def]
  show ?thesis using q res by simp (simp add: sh1_def)
qed

text \<open>C8: A write is all or nothing. On a closed stream, on a buffer that is not a whole number of
  frames, and when fewer than the requested frames are free, the exact error is returned and
  neither the ring nor the metrics change; otherwise all samples are appended, the fill metric
  grows by the number of frames and no other metric moves. No branch panics, and the invariant of
  the stream is kept.\<close>

theorem try_write_all_or_nothing:
  assumes "stream_inv c k (r, sh)"
  shows "let (res, sh') = try_write_interleaved (writer_of c k) pcm sh;
             n = length pcm div c; free = k - length (ring_frames c sh) in
    res = (if closed (metrics sh) then Err StreamClosed
           else if length pcm mod c \<noteq> 0 then Err InvalidBufferLength
           else if free < n then Err (BufferFull n free) else Ok ())
    \<and> (res \<noteq> Ok () \<longrightarrow> sh' = sh)
    \<and> (res = Ok () \<longrightarrow> contents (buffer sh') = contents (buffer sh) @ pcm
         \<and> frames (playhead_of (r, sh')) = frames (playhead_of (r, sh)) @ chunks_exact c pcm
         \<and> metrics sh' = add_fill n (metrics sh))
    \<and> stream_inv c k (r, sh')"
proof -
  obtain res sh' where w: "try_write_interleaved (writer_of c k) pcm sh = (res, sh')"
    by (cases "try_write_interleaved (writer_of c k) pcm sh") simp
  have "res = (if closed (metrics sh) then Err StreamClosed
         else if length pcm mod c \<noteq> 0 then Err InvalidBufferLength
         else if k - length (ring_frames c sh) < length pcm div c
           then Err (BufferFull (length pcm div c) (k - length (ring_frames c sh))) else Ok ())"
    using w unfolding try_write_cases [OF assms] by (auto simp: dvd_eq_mod_eq_0 split: if_splits)
  then show ?thesis
    using try_write_effect [OF assms w] by (simp add: w)
qed

section \<open>Capturing\<close>

definition capture_of :: "usize \<Rightarrow> usize \<Rightarrow> f32 list \<Rightarrow> CaptureCallbackState" where
  "capture_of c k frame = \<lparr>c_channels = c, c_logical_capacity_samples = k * c, scratch = frame\<rparr>"

lemma has_capacity_ok:
  assumes inv: "stream_inv c k (r, sh)" and small: "k * c + c < usize_bound"
  shows "has_capacity_for_frame (capture_of c k f) sh = Ok (length (ring_frames c sh) < k)"
proof -
  note i = stream_invD [OF inv]
  have used: "usize_sub (capacity (buffer sh)) (producer_available (buffer sh))
      = Ok (length (ring_frames c sh) * c)"
    using rq.used_eq [OF i(5)] rq.free [OF i(5)] by (simp add: ring_frames_times [OF i(4)])
  have le: "length (ring_frames c sh) * c \<le> k * c" using i(7) by (rule mult_le_mono1)
  have "length (ring_frames c sh) * c + c \<le> k * c \<longleftrightarrow> Suc (length (ring_frames c sh)) * c \<le> k * c"
    by (simp add: add.commute)
  also have "\<dots> \<longleftrightarrow> length (ring_frames c sh) < k" using i(3) by (simp only: mult_le_cancel2 Suc_le_eq simp_thms)
  finally have iff: "length (ring_frames c sh) * c + c \<le> k * c \<longleftrightarrow> length (ring_frames c sh) < k" .
  moreover have "length (ring_frames c sh) * c + c < usize_bound" using le small by linarith
  ultimately show ?thesis
    by (simp add: has_capacity_for_frame_def capture_of_def used checked_add_def iff)
qed

lemma capture_commit:
  assumes "stream_inv c k (r, sh)" "length f = c" and room: "length (ring_frames c sh) < k"
  shows "let sh' = commit_scratch_frame (capture_of c k f) sh in
      stream_inv c k (r, sh') \<and> frames (playhead_of (r, sh')) = frames (playhead_of (r, sh)) @ [f]
      \<and> metrics sh' = transferred 1 (add_fill 1 (metrics sh))"
proof -
  obtain w ring where p: "push_slice f (buffer sh) = (w, ring)" by (cases "push_slice f (buffer sh)") simp
  define sh1 where "sh1 = meter (add_fill 1) (sh\<lparr>buffer := ring\<rparr>)"
  have "length f = 1 * c" "length (ring_frames c sh) + 1 \<le> k" using assms(2) room by auto
  note q = push_frames [OF assms(1) this p sh1_def]
  have sh': "commit_scratch_frame (capture_of c k f) sh = meter (transferred 1) sh1"
    using p by (simp add: commit_scratch_frame_def capture_of_def sh1_def)
  have "stream_inv c k (r, meter (transferred 1) sh1)"
    using q(2) by (simp add: stream_inv_meter transferred_def)
  moreover have "metrics sh1 = add_fill 1 (metrics sh)" by (simp add: sh1_def)
  moreover have "chunks_exact c f = [f]"
    using assms(2) stream_invD(3) [OF assms(1)] by (simp add: chunks_exact_single)
  ultimately show ?thesis
    unfolding sh' Let_def frames_meter q(5) using \<open>metrics sh1 = add_fill 1 (metrics sh)\<close> by simp
qed

text \<open>The capture callback appends a frame exactly when one is free: \<open>has_capacity_for_frame\<close>
  tells whether the ring holds fewer frames than the logical capacity, and committing the scratch
  frame then appends it whole, counts it as transferred and as fill, and keeps the invariant.\<close>

theorem capture_frame_exact:
  assumes "stream_inv c k (r, sh)" "k * c + c < usize_bound" "length f = c"
  shows "has_capacity_for_frame (capture_of c k f) sh = Ok (length (ring_frames c sh) < k)
    \<and> (length (ring_frames c sh) < k \<longrightarrow>
        (let sh' = commit_scratch_frame (capture_of c k f) sh in
          stream_inv c k (r, sh')
          \<and> frames (playhead_of (r, sh')) = frames (playhead_of (r, sh)) @ [f]
          \<and> metrics sh' = transferred 1 (add_fill 1 (metrics sh))))"
  using has_capacity_ok [OF assms(1,2)] capture_commit [OF assms(1,3)] by blast

section \<open>Reading\<close>

lemma prepare_stream:
  assumes "stream_inv c k (r, sh)"
  obtains ok r' sh' where "prepare_next_frame (r, sh) = ret (ok, (r', sh'))"
    "stream_inv c k (r', sh')" "drained sh sh'" "params r' = params r"
    "resample_step (params r) (playhead_of (r, sh)) =
       (if ok then Some (interpolated r') else None, playhead_of (r', sh'))"
proof -
  have "reading_inv (r, sh)" using assms by (rule stream_invD)
  then obtain ok r' sh' where q: "prepare_next_frame (r, sh) = ret (ok, (r', sh'))"
    "reading_inv (r', sh')" "drained sh sh'" "params r' = params r"
    "resample_step (params r) (playhead_of (r, sh)) =
       (if ok then Some (interpolated r') else None, playhead_of (r', sh'))"
    by (rule prepare_next_frame_ok) blast
  then show ?thesis using that stream_inv_drained [OF assms] by blast
qed

lemma resampler_next_frame_ok:
  assumes "stream_inv c k (r, sh)"
  obtains out r' sh' where "resampler_next_frame (r, sh) = ret (out, (r', sh'))"
    "stream_inv c k (r', sh')" "drained sh sh'" "params r' = params r"
    "resample_step (params r) (playhead_of (r, sh)) = (out, playhead_of (r', sh'))"
    "\<And>f. out = Some f \<Longrightarrow> length f = c"
proof -
  obtain ok r' sh' where q: "prepare_next_frame (r, sh) = ret (ok, (r', sh'))"
    "stream_inv c k (r', sh')" "drained sh sh'" "params r' = params r"
    "resample_step (params r) (playhead_of (r, sh)) =
       (if ok then Some (interpolated r') else None, playhead_of (r', sh'))"
    using prepare_stream [OF assms] by metis
  moreover have "length (interpolated r') = c"
    using q(2) by (auto simp: stream_inv_def reading_inv_def resampler_inv_def)
  ultimately show ?thesis
    by (intro that [of "if ok then Some (interpolated r') else None" r' sh'])
      (auto simp: resampler_next_frame_def split: if_splits)
qed

lemma playback_step:
  assumes "stream_inv c k (r, sh)"
  shows "\<exists>out r' sh'. playback_next_frame (r, sh) = ret (out, (r', sh'))
    \<and> stream_inv c k (r', sh') \<and> params r' = params r
    \<and> resample_step (params r) (playhead_of (r, sh)) = (out, playhead_of (r', sh'))
    \<and> same_meters (case out of Some f \<Rightarrow> transferred 1 (metrics sh)
        | None \<Rightarrow> if has_primed r then underrun 1 (metrics sh) else metrics sh) (metrics sh')"
proof -
  obtain ok r' sh' where q: "prepare_next_frame (r, sh) = ret (ok, (r', sh'))"
    "stream_inv c k (r', sh')" "drained sh sh'" "params r' = params r"
    "resample_step (params r) (playhead_of (r, sh)) =
       (if ok then Some (interpolated r') else None, playhead_of (r', sh'))"
    using prepare_stream [OF assms] by metis
  define sh2 where "sh2 = (if ok then meter (transferred 1) sh'
    else if has_primed r then meter (underrun 1) sh' else sh')"
  have "same_meters (metrics sh) (metrics sh')" using q(3) by (simp add: drained_def)
  then have m: "same_meters (if ok then transferred 1 (metrics sh)
      else if has_primed r then underrun 1 (metrics sh) else metrics sh) (metrics sh2)"
    by (auto simp: sh2_def same_meters_iff transferred_def underrun_def)
  have "stream_inv c k (r', sh2)"
    using q(2) by (simp add: sh2_def stream_inv_meter transferred_def underrun_def)
  moreover have "playhead_of (r', sh2) = playhead_of (r', sh')"
    by (simp add: sh2_def playhead_of_def)
  ultimately show ?thesis
    using q m by (intro exI [of _ "if ok then Some (interpolated r') else None"] exI [of _ r'] exI [of _ sh2])
      (auto simp: playback_next_frame_def sh2_def)
qed

text \<open>C7: The callback of a playback stream refines the abstract resampler: under the invariant
  \<open>next_frame\<close> returns (its phase loop ends) without a panic, its output and its new state are
  those of one step of the abstract play head over the buffered frames, the invariant is kept,
  and the metrics count one transferred frame per output and one underrun per missing frame after
  the first priming.\<close>

theorem playback_refines_resampler:
  assumes "stream_inv c k (r, sh)"
  shows "\<exists>out r' sh'. playback_next_frame (r, sh) = ret (out, (r', sh'))
    \<and> stream_inv c k (r', sh') \<and> params r' = params r
    \<and> resample_step (params r) (playhead_of (r, sh)) = (out, playhead_of (r', sh'))
    \<and> same_meters (case out of Some f \<Rightarrow> transferred 1 (metrics sh)
        | None \<Rightarrow> if has_primed r then underrun 1 (metrics sh) else metrics sh) (metrics sh')"
  by (rule playback_step [OF assms])

text \<open>Several steps of the abstract resampler, up to the first missing frame.\<close>

fun resample_steps :: "nat \<Rightarrow> resampler_params \<Rightarrow> playhead \<Rightarrow> f32 list list \<times> playhead" where
  "resample_steps 0 P h = ([], h)"
| "resample_steps (Suc n) P h =
     (case resample_step P h of
        (None, h') \<Rightarrow> ([], h')
      | (Some f, h') \<Rightarrow> (let (fs, h'') = resample_steps n P h' in (f # fs, h'')))"

lemma resample_steps_length: "length (fst (resample_steps n P h)) \<le> n"
  by (induction n arbitrary: h) (auto split: prod.splits option.splits, metis fst_conv)

lemma read_chunks_ok:
  assumes "stream_inv c k (r, sh)" "length pcm = n * c"
  shows "\<exists>m out r' sh'. read_chunks n pcm (r, sh) = ret ((m, out), (r', sh'))
    \<and> stream_inv c k (r', sh') \<and> drained sh sh' \<and> params r' = params r
    \<and> (let (fs, h) = resample_steps n (params r) (playhead_of (r, sh)) in
        m = length fs \<and> out = concat fs @ drop (m * c) pcm \<and> h = playhead_of (r', sh'))"
  using assms
proof (induction n arbitrary: pcm r sh)
  case (Suc n)
  obtain out r1 sh1 where f: "resampler_next_frame (r, sh) = ret (out, (r1, sh1))"
    "stream_inv c k (r1, sh1)" "drained sh sh1" "params r1 = params r"
    "resample_step (params r) (playhead_of (r, sh)) = (out, playhead_of (r1, sh1))"
    "\<And>f. out = Some f \<Longrightarrow> length f = c"
    using resampler_next_frame_ok [OF Suc.prems(1)] by metis
  show ?case
  proof (cases out)
    case None
    then show ?thesis using f by simp
  next
    case (Some x)
    have c: "rs_channels r1 = c" using f(2) by (rule stream_invD)
    have "length (drop c pcm) = n * c" using Suc.prems(2) by simp
    then obtain m out' r' sh' where "read_chunks n (drop c pcm) (r1, sh1) = ret ((m, out'), (r', sh'))"
      "stream_inv c k (r', sh')" "drained sh1 sh'" "params r' = params r1"
      and l: "let (fs, h) = resample_steps n (params r1) (playhead_of (r1, sh1)) in
        m = length fs \<and> out' = concat fs @ drop (m * c) (drop c pcm) \<and> h = playhead_of (r', sh')"
      using Suc.IH [OF f(2)] by blast
    then show ?thesis
      using f c Some by (auto simp: Let_def add.commute intro: drained_trans split: prod.splits)
  qed
qed simp

lemma try_read_ok:
  assumes inv: "stream_inv c k (r, sh)" and "\<not> closed (metrics sh)" "length pcm mod c = 0"
    and fs: "resample_steps (length pcm div c) (params r) (playhead_of (r, sh)) = (fs, h)"
  obtains r' sh' where "try_read_interleaved pcm (r, sh) =
      ret (Ok (length fs), concat fs @ drop (length fs * c) pcm, (r', sh'))"
    "stream_inv c k (r', sh')" "h = playhead_of (r', sh')" "drained sh sh'"
proof -
  note c = stream_invD(2,3) [OF inv]
  have "length pcm = length pcm div c * c"
    using assms(3) div_mult_mod_eq [of "length pcm" c] by simp
  then obtain m out r' sh' where q: "read_chunks (length pcm div c) pcm (r, sh) = ret ((m, out), (r', sh'))"
    "stream_inv c k (r', sh')" "drained sh sh'"
    and l: "m = length fs \<and> out = concat fs @ drop (m * c) pcm \<and> h = playhead_of (r', sh')"
    using read_chunks_ok [OF inv] fs by fastforce
  have "same_meters (metrics sh) (metrics sh')" using q(3) by (simp add: drained_def)
  then have "closed (metrics sh') = closed (metrics sh)" by (simp add: same_meters_iff)
  then show ?thesis
    using assms(2,3) c q l
    by (intro that [of r' sh'])
      (auto simp: try_read_interleaved_def ensure_open_def Let_def dvd_eq_mod_eq_0)
qed

text \<open>C37: Reading captured audio: on a closed stream or a buffer that is not a whole number of
  frames the exact error is returned and nothing is consumed or written; otherwise the call
  returns the number of frames the abstract resampler delivers before its first gap, the front of
  the caller's buffer holds exactly these frames, the rest of the buffer is untouched, and no
  branch panics or loops.\<close>

theorem try_read_exact:
  assumes "stream_inv c k (r, sh)"
  shows "\<exists>res pcm' r' sh'. try_read_interleaved pcm (r, sh) = ret (res, pcm', (r', sh'))
    \<and> stream_inv c k (r', sh')
    \<and> (if closed (metrics sh) \<or> length pcm mod c \<noteq> 0
       then res = Err (if closed (metrics sh) then StreamClosed else InvalidBufferLength)
         \<and> pcm' = pcm \<and> (r', sh') = (r, sh)
       else let (fs, h) = resample_steps (length pcm div c) (params r) (playhead_of (r, sh)) in
         res = Ok (length fs) \<and> length fs \<le> length pcm div c
         \<and> pcm' = concat fs @ drop (length fs * c) pcm \<and> h = playhead_of (r', sh'))"
proof (cases "closed (metrics sh) \<or> length pcm mod c \<noteq> 0")
  case True
  then show ?thesis
    using assms stream_invD(2) [OF assms]
    by (auto simp: try_read_interleaved_def ensure_open_def Let_def dvd_eq_mod_eq_0)
next
  case False
  obtain fs h where fs: "resample_steps (length pcm div c) (params r) (playhead_of (r, sh)) = (fs, h)"
    by (cases "resample_steps (length pcm div c) (params r) (playhead_of (r, sh))") simp
  obtain r' sh' where "try_read_interleaved pcm (r, sh) =
      ret (Ok (length fs), concat fs @ drop (length fs * c) pcm, (r', sh'))"
    "stream_inv c k (r', sh')" "h = playhead_of (r', sh')"
    using try_read_ok [OF assms _ _ fs] False by blast
  then show ?thesis
    using False fs resample_steps_length [of "length pcm div c" "params r" "playhead_of (r, sh)"]
    by auto
qed

text \<open>While a stream is priming, initially or after an underrun, with fewer than
  \<open>max target 2\<close> frames buffered in total, reading returns \<open>Ok 0\<close> and playback delivers no frame,
  and neither consumes a sample or changes the resampler.\<close>

theorem priming_consumes_nothing:
  assumes "stream_inv c k (r, sh)" "\<not> primed r"
    and "length (frames (playhead_of (r, sh))) < priming_threshold_frames r"
    and "\<not> closed (metrics sh)" "length pcm = n * c"
  shows "try_read_interleaved pcm (r, sh) = ret (Ok 0, pcm, (r, sh))
    \<and> playback_next_frame (r, sh) =
        ret (None, (r, if has_primed r then meter (underrun 1) sh else sh))"
proof -
  note c = stream_invD(1-3) [OF assms(1)]
  have p: "prepare_next_frame (r, sh) = ret (False, (r, sh))"
    using prime_ok [OF c(1)] assms(2,3) by (simp add: prepare_next_frame_def)
  then have "resampler_next_frame (r, sh) = ret (None, (r, sh))"
    by (simp add: resampler_next_frame_def)
  then have "read_chunks m pcm (r, sh) = ret ((0, pcm), (r, sh))" for m
    by (cases m) simp_all
  then show ?thesis
    using p c assms(4,5) by (simp add: try_read_interleaved_def playback_next_frame_def ensure_open_def)
qed

section \<open>Unity rate\<close>

text \<open>
  With equal sample rates (a nominal step of one) and drift correction off (a ratio of zero) the
  resampler passes the frames through. \<open>ordinary\<close> samples are finite and below \<open>2 ^ 100\<close> in
  magnitude, so that the difference of two of them does not overflow.
\<close>

definition ordinary :: "f32 \<Rightarrow> bool" where
  "ordinary x \<longleftrightarrow> fin_rep F32 x \<and> below 100 x"

definition unity :: "resampler_params \<Rightarrow> bool" where
  "unity P \<longleftrightarrow> p_step P = fone F64 \<and> p_ratio P = fzero F64 \<and> 0 < p_span P
     \<and> p_span P < usize_bound \<and> p_target P < usize_bound"

lemma lerp_at_zero:
  assumes "ordinary x" "ordinary y"
  shows "same_value (lerp x y (convert F32 (fzero F64))) x"
proof -
  have "below 102 (fsub F32 y x)"
    using fsub_below [of F32 100 y x] assms by (simp add: ordinary_def) (simp add: F32_def)
  then have "is_finite (fsub F32 y x)" by (rule below_finite)
  moreover have "is_zero (convert F32 (fzero F64))" by (simp add: fzero_def round_fin_def)
  ultimately have "is_zero (fmul F32 (fsub F32 y x) (convert F32 (fzero F64)))"
    by (simp add: fmul_zero_finite)
  then show ?thesis using assms by (simp add: lerp_def ordinary_def fadd_zero_same)
qed

lemma drift_off:
  assumes "unity P" "n < usize_bound"
  shows "is_zero (drift P n)"
proof -
  have b: "below 65 (of_natural F64 m)" if "m < usize_bound" for m
    using of_natural_below [of F64 m 64] that by (simp add: usize_bound_def) (simp add: F64_def)
  have "below 67 (fsub F64 (of_natural F64 n) (of_natural F64 (p_target P)))"
    using fsub_below [of F64 65] b assms by (simp add: unity_def) (simp add: F64_def)
  then have "below 68 (fdiv F64 (fsub F64 (of_natural F64 n) (of_natural F64 (p_target P)))
      (of_natural F64 (p_span P)))"
    using fdiv_natural_below [of F64 67 _ "p_span P" 64] assms(1)
    by (simp add: unity_def usize_bound_def) (simp add: F64_def)
  then have "is_zero (fmul F64 (fdiv F64 (fsub F64 (of_natural F64 n) (of_natural F64 (p_target P)))
      (of_natural F64 (p_span P))) (fzero F64))"
    using below_finite fmul_zero_finite by (metis fzero_def is_zero.simps(1))
  then show ?thesis
    using assms(1) by (auto simp: drift_def drift_correction_def fclamp_def unity_def Let_def fzero_def
        scaled_def sval_def split: res.splits if_splits)
qed

lemma unity_advance:
  assumes "is_zero z"
  shows "fadd F64 (fzero F64) (fmul F64 (fone F64) (fadd F64 (fone F64) z)) = fone F64"
proof -
  have one: "fin_rep F64 (fone F64)" by simp
  have eq: "fone F64 = Fin False (2 ^ 52) (- 52)" by (simp add: fone_def F64_def)
  have rep: "rep F64 (Fin False (2 ^ 52) (- 52))" using one unfolding fin_rep_def eq by blast
  obtain t f where z: "z = Fin t 0 f" using assms by (cases z) auto
  have "fadd F64 (fone F64) z = fone F64"
    unfolding eq z by (rule fadd_zero_right [OF rep]) simp
  moreover have "fmul F64 (fone F64) (fone F64) = fone F64" using one by (simp add: fmul_one_left)
  moreover have "fadd F64 (fzero F64) (fone F64) = fone F64"
    unfolding eq fzero_def by (rule fadd_zero_left [OF rep]) simp
  ultimately show ?thesis by simp
qed

lemma fone_minus_fone: "fsub F64 (fone F64) (fone F64) = fzero F64"
  by (simp add: fone_def fsub_def fzero_def scaled_def sval_def)

lemma fle_fone: "fle (fone F64) (fone F64)" "\<not> fle (fone F64) (fzero F64)"
  by (simp_all add: fone_def fzero_def scaled_def sval_def F64_def)

lemma unity_step:
  assumes P: "unity P" and fr: "frames h = x # y # fs" "length (frames h) < usize_bound"
    and pos: "head_phase h = fzero F64" and run: "running h \<or> p_threshold P \<le> length (frames h)"
    and ok: "list_all ordinary x" "list_all ordinary y" "length x = length y"
  obtains out where "resample_step P h = (Some out, \<lparr>frames = y # fs, head_phase = fzero F64,
      running = (fs \<noteq> []), started = (started h \<or> \<not> running h)\<rparr>)"
    "list_all2 same_value out x"
proof -
  have adv: "fadd F64 (head_phase h) (fmul F64 (p_step P) (fadd F64 (fone F64) (drift P (length (frames h)))))
      = fone F64"
    using unity_advance [OF drift_off [OF P fr(2)]] P pos by (simp add: unity_def)
  have skip: "skip_frames (fone F64) (frames h) = (fzero F64, y # fs)"
    by (cases fs) (simp_all add: fr fle_fone fone_minus_fone)
  have "list_all2 same_value (mix (fzero F64) x y) x"
    using ok by (auto simp: list_all2_conv_all_nth mix_def list_all_length lerp_at_zero)
  moreover have "(2 \<le> length (y # fs)) = (fs \<noteq> [])" by (cases fs) auto
  moreover have "\<not> (\<not> running h \<and> length (frames h) < p_threshold P)" using run by auto
  then have "resample_step P h = (Some (mix (fzero F64) x y), \<lparr>frames = y # fs, head_phase = fzero F64,
      running = (2 \<le> length (y # fs)), started = (started h \<or> \<not> running h)\<rparr>)"
    unfolding resample_step_def adv skip Let_def by (simp add: fr(1) pos)
  ultimately show ?thesis by (intro that [of "mix (fzero F64) x y"]) simp_all
qed

lemma unity_steps:
  assumes "unity P" "length (frames h) < usize_bound" "head_phase h = fzero F64"
    and "running h \<or> p_threshold P \<le> length (frames h)" "frames h \<noteq> []" "2 \<le> p_threshold P"
    and "\<And>f. f \<in> set (frames h) \<Longrightarrow> list_all ordinary f \<and> length f = c"
    and "n < length (frames h)"
  shows "\<exists>fs h'. resample_steps n P h = (fs, h') \<and> length fs = n
    \<and> list_all2 (list_all2 same_value) fs (take n (frames h))
    \<and> frames h' = drop n (frames h) \<and> head_phase h' = fzero F64"
  using assms
proof (induction n arbitrary: h)
  case (Suc n)
  obtain x y fs where fr: "frames h = x # y # fs"
    using Suc.prems(8) by (cases "frames h"; cases "tl (frames h)") auto
  have ok: "list_all ordinary x" "list_all ordinary y" "length x = length y"
    using Suc.prems(7) [of x] Suc.prems(7) [of y] fr by auto
  obtain out where step: "resample_step P h = (Some out, \<lparr>frames = y # fs, head_phase = fzero F64,
      running = (fs \<noteq> []), started = (started h \<or> \<not> running h)\<rparr>)"
    and out: "list_all2 same_value out x"
    using unity_step [OF Suc.prems(1) fr Suc.prems(2-4) ok] by blast
  show ?case
  proof (cases n)
    case 0
    then show ?thesis using step out fr by simp
  next
    case (Suc m)
    then have "fs \<noteq> []" using Suc.prems(8) fr by auto
    then obtain gs h' where "resample_steps n P \<lparr>frames = y # fs, head_phase = fzero F64,
        running = (fs \<noteq> []), started = (started h \<or> \<not> running h)\<rparr> = (gs, h')" "length gs = n"
      "list_all2 (list_all2 same_value) gs (take n (y # fs))" "frames h' = drop n (y # fs)"
      "head_phase h' = fzero F64"
      using Suc.IH [of "\<lparr>frames = y # fs, head_phase = fzero F64, running = (fs \<noteq> []),
        started = (started h \<or> \<not> running h)\<rparr>"] Suc.prems fr by auto
    then show ?thesis using step out fr by simp
  qed
qed simp

text \<open>With equal sample rates and drift correction off, captured audio is passed through: a
  read of \<open>n\<close> frames, while more than \<open>n\<close> are buffered and the stream is primed or past its
  threshold, returns exactly the \<open>n\<close> oldest frames in order, each sample equal to the captured one
  (up to the sign of a zero), consumes exactly these, and leaves the phase at zero.\<close>

theorem unity_rate_passes_audio_through:
  assumes inv: "stream_inv c k (r, sh)" and "unity (params r)" "phase r = fzero F64"
    and "\<not> closed (metrics sh)" "length pcm = n * c"
    and fr: "frames (playhead_of (r, sh)) = fs" "n < length fs" "length fs < usize_bound"
    and "primed r \<or> priming_threshold_frames r \<le> length fs"
    and "list_all (list_all ordinary) fs"
  shows "\<exists>out r' sh'. try_read_interleaved pcm (r, sh) = ret (Ok n, concat out, (r', sh'))
    \<and> list_all2 (list_all2 same_value) out (take n fs)
    \<and> frames (playhead_of (r', sh')) = drop n fs \<and> phase r' = fzero F64 \<and> stream_inv c k (r', sh')"
proof -
  have c: "0 < c" "length pcm div c = n" "length pcm mod c = 0"
    using stream_invD(3) [OF inv] assms(5) by auto
  have len: "length f = c" if "f \<in> set fs" for f
    using stream_frames_length [OF inv] that fr(1) by blast
  have ne: "frames (playhead_of (r, sh)) \<noteq> []" using fr by auto
  have thr: "2 \<le> priming_threshold_frames r"
    using inv by (simp add: stream_inv_def reading_inv_def resampler_inv_def)
  obtain out h where s: "resample_steps n (params r) (playhead_of (r, sh)) = (out, h)" "length out = n"
    "list_all2 (list_all2 same_value) out (take n fs)" "frames h = drop n fs" "head_phase h = fzero F64"
    using unity_steps [of "params r" "playhead_of (r, sh)" c n] assms(2,3,9,10) fr thr len ne
    by (auto simp: list_all_iff)
  obtain r' sh' where t: "try_read_interleaved pcm (r, sh) =
      ret (Ok (length out), concat out @ drop (length out * c) pcm, (r', sh'))"
    "stream_inv c k (r', sh')" "h = playhead_of (r', sh')"
    using try_read_ok [OF inv assms(4) c(3) s(1) [folded c(2)]] by blast
  then show ?thesis using s assms(5) by auto
qed

section \<open>Validation and opening\<close>

lemma next_power_of_two:
  assumes "checked_next_power_of_two n = Some p" "0 < n"
  shows "\<exists>j. p = 2 ^ j" "n \<le> p" "p < 2 * n" "p < usize_bound"
proof -
  have p: "p = (if n \<le> 1 then 1 else 2 ^ bits (n - 1))" "p < usize_bound"
    using assms(1) by (auto simp: checked_next_power_of_two_def Let_def split: if_splits)
  show "\<exists>j. p = 2 ^ j" using p(1) by (metis power_0)
  show "p < usize_bound" by (rule p(2))
  show "n \<le> p" "p < 2 * n"
  proof -
    have "n \<le> p \<and> p < 2 * n"
    proof (cases "n \<le> 1")
      case True
      then show ?thesis using p(1) assms(2) by simp
    next
      case False
      obtain b where b: "bits (n - 1) = Suc b" using False by (metis bits_eq_0_iff diff_is_0_eq not0_implies_Suc)
      have "n - 1 < 2 ^ bits (n - 1)" "2 ^ b \<le> n - 1"
        using bits_bounds [of "n - 1"] False b by auto
      then show ?thesis using p(1) False b by simp linarith
    qed
    then show "n \<le> p" "p < 2 * n" by auto
  qed
qed

lemma no_next_power_of_two:
  assumes "checked_next_power_of_two n = None"
  shows "2 ^ 63 < n"
proof -
  have "usize_bound \<le> (if n \<le> 1 then 1 else 2 ^ bits (n - 1))"
    using assms by (auto simp: checked_next_power_of_two_def Let_def split: if_splits)
  then have nb: "\<not> n \<le> 1" "usize_bound \<le> 2 ^ bits (n - 1)"
    by (auto simp: usize_bound_def split: if_splits)
  have b: "64 \<le> bits (n - 1)"
  proof (rule ccontr)
    assume "\<not> 64 \<le> bits (n - 1)"
    then have "(2::nat) ^ bits (n - 1) \<le> 2 ^ 63" by (intro power_increasing) auto
    then show False using nb(2) by (simp add: usize_bound_def)
  qed
  have "\<not> n - 1 < 2 ^ 63" using b bits_le_iff [of "n - 1" 63] by auto
  then show ?thesis by (cases n) auto
qed

text \<open>\<open>validate_config\<close> accepts exactly the usable configurations: at least one channel, a
  positive sample rate, at least two frames of capacity, a target inside the capacity, less than
  a million ppm of drift, and a sample count whose next power of two fits a \<open>usize\<close>; it returns
  the sizes derived from them, the ring's being the least power of two that holds the logical
  capacity. It reports the first violated condition and never panics.\<close>

theorem validate_config_exact:
  "let n = unat (fmt_channels (client_format cfg)); cap = capacity_frames cfg; t = target_fill_frames cfg in
   case validate_config cfg of
     Ok v \<Rightarrow> 0 < n \<and> fmt_sample_rate (client_format cfg) \<noteq> 0 \<and> 2 \<le> cap \<and> 0 < t \<and> t < cap
       \<and> max_drift_ppm cfg < 1000000
       \<and> v_channels v = n \<and> v_logical_capacity_samples v = cap * n
       \<and> (\<exists>j. v_internal_sample_capacity v = 2 ^ j)
       \<and> cap * n \<le> v_internal_sample_capacity v \<and> v_internal_sample_capacity v < 2 * (cap * n)
       \<and> v_internal_sample_capacity v < usize_bound
   | Err e \<Rightarrow>
       if n = 0 then e = InvalidChannelCount
       else if fmt_sample_rate (client_format cfg) = 0 then e = InvalidSampleRate
       else if cap < 2 then e = InvalidRingCapacity
       else if t = 0 \<or> cap \<le> t then e = InvalidTargetFill
       else if 1000000 \<le> max_drift_ppm cfg then e = InvalidDriftPpm
       else e = InvalidRingCapacity \<and> 2 ^ 63 < cap * n
   | Panic \<Rightarrow> False"
proof (cases "validate_config cfg")
  case (Ok v)
  let ?n = "unat (fmt_channels (client_format cfg))"
  have v: "0 < ?n" "fmt_sample_rate (client_format cfg) \<noteq> 0" "2 \<le> capacity_frames cfg"
    "target_fill_frames cfg \<noteq> 0" "target_fill_frames cfg < capacity_frames cfg"
    "\<not> 1000000 \<le> max_drift_ppm cfg" "v_channels v = ?n"
    "v_logical_capacity_samples v = capacity_frames cfg * ?n"
    and p: "checked_next_power_of_two (capacity_frames cfg * ?n) = Some (v_internal_sample_capacity v)"
    using Ok by (auto simp: validate_config_def res_simps Let_def not_less not_le split: if_splits)
  have pos: "0 < capacity_frames cfg * ?n" using v(1,3) by simp
  show ?thesis
    using Ok v next_power_of_two [OF p pos] by (simp add: Let_def not_le)
next
  case (Err e)
  show ?thesis
  proof (cases "checked_mul (capacity_frames cfg) (unat (fmt_channels (client_format cfg)))")
    case None
    then have "2 ^ 63 < capacity_frames cfg * unat (fmt_channels (client_format cfg))"
      by (simp add: checked_mul_def usize_bound_def split: if_splits)
    then show ?thesis using Err None by (auto simp: validate_config_def Let_def split: if_splits)
  next
    case (Some l)
    then have l: "l = capacity_frames cfg * unat (fmt_channels (client_format cfg))" by simp
    show ?thesis using Err Some
      by (cases "checked_next_power_of_two l")
        (auto simp: validate_config_def Let_def l [symmetric] dest: no_next_power_of_two
          simp del: checked_mul_eq_Some split: if_splits)
  qed
next
  case Panic
  then show ?thesis by (auto simp: validate_config_def res_simps Let_def split: if_splits)
qed

lemma fle_fneg_self: "fle (fneg (Fin False m e)) (Fin False m e)" "fle (fneg (Inf False)) (Inf False)"
  by (simp_all add: scaled_def sval_def)

lemma round_fin_positive: "round_fin F False m e = Inf False \<or> (\<exists>n f. round_fin F False m e = Fin False n f)"
  by (simp add: round_fin_def Let_def)

lemma of_natural_positive: "of_natural F n = Inf False \<or> (\<exists>m e. of_natural F n = Fin False m e)"
  unfolding of_natural_def by (rule round_fin_positive)

lemma million: "of_natural F64 1000000 = Fin False 8589934592000000 (- 33)"
  by (simp add: float_eval)

lemma drift_ratio_valid:
  "fle (fneg (fdiv F64 (of_natural F64 n) (of_natural F64 1000000)))
     (fdiv F64 (of_natural F64 n) (of_natural F64 1000000))"
proof -
  obtain m e where x: "of_natural F64 n = Inf False \<or> of_natural F64 n = Fin False m e"
    using of_natural_positive by blast
  then have "fdiv F64 (of_natural F64 n) (of_natural F64 1000000) = Inf False
      \<or> (\<exists>m e. fdiv F64 (of_natural F64 n) (of_natural F64 1000000) = Fin False m e)"
  proof
    assume "of_natural F64 n = Fin False m e"
    then obtain N E where "fdiv F64 (of_natural F64 n) (of_natural F64 1000000) = round_fin F64 False N E"
      by (simp only: million fdiv.simps round_frac_def Let_def) simp
    then show ?thesis using round_fin_positive [of F64 N E] by simp
  qed (simp add: million)
  then show ?thesis using fle_fneg_self by metis
qed

lemma resampler_new_ok:
  assumes "resampler_new c t cap step ppm = Ok r" "0 < c" "ring_inv ring" "contents ring = []"
    "cap * c \<le> capacity ring" "cap < usize_bound"
  shows "stream_inv c cap (r, \<lparr>buffer = ring, metrics = metrics_new cap\<rparr>)
    \<and> frames (playhead_of (r, \<lparr>buffer = ring, metrics = metrics_new cap\<rparr>)) = []
    \<and> \<not> primed r \<and> phase r = fzero F64 \<and> nominal_step r = step \<and> t \<le> cap"
proof -
  have "consumer_available ring = 0" using assms(4) length_contents [of ring] by simp
  then show ?thesis
    using assms drift_ratio_valid [of "unat ppm"]
    by (auto simp: resampler_new_def res_simps stream_inv_def reading_inv_def resampler_inv_def
        shared_inv_def ring_frames_def metrics_new_def frames_eq usize_sub_def split: if_splits)
qed

lemma validated:
  assumes "validate_config cfg = Ok v"
  shows "0 < v_channels v" "2 \<le> capacity_frames cfg" "target_fill_frames cfg < capacity_frames cfg"
    "v_channels v = unat (fmt_channels (client_format cfg))"
    "v_logical_capacity_samples v = capacity_frames cfg * v_channels v"
    "\<exists>j. v_internal_sample_capacity v = 2 ^ j"
    "capacity_frames cfg * v_channels v \<le> v_internal_sample_capacity v"
    "v_internal_sample_capacity v < usize_bound" "capacity_frames cfg < usize_bound"
proof -
  let ?n = "unat (fmt_channels (client_format cfg))"
  have v: "0 < ?n" "2 \<le> capacity_frames cfg" "target_fill_frames cfg < capacity_frames cfg"
    "v_channels v = ?n" "v_logical_capacity_samples v = capacity_frames cfg * ?n"
    and p: "checked_next_power_of_two (capacity_frames cfg * ?n) = Some (v_internal_sample_capacity v)"
    using assms by (auto simp: validate_config_def res_simps Let_def not_less not_le split: if_splits)
  have pos: "0 < capacity_frames cfg * ?n" using v(1,2) by simp
  note q = next_power_of_two [OF p pos]
  show "0 < v_channels v" "2 \<le> capacity_frames cfg" "target_fill_frames cfg < capacity_frames cfg"
    "v_channels v = ?n" "v_logical_capacity_samples v = capacity_frames cfg * v_channels v"
    "\<exists>j. v_internal_sample_capacity v = 2 ^ j"
    "capacity_frames cfg * v_channels v \<le> v_internal_sample_capacity v"
    "v_internal_sample_capacity v < usize_bound"
    using v q by simp_all
  have "capacity_frames cfg * 1 \<le> capacity_frames cfg * ?n" using v(1) by (intro mult_le_mono2) simp
  then show "capacity_frames cfg < usize_bound" using q(2,4) by linarith
qed

lemma create_ring_validated:
  assumes "validate_config cfg = Ok v"
  shows "create_ring (v_internal_sample_capacity v) =
     (if isize_max < 4 * v_internal_sample_capacity v then Panic
      else Ok \<lparr>samples = replicate (v_internal_sample_capacity v) (fzero F32),
        mask = of_nat (v_internal_sample_capacity v - 1), rd = 0, wr = 0\<rparr>)"
proof -
  let ?p = "v_internal_sample_capacity v"
  note v = validated [OF assms]
  obtain j where j: "?p = 2 ^ j" using v(6) by blast
  have "2 * 1 \<le> capacity_frames cfg * v_channels v" using v(1,2) by (intro mult_le_mono) auto
  then have "2 \<le> ?p" using v(7) by linarith
  moreover have "bits ?p = Suc j" by (rule bits_eqI) (simp_all add: j)
  then have "is_power_of_two ?p" using j by (simp add: is_power_of_two_def)
  ultimately show ?thesis by (simp add: create_ring_def spsc_ring_buffer_def)
qed

text \<open>Opening a playback stream: for a configuration that validates and a device that resolves, it
  builds a stream that satisfies the invariant, holds no frame, is unprimed and has an
  empty metric set, with the nominal step the ratio of the two sample rates; the only other outcome
  is the allocation panic of a ring beyond \<open>isize::MAX\<close> bytes. Errors of validation come first,
  then the device's.\<close>

theorem opening_establishes_invariant:
  "case open_playback resolve cfg of
     Ok (w, (r, sh)) \<Rightarrow> \<exists>rate. resolve cfg OutputDirection = Ok rate
       \<and> w = writer_of (unat (fmt_channels (client_format cfg))) (capacity_frames cfg)
       \<and> stream_inv (unat (fmt_channels (client_format cfg))) (capacity_frames cfg) (r, sh)
       \<and> frames (playhead_of (r, sh)) = [] \<and> \<not> primed r \<and> metrics sh = metrics_new (capacity_frames cfg)
       \<and> nominal_step r = fdiv F64 (of_natural F64 (unat (fmt_sample_rate (client_format cfg))))
           (of_natural F64 (unat rate))
   | Err e \<Rightarrow> validate_config cfg = Err e
       \<or> (\<exists>v. validate_config cfg = Ok v) \<and> resolve cfg OutputDirection = Err e
   | Panic \<Rightarrow> resolve cfg OutputDirection = Panic
       \<or> (\<exists>v. validate_config cfg = Ok v \<and> isize_max < 4 * v_internal_sample_capacity v)"
proof (cases "validate_config cfg")
  case (Ok v)
  note v = validated [OF Ok]
  show ?thesis
  proof (cases "resolve cfg OutputDirection")
    case rate: (Ok rate)
    show ?thesis
    proof (cases "isize_max < 4 * v_internal_sample_capacity v")
      case True
      then show ?thesis using Ok rate by (simp add: open_playback_def create_ring_validated)
    next
      case False
      then obtain ring where ring: "create_ring (v_internal_sample_capacity v) = Ok ring"
        by (simp add: create_ring_validated [OF Ok])
      then have "spsc_ring_buffer (v_internal_sample_capacity v) = Ok ring"
        by (simp add: create_ring_def)
      note rb = spsc_ring_buffer_Ok [OF this]
      let ?n = "unat (fmt_channels (client_format cfg))"
      obtain r where r: "playback_state_new ?n cfg rate = Ok r"
        using v(3) by (simp add: playback_state_new_def resampler_new_def)
      have "0 < ?n" "capacity_frames cfg * ?n \<le> capacity ring" using v rb(2) by simp_all
      note q = resampler_new_ok [OF r [unfolded playback_state_new_def] this(1) rb(1,3) this(2) v(9)]
      show ?thesis
        using q v(4,5) by (simp add: open_playback_def Ok rate ring r writer_of_def)
    qed
  qed (simp_all add: open_playback_def Ok)
next
  case (Err e)
  then show ?thesis by (simp add: open_playback_def)
next
  case Panic
  then show ?thesis using validate_config_exact [of cfg] by (simp add: Let_def)
qed

section \<open>Histories of a stream\<close>

text \<open>
  Any sequence of writes by the process and callbacks of the device. The result is the frames the
  writes accepted and the frames the callbacks delivered, both in order.
\<close>

datatype stream_call = WriteCall "f32 list" | FrameCall

fun stream_calls :: "PcmWriter \<Rightarrow> stream_call list \<Rightarrow> reading \<Rightarrow>
    (f32 list list \<times> f32 list list \<times> reading, PcmStreamError) comp" where
  "stream_calls w [] s = ret ([], [], s)"
| "stream_calls w (WriteCall pcm # cs) s =
     (let (res, sh) = try_write_interleaved w pcm (snd s);
          fs = (if is_ok res then chunks_exact (w_channels w) pcm else []) in
      if res = Panic then Some Panic
      else and_run (stream_calls w cs (fst s, sh)) (\<lambda>(acc, outs, s'). ret (fs @ acc, outs, s')))"
| "stream_calls w (FrameCall # cs) s =
     and_run (playback_next_frame s) (\<lambda>(out, s1).
     and_run (stream_calls w cs s1) (\<lambda>(acc, outs, s').
       ret (acc, (case out of None \<Rightarrow> outs | Some f \<Rightarrow> f # outs), s')))"

definition mixed_at :: "f32 list list \<Rightarrow> f32 list \<Rightarrow> nat \<Rightarrow> bool" where
  "mixed_at fs out i \<longleftrightarrow> Suc i < length fs \<and> (\<exists>p. out = mix p (fs ! i) (fs ! Suc i))"

lemma skip_frames_drop: "\<exists>m. snd (skip_frames p fs) = drop m fs"
proof (induction p fs rule: skip_frames.induct)
  case (1 p x y fs)
  show ?case
  proof (cases "fle (fone F64) p")
    case True
    then obtain m where "snd (skip_frames (fsub F64 p (fone F64)) (y # fs)) = drop m (y # fs)"
      using 1 by blast
    then show ?thesis using True by (auto intro: exI [of _ "Suc m"])
  qed (auto intro: exI [of _ 0])
qed (auto intro: exI [of _ 0])

lemma resample_step_frames:
  assumes "resample_step P h = (out, h')"
  shows "\<exists>m. frames h' = drop m (frames h) \<and>
    (case out of None \<Rightarrow> m = 0
     | Some f \<Rightarrow> \<exists>x y fs. frames h = x # y # fs \<and> f = mix (head_phase h) x y)"
proof (cases "\<exists>x y fs. frames h = x # y # fs \<and> (running h \<or> p_threshold P \<le> length (frames h))")
  case True
  then obtain x y fs where fr: "frames h = x # y # fs" and c: "\<not> (\<not> running h \<and> length (frames h) < p_threshold P)"
    by auto
  define p where "p = fadd F64 (head_phase h)
    (fmul F64 (p_step P) (fadd F64 (fone F64) (drift P (length (frames h)))))"
  obtain m where "snd (skip_frames p (frames h)) = drop m (frames h)" using skip_frames_drop by blast
  moreover have "resample_step P h = (Some (mix (head_phase h) x y),
      \<lparr>frames = snd (skip_frames p (frames h)), head_phase = fst (skip_frames p (frames h)),
       running = (2 \<le> length (snd (skip_frames p (frames h)))), started = (started h \<or> \<not> running h)\<rparr>)"
    unfolding resample_step_def if_not_P [OF c] p_def [symmetric]
    by (simp add: Let_def split_beta fr(1))
  ultimately show ?thesis using assms fr by auto
next
  case False
  then have "out = None \<and> frames h' = frames h"
    using assms by (cases "frames h"; cases "tl (frames h)")
      (auto simp: resample_step_def split: if_splits)
  then show ?thesis by (auto intro: exI [of _ 0])
qed

lemma stream_calls_ok:
  assumes "stream_inv c k (r, sh)"
  shows "\<exists>acc outs r' sh'. stream_calls (writer_of c k) cs (r, sh) = ret (acc, outs, (r', sh'))
    \<and> stream_inv c k (r', sh')
    \<and> (\<forall>pre. \<exists>pre' is. pre @ frames (playhead_of (r, sh)) @ acc = pre' @ frames (playhead_of (r', sh'))
         \<and> length pre \<le> length pre' \<and> sorted is \<and> (\<forall>i \<in> set is. length pre \<le> i)
         \<and> list_all2 (mixed_at (pre @ frames (playhead_of (r, sh)) @ acc)) outs is)"
  using assms
proof (induction cs arbitrary: r sh)
  case Nil
  then show ?case by (auto intro!: exI [of _ "[] :: nat list"])
next
  case (Cons call cs)
  show ?case
  proof (cases call)
    case (WriteCall pcm)
    obtain res sh1 where w: "try_write_interleaved (writer_of c k) pcm sh = (res, sh1)"
      by (cases "try_write_interleaved (writer_of c k) pcm sh") simp
    define fs where "fs = (if is_ok res then chunks_exact c pcm else [])"
    have q: "stream_inv c k (r, sh1)" "res \<noteq> Panic"
      "frames (playhead_of (r, sh1)) = frames (playhead_of (r, sh)) @ fs"
      using try_write_effect [OF Cons.prems w] by (auto simp: fs_def)
    from Cons.IH [OF q(1)] obtain acc outs r' sh' where
      s: "stream_calls (writer_of c k) cs (r, sh1) = ret (acc, outs, (r', sh'))" "stream_inv c k (r', sh')"
      and a: "\<And>pre. \<exists>pre' is. pre @ frames (playhead_of (r, sh1)) @ acc = pre' @ frames (playhead_of (r', sh'))
         \<and> length pre \<le> length pre' \<and> sorted is \<and> (\<forall>i \<in> set is. length pre \<le> i)
         \<and> list_all2 (mixed_at (pre @ frames (playhead_of (r, sh1)) @ acc)) outs is"
      by blast
    have "stream_calls (writer_of c k) (call # cs) (r, sh) = ret (fs @ acc, outs, (r', sh'))"
      using WriteCall w q(2) s(1) by (simp add: fs_def) (simp add: writer_of_def)
    then show ?thesis using s(2) a unfolding q(3) by (intro exI conjI) (assumption, simp_all)
  next
    case FrameCall
    obtain out r1 sh1 where p: "playback_next_frame (r, sh) = ret (out, (r1, sh1))"
      "stream_inv c k (r1, sh1)" "resample_step (params r) (playhead_of (r, sh)) = (out, playhead_of (r1, sh1))"
      using playback_step [OF Cons.prems] by metis
    from Cons.IH [OF p(2)] obtain acc outs r' sh' where
      s: "stream_calls (writer_of c k) cs (r1, sh1) = ret (acc, outs, (r', sh'))" "stream_inv c k (r', sh')"
      and a: "\<And>pre. \<exists>pre' is. pre @ frames (playhead_of (r1, sh1)) @ acc = pre' @ frames (playhead_of (r', sh'))
         \<and> length pre \<le> length pre' \<and> sorted is \<and> (\<forall>i \<in> set is. length pre \<le> i)
         \<and> list_all2 (mixed_at (pre @ frames (playhead_of (r1, sh1)) @ acc)) outs is"
      by blast
    let ?fs = "frames (playhead_of (r, sh))"
    obtain m where m: "frames (playhead_of (r1, sh1)) = drop m ?fs"
      and o': "case out of None \<Rightarrow> m = 0
        | Some f \<Rightarrow> \<exists>x y fs. ?fs = x # y # fs \<and> f = mix (head_phase (playhead_of (r, sh))) x y"
      using resample_step_frames [OF p(3)] by blast
    define outs' where "outs' = (case out of None \<Rightarrow> outs | Some f \<Rightarrow> f # outs)"
    have "stream_calls (writer_of c k) (call # cs) (r, sh) = ret (acc, outs', (r', sh'))"
      using FrameCall p(1) s(1) by (simp add: outs'_def)
    moreover have "\<exists>pre' is. pre @ ?fs @ acc = pre' @ frames (playhead_of (r', sh'))
         \<and> length pre \<le> length pre' \<and> sorted is \<and> (\<forall>i \<in> set is. length pre \<le> i)
         \<and> list_all2 (mixed_at (pre @ ?fs @ acc)) outs' is" for pre
    proof -
      have all: "(pre @ take m ?fs) @ frames (playhead_of (r1, sh1)) @ acc = pre @ ?fs @ acc"
        by (simp add: m)
      obtain pre' "is" where b: "pre @ ?fs @ acc = pre' @ frames (playhead_of (r', sh'))"
        "length (pre @ take m ?fs) \<le> length pre'" "sorted is"
        "\<forall>i \<in> set is. length (pre @ take m ?fs) \<le> i"
        "list_all2 (mixed_at (pre @ ?fs @ acc)) outs is"
        using a [of "pre @ take m ?fs"] unfolding all by blast
      show ?thesis
      proof (cases out)
        case None
        then show ?thesis using b by (intro exI [of _ pre'] exI [of _ "is"]) (auto simp: outs'_def)
      next
        case (Some f)
        then have "mixed_at (pre @ ?fs @ acc) f (length pre)"
          using o' by (auto simp: mixed_at_def nth_append)
        then show ?thesis using b Some
          by (intro exI [of _ pre'] exI [of _ "length pre # is"]) (auto simp: outs'_def)
      qed
    qed
    ultimately show ?thesis using s(2) by blast
  qed
qed

text \<open>Whatever the process writes and however often the device calls back, a playback stream
  never panics or hangs, and it delivers the accepted audio in order: the frames accepted are the
  frames consumed followed by the frames still buffered, at most \<open>capacity + 2\<close> of them, and every
  delivered frame is a mix of two neighbouring accepted frames, at positions that never go
  back.\<close>

theorem playback_history_in_order:
  assumes "stream_inv c k (r, sh)" "frames (playhead_of (r, sh)) = []"
  shows "\<exists>accepted delivered r' sh'.
    stream_calls (writer_of c k) calls (r, sh) = ret (accepted, delivered, (r', sh'))
    \<and> (\<exists>n. frames (playhead_of (r', sh')) = drop n accepted)
    \<and> length (frames (playhead_of (r', sh'))) \<le> k + 2
    \<and> (\<exists>positions. sorted positions \<and> list_all2 (mixed_at accepted) delivered positions)"
proof -
  obtain acc outs r' sh' where s: "stream_calls (writer_of c k) calls (r, sh) = ret (acc, outs, (r', sh'))"
    "stream_inv c k (r', sh')"
    and a: "\<forall>pre. \<exists>pre' is. pre @ frames (playhead_of (r, sh)) @ acc = pre' @ frames (playhead_of (r', sh'))
         \<and> length pre \<le> length pre' \<and> sorted is \<and> (\<forall>i \<in> set is. length pre \<le> i)
         \<and> list_all2 (mixed_at (pre @ frames (playhead_of (r, sh)) @ acc)) outs is"
    using stream_calls_ok [OF assms(1)] by blast
  obtain pre' "is" where "acc = pre' @ frames (playhead_of (r', sh'))" "sorted is"
    "list_all2 (mixed_at acc) outs is"
    using a [rule_format, of "[]"] assms(2) by auto
  moreover have "length (frames (playhead_of (r', sh'))) \<le> k + 2"
    using s(2) by (auto simp: frames_eq stream_inv_def)
  ultimately show ?thesis using s(1) by (metis append_eq_conv_conj)
qed

section \<open>Drift correction\<close>

lemma fclamp_zero:
  assumes "is_zero z" "fle (fneg r) r"
  shows "fclamp z (fneg r) r = Ok z"
proof -
  obtain s f where z: "z = Fin s 0 f" using assms(1) by (cases z) auto
  have "flt z (fneg r) = False" "flt r z = False"
    using assms(2) by (cases r; auto simp: z scaled_def sval_def Let_def min.commute mult_le_0_iff
        zero_le_mult_iff mult_less_0_iff zero_less_mult_iff)+
  then show ?thesis using assms(2) by (simp add: fclamp_def)
qed

text \<open>The drift correction never panics and is bounded by the configured ratio in both
  directions: whatever the fill, it is at least \<open>- max_drift_ratio\<close> and at most
  \<open>max_drift_ratio\<close> (unless the control error is not a number), and it is zero when the fill is on
  target.\<close>

theorem drift_is_bounded:
  assumes "resampler_inv r"
  shows "\<exists>d. (drift_correction n (rs_target_fill_frames r) (control_span_frames r) (max_drift_ratio r)
      :: (f64, PcmStreamError) res) = Ok d
    \<and> (d = NaN \<or> fle (fneg (max_drift_ratio r)) d \<and> fle d (max_drift_ratio r))
    \<and> (n = rs_target_fill_frames r \<and> n < usize_bound \<and> 0 < control_span_frames r
        \<and> control_span_frames r < usize_bound \<and> is_finite (max_drift_ratio r) \<longrightarrow> is_zero d)"
proof -
  let ?m = "max_drift_ratio r"
  have lh: "fle (fneg ?m) ?m" using assms by (simp add: resampler_inv_def)
  let ?x = "fmul F64 (fdiv F64 (fsub F64 (of_natural F64 n) (of_natural F64 (rs_target_fill_frames r)))
    (of_natural F64 (control_span_frames r))) ?m"
  obtain d where d: "(fclamp ?x (fneg ?m) ?m :: (f64, PcmStreamError) res) = Ok d"
    using fclamp_ok [OF lh] by metis
  have "d = NaN \<or> fle (fneg ?m) d \<and> fle d ?m"
  proof (cases "?x = NaN")
    case True
    then show ?thesis using d lh by (cases ?m) (auto simp: fclamp_def Let_def)
  next
    case False
    then show ?thesis using fclamp_bounds [OF d] by simp
  qed
  moreover have "is_zero d" if "n = rs_target_fill_frames r" "n < usize_bound" "0 < control_span_frames r"
    "control_span_frames r < usize_bound" "is_finite ?m"
  proof -
    have "below 65 (of_natural F64 n)"
      using of_natural_below [of F64 n 64] that(2) by (simp add: usize_bound_def) (simp add: F64_def)
    then have z: "is_zero (fsub F64 (of_natural F64 n) (of_natural F64 (rs_target_fill_frames r)))"
      using that(1) by (cases "of_natural F64 n") (auto simp: fsub_def scaled_def sval_def)
    then have "below 67 (fsub F64 (of_natural F64 n) (of_natural F64 (rs_target_fill_frames r)))"
      by (cases "fsub F64 (of_natural F64 n) (of_natural F64 (rs_target_fill_frames r))") auto
    note span = that(3,4) [unfolded usize_bound_def]
    obtain s b f where b: "of_natural F64 (control_span_frames r) = Fin s b f" "0 < b"
      using natural_positive [OF span] by blast
    have "is_zero (fdiv F64 (fsub F64 (of_natural F64 n) (of_natural F64 (rs_target_fill_frames r)))
        (of_natural F64 (control_span_frames r)))"
      using z b by (cases "fsub F64 (of_natural F64 n) (of_natural F64 (rs_target_fill_frames r))")
        (auto simp: round_frac_def round_fin_def Let_def)
    then have "is_zero ?x" using that(5) by (simp add: fmul_zero_finite)
    then have "fclamp ?x (fneg ?m) ?m = Ok ?x" using lh by (rule fclamp_zero)
    then show ?thesis using d \<open>is_zero ?x\<close> by (metis res.inject(1))
  qed
  ultimately show ?thesis using d by (auto simp: drift_correction_def Let_def)
qed

section \<open>An example stream, and applications of the properties\<close>

definition sample :: "nat \<Rightarrow> f32" where
  "sample n = Fin False (2 ^ 23 + n) 0"

text \<open>Two channels, a capacity of four frames, \<open>n\<close> frames in the ring, unity rate.\<close>

definition example_ring :: "nat \<Rightarrow> ring" where
  "example_ring n = \<lparr>samples = map sample [0..<8], mask = 7, rd = 0, wr = of_nat (2 * n)\<rparr>"

definition example_shared :: "nat \<Rightarrow> pcm_shared" where
  "example_shared n = \<lparr>buffer = example_ring n,
     metrics = (metrics_new 4)\<lparr>ring_fill_frames := of_nat n\<rparr>\<rparr>"

definition example_resampler :: RingResampler where
  "example_resampler = \<lparr>rs_channels = 2, rs_target_fill_frames = 2, priming_threshold_frames = 2,
     control_span_frames = 2, nominal_step = fone F64, max_drift_ratio = fzero F64,
     current = replicate 2 (fzero F32), next_samples = replicate 2 (fzero F32),
     interpolated = replicate 2 (fzero F32), phase = fzero F64, have_current = False,
     have_next = False, primed = False, has_primed = False\<rparr>"

lemma example_contents: "n \<le> 4 \<Longrightarrow> contents (example_ring n) = map sample [0..<2 * n]"
proof -
  assume n: "n \<le> 4"
  have "unat (of_nat (2 * n) :: u64) = 2 * n" using n by (intro unat_of_nat_u64) (simp add: usize_bound_def)
  moreover have "map sample [0..<8] ! slot (example_ring n) (of_nat i) = sample i" if "i < 8" for i
  proof -
    have "slot (example_ring n) (of_nat i) = unat (of_nat i :: u64) mod 2 ^ 3"
      by (rule slot_mod) (simp add: example_ring_def mask_eq_exp_minus_1)
    also have "unat (of_nat i :: u64) = i" using that by (intro unat_of_nat_u64) (simp add: usize_bound_def)
    finally show ?thesis using that by simp
  qed
  ultimately show ?thesis
    using n by (intro nth_equalityI) (auto simp: contents_def load_slots_def example_ring_def)
qed

lemma example_ring_inv: "n \<le> 4 \<Longrightarrow> ring_inv (example_ring n)"
  using example_contents [of n] length_contents [of "example_ring n"]
  by (auto simp: ring_inv_def example_ring_def mask_eq_exp_minus_1 consumer_available_def intro!: exI [of _ 3])

lemma example_inv:
  assumes "n \<le> 4"
  shows "stream_inv 2 4 (example_resampler, example_shared n)"
proof -
  have "consumer_available (example_ring n) = 2 * n"
    using length_contents [of "example_ring n"] by (simp add: example_contents assms)
  moreover have "capacity (example_ring n) = 8" by (simp add: capacity_def example_ring_def)
  ultimately show ?thesis
    using assms fle_fneg_self(1) example_ring_inv
    by (auto simp: stream_inv_def reading_inv_def resampler_inv_def shared_inv_def example_resampler_def
        example_shared_def length_ring_frames fzero_def usize_bound_def)
qed

lemma example_frames:
  "n \<le> 4 \<Longrightarrow> frames (playhead_of (example_resampler, example_shared n))
     = chunks_exact 2 (map sample [0..<2 * n])"
  by (simp add: frames_eq ring_frames_def example_resampler_def example_shared_def example_contents)

theorem try_write_all_or_nothing_witness:
  "let (res, sh') = try_write_interleaved (writer_of 2 4) [sample 6, sample 7] (example_shared 3) in
     res = Ok () \<and> contents (buffer sh') = map sample [0..<6] @ [sample 6, sample 7]"
proof -
  obtain res sh' where w: "try_write_interleaved (writer_of 2 4) [sample 6, sample 7] (example_shared 3) = (res, sh')"
    by (cases "try_write_interleaved (writer_of 2 4) [sample 6, sample 7] (example_shared 3)") simp
  have "ring_frames 2 (example_shared 3) = chunks_exact 2 (map sample [0..<6])"
    by (simp add: ring_frames_def example_shared_def example_contents)
  then have n: "length (ring_frames 2 (example_shared 3)) = 3" by (simp add: length_chunks_exact)
  have c: "contents (buffer (example_shared 3)) = map sample [0..<6]" "\<not> closed (metrics (example_shared 3))"
    by (simp_all add: example_shared_def example_contents metrics_new_def)
  show ?thesis
    using try_write_all_or_nothing [OF example_inv [of 3], of "[sample 6, sample 7]"]
    by (simp add: w n c Let_def)
qed

theorem capture_frame_exact_witness:
  "has_capacity_for_frame (capture_of 2 4 [sample 6, sample 7]) (example_shared 3) = Ok True
   \<and> has_capacity_for_frame (capture_of 2 4 [sample 6, sample 7]) (example_shared 4) = Ok False"
proof -
  have "length (ring_frames 2 (example_shared n)) = n" if "n \<le> 4" for n
    using that by (simp add: ring_frames_def example_shared_def example_contents length_chunks_exact)
  then show ?thesis
    using capture_frame_exact [OF example_inv [of 3], of "[sample 6, sample 7]"]
      capture_frame_exact [OF example_inv [of 4], of "[sample 6, sample 7]"]
    by (simp add: usize_bound_def)
qed

theorem playback_refines_resampler_witness:
  "\<exists>out s'. playback_next_frame (example_resampler, example_shared 3) = ret (out, s')
    \<and> resample_step (params example_resampler) (playhead_of (example_resampler, example_shared 3))
        = (out, playhead_of s')"
  using playback_refines_resampler [OF example_inv [of 3]] by auto

theorem try_read_exact_witness:
  "\<exists>s'. try_read_interleaved [NaN] (example_resampler, example_shared 3)
     = ret (Err InvalidBufferLength, [NaN], s')"
  using try_read_exact [OF example_inv [of 3], of "[NaN]"]
  by (auto simp: example_shared_def metrics_new_def)

theorem priming_consumes_nothing_witness:
  "try_read_interleaved [NaN, NaN] (example_resampler, example_shared 1)
     = ret (Ok 0, [NaN, NaN], (example_resampler, example_shared 1))"
proof -
  have "length (frames (playhead_of (example_resampler, example_shared 1))) = 1"
    by (simp add: example_frames length_chunks_exact)
  then show ?thesis
    using priming_consumes_nothing [OF example_inv [of 1], of "[NaN, NaN]" 1]
    by (simp add: example_resampler_def example_shared_def metrics_new_def)
qed

lemma sample_ordinary: "n < 2 ^ 23 \<Longrightarrow> ordinary (sample n)"
proof -
  assume "n < 2 ^ 23"
  then have "bits (2 ^ 23 + n) = Suc 23" by (intro bits_eqI) simp_all
  then show ?thesis using \<open>n < 2 ^ 23\<close> by (simp add: ordinary_def fin_rep_def sample_def F32_def)
qed

lemma ordinary_chunks:
  assumes "\<And>x. x \<in> set xs \<Longrightarrow> ordinary x"
  shows "list_all (list_all ordinary) (chunks_exact c xs)"
  using assms
proof (induction c xs rule: chunks_exact.induct)
  case (1 c xs)
  show ?case
  proof (cases "c = 0 \<or> length xs < c")
    case True
    then show ?thesis by (simp add: chunks_exact.simps [of c xs])
  next
    case False
    then show ?thesis
      using 1 by (auto simp: chunks_exact.simps [of c xs] list_all_iff dest: in_set_takeD in_set_dropD)
  qed
qed

theorem unity_rate_passes_audio_through_witness:
  "\<exists>out s'. try_read_interleaved [NaN, NaN, NaN, NaN] (example_resampler, example_shared 3)
      = ret (Ok 2, concat out, s')
    \<and> list_all2 (list_all2 same_value) out [[sample 0, sample 1], [sample 2, sample 3]]"
proof -
  have fr: "frames (playhead_of (example_resampler, example_shared 3))
      = [[sample 0, sample 1], [sample 2, sample 3], [sample 4, sample 5]]"
    using example_frames [of 3] by (simp add: upt_conv_Cons chunks_exact.simps eval_nat_numeral)
  have "list_all (list_all ordinary) (chunks_exact 2 (map sample [0..<6]))"
    by (rule ordinary_chunks) (auto intro: sample_ordinary)
  then have "list_all (list_all ordinary) [[sample 0, sample 1], [sample 2, sample 3], [sample 4, sample 5]]"
    by (simp add: upt_conv_Cons chunks_exact.simps eval_nat_numeral)
  then show ?thesis
    using unity_rate_passes_audio_through [OF example_inv [of 3] _ _ _ _ fr, of "[NaN, NaN, NaN, NaN]" 2]
    by (auto simp: unity_def example_resampler_def example_shared_def metrics_new_def params_def usize_bound_def)
qed

theorem playback_history_in_order_witness:
  "\<exists>accepted delivered s'.
     stream_calls (writer_of 2 4) [WriteCall [sample 0, sample 1, sample 2, sample 3], FrameCall, FrameCall]
       (example_resampler, example_shared 0) = ret (accepted, delivered, s')
     \<and> (\<exists>positions. sorted positions \<and> list_all2 (mixed_at accepted) delivered positions)"
proof -
  have "frames (playhead_of (example_resampler, example_shared 0)) = []"
    using example_frames [of 0] by simp
  from playback_history_in_order [OF example_inv [of 0] this] show ?thesis by fastforce
qed

theorem drift_is_bounded_witness:
  "\<exists>d. (drift_correction 2 2 2 (fzero F64) :: (f64, PcmStreamError) res) = Ok d \<and> is_zero d"
proof -
  have "resampler_inv example_resampler"
    using example_inv [of 0] by (simp add: stream_inv_def reading_inv_def)
  from drift_is_bounded [OF this, of 2] show ?thesis
    by (auto simp: example_resampler_def usize_bound_def fzero_def)
qed

section \<open>Two limits\<close>

text \<open>
  A capacity that \<open>validate_config\<close> accepts can make the constructor of the ring panic in its
  allocation instead of returning \<open>InvalidRingCapacity\<close>.
\<close>

lemma huge_capacity_panics:
  fixes uid :: string
  defines "cfg \<equiv> \<lparr>device_uid = uid, client_format = \<lparr>fmt_sample_rate = 48000, fmt_channels = 1\<rparr>,
    capacity_frames = 2 ^ 62, target_fill_frames = 1, max_drift_ppm = 0\<rparr>"
  shows "\<exists>v. validate_config cfg = Ok v \<and> create_ring (v_internal_sample_capacity v) = Panic"
proof -
  have "is_ok (validate_config cfg)"
    by (simp add: cfg_def validate_config_def checked_mul_def usize_bound_def checked_next_power_of_two_def)
  then obtain v where v: "validate_config cfg = Ok v" by (auto simp: is_ok_iff)
  have "2 ^ 62 \<le> v_internal_sample_capacity v" using validated(7) [OF v] validated(4) [OF v] by (simp add: cfg_def)
  then show ?thesis using v create_ring_validated [OF v] by (simp add: isize_max_def)
qed

text \<open>
  Two finite neighbouring samples whose difference overflows make the interpolation produce a NaN
  even at phase zero, so the bound on \<open>ordinary\<close> samples is needed.
\<close>

lemma overflowing_difference_is_NaN:
  "lerp (Fin True (2 ^ 24 - 1) 104) (Fin False (2 ^ 24 - 1) 104) (convert F32 (fzero F64)) = NaN"
  by (simp add: lerp_def float_eval)

end
