(* ===== verification/StreamConcurrency.thy ===== *)
theory StreamConcurrency
  imports RingConcurrency PcmProperties
begin

text \<open>
  The two threads of a PCM stream of \<open>crates/vcable-coreaudio/src/pcm.rs\<close>, interleaved: the thread
  that writes (\<open>PcmWriter::try_write_interleaved\<close> in the process, or \<open>has_capacity_for_frame\<close> and
  \<open>commit_scratch_frame\<close> in the capture callback), the thread that reads (\<open>RingResampler::pop_frame\<close>,
  wherever it is called from) and the owner of the stream, who may close it at any time.
  \<open>PcmStream\<close> models each of these operations as one step; here every access to what they share is a
  step of its own: the flag \<open>closed\<close>, the index of the other thread, the fill metric, and inside of
  \<open>push_slice\<close> and \<open>pop_slice\<close> the steps of \<open>RingConcurrency\<close>.

  \<open>ch\<close> is the number of channels and \<open>limit\<close> the \<open>logical_capacity_samples\<close>. A stream has one kind of
  writing half; the relation offers the steps of both, so that what holds of it holds of either
  kind of stream. \<open>outcomes\<close> is a history variable: every finished call of the writing half, with its
  input, its result and whether the ring took its samples.
\<close>

section \<open>Threads\<close>

datatype half = ProcessHalf | CallbackHalf

datatype writer_pc =
    WIdle
  | WOpened "f32 list"          \<comment> \<open>\<open>ensure_open\<close> has succeeded\<close>
  | WRoom half "f32 list"       \<comment> \<open>there is room for these samples\<close>
  | WCounted half "f32 list"    \<comment> \<open>\<open>add_fill\<close> is done\<close>
  | WPushing half "f32 list"    \<comment> \<open>inside of \<open>push_slice\<close>\<close>
  | WPushed half "f32 list"     \<comment> \<open>\<open>push_slice\<close> has returned\<close>

datatype reader_pc =
    RIdle
  | RReady                      \<comment> \<open>\<open>available\<close> has shown a frame\<close>
  | RPopping                    \<comment> \<open>inside of \<open>pop_slice\<close>\<close>
  | RPopped                     \<comment> \<open>\<open>pop_slice\<close> has returned\<close>

record stream_run =
  link :: spsc
  meters :: pcm_metrics
  wpc :: writer_pc
  rpc :: reader_pc
  outcomes :: "(f32 list \<times> (unit, PcmStreamError) res \<times> bool) list"

definition used_samples :: "ring \<Rightarrow> usize" where
  "used_samples r = capacity r - producer_available r"

definition free_frames :: "usize \<Rightarrow> usize \<Rightarrow> ring \<Rightarrow> usize" where
  "free_frames ch limit r = (limit - used_samples r) div ch"

inductive stream_step :: "usize \<Rightarrow> usize \<Rightarrow> stream_run \<Rightarrow> stream_run \<Rightarrow> bool" for ch limit where
  w_closed: "wpc s = WIdle \<Longrightarrow> ensure_open (meters s) = Err e \<Longrightarrow>
    stream_step ch limit s (s\<lparr>outcomes := outcomes s @ [(pcm, Err e, False)]\<rparr>)"
| w_open: "wpc s = WIdle \<Longrightarrow> ensure_open (meters s) = Ok () \<Longrightarrow>
    stream_step ch limit s (s\<lparr>wpc := WOpened pcm\<rparr>)"
| w_misaligned: "wpc s = WOpened pcm \<Longrightarrow> \<not> ch dvd length pcm \<Longrightarrow>
    stream_step ch limit s
      (s\<lparr>wpc := WIdle, outcomes := outcomes s @ [(pcm, Err InvalidBufferLength, False)]\<rparr>)"
| w_full: "wpc s = WOpened pcm \<Longrightarrow> ch dvd length pcm \<Longrightarrow>
    available = free_frames ch limit (shared (link s)) \<Longrightarrow> available < length pcm div ch \<Longrightarrow>
    stream_step ch limit s
      (s\<lparr>wpc := WIdle, outcomes := outcomes s @ [(pcm, Err (BufferFull (length pcm div ch) available), False)]\<rparr>)"
| w_room: "wpc s = WOpened pcm \<Longrightarrow> ch dvd length pcm \<Longrightarrow>
    length pcm div ch \<le> free_frames ch limit (shared (link s)) \<Longrightarrow>
    stream_step ch limit s (s\<lparr>wpc := WRoom ProcessHalf pcm\<rparr>)"
| k_room: "wpc s = WIdle \<Longrightarrow> length frame = ch \<Longrightarrow> used_samples (shared (link s)) + ch \<le> limit \<Longrightarrow>
    stream_step ch limit s (s\<lparr>wpc := WRoom CallbackHalf frame\<rparr>)"
| k_full: "wpc s = WIdle \<Longrightarrow> limit < used_samples (shared (link s)) + ch \<Longrightarrow>
    stream_step ch limit s (s\<lparr>meters := overrun 1 (meters s)\<rparr>)"
| w_count: "wpc s = WRoom h pcm \<Longrightarrow>
    stream_step ch limit s (s\<lparr>wpc := WCounted h pcm, meters := add_fill (length pcm div ch) (meters s)\<rparr>)"
| w_push: "wpc s = WCounted h pcm \<Longrightarrow> ppc (link s) = PIdle \<Longrightarrow>
    spsc_step (link s) l \<Longrightarrow> ppc l = PLoadedWrite pcm w \<Longrightarrow>
    stream_step ch limit s (s\<lparr>wpc := WPushing h pcm, link := l\<rparr>)"
| w_ring: "wpc s = WPushing h pcm \<Longrightarrow> spsc_step (link s) l \<Longrightarrow> ppc l \<noteq> ppc (link s) \<Longrightarrow>
    stream_step ch limit s (s\<lparr>wpc := (if ppc l = PIdle then WPushed h pcm else WPushing h pcm), link := l\<rparr>)"
| w_return: "wpc s = WPushed ProcessHalf pcm \<Longrightarrow>
    stream_step ch limit s (s\<lparr>wpc := WIdle, outcomes := outcomes s @
      [(pcm, if is_ok (ensure_open (meters s)) then Ok () else Err StreamClosed, True)]\<rparr>)"
| k_return: "wpc s = WPushed CallbackHalf frame \<Longrightarrow>
    stream_step ch limit s (s\<lparr>wpc := WIdle, meters := transferred 1 (meters s),
      outcomes := outcomes s @ [(frame, Ok (), True)]\<rparr>)"
| r_check: "rpc s = RIdle \<Longrightarrow> ch \<le> consumer_available (shared (link s)) \<Longrightarrow>
    stream_step ch limit s (s\<lparr>rpc := RReady\<rparr>)"
| r_pop: "rpc s = RReady \<Longrightarrow> cpc (link s) = CIdle \<Longrightarrow> spsc_step (link s) l \<Longrightarrow> cpc l = CLoadedRead ch r \<Longrightarrow>
    stream_step ch limit s (s\<lparr>rpc := RPopping, link := l\<rparr>)"
| r_ring: "rpc s = RPopping \<Longrightarrow> spsc_step (link s) l \<Longrightarrow> cpc l \<noteq> cpc (link s) \<Longrightarrow>
    stream_step ch limit s (s\<lparr>rpc := (if cpc l = CIdle then RPopped else RPopping), link := l\<rparr>)"
| r_count: "rpc s = RPopped \<Longrightarrow>
    stream_step ch limit s (s\<lparr>rpc := RIdle, meters := remove_fill 1 (meters s)\<rparr>)"
| o_close: "stream_step ch limit s (s\<lparr>meters := close (meters s)\<rparr>)"

inductive_cases stream_stepE: "stream_step ch limit s t"

text \<open>A stream as \<open>open_playback\<close> and \<open>open_capture\<close> leave it.\<close>

definition stream_init :: "ValidatedConfig \<Rightarrow> usize \<Rightarrow> ring \<Rightarrow> stream_run" where
  "stream_init v cap r = \<lparr>link = spsc_init r, meters = metrics_new cap, wpc = WIdle, rpc = RIdle, outcomes = []\<rparr>"

inductive stream_reachable :: "PcmStreamConfig \<Rightarrow> stream_run \<Rightarrow> bool" for config where
  init: "validate_config config = Ok v \<Longrightarrow> create_ring (v_internal_sample_capacity v) = Ok r \<Longrightarrow>
    stream_reachable config (stream_init v (capacity_frames config) r)"
| step: "stream_reachable config s \<Longrightarrow> validate_config config = Ok v \<Longrightarrow>
    stream_step (v_channels v) (v_logical_capacity_samples v) s t \<Longrightarrow> stream_reachable config t"

section \<open>The account\<close>

fun pending :: "usize \<Rightarrow> writer_pc \<Rightarrow> nat" where
  \<comment> \<open>frames that the metric counts and the ring does not hold yet\<close>
  "pending ch (WCounted h pcm) = length pcm div ch"
| "pending ch (WPushing h pcm) = length pcm div ch"
| "pending ch _ = 0"

fun leaving :: "reader_pc \<Rightarrow> nat" where
  \<comment> \<open>frames that the ring has released and the metric still counts\<close>
  "leaving RPopped = 1"
| "leaving _ = 0"

definition ring_frame_count :: "usize \<Rightarrow> stream_run \<Rightarrow> nat" where
  "ring_frame_count ch s = length (contents (shared (link s))) div ch"

definition room_for :: "usize \<Rightarrow> usize \<Rightarrow> spsc \<Rightarrow> half \<Rightarrow> f32 list \<Rightarrow> bool" where
  "room_for ch limit l h pcm \<longleftrightarrow> ch dvd length pcm \<and> (h = CallbackHalf \<longrightarrow> length pcm = ch)
     \<and> length (sent l) + length pcm \<le> length (received l) + limit"

fun writer_ok :: "usize \<Rightarrow> usize \<Rightarrow> spsc \<Rightarrow> writer_pc \<Rightarrow> bool" where
  "writer_ok ch limit l WIdle = (ppc l = PIdle)"
| "writer_ok ch limit l (WOpened pcm) = (ppc l = PIdle)"
| "writer_ok ch limit l (WRoom h pcm) = (ppc l = PIdle \<and> room_for ch limit l h pcm)"
| "writer_ok ch limit l (WCounted h pcm) = (ppc l = PIdle \<and> room_for ch limit l h pcm)"
| "writer_ok ch limit l (WPushing h pcm) = (room_for ch limit l h pcm
     \<and> ((\<exists>w. ppc l = PLoadedWrite pcm w) \<or> (\<exists>w i. ppc l = PWriting pcm w i)))"
| "writer_ok ch limit l (WPushed h pcm) = (ppc l = PIdle \<and> (h = CallbackHalf \<longrightarrow> length pcm = ch))"

fun reader_ok :: "usize \<Rightarrow> spsc \<Rightarrow> reader_pc \<Rightarrow> bool" where
  "reader_ok ch l RIdle = (cpc l = CIdle)"
| "reader_ok ch l RReady = (cpc l = CIdle \<and> length (received l) + ch \<le> length (sent l))"
| "reader_ok ch l RPopping = (length (received l) + ch \<le> length (sent l)
     \<and> (\<exists>r. cpc l = CLoadedRead ch r \<or> (\<exists>acc. cpc l = CReading ch r acc)))"
| "reader_ok ch l RPopped = (cpc l = CIdle)"

definition flow_ok :: "usize \<Rightarrow> usize \<Rightarrow> spsc \<Rightarrow> bool" where
  "flow_ok ch limit l \<longleftrightarrow> ch dvd length (sent l) \<and> ch dvd length (received l)
     \<and> length (received l) \<le> length (sent l) \<and> length (sent l) \<le> length (received l) + limit"

definition fill_of :: "usize \<Rightarrow> spsc \<Rightarrow> writer_pc \<Rightarrow> reader_pc \<Rightarrow> nat" where
  "fill_of ch l w r = (length (sent l) - length (received l)) div ch + pending ch w + leaving r"

definition published :: "(f32 list \<times> (unit, PcmStreamError) res \<times> bool) list \<Rightarrow> f32 list" where
  "published os = concat (map fst (filter (snd \<circ> snd) os))"

fun underway :: "writer_pc \<Rightarrow> f32 list" where
  "underway (WPushed h pcm) = pcm"
| "underway _ = []"

fun outcome_ok :: "f32 list \<times> (unit, PcmStreamError) res \<times> bool \<Rightarrow> bool" where
  "outcome_ok (pcm, r, took) \<longleftrightarrow> (if took then r = Ok () \<or> r = Err StreamClosed else r \<noteq> Ok () \<and> r \<noteq> Panic)"

definition stream_run_inv :: "nat \<Rightarrow> usize \<Rightarrow> usize \<Rightarrow> stream_run \<Rightarrow> bool" where
  "stream_run_inv k ch limit s \<longleftrightarrow> spsc_inv k (link s) \<and> flow_ok ch limit (link s)
     \<and> writer_ok ch limit (link s) (wpc s) \<and> reader_ok ch (link s) (rpc s)
     \<and> ring_fill_frames (meters s) = of_nat (fill_of ch (link s) (wpc s) (rpc s))
     \<and> sent (link s) = published (outcomes s) @ underway (wpc s) \<and> list_all outcome_ok (outcomes s)"

section \<open>Steps inside of the ring\<close>

lemma producer_ring_step:
  assumes "spsc_step l l'" "ppc l' \<noteq> ppc l"
  shows "cpc l' = cpc l" "received l' = received l"
    "case ppc l of
       PIdle \<Rightarrow> sent l' = sent l
     | PLoadedWrite pcm w \<Rightarrow> sent l' = sent l \<and> (\<exists>c. ppc l' = PWriting (take c pcm) w 0 \<and> c =
         min (length pcm) (unat (of_nat (capacity (shared l)) - (w - rd (shared l)) :: u64)))
     | PWriting pcm w i \<Rightarrow> sent l' = sent l \<and> ppc l' = PWriting pcm w (Suc i)
         \<or> sent l' = sent l @ pcm \<and> ppc l' = PIdle"
  using assms by (auto elim!: spsc_stepE)

lemma consumer_ring_step:
  assumes "spsc_step l l'" "cpc l' \<noteq> cpc l"
  shows "ppc l' = ppc l" "sent l' = sent l"
    "case cpc l of
       CIdle \<Rightarrow> received l' = received l
     | CLoadedRead n r \<Rightarrow> received l' = received l \<and> cpc l' = CReading (min n (unat (wr (shared l) - r))) r []
     | CReading n r acc \<Rightarrow> received l' = received l \<and> (\<exists>x. cpc l' = CReading n r (acc @ [x]))
         \<or> received l' = received l @ acc \<and> length acc = n \<and> cpc l' = CIdle"
  using assms by (auto elim!: spsc_stepE)

lemma whole_push:
  assumes inv: "spsc_inv k l" and pc: "ppc l = PLoadedWrite pcm w"
    and room: "length (sent l) + length pcm \<le> length (received l) + 2 ^ k"
  shows "min (length pcm) (unat (of_nat (capacity (shared l)) - (w - rd (shared l)) :: u64)) = length pcm"
proof -
  have "w = wr (shared l)" using inv pc by (simp add: spsc_inv_def)
  then have "unat (of_nat (capacity (shared l)) - (w - rd (shared l)) :: u64)
      = 2 ^ k - (length (sent l) - length (received l))"
    using seen_available(1) [OF inv] by (simp add: producer_available_def)
  moreover have "length (received l) \<le> length (sent l)" using inv by (simp add: spsc_inv_def indices_ok_def)
  ultimately show ?thesis using room by linarith
qed

lemma whole_pop:
  assumes inv: "spsc_inv k l" and pc: "cpc l = CLoadedRead n r"
    and there: "length (received l) + n \<le> length (sent l)"
  shows "min n (unat (wr (shared l) - r)) = n"
proof -
  have "r = rd (shared l)" using inv pc by (simp add: spsc_inv_def)
  then have "unat (wr (shared l) - r) = length (sent l) - length (received l)"
    using seen_available(2) [OF inv] by (simp add: consumer_available_def)
  then show ?thesis using there by linarith
qed

lemma used_is_in_flight:
  assumes "spsc_inv k l" "length (sent l) \<le> length (received l) + limit" "limit \<le> 2 ^ k"
  shows "used_samples (shared l) = length (sent l) - length (received l)"
    "producer_available (shared l) \<le> capacity (shared l)" "used_samples (shared l) \<le> limit"
proof -
  have "capacity (shared l) = 2 ^ k" using assms(1) by (simp add: spsc_inv_def geometry_def capacity_def)
  then show "used_samples (shared l) = length (sent l) - length (received l)"
    "producer_available (shared l) \<le> capacity (shared l)" "used_samples (shared l) \<le> limit"
    unfolding used_samples_def seen_available(1) [OF assms(1)] using assms(2,3) by auto
qed

section \<open>Every step keeps the account\<close>

lemma reader_ok_frame:
  "reader_ok ch l r \<Longrightarrow> cpc l' = cpc l \<Longrightarrow> received l' = received l \<Longrightarrow>
    length (sent l) \<le> length (sent l') \<Longrightarrow> reader_ok ch l' r"
  by (cases r) auto

lemma writer_ok_frame:
  "writer_ok ch limit l w \<Longrightarrow> ppc l' = ppc l \<Longrightarrow> sent l' = sent l \<Longrightarrow>
    length (received l) \<le> length (received l') \<Longrightarrow> writer_ok ch limit l' w"
  by (cases w) (auto simp: room_for_def)

lemma fill_of_cong:
  "sent l' = sent l \<Longrightarrow> received l' = received l \<Longrightarrow> fill_of ch l' w r = fill_of ch l w r"
  by (simp add: fill_of_def)

lemma flow_ok_cong: "sent l' = sent l \<Longrightarrow> received l' = received l \<Longrightarrow> flow_ok ch limit l' = flow_ok ch limit l"
  by (simp add: flow_ok_def)

lemma fill_of_publish:
  assumes "flow_ok ch limit l" "ch dvd length pcm" "sent l' = sent l @ pcm" "received l' = received l"
  shows "fill_of ch l' (WPushed h pcm) r = fill_of ch l (WPushing h pcm) r"
proof -
  have "(length (sent l) + length pcm - length (received l)) div ch
      = ((length (sent l) - length (received l)) + length pcm) div ch"
    using assms(1) by (simp add: flow_ok_def)
  also have "\<dots> = (length (sent l) - length (received l)) div ch + length pcm div ch"
    using assms(2) by (rule div_plus_div_distrib_dvd_right)
  finally show ?thesis using assms(3,4) by (simp add: fill_of_def)
qed

lemma fill_of_release:
  assumes "0 < ch" "flow_ok ch limit l" "length (received l) + ch \<le> length (sent l)"
    and "sent l' = sent l" "length (received l') = length (received l) + ch"
  shows "fill_of ch l' w RPopped = fill_of ch l w RPopping"
proof -
  have "length (sent l) - length (received l) = (length (sent l) - length (received l')) + ch"
    using assms(3,5) by simp
  then have "(length (sent l) - length (received l)) div ch = (length (sent l) - length (received l')) div ch + 1"
    using assms(1) by (metis Suc_eq_plus1 add.commute div_add_self2 less_numeral_extra(3))
  then show ?thesis using assms(4) by (simp add: fill_of_def)
qed

lemma inv_w_ring:
  assumes inv: "stream_run_inv k ch limit s" and pc: "wpc s = WPushing h pcm"
    and l: "spsc_step (link s) l" "ppc l \<noteq> ppc (link s)" and lim: "limit \<le> 2 ^ k"
  shows "stream_run_inv k ch limit
    (s\<lparr>wpc := (if ppc l = PIdle then WPushed h pcm else WPushing h pcm), link := l\<rparr>)"
proof -
  have i: "spsc_inv k (link s)" "flow_ok ch limit (link s)" "room_for ch limit (link s) h pcm"
    "reader_ok ch (link s) (rpc s)"
    "(\<exists>w. ppc (link s) = PLoadedWrite pcm w) \<or> (\<exists>w i. ppc (link s) = PWriting pcm w i)"
    and f: "ring_fill_frames (meters s) = of_nat (fill_of ch (link s) (WPushing h pcm) (rpc s))"
    and o: "sent (link s) = published (outcomes s)" "list_all outcome_ok (outcomes s)"
    using inv pc by (auto simp: stream_run_inv_def)
  note q = producer_ring_step [OF l]
  have r: "reader_ok ch l (rpc s)" if "length (sent (link s)) \<le> length (sent l)"
    using reader_ok_frame [OF i(4)] q(1,2) that by simp
  have k: "spsc_inv k l" by (rule spsc_step_inv [OF l(1) i(1)])
  consider (writing) w i where "ppc l = PWriting pcm w i" "sent l = sent (link s)"
    | (finished) "ppc l = PIdle" "sent l = sent (link s) @ pcm"
  proof (cases "ppc (link s)")
    case (PLoadedWrite xs w)
    with i(5) have "xs = pcm" by simp
    with whole_push [OF i(1)] PLoadedWrite i(3) lim q(3) show ?thesis
      by (intro writing) (auto simp: room_for_def)
  qed (use i(5) q(3) writing finished in auto)
  then show ?thesis
  proof cases
    case writing
    then show ?thesis
      using i o k q(2) r f fill_of_cong [of l "link s"] flow_ok_cong [of l "link s"] pc
      by (auto simp: stream_run_inv_def room_for_def)
  next
    case finished
    have "flow_ok ch limit l" using i(2,3) finished(2) q(2) by (auto simp: flow_ok_def room_for_def)
    moreover have "fill_of ch l (WPushed h pcm) (rpc s) = fill_of ch (link s) (WPushing h pcm) (rpc s)"
      using i(3) by (intro fill_of_publish [OF i(2) _ finished(2) q(2)]) (simp add: room_for_def)
    ultimately show ?thesis using finished i(3) o k r f by (simp add: stream_run_inv_def room_for_def)
  qed
qed

lemma inv_r_ring:
  assumes inv: "stream_run_inv k ch limit s" and pc: "rpc s = RPopping"
    and l: "spsc_step (link s) l" "cpc l \<noteq> cpc (link s)" and ch: "0 < ch"
  shows "stream_run_inv k ch limit (s\<lparr>rpc := (if cpc l = CIdle then RPopped else RPopping), link := l\<rparr>)"
proof -
  have i: "spsc_inv k (link s)" "flow_ok ch limit (link s)" "writer_ok ch limit (link s) (wpc s)"
    "length (received (link s)) + ch \<le> length (sent (link s))"
    "\<exists>r. cpc (link s) = CLoadedRead ch r \<or> (\<exists>acc. cpc (link s) = CReading ch r acc)"
    and f: "ring_fill_frames (meters s) = of_nat (fill_of ch (link s) (wpc s) RPopping)"
    and o: "sent (link s) = published (outcomes s) @ underway (wpc s)" "list_all outcome_ok (outcomes s)"
    using inv pc by (auto simp: stream_run_inv_def)
  note q = consumer_ring_step [OF l]
  have w: "writer_ok ch limit l (wpc s)" if "length (received (link s)) \<le> length (received l)"
    using writer_ok_frame [OF i(3)] q(1,2) that by simp
  have k: "spsc_inv k l" by (rule spsc_step_inv [OF l(1) i(1)])
  consider (reading) r acc where "cpc l = CReading ch r acc" "received l = received (link s)"
    | (finished) "cpc l = CIdle" "length (received l) = length (received (link s)) + ch"
  proof (cases "cpc (link s)")
    case (CLoadedRead n r)
    with i(5) have "n = ch" by simp
    with whole_pop [OF i(1)] CLoadedRead i(4) q(3) show ?thesis by (intro reading) auto
  qed (use i(5) q(3) reading finished in auto)
  then show ?thesis
  proof cases
    case reading
    then show ?thesis
      using i o k q(2) w f fill_of_cong [of l "link s"] flow_ok_cong [of l "link s"]
      by (auto simp: stream_run_inv_def)
  next
    case finished
    have "flow_ok ch limit l" using i(2,4) finished(2) q(2) by (auto simp: flow_ok_def)
    moreover have "fill_of ch l (wpc s) RPopped = fill_of ch (link s) (wpc s) RPopping"
      using fill_of_release [OF ch i(2,4) q(2) finished(2)] .
    ultimately show ?thesis using finished o k w f q(2) by (simp add: stream_run_inv_def)
  qed
qed

lemma published_snoc [simp]: "published (os @ [(p, r, b)]) = published os @ (if b then p else [])"
  by (simp add: published_def)

lemma meters_frame [simp]:
  "ring_fill_frames (overrun n m) = ring_fill_frames m"
  "ring_fill_frames (transferred n m) = ring_fill_frames m"
  "ring_fill_frames (close m) = ring_fill_frames m"
  "ring_fill_frames (add_fill n m) = ring_fill_frames m + of_nat n"
  "ring_fill_frames (remove_fill n m) = ring_fill_frames m - of_nat n"
  by (simp_all add: overrun_def transferred_def close_def add_fill_def remove_fill_def)

lemma ensure_open_Err [simp]: "ensure_open m = Err e \<longleftrightarrow> closed m \<and> e = StreamClosed"
  by (auto simp: ensure_open_def)

lemma fill_of_simps [simp]:
  "fill_of ch l (WOpened pcm) r = fill_of ch l WIdle r"
  "fill_of ch l (WRoom h pcm) r = fill_of ch l WIdle r"
  "fill_of ch l (WCounted h pcm) r = fill_of ch l WIdle r + length pcm div ch"
  "fill_of ch l (WPushing h pcm) r = fill_of ch l WIdle r + length pcm div ch"
  "fill_of ch l (WPushed h pcm) r = fill_of ch l WIdle r"
  "fill_of ch l w RReady = fill_of ch l w RIdle"
  "fill_of ch l w RPopping = fill_of ch l w RIdle"
  "fill_of ch l w RPopped = fill_of ch l w RIdle + 1"
  by (simp_all add: fill_of_def)

lemma room_seen:
  assumes "spsc_inv k l" "flow_ok ch limit l" "limit \<le> 2 ^ k" "0 < ch" "ch dvd limit"
    and "ch dvd length pcm" "length pcm div ch \<le> free_frames ch limit (shared l)"
  shows "room_for ch limit l ProcessHalf pcm"
proof -
  have fl: "length (received l) \<le> length (sent l)" "length (sent l) \<le> length (received l) + limit"
    and "ch dvd length (sent l) - length (received l)"
    using assms(2) by (auto simp: flow_ok_def intro: dvd_diff_nat)
  then have d: "ch dvd limit - (length (sent l) - length (received l))" using assms(5) by (metis dvd_diff_nat)
  have "length pcm = length pcm div ch * ch" using assms(6) by simp
  also have "\<dots> \<le> (limit - (length (sent l) - length (received l))) div ch * ch"
    using assms(7) unfolding free_frames_def used_is_in_flight(1) [OF assms(1) fl(2) assms(3)]
    by (intro mult_le_mono1)
  also have "\<dots> = limit - (length (sent l) - length (received l))" using d by simp
  finally show ?thesis using assms(6) fl by (simp add: room_for_def)
qed

lemma stream_step_inv:
  assumes "stream_step ch limit s t" "stream_run_inv k ch limit s" "0 < ch" "ch dvd limit" "limit \<le> 2 ^ k"
  shows "stream_run_inv k ch limit t"
  using assms
proof (induction rule: stream_step.induct)
  case (w_room s pcm)
  then show ?case using room_seen [of k "link s" ch limit pcm] by (simp add: stream_run_inv_def)
next
  case (k_room s frame)
  then have "flow_ok ch limit (link s)" "spsc_inv k (link s)" by (simp_all add: stream_run_inv_def)
  then have "length (sent (link s)) + ch \<le> length (received (link s)) + limit"
    using k_room used_is_in_flight(1) [of k "link s" limit] by (simp add: flow_ok_def)
  then show ?case using k_room by (simp add: stream_run_inv_def room_for_def)
next
  case (w_push s h pcm l w)
  then have "ppc l \<noteq> ppc (link s)" by simp
  note q = producer_ring_step [OF w_push(3) this]
  have "spsc_inv k l" using w_push spsc_step_inv by (auto simp: stream_run_inv_def)
  moreover have "reader_ok ch l (rpc s)"
    using reader_ok_frame [of ch "link s" "rpc s" l] q w_push by (simp add: stream_run_inv_def)
  moreover have "sent l = sent (link s)" "received l = received (link s)" using q w_push by simp_all
  note fill_of_cong [OF this] flow_ok_cong [OF this]
  ultimately show ?case using w_push q by (auto simp: stream_run_inv_def room_for_def)
next
  case (w_ring s h pcm l)
  then show ?case using inv_w_ring by blast
next
  case (r_check s)
  then have "spsc_inv k (link s)" by (simp add: stream_run_inv_def)
  with r_check seen_available(2) [OF this] show ?case
    by (auto simp: stream_run_inv_def)
next
  case (r_pop s l r)
  then have "cpc l \<noteq> cpc (link s)" by simp
  note q = consumer_ring_step [OF r_pop(3) this]
  have "spsc_inv k l" using r_pop spsc_step_inv by (auto simp: stream_run_inv_def)
  moreover have "writer_ok ch limit l (wpc s)"
    using writer_ok_frame [of ch limit "link s" "wpc s" l] q r_pop by (simp add: stream_run_inv_def)
  moreover have "sent l = sent (link s)" "received l = received (link s)" using q r_pop by simp_all
  note fill_of_cong [OF this] flow_ok_cong [OF this]
  ultimately show ?case using r_pop q by (auto simp: stream_run_inv_def)
next
  case (r_ring s l)
  then show ?case using inv_r_ring by blast
qed (auto simp: stream_run_inv_def)

lemma stream_init_inv:
  assumes "spsc_ring_buffer (2 ^ k) = Ok r"
  shows "stream_run_inv k ch limit (stream_init v cap r)"
proof -
  obtain j where "2 ^ j = (2::nat) ^ k" "spsc_inv j (spsc_init r)" using spsc_inv_init [OF assms] by blast
  then have "spsc_inv k (spsc_init r)" by simp
  then show ?thesis
    by (simp add: stream_run_inv_def stream_init_def spsc_init_def flow_ok_def metrics_new_def fill_of_def published_def)
qed

lemma stream_reachable_inv:
  assumes "stream_reachable config s" "validate_config config = Ok v"
  obtains k where "v_internal_sample_capacity v = 2 ^ k"
    "stream_run_inv k (v_channels v) (v_logical_capacity_samples v) s"
    "v_logical_capacity_samples v \<le> 2 ^ k"
proof -
  note v = validated [OF assms(2)]
  obtain k where k: "v_internal_sample_capacity v = 2 ^ k" using v(6) by blast
  have lim: "v_logical_capacity_samples v \<le> 2 ^ k" using v(5,7) k by simp
  have dvd: "v_channels v dvd v_logical_capacity_samples v" using v(5) by simp
  have "stream_run_inv k (v_channels v) (v_logical_capacity_samples v) s"
    using assms(1)
  proof induction
    case (init u r)
    then have "spsc_ring_buffer (2 ^ k) = Ok r"
      using assms(2) k by (auto simp: create_ring_def split: res.splits)
    then show ?case by (rule stream_init_inv)
  next
    case (step s u t)
    then show ?case using stream_step_inv [OF _ _ v(1) dvd lim] assms(2) by auto
  qed
  with k lim that show thesis by blast
qed

section \<open>Calls that nothing interrupts\<close>

text \<open>
  A call whose thread runs alone from its first access to its last does what \<open>PcmStream\<close> says in one
  step: the two models describe the same operations.
\<close>

lemma store_slots_cong: "mask r' = mask r \<Longrightarrow> store_slots r' w xs s = store_slots r w xs s"
  by (induction xs arbitrary: w s) (simp_all add: slot_cong [of r' r])

lemma solo_writing:
  assumes "wpc s = WPushing h pcm" "ppc (link s) = PWriting pcm w i" "i \<le> length pcm"
  shows "(stream_step ch limit)\<^sup>*\<^sup>* s (s\<lparr>wpc := WPushed h pcm,
    link := (link s)\<lparr>ppc := PIdle, sent := sent (link s) @ pcm,
      shared := (shared (link s))\<lparr>wr := w + of_nat (length pcm), samples :=
        store_slots (shared (link s)) (w + of_nat i) (drop i pcm) (samples (shared (link s)))\<rparr>\<rparr>\<rparr>)"
  using assms
proof (induction "length pcm - i" arbitrary: i s)
  case 0
  then have pc: "ppc (link s) = PWriting pcm w (length pcm)" by simp
  have "stream_step ch limit s (s\<lparr>wpc := WPushed h pcm, link := (link s)\<lparr>ppc := PIdle,
    sent := sent (link s) @ pcm, shared := (shared (link s))\<lparr>wr := w + of_nat (length pcm)\<rparr>\<rparr>\<rparr>)"
    using w_ring [OF 0(2) p_publish [OF pc]] pc by simp
  then show ?case using 0 by (intro r_into_rtranclp) simp
next
  case (Suc n)
  let ?r = "shared (link s)"
  let ?l = "(link s)\<lparr>ppc := PWriting pcm w (Suc i),
    shared := ?r\<lparr>samples := (samples ?r)[slot ?r (w + of_nat i) := pcm ! i]\<rparr>\<rparr>"
  let ?s = "s\<lparr>wpc := WPushing h pcm, link := ?l\<rparr>"
  have i: "i < length pcm" using Suc(2) by simp
  have step: "stream_step ch limit s ?s"
    using w_ring [OF Suc(3) p_store [OF Suc(4) i]] Suc(4) by simp
  have d: "drop i pcm = pcm ! i # drop (Suc i) pcm" using i by (simp add: Cons_nth_drop_Suc)
  have c: "store_slots (shared ?l) = store_slots ?r" by (intro ext store_slots_cong) simp
  have "(stream_step ch limit)\<^sup>*\<^sup>* ?s (?s\<lparr>wpc := WPushed h pcm, link := ?l\<lparr>ppc := PIdle,
    sent := sent ?l @ pcm, shared := (shared ?l)\<lparr>wr := w + of_nat (length pcm), samples :=
      store_slots ?r (w + of_nat (Suc i)) (drop (Suc i) pcm) (samples (shared ?l))\<rparr>\<rparr>\<rparr>)"
    using Suc(1) [of "Suc i" ?s] Suc(2) i unfolding c [symmetric] by simp
  with step show ?case by (simp add: d add.assoc converse_rtranclp_into_rtranclp algebra_simps)
qed

lemma solo_push:
  assumes inv: "spsc_inv k (link s)" and pc: "wpc s = WCounted h pcm" "ppc (link s) = PIdle"
    and room: "length (sent (link s)) + length pcm \<le> length (received (link s)) + 2 ^ k"
  shows "(stream_step ch limit)\<^sup>*\<^sup>* s (s\<lparr>wpc := WPushed h pcm, link := (link s)\<lparr>
    ppc := PIdle, sent := sent (link s) @ pcm, shared := snd (push_slice pcm (shared (link s)))\<rparr>\<rparr>)"
proof -
  let ?r = "shared (link s)"
  let ?l1 = "(link s)\<lparr>ppc := PLoadedWrite pcm (wr ?r)\<rparr>"
  let ?s1 = "s\<lparr>wpc := WPushing h pcm, link := ?l1\<rparr>"
  have "spsc_step (link s) ?l1" by (rule p_begin [OF pc(2)])
  then have one: "stream_step ch limit s ?s1" by (rule w_push [OF pc]) simp
  have "spsc_inv k ?l1" using inv pc(2) by (auto simp: spsc_defs)
  then have count: "min (length pcm) (unat (of_nat (capacity ?r) - (wr ?r - rd ?r) :: u64)) = length pcm"
    using whole_push [of k ?l1 pcm "wr ?r"] room by simp
  have "spsc_step ?l1 (?l1\<lparr>ppc := PWriting (take (length pcm) pcm) (wr ?r) 0\<rparr>)"
    by (rule p_load) (simp_all add: count)
  from w_ring [of ?s1 h pcm, OF _ , of "?l1\<lparr>ppc := PWriting pcm (wr ?r) 0\<rparr>"] this
  have two: "stream_step ch limit ?s1 (?s1\<lparr>link := ?l1\<lparr>ppc := PWriting pcm (wr ?r) 0\<rparr>\<rparr>)" by simp
  have "push_slice pcm ?r = (length pcm, ?r\<lparr>wr := wr ?r + of_nat (length pcm),
      samples := store_slots ?r (wr ?r) pcm (samples ?r)\<rparr>)"
    using count by (simp add: push_slice_def Let_def)
  then have "(stream_step ch limit)\<^sup>*\<^sup>* (?s1\<lparr>link := ?l1\<lparr>ppc := PWriting pcm (wr ?r) 0\<rparr>\<rparr>)
    (s\<lparr>wpc := WPushed h pcm, link := (link s)\<lparr>ppc := PIdle, sent := sent (link s) @ pcm, shared := snd (push_slice pcm ?r)\<rparr>\<rparr>)"
    using solo_writing [of "?s1\<lparr>link := ?l1\<lparr>ppc := PWriting pcm (wr ?r) 0\<rparr>\<rparr>" h pcm "wr ?r" 0 ch limit] pc(2) by simp
  with one two show ?thesis by (meson converse_rtranclp_into_rtranclp)
qed

lemma load_slots_Suc: "load_slots r i (Suc n) = load_slots r i n @ [samples r ! slot r (i + of_nat n)]"
  by (simp add: load_slots_def)

lemma solo_reading:
  assumes "rpc s = RPopping" "cpc (link s) = CReading n r (load_slots (shared (link s)) r i)" "i \<le> n"
  shows "(stream_step ch limit)\<^sup>*\<^sup>* s (s\<lparr>rpc := RPopped,
    link := (link s)\<lparr>cpc := CIdle, received := received (link s) @ load_slots (shared (link s)) r n,
      shared := (shared (link s))\<lparr>rd := r + of_nat n\<rparr>\<rparr>\<rparr>)"
  using assms
proof (induction "n - i" arbitrary: i s)
  case 0
  then have pc: "cpc (link s) = CReading n r (load_slots (shared (link s)) r n)" by simp
  have n: "length (load_slots (shared (link s)) r n) = n" by (simp add: load_slots_def)
  show ?case
    using r_ring [OF 0(2) c_publish [OF pc n]] pc by (intro r_into_rtranclp) simp
next
  case (Suc m)
  let ?r = "shared (link s)"
  let ?l = "(link s)\<lparr>cpc := CReading n r (load_slots ?r r (Suc i))\<rparr>"
  let ?s = "s\<lparr>rpc := RPopping, link := ?l\<rparr>"
  have i: "i < n" "length (load_slots ?r r i) = i" using Suc(2) by (auto simp: load_slots_def)
  have "spsc_step (link s) ?l" using c_copy [OF Suc(4)] i by (simp add: load_slots_Suc)
  from r_ring [OF Suc(3) this] Suc(4) have step: "stream_step ch limit s ?s"
    by (simp add: load_slots_Suc)
  have "(stream_step ch limit)\<^sup>*\<^sup>* ?s (?s\<lparr>rpc := RPopped, link := ?l\<lparr>cpc := CIdle,
    received := received ?l @ load_slots (shared ?l) r n, shared := (shared ?l)\<lparr>rd := r + of_nat n\<rparr>\<rparr>\<rparr>)"
    using Suc(1) [of "Suc i" ?s] Suc(2) i by simp
  with step show ?case by (simp add: converse_rtranclp_into_rtranclp)
qed

lemma solo_pop:
  assumes inv: "spsc_inv k (link s)" and pc: "rpc s = RIdle" "cpc (link s) = CIdle"
    and there: "ch \<le> consumer_available (shared (link s))" and out: "length out = ch"
  shows "(stream_step ch limit)\<^sup>*\<^sup>* s (s\<lparr>rpc := RPopped, link := (link s)\<lparr>
    cpc := CIdle, received := received (link s) @ fst (snd (pop_slice out (shared (link s)))),
    shared := snd (snd (pop_slice out (shared (link s))))\<rparr>\<rparr>)"
proof -
  let ?r = "shared (link s)"
  let ?s1 = "s\<lparr>rpc := RReady\<rparr>"
  let ?l2 = "(link s)\<lparr>cpc := CLoadedRead ch (rd ?r)\<rparr>"
  let ?s2 = "s\<lparr>rpc := RPopping, link := ?l2\<rparr>"
  let ?s3 = "s\<lparr>rpc := RPopping, link := (link s)\<lparr>cpc := CReading ch (rd ?r) []\<rparr>\<rparr>"
  have one: "stream_step ch limit s ?s1" using r_check pc there by simp
  have "spsc_step (link s) ?l2" by (rule c_begin [OF pc(2)])
  with r_pop [of ?s1 ?l2 ch "rd ?r" limit] pc have two: "stream_step ch limit ?s1 ?s2" by simp
  have m: "min ch (unat (wr ?r - rd ?r)) = ch" using there by (simp add: consumer_available_def)
  have "spsc_step ?l2 (?l2\<lparr>cpc := CReading ch (rd ?r) []\<rparr>)" using c_load [of ?l2 ch "rd ?r" ch] m [symmetric] by simp
  with r_ring [of ?s2 "?l2\<lparr>cpc := CReading ch (rd ?r) []\<rparr>" ch limit]
  have three: "stream_step ch limit ?s2 ?s3" by simp
  have "pop_slice out ?r = (ch, load_slots ?r (rd ?r) ch, ?r\<lparr>rd := rd ?r + of_nat ch\<rparr>)"
    using m out by (simp add: pop_slice_def Let_def)
  then have "(stream_step ch limit)\<^sup>*\<^sup>* ?s3 (s\<lparr>rpc := RPopped, link := (link s)\<lparr>
    cpc := CIdle, received := received (link s) @ fst (snd (pop_slice out ?r)),
    shared := snd (snd (pop_slice out ?r))\<rparr>\<rparr>)"
    using solo_reading [of ?s3 ch "rd ?r" 0 ch limit] by (simp add: load_slots_def)
  with one two three show ?thesis by (meson converse_rtranclp_into_rtranclp)
qed

text \<open>What a state of the interleaving shows of the shared parts.\<close>

definition shared_part :: "stream_run \<Rightarrow> pcm_shared" where
  "shared_part s = \<lparr>buffer = shared (link s), metrics = meters s\<rparr>"

lemma checks_agree:
  assumes "stream_run_inv k ch limit s" "limit \<le> 2 ^ k" "0 < ch"
  shows "usize_sub (capacity (shared (link s))) (producer_available (shared (link s))) =
      Ok (used_samples (shared (link s)))"
    "usize_sub limit (used_samples (shared (link s))) = Ok (limit - used_samples (shared (link s)))"
    "usize_div n ch = Ok (n div ch)"
  using used_is_in_flight [of k "link s" limit] assms
  by (auto simp: stream_run_inv_def flow_ok_def usize_sub_def usize_div_def used_samples_def)

lemma try_write_value:
  assumes "stream_run_inv k ch limit s" "limit \<le> 2 ^ k" "0 < ch"
  shows "try_write_interleaved \<lparr>w_channels = ch, w_logical_capacity_samples = limit\<rparr> pcm (shared_part s) =
    (if closed (meters s) then (Err StreamClosed, shared_part s)
     else if \<not> ch dvd length pcm then (Err InvalidBufferLength, shared_part s)
     else if free_frames ch limit (shared (link s)) < length pcm div ch
       then (Err (BufferFull (length pcm div ch) (free_frames ch limit (shared (link s)))), shared_part s)
     else (Ok (), \<lparr>buffer = snd (push_slice pcm (shared (link s))),
                   metrics = add_fill (length pcm div ch) (meters s)\<rparr>))"
  by (simp add: try_write_interleaved_def shared_part_def ensure_open_def checks_agree [OF assms]
      free_frames_def case_prod_unfold Let_def add_fill_def)

lemma try_write_uninterrupted:
  assumes inv: "stream_run_inv k ch limit s" and lim: "limit \<le> 2 ^ k" "0 < ch" "ch dvd limit"
    and idle: "wpc s = WIdle"
  shows "case try_write_interleaved \<lparr>w_channels = ch, w_logical_capacity_samples = limit\<rparr> pcm (shared_part s) of
    (res, sh) \<Rightarrow> \<exists>t took. (stream_step ch limit)\<^sup>*\<^sup>* s t \<and> wpc t = WIdle \<and> rpc t = rpc s
      \<and> received (link t) = received (link s) \<and> outcomes t = outcomes s @ [(pcm, res, took)] \<and> shared_part t = sh"
proof -
  let ?r = "shared (link s)" and ?n = "length pcm div ch"
  let ?s1 = "s\<lparr>wpc := WOpened pcm\<rparr>"
  let ?over = "\<lambda>res. s\<lparr>wpc := WIdle, outcomes := outcomes s @ [(pcm, res, False)]\<rparr>"
  note val = try_write_value [OF inv lim(1,2), of pcm]
  show ?thesis
  proof (cases "closed (meters s)")
    case True
    let ?t = "s\<lparr>outcomes := outcomes s @ [(pcm, Err StreamClosed, False)]\<rparr>"
    have "stream_step ch limit s ?t" using w_closed [OF idle] True by simp
    then show ?thesis using True idle unfolding val
      by (auto intro!: exI [of _ ?t] simp: shared_part_def)
  next
    case False
    then have opened: "stream_step ch limit s ?s1" by (intro w_open [OF idle]) (simp add: ensure_open_def)
    consider "\<not> ch dvd length pcm" | "ch dvd length pcm" "free_frames ch limit ?r < ?n"
      | (fits) "ch dvd length pcm" "?n \<le> free_frames ch limit ?r" by linarith
    then show ?thesis
    proof cases
      case 1
      then have "stream_step ch limit ?s1 (?over (Err InvalidBufferLength))"
        using w_misaligned [of ?s1 pcm ch limit] by simp
      with opened have "(stream_step ch limit)\<^sup>*\<^sup>* s (?over (Err InvalidBufferLength))" by simp
      then show ?thesis using 1 False unfolding val
        by (auto intro!: exI [of _ "?over (Err InvalidBufferLength)"] simp: shared_part_def)
    next
      case 2
      let ?e = "Err (BufferFull ?n (free_frames ch limit ?r))"
      from 2 have "stream_step ch limit ?s1 (?over ?e)" using w_full [of ?s1 pcm ch _ limit, OF _ _ refl] by simp
      with opened have "(stream_step ch limit)\<^sup>*\<^sup>* s (?over ?e)" by simp
      then show ?thesis using 2 False unfolding val
        by (auto intro!: exI [of _ "?over ?e"] simp: shared_part_def)
    next
      case fits
      let ?s2 = "s\<lparr>wpc := WRoom ProcessHalf pcm\<rparr>" and ?m = "add_fill ?n (meters s)"
      let ?s3 = "s\<lparr>wpc := WCounted ProcessHalf pcm, meters := ?m\<rparr>"
      let ?s4 = "s\<lparr>meters := ?m, wpc := WPushed ProcessHalf pcm, link := (link s)\<lparr>
        ppc := PIdle, sent := sent (link s) @ pcm, shared := snd (push_slice pcm ?r)\<rparr>\<rparr>"
      let ?t = "?s4\<lparr>wpc := WIdle, outcomes := outcomes s @ [(pcm, Ok (), True)]\<rparr>"
      have "stream_step ch limit ?s1 ?s2" using w_room [of ?s1 pcm ch limit] fits by simp
      moreover have "stream_step ch limit ?s2 ?s3" using w_count [of ?s2 ProcessHalf pcm ch limit] by simp
      moreover have "room_for ch limit (link s) ProcessHalf pcm"
        using inv fits lim by (intro room_seen) (auto simp: stream_run_inv_def)
      then have "(stream_step ch limit)\<^sup>*\<^sup>* ?s3 ?s4"
        using solo_push [of k ?s3 ProcessHalf pcm ch limit] inv idle lim(1)
        by (simp add: stream_run_inv_def room_for_def)
      moreover have "stream_step ch limit ?s4 ?t"
        using w_return [of ?s4 pcm ch limit] False by (simp add: ensure_open_def add_fill_def)
      ultimately have "(stream_step ch limit)\<^sup>*\<^sup>* s ?t"
        using opened by (meson converse_rtranclp_into_rtranclp rtranclp.rtrancl_into_rtrancl)
      then show ?thesis using fits False unfolding val
        by (auto intro!: exI [of _ ?t] simp: shared_part_def)
    qed
  qed
qed

lemma commit_uninterrupted:
  assumes inv: "stream_run_inv k ch limit s" and lim: "limit \<le> 2 ^ k" "0 < ch"
    and idle: "wpc s = WIdle"
    and c: "c_channels c = ch" "c_logical_capacity_samples c = limit" "length (scratch c) = ch"
    and room: "has_capacity_for_frame c (shared_part s) = Ok True"
  shows "\<exists>t. (stream_step ch limit)\<^sup>*\<^sup>* s t \<and> wpc t = WIdle \<and> rpc t = rpc s
    \<and> received (link t) = received (link s) \<and> outcomes t = outcomes s @ [(scratch c, Ok (), True)]
    \<and> shared_part t = commit_scratch_frame c (shared_part s)"
proof -
  let ?r = "shared (link s)" and ?f = "scratch c" and ?m = "add_fill 1 (meters s)"
  let ?s1 = "s\<lparr>wpc := WRoom CallbackHalf ?f\<rparr>"
  let ?s2 = "s\<lparr>wpc := WCounted CallbackHalf ?f, meters := ?m\<rparr>"
  let ?s3 = "s\<lparr>meters := ?m, wpc := WPushed CallbackHalf ?f, link := (link s)\<lparr>
    ppc := PIdle, sent := sent (link s) @ ?f, shared := snd (push_slice ?f ?r)\<rparr>\<rparr>"
  let ?t = "?s3\<lparr>wpc := WIdle, meters := transferred 1 ?m, outcomes := outcomes s @ [(?f, Ok (), True)]\<rparr>"
  have u: "used_samples ?r + ch \<le> limit"
    using room by (simp add: has_capacity_for_frame_def shared_part_def checked_add_def c checks_agree [OF inv lim]
        split: if_splits)
  have "stream_step ch limit s ?s1" using k_room [OF idle c(3) u] .
  moreover have "stream_step ch limit ?s1 ?s2"
    using w_count [of ?s1 CallbackHalf ?f ch limit] c(3) lim(2) by simp
  moreover have "length (sent (link s)) + ch \<le> length (received (link s)) + limit"
    using u inv used_is_in_flight(1) [of k "link s" limit] lim(1) by (auto simp: stream_run_inv_def flow_ok_def)
  then have "(stream_step ch limit)\<^sup>*\<^sup>* ?s2 ?s3"
    using solo_push [of k ?s2 CallbackHalf ?f ch limit] inv idle lim(1) c(3) by (simp add: stream_run_inv_def)
  moreover have "stream_step ch limit ?s3 ?t" using k_return [of ?s3 ?f ch limit] by simp
  ultimately have "(stream_step ch limit)\<^sup>*\<^sup>* s ?t"
    by (meson converse_rtranclp_into_rtranclp rtranclp.rtrancl_into_rtrancl)
  moreover have "shared_part ?t = commit_scratch_frame c (shared_part s)"
    by (simp add: shared_part_def commit_scratch_frame_def case_prod_unfold Let_def)
  ultimately show ?thesis by fastforce
qed

lemma pop_uninterrupted:
  assumes inv: "stream_run_inv k ch limit s" and lim: "limit \<le> 2 ^ k" "0 < ch"
    and idle: "rpc s = RIdle"
    and r: "rs_channels r = ch" "length (current r) = ch" "length (next_samples r) = ch"
  shows "\<exists>t. (stream_step ch limit)\<^sup>*\<^sup>* s t \<and> rpc t = RIdle \<and> wpc t = wpc s
    \<and> sent (link t) = sent (link s) \<and> outcomes t = outcomes s
    \<and> (case pop_frame is_next (r, shared_part s) of (ok, r', sh) \<Rightarrow> shared_part t = sh
         \<and> received (link t) = received (link s) @ (if ok then if is_next then next_samples r' else current r' else []))"
proof (cases "consumer_available (shared (link s)) < ch")
  case True
  then have "pop_frame is_next (r, shared_part s) = (False, (r, shared_part s))"
    using r(1) by (simp add: pop_frame_def shared_part_def)
  then show ?thesis using idle by fastforce
next
  case False
  let ?r = "shared (link s)" and ?out = "if is_next then next_samples r else current r"
  let ?s1 = "s\<lparr>rpc := RPopped, link := (link s)\<lparr>cpc := CIdle,
    received := received (link s) @ fst (snd (pop_slice ?out ?r)), shared := snd (snd (pop_slice ?out ?r))\<rparr>\<rparr>"
  let ?t = "?s1\<lparr>rpc := RIdle, meters := remove_fill 1 (meters s)\<rparr>"
  have "(stream_step ch limit)\<^sup>*\<^sup>* s ?s1"
    using inv idle False r by (intro solo_pop [where k = k]) (auto simp: stream_run_inv_def)
  moreover have "stream_step ch limit ?s1 ?t" using r_count [of ?s1 ch limit] by simp
  ultimately have "(stream_step ch limit)\<^sup>*\<^sup>* s ?t" by simp
  moreover have "pop_frame is_next (r, shared_part s) = (True,
    (if is_next then r\<lparr>next_samples := fst (snd (pop_slice ?out ?r))\<rparr> else r\<lparr>current := fst (snd (pop_slice ?out ?r))\<rparr>,
     shared_part ?t))"
    using False r(1) by (simp add: pop_frame_def shared_part_def case_prod_unfold Let_def)
  ultimately show ?thesis by fastforce
qed

lemma account_le:
  assumes "flow_ok ch limit l" "writer_ok ch limit l w" "limit = ch * cap" "0 < ch"
    and "n = (length (sent l) - length (received l)) div ch"
  shows "n + pending ch w \<le> cap"
proof -
  have small: "x div ch \<le> cap" if "x \<le> limit" for x
    using div_le_mono [OF that, of ch] assms(3,4) by simp
  have fl: "length (received l) \<le> length (sent l)" "length (sent l) \<le> length (received l) + limit"
    using assms(1) by (auto simp: flow_ok_def)
  show ?thesis
  proof (cases "pending ch w = 0")
    case True
    then show ?thesis using small [of "length (sent l) - length (received l)"] fl assms(5) by simp
  next
    case False
    then obtain h pcm where w: "pending ch w = length pcm div ch" "room_for ch limit l h pcm"
      using assms(2) by (cases w) auto
    then have "n + pending ch w = (length (sent l) - length (received l) + length pcm) div ch"
      using assms(5) by (simp add: room_for_def div_plus_div_distrib_dvd_right)
    also have "\<dots> \<le> cap" by (rule small) (use w(2) fl in \<open>auto simp: room_for_def\<close>)
    finally show ?thesis .
  qed
qed

lemma power_of_two_room: "\<exists>j. p = (2::nat) ^ j \<Longrightarrow> p < usize_bound \<Longrightarrow> n \<le> p \<Longrightarrow> n + 1 < usize_bound"
proof (elim exE)
  fix j assume p: "p = 2 ^ j" "p < usize_bound" "n \<le> p"
  then have "j < 64" using power_less_imp_less_exp [of "2::nat" j 64] by (simp add: usize_bound_def)
  then have "(2::nat) ^ j \<le> 2 ^ 63" by (intro power_increasing) auto
  then show ?thesis using p by (simp add: usize_bound_def)
qed

section \<open>The properties of the concurrent stream\<close>

text \<open>C36: The fill metric of a stream, which the writing thread raises before it publishes frames and the
  reading thread lowers after it has released one, counts under every interleaving exactly the frames
  in the ring, those about to be published and the one just released. So it never undercounts the
  ring, the decrement never wraps below zero, and a snapshot shows at most one frame more than the
  capacity. Nor do the subtractions of the room check ever wrap.\<close>

theorem fill_metric_exact_under_concurrency:
  assumes "stream_reachable config s" and "validate_config config = Ok v"
  shows "unat (ring_fill_frames (meters s))
      = ring_frame_count (v_channels v) s + pending (v_channels v) (wpc s) + leaving (rpc s)
    \<and> ring_frame_count (v_channels v) s + pending (v_channels v) (wpc s) \<le> capacity_frames config
    \<and> producer_available (shared (link s)) \<le> capacity (shared (link s))
    \<and> used_samples (shared (link s)) \<le> v_logical_capacity_samples v"
proof -
  note v = validated [OF assms(2)]
  let ?ch = "v_channels v" and ?limit = "v_logical_capacity_samples v" and ?l = "link s"
  obtain k where inv: "stream_run_inv k ?ch ?limit s" and lim: "?limit \<le> 2 ^ k"
    using stream_reachable_inv [OF assms] by blast
  then have l: "spsc_inv k ?l" "flow_ok ?ch ?limit ?l" by (simp_all add: stream_run_inv_def)
  note n = seen_available(2) [OF l(1)]
  have limit: "?limit = ?ch * capacity_frames config" using v(5) by simp
  have "ring_frame_count ?ch s + pending ?ch (wpc s) \<le> capacity_frames config"
  proof (rule account_le [OF l(2) _ limit v(1)])
    show "writer_ok ?ch ?limit ?l (wpc s)" using inv by (simp add: stream_run_inv_def)
  qed (simp add: ring_frame_count_def n)
  moreover have "leaving (rpc s) \<le> 1" by (cases "rpc s") simp_all
  moreover have "capacity_frames config + 1 < usize_bound"
    using v(1,7) by (intro power_of_two_room [OF v(6,8)] order_trans [OF _ v(7)]) simp
  ultimately have small: "ring_frame_count ?ch s + pending ?ch (wpc s) + leaving (rpc s) < usize_bound" by linarith
  have "ring_fill_frames (meters s) = of_nat (fill_of ?ch ?l (wpc s) (rpc s))"
    using inv unfolding stream_run_inv_def by blast
  also have "fill_of ?ch ?l (wpc s) (rpc s) = ring_frame_count ?ch s + pending ?ch (wpc s) + leaving (rpc s)"
    by (simp add: fill_of_def ring_frame_count_def n)
  finally have "unat (ring_fill_frames (meters s))
      = ring_frame_count ?ch s + pending ?ch (wpc s) + leaving (rpc s)"
    using unat_of_nat_u64 [OF small] by simp
  then show ?thesis
    using used_is_in_flight [OF l(1) _ lim] l(2) \<open>ring_frame_count ?ch s + _ \<le> _\<close>
    by (simp add: flow_ok_def)
qed

text \<open>C35: Under every interleaving with the other thread and with the close of the stream, a write is whole
  or it does not happen: the ring has taken all samples of the calls that took effect, in order, and
  nothing else. \<open>Ok\<close> is answered only after the whole write, \<open>BufferFull\<close> and
  \<open>InvalidBufferLength\<close> only when nothing was written. The reading thread gets a prefix of that in
  whole frames, and no \<open>push_slice\<close> or \<open>pop_slice\<close> is cut short.\<close>

theorem concurrent_writes_are_whole:
  assumes "stream_reachable config s" and "validate_config config = Ok v"
  shows "sent (link s) = concat [pcm. (pcm, r, took) \<leftarrow> outcomes s, took] @ underway (wpc s)
    \<and> (\<forall>(pcm, r, took) \<in> set (outcomes s).
         (r = Ok () \<longrightarrow> took) \<and> r \<noteq> Panic \<and> (took \<longrightarrow> r = Ok () \<or> r = Err StreamClosed))
    \<and> prefix (received (link s)) (sent (link s))
    \<and> v_channels v dvd length (received (link s)) \<and> v_channels v dvd length (sent (link s))
    \<and> (\<forall>h pcm xs w i. wpc s = WPushing h pcm \<longrightarrow> ppc (link s) = PWriting xs w i \<longrightarrow> xs = pcm)
    \<and> (\<forall>n r acc. cpc (link s) = CReading n r acc \<longrightarrow> n = v_channels v)"
proof -
  let ?ch = "v_channels v" and ?limit = "v_logical_capacity_samples v" and ?l = "link s"
  obtain k where inv: "stream_run_inv k ?ch ?limit s" using stream_reachable_inv [OF assms] by blast
  have "concat [pcm. (pcm, r, took) \<leftarrow> os, took] = published os" for os
    by (induction os) (auto simp: published_def)
  moreover have "(r = Ok () \<longrightarrow> took) \<and> r \<noteq> Panic \<and> (took \<longrightarrow> r = Ok () \<or> r = Err StreamClosed)"
    if "(pcm, r, took) \<in> set (outcomes s)" for pcm r took
  proof -
    have "outcome_ok (pcm, r, took)" using inv that by (auto simp: stream_run_inv_def list_all_iff)
    then show ?thesis by (cases took) auto
  qed
  moreover have "received ?l = take (length (received ?l)) (sent ?l)"
    using inv unfolding stream_run_inv_def spsc_inv_def data_ok_def by blast
  then have "prefix (received ?l) (sent ?l)" by (metis take_is_prefix)
  moreover have "xs = pcm" if "wpc s = WPushing h pcm" "ppc ?l = PWriting xs w i" for h pcm xs w i
    using inv that by (auto simp: stream_run_inv_def)
  moreover have "n = ?ch" if "cpc ?l = CReading n r acc" for n r acc
    using inv that by (cases "rpc s") (auto simp: stream_run_inv_def)
  moreover have "?ch dvd length (received ?l)" "?ch dvd length (sent ?l)"
    "sent ?l = published (outcomes s) @ underway (wpc s)"
    using inv by (auto simp: stream_run_inv_def flow_ok_def)
  ultimately show ?thesis by simp blast
qed

text \<open>Every one-step operation of the streams is a run of the interleaved threads: from every reachable
  state a \<open>try_write_interleaved\<close>, a \<open>commit_scratch_frame\<close> or a \<open>pop_frame\<close>
  can run to its end without a step of the other thread, with the result of the one-step operation
  and the ring and the metrics exactly as that operation leaves them.\<close>

theorem uninterrupted_calls_are_atomic:
  assumes "stream_reachable config s" and "validate_config config = Ok v"
  defines "run \<equiv> (stream_step (v_channels v) (v_logical_capacity_samples v))\<^sup>*\<^sup>* s"
    and "writer \<equiv> \<lparr>w_channels = v_channels v, w_logical_capacity_samples = v_logical_capacity_samples v\<rparr>"
  shows "(wpc s = WIdle \<longrightarrow> (\<forall>pcm.
      case try_write_interleaved writer pcm (shared_part s) of
        (res, sh) \<Rightarrow> \<exists>t took. run t \<and> wpc t = WIdle \<and> rpc t = rpc s \<and> received (link t) = received (link s)
          \<and> outcomes t = outcomes s @ [(pcm, res, took)] \<and> shared_part t = sh))
    \<and> (wpc s = WIdle \<longrightarrow> (\<forall>c. c_channels c = v_channels v
        \<and> c_logical_capacity_samples c = v_logical_capacity_samples v
        \<and> length (scratch c) = v_channels v \<and> has_capacity_for_frame c (shared_part s) = Ok True \<longrightarrow>
      (\<exists>t. run t \<and> wpc t = WIdle \<and> rpc t = rpc s \<and> received (link t) = received (link s)
        \<and> outcomes t = outcomes s @ [(scratch c, Ok (), True)]
        \<and> shared_part t = commit_scratch_frame c (shared_part s))))
    \<and> (rpc s = RIdle \<longrightarrow> (\<forall>r is_next. rs_channels r = v_channels v
        \<and> length (current r) = v_channels v \<and> length (next_samples r) = v_channels v \<longrightarrow>
      (case pop_frame is_next (r, shared_part s) of
        (ok, r', sh) \<Rightarrow> \<exists>t. run t \<and> rpc t = RIdle \<and> wpc t = wpc s \<and> sent (link t) = sent (link s)
          \<and> outcomes t = outcomes s \<and> shared_part t = sh
          \<and> received (link t) = received (link s)
              @ (if ok then if is_next then next_samples r' else current r' else []))))"
proof -
  note v = validated [OF assms(2)]
  obtain k where inv: "stream_run_inv k (v_channels v) (v_logical_capacity_samples v) s"
    and lim: "v_logical_capacity_samples v \<le> 2 ^ k"
    using stream_reachable_inv [OF assms(1,2)] by blast
  have dvd: "v_channels v dvd v_logical_capacity_samples v" using v(5) by simp
  note calls = try_write_uninterrupted [OF inv lim v(1) dvd] commit_uninterrupted [OF inv lim v(1)]
  show ?thesis
    unfolding run_def writer_def
  proof (intro conjI impI allI; (elim conjE)?)
    fix r :: RingResampler and is_next
    assume "rpc s = RIdle" "rs_channels r = v_channels v" "length (current r) = v_channels v"
      "length (next_samples r) = v_channels v"
    from pop_uninterrupted [OF inv lim v(1) this, of is_next]
    show "case pop_frame is_next (r, shared_part s) of
        (ok, r', sh) \<Rightarrow> \<exists>t. (stream_step (v_channels v) (v_logical_capacity_samples v))\<^sup>*\<^sup>* s t
          \<and> rpc t = RIdle \<and> wpc t = wpc s \<and> sent (link t) = sent (link s)
          \<and> outcomes t = outcomes s \<and> shared_part t = sh
          \<and> received (link t) = received (link s)
              @ (if ok then if is_next then next_samples r' else current r' else [])"
      by (auto split: prod.splits)
  qed (rule calls; assumption)+
qed

section \<open>Two streams of two frames\<close>

text \<open>
  One channel and room for two frames. In \<open>overfull\<close> the process has written two frames, the callback
  has taken one out of the ring and not yet lowered the metric, and the process has counted its next
  frame: the metric shows three. In \<open>closed_late\<close> the stream is closed between the push and the
  second check of \<open>try_write_interleaved\<close>: the call reports \<open>StreamClosed\<close> and its frames are in the ring.
\<close>

definition duo_config :: PcmStreamConfig where
  "duo_config = \<lparr>device_uid = [], client_format = \<lparr>fmt_sample_rate = 48000, fmt_channels = 1\<rparr>,
     capacity_frames = 2, target_fill_frames = 1, max_drift_ppm = 0\<rparr>"

definition duo_ring :: "ring" where
  "duo_ring = \<lparr>samples = [fzero F32, fzero F32], mask = 1, rd = 0, wr = 0\<rparr>"

definition duo_valid :: ValidatedConfig where
  "duo_valid = \<lparr>v_channels = 1, v_logical_capacity_samples = 2, v_internal_sample_capacity = 2\<rparr>"

lemma duo_validates: "validate_config duo_config = Ok duo_valid"
  by (simp add: validate_config_def duo_config_def duo_valid_def res_simps Let_def checked_mul_def
      checked_next_power_of_two_def usize_bound_def)

lemma duo_start: "stream_reachable duo_config (stream_init duo_valid 2 duo_ring)"
proof -
  have "replicate 2 (fzero F32) = [fzero F32, fzero F32]" by (simp add: numeral_2_eq_2)
  then have "create_ring (v_internal_sample_capacity duo_valid) = Ok duo_ring"
    by (simp add: create_ring_def spsc_ring_buffer_def is_power_of_two_def isize_max_def duo_ring_def duo_valid_def)
  from stream_reachable.init [OF duo_validates this] show ?thesis by (simp add: duo_config_def)
qed

lemma duo_run:
  assumes "(stream_step 1 2)\<^sup>*\<^sup>* s t" "stream_reachable duo_config s"
  shows "stream_reachable duo_config t"
  using assms
proof (induction rule: rtranclp_induct)
  case (step t u)
  then show ?case using stream_reachable.step [OF _ duo_validates, of t u] by (simp add: duo_valid_def)
qed

lemma duo_inv:
  assumes "stream_reachable duo_config s"
  shows "stream_run_inv 1 1 2 s"
proof -
  obtain k where "2 = (2::nat) ^ k" "stream_run_inv k 1 2 s"
    using stream_reachable_inv [OF assms duo_validates] by (auto simp: duo_valid_def)
  moreover from this(1) have "k = 1" by (metis power_inject_exp power_one_right one_less_numeral_iff semiring_norm(76))
  ultimately show ?thesis by simp
qed

lemma three_steps:
  "stream_step ch limit a b \<Longrightarrow> stream_step ch limit b c \<Longrightarrow> stream_step ch limit c d \<Longrightarrow>
    (stream_step ch limit)\<^sup>*\<^sup>* a d"
  by (meson converse_rtranclp_into_rtranclp rtranclp.rtrancl_refl)

lemma duo_counted:
  "\<exists>s. stream_reachable duo_config s \<and> wpc s = WCounted ProcessHalf [a, b] \<and> rpc s = RIdle
     \<and> link s = spsc_init duo_ring \<and> outcomes s = [] \<and> \<not> closed (meters s)"
proof -
  let ?s0 = "stream_init duo_valid 2 duo_ring"
  let ?s1 = "?s0\<lparr>wpc := WOpened [a, b]\<rparr>" and ?s2 = "?s0\<lparr>wpc := WRoom ProcessHalf [a, b]\<rparr>"
  let ?s3 = "?s0\<lparr>wpc := WCounted ProcessHalf [a, b], meters := add_fill 2 (metrics_new 2)\<rparr>"
  note defs = stream_init_def metrics_new_def ensure_open_def
  have one: "stream_step 1 2 ?s0 ?s1" using w_open [of ?s0 1 2 "[a, b]"] by (simp add: defs)
  have "free_frames 1 2 duo_ring = 2"
    by (simp add: free_frames_def used_samples_def producer_available_def capacity_def duo_ring_def)
  then have two: "stream_step 1 2 ?s1 ?s2"
    using w_room [of ?s1 "[a, b]" 1 2] by (simp add: defs spsc_init_def)
  have three: "stream_step 1 2 ?s2 ?s3"
    using w_count [of ?s2 ProcessHalf "[a, b]" 1 2] by (simp add: stream_init_def numeral_2_eq_2)
  have "stream_reachable duo_config ?s3" by (rule duo_run [OF three_steps [OF one two three] duo_start])
  then show ?thesis by (intro exI [of _ ?s3]) (simp add: stream_init_def add_fill_def metrics_new_def)
qed

lemma duo_pushed:
  "\<exists>s. stream_reachable duo_config s \<and> wpc s = WPushed ProcessHalf [a, b] \<and> rpc s = RIdle
     \<and> cpc (link s) = CIdle \<and> sent (link s) = [a, b] \<and> received (link s) = [] \<and> outcomes s = []
     \<and> \<not> closed (meters s)"
proof -
  obtain s where s: "stream_reachable duo_config s" "wpc s = WCounted ProcessHalf [a, b]" "rpc s = RIdle"
    "link s = spsc_init duo_ring" "outcomes s = []" "\<not> closed (meters s)" using duo_counted by blast
  let ?t = "s\<lparr>wpc := WPushed ProcessHalf [a, b], link := (link s)\<lparr>ppc := PIdle, sent := sent (link s) @ [a, b],
    shared := snd (push_slice [a, b] (shared (link s)))\<rparr>\<rparr>"
  have "(stream_step 1 2)\<^sup>*\<^sup>* s ?t"
    using duo_inv [OF s(1)] s by (intro solo_push [where k = 1]) (auto simp: stream_run_inv_def spsc_init_def)
  then have "stream_reachable duo_config ?t" by (rule duo_run [OF _ s(1)])
  then show ?thesis using s by (intro exI [of _ ?t]) (simp add: spsc_init_def)
qed

lemma closed_late:
  "\<exists>s. stream_reachable duo_config s \<and> outcomes s = [([a, b], Err StreamClosed, True)]
     \<and> wpc s = WIdle \<and> sent (link s) = [a, b]"
proof -
  obtain s where s: "stream_reachable duo_config s" "wpc s = WPushed ProcessHalf [a, b]"
    "sent (link s) = [a, b]" "outcomes s = []" using duo_pushed by blast
  let ?s1 = "s\<lparr>meters := close (meters s)\<rparr>"
  have "stream_step 1 2 s ?s1" by (rule o_close)
  moreover have "stream_step 1 2 ?s1 (?s1\<lparr>wpc := WIdle, outcomes := [([a, b], Err StreamClosed, True)]\<rparr>)"
    using w_return [of ?s1 "[a, b]" 1 2] s by (simp add: ensure_open_def close_def)
  ultimately have "(stream_step 1 2)\<^sup>*\<^sup>* s (?s1\<lparr>wpc := WIdle, outcomes := [([a, b], Err StreamClosed, True)]\<rparr>)"
    by simp
  from duo_run [OF this s(1)] s(3) show ?thesis
    by (intro exI [of _ "?s1\<lparr>wpc := WIdle, outcomes := [([a, b], Err StreamClosed, True)]\<rparr>"]) simp
qed

lemma overfull:
  "\<exists>s. stream_reachable duo_config s \<and> wpc s = WCounted ProcessHalf [c] \<and> rpc s = RPopped
     \<and> length (contents (shared (link s))) = 1"
proof -
  obtain s where s: "stream_reachable duo_config s" "wpc s = WPushed ProcessHalf [a, b]" "rpc s = RIdle"
    "cpc (link s) = CIdle" "sent (link s) = [a, b]" "received (link s) = []" "\<not> closed (meters s)"
    using duo_pushed by blast
  have i: "spsc_inv 1 (link s)" using duo_inv [OF s(1)] by (simp add: stream_run_inv_def)
  then have av: "consumer_available (shared (link s)) = 2" using seen_available(2) [OF i] s by simp
  obtain l where run: "(stream_step 1 2)\<^sup>*\<^sup>* s (s\<lparr>rpc := RPopped, link := l\<rparr>)"
    and l: "sent l = [a, b]" "length (received l) = 1"
  proof (rule that)
    show "(stream_step 1 2)\<^sup>*\<^sup>* s (s\<lparr>rpc := RPopped, link := (link s)\<lparr>cpc := CIdle,
        received := received (link s) @ fst (snd (pop_slice [c] (shared (link s)))),
        shared := snd (snd (pop_slice [c] (shared (link s))))\<rparr>\<rparr>)"
      using i s av by (intro solo_pop [where k = 1]) auto
  qed (use s av in \<open>simp_all add: pop_slice_def Let_def consumer_available_def load_slots_def\<close>)
  let ?s1 = "s\<lparr>rpc := RPopped, link := l\<rparr>"
  have r1: "stream_reachable duo_config ?s1" by (rule duo_run [OF run s(1)])
  then have i1: "spsc_inv 1 l" using duo_inv [OF r1] by (simp add: stream_run_inv_def)
  have "free_frames 1 2 (shared l) = 1"
    using used_is_in_flight(1) [OF i1, of 2] l by (simp add: free_frames_def)
  let ?s2 = "?s1\<lparr>wpc := WIdle, outcomes := outcomes s @ [([a, b], Ok (), True)]\<rparr>"
  let ?s3 = "?s2\<lparr>wpc := WOpened [c]\<rparr>" and ?s4 = "?s2\<lparr>wpc := WRoom ProcessHalf [c]\<rparr>"
  let ?s5 = "?s2\<lparr>wpc := WCounted ProcessHalf [c], meters := add_fill 1 (meters s)\<rparr>"
  have zero: "stream_step 1 2 ?s1 ?s2" using w_return [of ?s1 "[a, b]" 1 2] s by (simp add: ensure_open_def)
  have one: "stream_step 1 2 ?s2 ?s3" using w_open [of ?s2 1 2 "[c]"] s by (simp add: ensure_open_def)
  have two: "stream_step 1 2 ?s3 ?s4"
    using w_room [of ?s3 "[c]" 1 2] \<open>free_frames 1 2 (shared l) = 1\<close> by simp
  have three: "stream_step 1 2 ?s4 ?s5" using w_count [of ?s4 ProcessHalf "[c]" 1 2] by simp
  from duo_run [OF converse_rtranclp_into_rtranclp [of "stream_step 1 2", OF zero three_steps [OF one two three]] r1] l seen_available(2) [OF i1] show ?thesis
    by (intro exI [of _ ?s5]) simp
qed

text \<open>The bound of one frame above the capacity is reached.\<close>

theorem fill_metric_exact_under_concurrency_witness:
  "\<exists>s. stream_reachable duo_config s \<and> unat (ring_fill_frames (meters s)) = capacity_frames duo_config + 1"
proof -
  obtain s where s: "stream_reachable duo_config s" "wpc s = WCounted ProcessHalf [fzero F32]" "rpc s = RPopped"
    "length (contents (shared (link s))) = 1" using overfull by blast
  have "unat (ring_fill_frames (meters s)) = 3"
    using fill_metric_exact_under_concurrency [OF s(1) duo_validates] s
    by (simp add: ring_frame_count_def duo_valid_def)
  then show ?thesis using s(1) by (auto simp: duo_config_def)
qed

theorem concurrent_writes_are_whole_witness:
  "\<exists>s. stream_reachable duo_config s \<and> outcomes s = [([NaN, Inf True], Err StreamClosed, True)]
     \<and> sent (link s) = [NaN, Inf True] \<and> prefix (received (link s)) [NaN, Inf True]"
proof -
  obtain s where s: "stream_reachable duo_config s" "wpc s = WIdle"
    "outcomes s = [([NaN, Inf True], Err StreamClosed, True)]" using closed_late by blast
  from concurrent_writes_are_whole [OF s(1) duo_validates] s show ?thesis by auto
qed

theorem uninterrupted_calls_are_atomic_witness:
  "\<exists>t took. (stream_step 1 2)\<^sup>*\<^sup>* (stream_init duo_valid 2 duo_ring) t
     \<and> outcomes t = [([NaN, NaN, NaN], Err (BufferFull 3 2), took)]"
proof -
  let ?s = "stream_init duo_valid 2 duo_ring"
  have "fst (try_write_interleaved \<lparr>w_channels = 1, w_logical_capacity_samples = 2\<rparr> [NaN, NaN, NaN]
      (shared_part ?s)) = Err (BufferFull 3 2)"
    by (subst try_write_value [OF duo_inv [OF duo_start]])
      (simp_all add: stream_init_def metrics_new_def free_frames_def used_samples_def producer_available_def
        capacity_def duo_ring_def spsc_init_def)
  then show ?thesis
    using uninterrupted_calls_are_atomic [OF duo_start duo_validates, THEN conjunct1, rule_format, of "[NaN, NaN, NaN]"]
    by (auto simp: duo_valid_def stream_init_def split: prod.splits)
qed

end
