(* ===== verification/RustText.thy ===== *)
theory RustText
  imports Prelude
begin

text \<open>
  What the program uses of Rust's strings: the UTF-8 validation behind \<open>String::from_utf8\<close> and
  \<open>str::from_utf8\<close>, \<open>str::split\<close> on a character and \<open>[String]::join\<close>, \<open>from_str_radix\<close> and
  \<open>FromStr\<close> of the integer types, their \<open>Display\<close>, and \<open>u32::to_be_bytes\<close>.
\<close>

section \<open>UTF-8\<close>

definition in_range :: "nat \<Rightarrow> nat \<Rightarrow> char \<Rightarrow> bool" where
  "in_range lo hi c = (lo \<le> byte c \<and> byte c \<le> hi)"

abbreviation continuation :: "char \<Rightarrow> bool" where
  "continuation \<equiv> in_range 128 191"

fun utf8_valid :: "string \<Rightarrow> bool" where
  "utf8_valid [] = True"
| "utf8_valid (c # cs) =
     (if byte c < 128 then utf8_valid cs
      else if in_range 0xC2 0xDF c then
        (case cs of d # ds \<Rightarrow> continuation d \<and> utf8_valid ds | _ \<Rightarrow> False)
      else if in_range 0xE0 0xEF c then
        (case cs of d # e # es \<Rightarrow>
           in_range (if byte c = 0xE0 then 0xA0 else 0x80) (if byte c = 0xED then 0x9F else 0xBF) d
           \<and> continuation e \<and> utf8_valid es
         | _ \<Rightarrow> False)
      else if in_range 0xF0 0xF4 c then
        (case cs of d # e # f # fs \<Rightarrow>
           in_range (if byte c = 0xF0 then 0x90 else 0x80) (if byte c = 0xF4 then 0x8F else 0xBF) d
           \<and> continuation e \<and> continuation f \<and> utf8_valid fs
         | _ \<Rightarrow> False)
      else False)"

definition from_utf8 :: "'e \<Rightarrow> string \<Rightarrow> (string, 'e) res" where
  "from_utf8 e s = (if utf8_valid s then Ok s else Err e)"

definition is_ascii :: "string \<Rightarrow> bool" where
  "is_ascii s = list_all (\<lambda>c. byte c < 128) s"

lemma from_utf8_eq_Ok [simp]: "from_utf8 e s = Ok t \<longleftrightarrow> t = s \<and> utf8_valid s"
  by (auto simp: from_utf8_def)

lemma is_ascii_simps [simp]:
  "is_ascii []" "is_ascii (c # s) \<longleftrightarrow> byte c < 128 \<and> is_ascii s"
  "is_ascii (s @ t) \<longleftrightarrow> is_ascii s \<and> is_ascii t"
  by (auto simp: is_ascii_def)

lemma utf8_ascii: "is_ascii s \<Longrightarrow> utf8_valid s"
  by (induction s) auto

section \<open>Integers in decimal and hexadecimal\<close>

definition digit_char :: "nat \<Rightarrow> char" where
  "digit_char d = char_of (if d < 10 then 48 + d else 55 + d)"

definition to_digit :: "nat \<Rightarrow> char \<Rightarrow> nat option" where
  "to_digit radix c =
     (let b = byte c;
          d = (if 48 \<le> b \<and> b \<le> 57 then b - 48 else if 65 \<le> b \<and> b \<le> 90 then b - 55
               else if 97 \<le> b \<and> b \<le> 122 then b - 87 else radix)
      in if d < radix then Some d else None)"

text \<open>
  \<open>checked_mul\<close> by the radix, \<open>to_digit\<close>, \<open>checked_add\<close> (or \<open>checked_sub\<close>, on magnitudes); any
  of them failing is the error.
\<close>

fun digits_value :: "nat \<Rightarrow> nat \<Rightarrow> nat \<Rightarrow> string \<Rightarrow> nat option" where
  "digits_value radix bound acc [] = Some acc"
| "digits_value radix bound acc (c # cs) =
     (if bound < acc * radix then None
      else case to_digit radix c of
        None \<Rightarrow> None
      | Some d \<Rightarrow> if bound < acc * radix + d then None
                 else digits_value radix bound (acc * radix + d) cs)"

text \<open>\<open>from_str_radix\<close> of a type with range \<open>- lo .. hi\<close>: a sign alone is an error, \<open>+\<close> is always
  accepted, \<open>-\<close> only for the signed types.\<close>

definition from_str_radix :: "nat \<Rightarrow> bool \<Rightarrow> nat \<Rightarrow> nat \<Rightarrow> string \<Rightarrow> int option" where
  "from_str_radix radix is_signed lo hi s =
     (case s of
        [] \<Rightarrow> None
      | c # cs \<Rightarrow>
          if cs = [] \<and> (c = CHR ''+'' \<or> c = CHR ''-'') then None
          else if c = CHR ''+'' then map_option int (digits_value radix hi 0 cs)
          else if c = CHR ''-'' \<and> is_signed then map_option (\<lambda>n. - int n) (digits_value radix lo 0 cs)
          else map_option int (digits_value radix hi 0 s))"

definition parse_u32 :: "string \<Rightarrow> u32 option" where
  "parse_u32 s = map_option of_int (from_str_radix 10 False 0 (2 ^ 32 - 1) s)"

definition parse_i32 :: "string \<Rightarrow> i32 option" where
  "parse_i32 s = map_option of_int (from_str_radix 10 True (2 ^ 31) (2 ^ 31 - 1) s)"

definition parse_hex_u8 :: "string \<Rightarrow> char option" where
  "parse_hex_u8 s = map_option (\<lambda>i. char_of (nat i)) (from_str_radix 16 False 0 255 s)"

fun show_nat :: "nat \<Rightarrow> string" where
  "show_nat n = (if n < 10 then [digit_char n] else show_nat (n div 10) @ [digit_char (n mod 10)])"

declare show_nat.simps [simp del]

definition show_u32 :: "u32 \<Rightarrow> string" where
  "show_u32 w = show_nat (unat w)"

definition show_i32 :: "i32 \<Rightarrow> string" where
  "show_i32 w = (if sint w < 0 then CHR ''-'' # show_nat (nat (- sint w)) else show_nat (nat (sint w)))"

text \<open>\<open>{byte:02X}\<close>\<close>

definition show_hex_byte :: "char \<Rightarrow> string" where
  "show_hex_byte c = [digit_char (byte c div 16), digit_char (byte c mod 16)]"

lemma byte_digit_char: "d < 16 \<Longrightarrow> byte (digit_char d) = (if d < 10 then 48 + d else 55 + d)"
  by (simp add: digit_char_def)

lemma to_digit_char: "d < radix \<Longrightarrow> radix \<le> 16 \<Longrightarrow> to_digit radix (digit_char d) = Some d"
  by (simp add: to_digit_def byte_digit_char)

lemma digits_value_append:
  "digits_value radix bound acc (xs @ ys)
   = Option.bind (digits_value radix bound acc xs) (\<lambda>a. digits_value radix bound a ys)"
  by (induction xs arbitrary: acc) (auto split: option.splits)

lemma digits_value_show_nat: "n \<le> bound \<Longrightarrow> digits_value 10 bound 0 (show_nat n) = Some n"
proof (induction n rule: show_nat.induct)
  case (1 n)
  show ?case
  proof (cases "n < 10")
    case True
    then show ?thesis using 1 by (simp add: show_nat.simps [of n] to_digit_char)
  next
    case False
    have "n div 10 \<le> bound" using "1.prems" by linarith
    with "1.IH" False have "digits_value 10 bound 0 (show_nat (n div 10)) = Some (n div 10)" by simp
    moreover have "n div 10 * 10 + n mod 10 = n" by simp
    moreover have "n div 10 * 10 \<le> n" by simp
    ultimately show ?thesis
      using "1.prems" False
      by (simp add: show_nat.simps [of n] digits_value_append to_digit_char del: div_mult_mod_eq)
  qed
qed

lemma show_nat_chars: "c \<in> set (show_nat n) \<Longrightarrow> is_ascii_digit c"
proof (induction n rule: show_nat.induct)
  case (1 n)
  then show ?case
    by (subst (asm) (2) show_nat.simps)
      (auto simp: is_ascii_digit_def byte_digit_char split: if_splits)
qed

lemma show_nat_not_Nil [simp]: "show_nat n \<noteq> []"
  by (subst show_nat.simps) simp

lemma byte_sign [simp]: "byte CHR ''+'' = 43" "byte CHR ''-'' = 45" "byte CHR ''%'' = 37"
  by (simp_all add: byte_def)

lemma digit_not_sign: "is_ascii_digit c \<Longrightarrow> c \<noteq> CHR ''+'' \<and> c \<noteq> CHR ''-''"
  by (auto simp: is_ascii_digit_def)

lemma from_str_show_nat:
  assumes "n \<le> hi"
  shows "from_str_radix 10 is_signed lo hi (show_nat n) = Some (int n)"
proof (cases "show_nat n")
  case (Cons c cs)
  then have "is_ascii_digit c" using show_nat_chars [of c n] by simp
  then show ?thesis
    using digit_not_sign [of c] digits_value_show_nat [OF assms] Cons
    by (simp add: from_str_radix_def)
qed simp

lemma parse_show_u32: "parse_u32 (show_u32 w) = Some w"
proof -
  have "unat w \<le> 2 ^ 32 - 1" using unsigned_less [of w, where 'a = nat] by simp
  then show ?thesis by (simp add: parse_u32_def show_u32_def from_str_show_nat)
qed

lemma parse_show_i32: "parse_i32 (show_i32 w) = Some w"
proof -
  have r: "- (2 ^ 31) \<le> sint w" "sint w < 2 ^ 31"
    using sint_greater_eq [of w] sint_lt [of w] by simp_all
  show ?thesis
  proof (cases "sint w < 0")
    case True
    let ?n = "nat (- sint w)"
    have "?n \<le> 2 ^ 31" using r(1) by (simp add: nat_le_iff)
    then have "digits_value 10 (2 ^ 31) 0 (show_nat ?n) = Some ?n" by (rule digits_value_show_nat)
    then show ?thesis using True by (simp add: parse_i32_def show_i32_def from_str_radix_def)
  next
    case False
    then have "nat (sint w) \<le> 2 ^ 31 - 1" using r(2) by (simp add: nat_le_iff)
    then show ?thesis using False by (simp add: parse_i32_def show_i32_def from_str_show_nat)
  qed
qed

lemma parse_show_hex: "parse_hex_u8 (show_hex_byte c) = Some c"
proof -
  have d: "byte c div 16 < 16" "byte c mod 16 < 16" using byte_bound [of c] by linarith+
  have v: "byte c div 16 * 16 + byte c mod 16 = byte c" by simp
  have le: "byte c \<le> 255" "byte c div 16 * 16 \<le> 255" "byte c div 16 \<le> 255"
    using byte_bound [of c] by linarith+
  have "digit_char (byte c div 16) \<noteq> CHR ''+'' \<and> digit_char (byte c div 16) \<noteq> CHR ''-''"
    using d(1) by (auto dest: arg_cong [of _ _ byte] simp: byte_digit_char split: if_splits)
  then have "from_str_radix 16 False 0 255 (show_hex_byte c) = Some (int (byte c))"
    using d le by (simp add: from_str_radix_def show_hex_byte_def to_digit_char v del: div_mult_mod_eq)
  then show ?thesis by (simp add: parse_hex_u8_def byte_def)
qed

section \<open>Splitting and joining\<close>

fun split_at :: "char \<Rightarrow> string \<Rightarrow> string list" where
  "split_at sep [] = [[]]"
| "split_at sep (c # cs) =
     (if c = sep then [] # split_at sep cs
      else case split_at sep cs of f # fs \<Rightarrow> (c # f) # fs | [] \<Rightarrow> [[c]])"

fun join_with :: "char \<Rightarrow> string list \<Rightarrow> string" where
  "join_with sep [] = []"
| "join_with sep [f] = f"
| "join_with sep (f # g # fs) = f @ sep # join_with sep (g # fs)"

lemma split_at_not_Nil [simp]: "split_at sep s \<noteq> []"
  by (induction s) (auto split: list.splits)

lemma split_at_none: "sep \<notin> set s \<Longrightarrow> split_at sep s = [s]"
  by (induction s) auto

lemma split_at_append: "sep \<notin> set s \<Longrightarrow> split_at sep (s @ sep # t) = s # split_at sep t"
  by (induction s) auto

lemma split_join:
  "fs \<noteq> [] \<Longrightarrow> (\<And>f. f \<in> set fs \<Longrightarrow> sep \<notin> set f) \<Longrightarrow> split_at sep (join_with sep fs) = fs"
  by (induction sep fs rule: join_with.induct) (auto simp: split_at_none split_at_append)

lemma join_split: "join_with sep (split_at sep s) = s"
proof (induction s)
  case (Cons c cs)
  obtain f fs where f: "split_at sep cs = f # fs" by (cases "split_at sep cs") auto
  then show ?case using Cons by (cases fs) auto
qed simp

lemma set_join: "set (join_with sep fs) \<subseteq> insert sep (\<Union> (set ` set fs))"
  by (induction sep fs rule: join_with.induct) auto

lemma is_ascii_join: "byte sep < 128 \<Longrightarrow> list_all is_ascii fs \<Longrightarrow> is_ascii (join_with sep fs)"
  by (induction sep fs rule: join_with.induct) auto

lemma is_ascii_digit_ascii: "is_ascii_digit c \<Longrightarrow> byte c < 128"
  by (simp add: is_ascii_digit_def)

lemma show_nat_ascii: "is_ascii (show_nat n)"
  using show_nat_chars [of _ n] by (auto simp: is_ascii_def list_all_iff is_ascii_digit_ascii)

lemma show_u32_chars: "c \<in> set (show_u32 w) \<Longrightarrow> is_ascii_digit c"
  by (simp add: show_u32_def show_nat_chars)

lemma show_i32_chars: "c \<in> set (show_i32 w) \<Longrightarrow> is_ascii_digit c \<or> c = CHR ''-''"
  by (auto simp: show_i32_def dest: show_nat_chars split: if_splits)

lemma show_i32_not_Nil [simp]: "show_i32 w \<noteq> []"
  by (simp add: show_i32_def)

section \<open>Big-endian \<open>u32\<close>\<close>

definition to_be_bytes :: "u32 \<Rightarrow> string" where
  "to_be_bytes w = map (\<lambda>i. char_of (unat w div 256 ^ i mod 256)) [3, 2, 1, 0]"

definition from_be_bytes :: "string \<Rightarrow> u32" where
  "from_be_bytes bs = of_nat (foldl (\<lambda>n c. n * 256 + byte c) 0 bs)"

lemma length_to_be_bytes [simp]: "length (to_be_bytes w) = 4"
  by (simp add: to_be_bytes_def)

lemma from_to_be_bytes [simp]: "from_be_bytes (to_be_bytes w) = w"
proof -
  define n where "n = unat w"
  have d: "n div 256 ^ 2 = n div 256 div 256" "n div 256 ^ 3 = n div 256 div 256 div 256"
    by (simp_all add: div_mult2_eq [symmetric])
  have "n < 2 ^ 32" using unsigned_less [of w, where 'a = nat] by (simp add: n_def)
  then have "n div 256 div 256 div 256 < 256" by (simp add: div_mult2_eq [symmetric])
  then have "((n div 256 ^ 3 mod 256 * 256 + n div 256 ^ 2 mod 256) * 256 + n div 256 mod 256) * 256
      + n mod 256 = n"
    unfolding d by (simp only: mod_less div_mult_mod_eq)
  moreover have "byte (char_of m) = m mod 256" for m :: nat by (simp add: byte_def)
  ultimately have "foldl (\<lambda>m c. m * 256 + byte c) 0 (to_be_bytes w) = n"
    by (simp only: to_be_bytes_def n_def [symmetric] list.map foldl_Cons foldl_Nil mod_mod_trivial
        power_0 power_one_right div_by_1 mult_0 add_0)
  then show ?thesis by (simp add: from_be_bytes_def n_def)
qed

end
