(* ===== verification/Protocol.thy ===== *)
theory Protocol
  imports RustText
begin

text \<open>
  \<open>crates/vcable-protocol/src/lib.rs\<close>: the control protocol between \<open>vcabled\<close> and \<open>vcablectl\<close>.
  A message is one line of tab-separated, percent-escaped fields, framed by a big-endian length.
  A \<open>Read\<close> is the bytes it still delivers and the way it ends, a \<open>Write\<close> the bytes it has taken
  and the point at which it starts to fail. The trait \<open>Message\<close> is the locale \<open>message_codec\<close>,
  interpreted for \<open>Request\<close> and \<open>Response\<close>.
\<close>

section \<open>Messages and errors\<close>

datatype Request =
    Ping
  | Status
  | Shutdown
  | CreateDevice string string u32 u32 u32       \<comment> \<open>id, name, input channels, output channels, sample rate\<close>
  | DeleteDevice string                          \<comment> \<open>id\<close>
  | Connect string string string i32 "i32 list"  \<comment> \<open>id, source, sink, gain (millidecibels), matrix (millionths)\<close>
  | Disconnect string                            \<comment> \<open>id\<close>

datatype Response = Response_Ok string | Response_Error string string  \<comment> \<open>code, message\<close>

datatype io_error = UnexpectedEof | OtherIo string

datatype ProtocolError =
    Io io_error
  | MessageTooLarge usize
  | Truncated
  | InvalidUtf8
  | InvalidMessage string

definition MAX_MESSAGE_BYTES :: usize where
  "MAX_MESSAGE_BYTES = 1024 * 1024"

section \<open>Framing\<close>

record byte_source =
  pending :: string
  read_fault :: "io_error option"    \<comment> \<open>after the pending bytes: end of file, or this error\<close>

record byte_sink =
  written :: string
  room :: "nat option"               \<comment> \<open>bytes taken before the first failure, if any\<close>
  write_fault :: io_error

definition read_exact :: "nat \<Rightarrow> byte_source \<Rightarrow> (string, io_error) res \<times> byte_source" where
  "read_exact n r =
     (if n \<le> length (pending r) then (Ok (take n (pending r)), r\<lparr>pending := drop n (pending r)\<rparr>)
      else (Err (case read_fault r of None \<Rightarrow> UnexpectedEof | Some e \<Rightarrow> e), r\<lparr>pending := []\<rparr>))"

definition write_all :: "string \<Rightarrow> byte_sink \<Rightarrow> (unit, io_error) res \<times> byte_sink" where
  "write_all bs w =
     (case room w of
        None \<Rightarrow> (Ok (), w\<lparr>written := written w @ bs\<rparr>)
      | Some n \<Rightarrow>
          if length bs \<le> n then (Ok (), w\<lparr>written := written w @ bs, room := Some (n - length bs)\<rparr>)
          else (Err (write_fault w), w\<lparr>written := written w @ take n bs, room := Some 0\<rparr>))"

definition write_message ::
    "('m \<Rightarrow> string) \<Rightarrow> 'm \<Rightarrow> byte_sink \<Rightarrow> (unit, ProtocolError) res \<times> byte_sink" where
  "write_message encode m w =
     (let body = encode m in
      if MAX_MESSAGE_BYTES < length body then (Err (MessageTooLarge (length body)), w)
      else if \<not> length body < 2 ^ 32 then (Err (MessageTooLarge (length body)), w)
      else case write_all (to_be_bytes (of_nat (length body))) w of
        (Ok _, w1) \<Rightarrow>
          (case write_all body w1 of
             (Ok _, w2) \<Rightarrow> (Ok (), w2)
           | (Err e, w2) \<Rightarrow> (Err (Io e), w2)
           | (Panic, w2) \<Rightarrow> (Panic, w2))
      | (Err e, w1) \<Rightarrow> (Err (Io e), w1)
      | (Panic, w1) \<Rightarrow> (Panic, w1))"

fun read_error :: "io_error \<Rightarrow> ProtocolError" where
  "read_error UnexpectedEof = Truncated"
| "read_error e = Io e"

definition read_message ::
    "(string \<Rightarrow> ('m, ProtocolError) res) \<Rightarrow> byte_source \<Rightarrow> ('m, ProtocolError) res \<times> byte_source" where
  "read_message decode r =
     (case read_exact 4 r of
        (Ok head, r1) \<Rightarrow>
          (let len = unat (from_be_bytes head) in
           if MAX_MESSAGE_BYTES < len then (Err (MessageTooLarge len), r1)
           else case read_exact len r1 of
             (Ok body, r2) \<Rightarrow> (and_then (from_utf8 InvalidUtf8 body) decode, r2)
           | (Err e, r2) \<Rightarrow> (Err (read_error e), r2)
           | (Panic, r2) \<Rightarrow> (Panic, r2))
      | (Err e, r1) \<Rightarrow> (Err (read_error e), r1)
      | (Panic, r1) \<Rightarrow> (Panic, r1))"

section \<open>Escaping\<close>

definition escape_allowed :: "char \<Rightarrow> bool" where
  "escape_allowed c = (is_ascii_alphanumeric c \<or> c \<in> set ''._:-/ '')"

fun escape :: "string \<Rightarrow> string" where
  "escape [] = []"
| "escape (c # cs) = (if escape_allowed c then [c] else CHR ''%'' # show_hex_byte c) @ escape cs"

text \<open>The loop of \<open>unescape\<close>, on the bytes from \<open>index\<close> on.\<close>

fun unescape_bytes :: "string \<Rightarrow> (string, ProtocolError) res" where
  "unescape_bytes [] = Ok []"
| "unescape_bytes (c # cs) =
     (if c \<noteq> CHR ''%'' then and_then (unescape_bytes cs) (\<lambda>r. Ok (c # r))
      else
        and_then (ok_or (InvalidMessage ''incomplete escape'')
          (if 2 \<le> length cs then Some (take 2 cs) else None)) (\<lambda>digits.
        and_then (from_utf8 (InvalidMessage ''invalid escape'') digits) (\<lambda>digits.
        and_then (ok_or (InvalidMessage ''invalid escape'') (parse_hex_u8 digits)) (\<lambda>b.
        and_then (unescape_bytes (drop 2 cs)) (\<lambda>r. Ok (b # r))))))"

definition unescape :: "string \<Rightarrow> (string, ProtocolError) res" where
  "unescape s = and_then (unescape_bytes s) (from_utf8 InvalidUtf8)"

section \<open>Encoding and decoding\<close>

abbreviation tab :: char where
  "tab \<equiv> CHR 0x09"

fun request_encode :: "Request \<Rightarrow> string" where
  "request_encode Ping = ''ping''"
| "request_encode Status = ''status''"
| "request_encode Shutdown = ''shutdown''"
| "request_encode (CreateDevice i n inp outp rate) =
     ''create'' @ tab # escape i @ tab # escape n @ tab # show_u32 inp @ tab # show_u32 outp
     @ tab # show_u32 rate"
| "request_encode (DeleteDevice i) = ''delete'' @ tab # escape i"
| "request_encode (Connect i src snk gain matrix) =
     ''connect'' @ tab # escape i @ tab # escape src @ tab # escape snk @ tab # show_i32 gain
     @ tab # join_with CHR '','' (map show_i32 matrix)"
| "request_encode (Disconnect i) = ''disconnect'' @ tab # escape i"

definition parse_field :: "(string \<Rightarrow> 'a option) \<Rightarrow> string \<Rightarrow> string \<Rightarrow> ('a, ProtocolError) res" where
  "parse_field p value field = ok_or (InvalidMessage (''invalid '' @ field @ '': '' @ value)) (p value)"

definition parse_matrix :: "string \<Rightarrow> (i32 list, ProtocolError) res" where
  "parse_matrix s =
     (if s = [] then Ok []
      else traverse (\<lambda>v. parse_field parse_i32 v ''matrix coefficient'') (split_at CHR '','' s))"

definition request_decode :: "string \<Rightarrow> (Request, ProtocolError) res" where
  "request_decode value =
     (case split_at tab value of
        [t] \<Rightarrow>
          if t = ''ping'' then Ok Ping
          else if t = ''status'' then Ok Status
          else if t = ''shutdown'' then Ok Shutdown
          else Err (InvalidMessage value)
      | [t, i] \<Rightarrow>
          if t = ''delete'' then and_then (unescape i) (\<lambda>i. Ok (DeleteDevice i))
          else if t = ''disconnect'' then and_then (unescape i) (\<lambda>i. Ok (Disconnect i))
          else Err (InvalidMessage value)
      | [t, i, a, b, c, d] \<Rightarrow>
          if t = ''create'' then
            and_then (unescape i) (\<lambda>i.
            and_then (unescape a) (\<lambda>n.
            and_then (parse_field parse_u32 b ''input channel count'') (\<lambda>inp.
            and_then (parse_field parse_u32 c ''output channel count'') (\<lambda>outp.
            and_then (parse_field parse_u32 d ''sample rate'') (\<lambda>rate.
            Ok (CreateDevice i n inp outp rate))))))
          else if t = ''connect'' then
            and_then (unescape i) (\<lambda>i.
            and_then (unescape a) (\<lambda>src.
            and_then (unescape b) (\<lambda>snk.
            and_then (parse_field parse_i32 c ''gain'') (\<lambda>gain.
            and_then (parse_matrix d) (\<lambda>matrix.
            Ok (Connect i src snk gain matrix))))))
          else Err (InvalidMessage value)
      | _ \<Rightarrow> Err (InvalidMessage value))"

fun response_encode :: "Response \<Rightarrow> string" where
  "response_encode (Response_Ok m) = ''ok'' @ tab # escape m"
| "response_encode (Response_Error c m) = ''error'' @ tab # escape c @ tab # escape m"

definition response_decode :: "string \<Rightarrow> (Response, ProtocolError) res" where
  "response_decode value =
     (case split_at tab value of
        [t, m] \<Rightarrow>
          if t = ''ok'' then and_then (unescape m) (\<lambda>m. Ok (Response_Ok m))
          else Err (InvalidMessage value)
      | [t, c, m] \<Rightarrow>
          if t = ''error'' then
            and_then (unescape c) (\<lambda>c. and_then (unescape m) (\<lambda>m. Ok (Response_Error c m)))
          else Err (InvalidMessage value)
      | _ \<Rightarrow> Err (InvalidMessage value))"

text \<open>The type invariant of \<open>String\<close> fields.\<close>

fun request_wf :: "Request \<Rightarrow> bool" where
  "request_wf Ping = True"
| "request_wf Status = True"
| "request_wf Shutdown = True"
| "request_wf (CreateDevice i n inp outp rate) = (utf8_valid i \<and> utf8_valid n)"
| "request_wf (DeleteDevice i) = utf8_valid i"
| "request_wf (Connect i src snk gain matrix) = (utf8_valid i \<and> utf8_valid src \<and> utf8_valid snk)"
| "request_wf (Disconnect i) = utf8_valid i"

fun response_wf :: "Response \<Rightarrow> bool" where
  "response_wf (Response_Ok m) = utf8_valid m"
| "response_wf (Response_Error c m) = (utf8_valid c \<and> utf8_valid m)"

section \<open>Escape and unescape\<close>

definition line_char :: "char \<Rightarrow> bool" where
  \<comment> \<open>the bytes an escaped field may consist of\<close>
  "line_char c = (escape_allowed c \<or> c = CHR ''%'')"

lemma hex_digit_allowed: "d < 16 \<Longrightarrow> escape_allowed (digit_char d)"
  by (simp add: escape_allowed_def is_ascii_alphanumeric_def is_ascii_digit_def byte_digit_char)

lemma escape_chars: "c \<in> set (escape s) \<Longrightarrow> line_char c"
proof (induction s)
  case (Cons d s)
  have "byte d div 16 < 16" "byte d mod 16 < 16" using byte_bound [of d] by linarith+
  then show ?case
    using Cons by (auto simp: line_char_def show_hex_byte_def hex_digit_allowed split: if_splits)
qed simp

lemma line_char_ascii: "line_char c \<Longrightarrow> byte c < 128"
  by (auto simp: line_char_def escape_allowed_def is_ascii_alphanumeric_def is_ascii_digit_def byte_def)

lemma line_char_not [simp]: "\<not> line_char CHR 0x09" "\<not> line_char CHR 0x0A"
  by (simp_all add: line_char_def escape_allowed_def is_ascii_alphanumeric_def is_ascii_digit_def byte_def)

lemma escape_ascii: "is_ascii (escape s)"
  using escape_chars [of _ s] line_char_ascii by (auto simp: is_ascii_def list_all_iff)

lemma escape_no_tab: "tab \<notin> set (escape s)"
  using escape_chars [of tab s] by auto

lemma percent_not_allowed [simp]: "\<not> escape_allowed CHR ''%''"
  by (simp add: escape_allowed_def is_ascii_alphanumeric_def is_ascii_digit_def)

lemma unescape_bytes_escape: "unescape_bytes (escape s) = Ok s"
proof (induction s)
  case (Cons c s)
  show ?case
  proof (cases "escape_allowed c")
    case True
    then show ?thesis using Cons by auto
  next
    case False
    have "byte c div 16 < 16" "byte c mod 16 < 16" using byte_bound [of c] by linarith+
    then have "is_ascii (show_hex_byte c)"
      using hex_digit_allowed line_char_ascii by (auto simp: show_hex_byte_def line_char_def)
    then have "utf8_valid (show_hex_byte c)" by (rule utf8_ascii)
    moreover have "length (show_hex_byte c) = 2" by (simp add: show_hex_byte_def)
    ultimately show ?thesis using False Cons by (simp add: parse_show_hex from_utf8_def)
  qed
qed simp

lemma unescape_escape: "utf8_valid s \<Longrightarrow> unescape (escape s) = Ok s"
  by (simp add: unescape_def unescape_bytes_escape from_utf8_def)

lemma unescape_utf8: "unescape s = Ok t \<Longrightarrow> utf8_valid t"
  by (auto simp: unescape_def res_simps)

lemma unescape_bytes_no_panic: "unescape_bytes s \<noteq> Panic"
  by (induction s rule: unescape_bytes.induct) (auto simp: res_simps from_utf8_def)

section \<open>Round trips of the two message types\<close>

fun request_fields :: "Request \<Rightarrow> string list" where
  "request_fields Ping = [''ping'']"
| "request_fields Status = [''status'']"
| "request_fields Shutdown = [''shutdown'']"
| "request_fields (CreateDevice i n inp outp rate) =
     [''create'', escape i, escape n, show_u32 inp, show_u32 outp, show_u32 rate]"
| "request_fields (DeleteDevice i) = [''delete'', escape i]"
| "request_fields (Connect i src snk gain matrix) =
     [''connect'', escape i, escape src, escape snk, show_i32 gain,
      join_with CHR '','' (map show_i32 matrix)]"
| "request_fields (Disconnect i) = [''disconnect'', escape i]"

fun response_fields :: "Response \<Rightarrow> string list" where
  "response_fields (Response_Ok m) = [''ok'', escape m]"
| "response_fields (Response_Error c m) = [''error'', escape c, escape m]"

definition matrix_char :: "char \<Rightarrow> bool" where
  "matrix_char c = (is_ascii_digit c \<or> c = CHR ''-'' \<or> c = CHR '','')"

definition field_char :: "char \<Rightarrow> bool" where
  "field_char c = (line_char c \<or> matrix_char c)"

lemma matrix_chars: "c \<in> set (join_with CHR '','' (map show_i32 ms)) \<Longrightarrow> matrix_char c"
  using set_join [of "CHR '',''" "map show_i32 ms"] by (auto simp: matrix_char_def dest: show_i32_chars)

lemma field_char_not [simp]: "\<not> field_char tab" "\<not> field_char CHR 0x0A"
  by (simp_all add: field_char_def matrix_char_def is_ascii_digit_def byte_def)

lemma field_char_ascii: "field_char c \<Longrightarrow> byte c < 128"
  using line_char_ascii [of c]
  by (auto simp: field_char_def matrix_char_def is_ascii_digit_def) (simp add: byte_def)

lemma letter_field_char:
  "97 \<le> byte c \<Longrightarrow> byte c \<le> 122 \<Longrightarrow> field_char c"
  by (simp add: field_char_def line_char_def escape_allowed_def is_ascii_alphanumeric_def)

lemma escape_field [simp]: "list_all field_char (escape s)"
  by (auto simp: list_all_iff field_char_def dest: escape_chars)

lemma show_field [simp]:
  "list_all field_char (show_u32 w)" "list_all field_char (show_i32 w)"
  "list_all field_char (join_with CHR '','' (map show_i32 ms))"
  by (auto simp: list_all_iff field_char_def matrix_char_def
      dest: show_u32_chars show_i32_chars dest!: matrix_chars)

lemma request_fields_chars: "f \<in> set (request_fields q) \<Longrightarrow> list_all field_char f"
  by (cases q) (auto simp: letter_field_char byte_def)

lemma response_fields_chars: "f \<in> set (response_fields q) \<Longrightarrow> list_all field_char f"
  by (cases q) (auto simp: letter_field_char byte_def)

lemma request_encode_fields: "request_encode q = join_with tab (request_fields q)"
  by (cases q) simp_all

lemma response_encode_fields: "response_encode q = join_with tab (response_fields q)"
  by (cases q) simp_all

lemma split_fields:
  assumes "fs \<noteq> []" "\<And>f. f \<in> set fs \<Longrightarrow> list_all field_char f"
  shows "split_at tab (join_with tab fs) = fs"
proof (rule split_join [OF assms(1)])
  fix f assume "f \<in> set fs"
  then have "list_all field_char f" by (rule assms(2))
  then show "tab \<notin> set f" by (auto simp: list_all_iff)
qed

lemma split_request: "split_at tab (request_encode q) = request_fields q"
  unfolding request_encode_fields
  by (rule split_fields) (cases q, auto dest: request_fields_chars)

lemma split_response: "split_at tab (response_encode q) = response_fields q"
  unfolding response_encode_fields
  by (rule split_fields) (cases q, auto dest: response_fields_chars)

lemma line_chars:
  assumes "\<And>f. f \<in> set fs \<Longrightarrow> list_all field_char f" "c \<in> set (join_with tab fs)"
  shows "c = tab \<or> field_char c"
  using assms set_join [of tab fs] by (auto simp: list_all_iff)

lemma request_encode_chars: "c \<in> set (request_encode q) \<Longrightarrow> c = tab \<or> field_char c"
  unfolding request_encode_fields by (rule line_chars [OF request_fields_chars])

lemma response_encode_chars: "c \<in> set (response_encode q) \<Longrightarrow> c = tab \<or> field_char c"
  unfolding response_encode_fields by (rule line_chars [OF response_fields_chars])

lemma request_encode_utf8: "utf8_valid (request_encode q)"
  by (rule utf8_ascii)
    (auto simp: is_ascii_def list_all_iff byte_def dest!: request_encode_chars field_char_ascii)

lemma response_encode_utf8: "utf8_valid (response_encode q)"
  by (rule utf8_ascii)
    (auto simp: is_ascii_def list_all_iff byte_def dest!: response_encode_chars field_char_ascii)

lemma parse_matrix_show: "parse_matrix (join_with CHR '','' (map show_i32 ms)) = Ok ms"
proof (cases ms)
  case (Cons m ms')
  have "CHR '','' \<notin> set f" if "f \<in> set (map show_i32 ms)" for f
    using that by (auto simp: is_ascii_digit_def byte_def dest: show_i32_chars)
  then have s: "split_at CHR '','' (join_with CHR '','' (map show_i32 ms)) = map show_i32 ms"
    using Cons by (intro split_join) auto
  have "join_with CHR '','' (map show_i32 ms) \<noteq> []" unfolding Cons by (cases ms') auto
  then show ?thesis
    by (simp add: parse_matrix_def s traverse_map_Ok parse_field_def parse_show_i32)
qed (simp add: parse_matrix_def)

lemma request_decode_encode: "request_wf q \<Longrightarrow> request_decode (request_encode q) = Ok q"
  unfolding request_decode_def split_request
  by (cases q) (simp_all add: unescape_escape parse_field_def parse_show_u32 parse_show_i32 parse_matrix_show)

lemma response_decode_encode: "response_wf q \<Longrightarrow> response_decode (response_encode q) = Ok q"
  unfolding response_decode_def split_response
  by (cases q) (simp_all add: unescape_escape)

lemma request_decode_wf: "request_decode s = Ok q \<Longrightarrow> request_wf q"
  by (auto simp: request_decode_def res_simps dest: unescape_utf8 split: list.splits if_splits)

lemma response_decode_wf: "response_decode s = Ok q \<Longrightarrow> response_wf q"
  by (auto simp: response_decode_def res_simps dest: unescape_utf8 split: list.splits if_splits)

section \<open>The message interface\<close>

text \<open>
  \<open>trait Message\<close>, with what framing relies on: decoding inverts encoding on the values of the
  type, and an encoding is a string.
\<close>

locale message_codec =
  fixes encode :: "'m \<Rightarrow> string"
    and decode :: "string \<Rightarrow> ('m, ProtocolError) res"
    and wf :: "'m \<Rightarrow> bool"
  assumes decode_encode: "wf m \<Longrightarrow> decode (encode m) = Ok m"
    and encode_utf8: "wf m \<Longrightarrow> utf8_valid (encode m)"
begin

definition frame :: "'m \<Rightarrow> string" where
  "frame m = to_be_bytes (of_nat (length (encode m))) @ encode m"

lemma encode_inject: "wf m \<Longrightarrow> wf n \<Longrightarrow> encode m = encode n \<Longrightarrow> m = n"
  using decode_encode by (metis res.inject(1))

lemma write_ok:
  assumes "length (encode m) \<le> MAX_MESSAGE_BYTES" "room w = None"
  shows "write_message encode m w = (Ok (), w\<lparr>written := written w @ frame m\<rparr>)"
  using assms by (simp add: write_message_def write_all_def MAX_MESSAGE_BYTES_def frame_def Let_def)

lemma read_frame:
  assumes "wf m" "length (encode m) \<le> MAX_MESSAGE_BYTES" "pending r = frame m @ rest"
  shows "read_message decode r = (Ok m, r\<lparr>pending := rest\<rparr>)"
proof -
  have len: "unat (of_nat (length (encode m)) :: u32) = length (encode m)"
    using assms(2) by (simp add: unat_of_nat MAX_MESSAGE_BYTES_def)
  have head: "read_exact 4 r = (Ok (to_be_bytes (of_nat (length (encode m)))), r\<lparr>pending := encode m @ rest\<rparr>)"
    by (simp add: read_exact_def assms(3) frame_def)
  have body: "read_exact (length (encode m)) (r\<lparr>pending := encode m @ rest\<rparr>)
      = (Ok (encode m), r\<lparr>pending := rest\<rparr>)"
    by (simp add: read_exact_def)
  show ?thesis
    using assms(1,2)
    by (simp add: read_message_def head len body from_utf8_def encode_utf8 decode_encode)
qed

lemma frame_truncated:
  assumes "length (encode m) \<le> MAX_MESSAGE_BYTES" "n < length (frame m)"
    and "pending r = take n (frame m)" "read_fault r = None"
  shows "fst (read_message decode r) = Err Truncated"
proof (cases "n < 4")
  case True
  then show ?thesis using assms(2-4) by (simp add: read_message_def read_exact_def)
next
  case False
  have len: "unat (of_nat (length (encode m)) :: u32) = length (encode m)"
    using assms(1) by (simp add: unat_of_nat MAX_MESSAGE_BYTES_def)
  have "read_exact 4 r = (Ok (to_be_bytes (of_nat (length (encode m)))),
      r\<lparr>pending := take (n - 4) (encode m)\<rparr>)"
    using False assms(2,3) by (simp add: read_exact_def frame_def take_drop drop_take)
  moreover have "\<not> length (encode m) \<le> n - 4" using False assms(2) by (simp add: frame_def)
  ultimately show ?thesis
    using assms(1,4) by (simp add: read_message_def read_exact_def len Let_def)
qed

end

interpretation request: message_codec request_encode request_decode request_wf
  by unfold_locales (simp_all add: request_decode_encode request_encode_utf8)

interpretation response: message_codec response_encode response_decode response_wf
  by unfold_locales (simp_all add: response_decode_encode response_encode_utf8)

section \<open>The properties of the protocol\<close>

text \<open>Escaping is invertible on every string and produces only the bytes the protocol allows in a
  field, so no escaped field contains a tab, a newline or a non-ASCII byte.\<close>

theorem escape_round_trip:
  assumes "utf8_valid s"
  shows "unescape (escape s) = Ok s
    \<and> list_all (\<lambda>c. (escape_allowed c \<or> c = CHR ''%'') \<and> c \<noteq> tab \<and> c \<noteq> CHR 0x0A \<and> byte c < 128) (escape s)"
  using unescape_escape [OF assms] escape_chars [of _ s] line_char_ascii line_char_not
  by (auto simp: list_all_iff line_char_def)

theorem escape_round_trip_witness:
  "unescape (escape ''a%b'') = Ok ''a%b'' \<and> escape ''a%b'' = ''a%25b''"
proof -
  have "utf8_valid ''a%b''" "escape ''a%b'' = ''a%25b''" by code_simp+
  then show ?thesis using escape_round_trip [of "''a%b''"] by simp
qed

text \<open>C9: Decoding an encoded request gives the request back, for every kind of request and all field
  values (identifiers and names with arbitrary characters, all \<open>u32\<close> counts and rates, negative
  gains and coefficients, an empty matrix); the encoding is one line of UTF-8, so different
  requests have different encodings.\<close>

theorem request_round_trip:
  assumes "request_wf q"
  shows "request_decode (request_encode q) = Ok q
    \<and> utf8_valid (request_encode q) \<and> CHR 0x0A \<notin> set (request_encode q)
    \<and> (\<forall>q'. request_wf q' \<and> request_encode q' = request_encode q \<longrightarrow> q' = q)"
  using request.decode_encode [OF assms] request.encode_utf8 [OF assms] request.encode_inject assms
    request_encode_chars [of "CHR 0x0A" q] by auto

definition example_connect :: Request where
  "example_connect = Connect ''r1'' ''mic'' ''a b'' (- 6000) [1000000, - 5]"

lemma example_connect_wf: "request_wf example_connect"
  by (simp add: example_connect_def byte_def)

theorem request_round_trip_witness:
  "request_decode (request_encode example_connect) = Ok example_connect"
  using request_round_trip [OF example_connect_wf] by simp

text \<open>Decoding an encoded response gives the response back, and the encoding is one line of
  UTF-8.\<close>

theorem response_round_trip:
  assumes "response_wf q"
  shows "response_decode (response_encode q) = Ok q
    \<and> utf8_valid (response_encode q) \<and> CHR 0x0A \<notin> set (response_encode q)"
  using response.decode_encode [OF assms] response.encode_utf8 [OF assms]
    response_encode_chars [of "CHR 0x0A" q] by auto

theorem response_round_trip_witness:
  "response_decode (response_encode (Response_Error ''bad'' ''no such route'')) =
     Ok (Response_Error ''bad'' ''no such route'')"
  using response_round_trip [of "Response_Error ''bad'' ''no such route''"] by (simp add: byte_def)

definition decode_error :: "('m, ProtocolError) res \<Rightarrow> bool" where
  "decode_error r \<longleftrightarrow> (case r of Ok _ \<Rightarrow> True
     | Err e \<Rightarrow> e = InvalidUtf8 \<or> (\<exists>m. e = InvalidMessage m) | Panic \<Rightarrow> False)"

lemma decode_error_simps [simp]:
  "decode_error (Ok m)" "decode_error (Err (InvalidMessage t))" "decode_error (Err InvalidUtf8)"
  by (simp_all add: decode_error_def)

lemma decode_error_and_then:
  "decode_error r \<Longrightarrow> (\<And>a. decode_error (f a)) \<Longrightarrow> decode_error (and_then r f)"
  by (cases r) (auto simp: decode_error_def)

lemma decode_error_ok_or [simp]: "decode_error (ok_or (InvalidMessage t) x)"
  by (cases x) simp_all

lemma decode_error_from_utf8 [simp]:
  "decode_error (from_utf8 InvalidUtf8 s)" "decode_error (from_utf8 (InvalidMessage t) s)"
  by (simp_all add: from_utf8_def)

lemma decode_error_unescape [simp]: "decode_error (unescape s)"
proof -
  have "decode_error (unescape_bytes s)"
    by (induction s rule: unescape_bytes.induct)
      (simp_all add: decode_error_and_then del: ok_or.simps)
  then show ?thesis by (simp add: unescape_def decode_error_and_then)
qed

lemma decode_error_parse [simp]: "decode_error (parse_field p v n)" "decode_error (parse_matrix s)"
proof -
  show "decode_error (parse_field p v n)" for p :: "string \<Rightarrow> 'x option" and v n
    by (simp add: parse_field_def)
  note field = this
  have "decode_error (traverse (\<lambda>v. parse_field parse_i32 v n) xs)" for xs n
    by (induction xs) (simp_all add: decode_error_and_then field)
  then show "decode_error (parse_matrix s)" by (simp add: parse_matrix_def)
qed

lemma decode_error_request: "decode_error (request_decode s)"
  by (auto simp: request_decode_def decode_error_and_then split: list.splits)

lemma decode_error_response: "decode_error (response_decode s)"
  by (auto simp: response_decode_def decode_error_and_then split: list.splits)

text \<open>Decoding is total: on any string both decoders return a message whose fields are strings
  (valid UTF-8), or one of the two decoding errors; they never panic and never report an I/O or
  framing error.\<close>

theorem decoding_is_total:
  "(case request_decode s of
      Ok q \<Rightarrow> request_wf q
    | Err e \<Rightarrow> e = InvalidUtf8 \<or> (\<exists>m. e = InvalidMessage m)
    | Panic \<Rightarrow> False)
   \<and> (case response_decode s of
      Ok q \<Rightarrow> response_wf q
    | Err e \<Rightarrow> e = InvalidUtf8 \<or> (\<exists>m. e = InvalidMessage m)
    | Panic \<Rightarrow> False)"
  using decode_error_request [of s] decode_error_response [of s]
    request_decode_wf [of s] response_decode_wf [of s]
  by (auto simp: decode_error_def split: res.splits)

text \<open>Several messages in a row on one connection.\<close>

fun write_messages :: "('m \<Rightarrow> string) \<Rightarrow> 'm list \<Rightarrow> byte_sink \<Rightarrow> (unit, ProtocolError) res \<times> byte_sink" where
  "write_messages encode [] w = (Ok (), w)"
| "write_messages encode (m # ms) w =
     (case write_message encode m w of
        (Ok _, w1) \<Rightarrow> write_messages encode ms w1
      | (e, w1) \<Rightarrow> (e, w1))"

fun read_messages ::
    "(string \<Rightarrow> ('m, ProtocolError) res) \<Rightarrow> nat \<Rightarrow> byte_source \<Rightarrow> ('m list, ProtocolError) res \<times> byte_source" where
  "read_messages decode 0 r = (Ok [], r)"
| "read_messages decode (Suc n) r =
     (case read_message decode r of
        (Ok m, r1) \<Rightarrow>
          (let (ms, r2) = read_messages decode n r1 in (and_then ms (\<lambda>ms. Ok (m # ms)), r2))
      | (Err e, r1) \<Rightarrow> (Err e, r1)
      | (Panic, r1) \<Rightarrow> (Panic, r1))"

context message_codec
begin

lemma write_messages_ok:
  "list_all (\<lambda>m. length (encode m) \<le> MAX_MESSAGE_BYTES) ms \<Longrightarrow> room w = None \<Longrightarrow>
     write_messages encode ms w = (Ok (), w\<lparr>written := written w @ concat (map frame ms)\<rparr>)"
  by (induction ms arbitrary: w) (simp_all add: write_ok)

lemma read_messages_ok:
  "list_all (\<lambda>m. wf m \<and> length (encode m) \<le> MAX_MESSAGE_BYTES) ms \<Longrightarrow>
     pending r = concat (map frame ms) @ rest \<Longrightarrow>
     read_messages decode (length ms) r = (Ok ms, r\<lparr>pending := rest\<rparr>)"
proof (induction ms arbitrary: r)
  case (Cons m ms)
  have "read_message decode r = (Ok m, r\<lparr>pending := concat (map frame ms) @ rest\<rparr>)"
    using Cons.prems by (intro read_frame) simp_all
  then show ?case using Cons.IH [of "r\<lparr>pending := concat (map frame ms) @ rest\<rparr>"] Cons.prems(1)
    by simp
qed simp

end

text \<open>Requests written one after another and read from the bytes so produced come back unchanged
  and in order, and reading stops exactly at the end of the last frame, whatever follows: the
  framing never loses synchronisation.\<close>

theorem request_stream_round_trip:
  assumes "list_all (\<lambda>q. request_wf q \<and> length (request_encode q) \<le> MAX_MESSAGE_BYTES) qs"
    and "room w = None" "written w = []"
    and "write_messages request_encode qs w = (outcome, w')"
    and "pending r = written w' @ rest"
  shows "outcome = Ok ()
    \<and> read_messages request_decode (length qs) r = (Ok qs, r\<lparr>pending := rest\<rparr>)"
proof -
  have "list_all (\<lambda>q. length (request_encode q) \<le> MAX_MESSAGE_BYTES) qs"
    using assms(1) by (simp add: list_all_iff)
  from request.write_messages_ok [OF this assms(2)] assms(3,4)
  have "outcome = Ok ()" "written w' = concat (map request.frame qs)" by auto
  then show ?thesis using request.read_messages_ok [OF assms(1), of r rest] assms(5) by simp
qed

theorem request_stream_round_trip_witness:
  "let w' = snd (write_messages request_encode [Ping, example_connect, Shutdown]
      \<lparr>written = [], room = None, write_fault = UnexpectedEof\<rparr>)
   in fst (read_messages request_decode 3 \<lparr>pending = written w', read_fault = None\<rparr>)
      = Ok [Ping, example_connect, Shutdown]"
proof -
  define qs where "qs = [Ping, example_connect, Shutdown]"
  define w where "w = \<lparr>written = [], room = None, write_fault = UnexpectedEof\<rparr>"
  obtain e w' where w': "write_messages request_encode qs w = (e, w')"
    by (cases "write_messages request_encode qs w") simp
  have "length (request_encode example_connect) \<le> MAX_MESSAGE_BYTES"
    by (simp add: example_connect_def MAX_MESSAGE_BYTES_def show_i32_def show_nat.simps
        escape_allowed_def is_ascii_alphanumeric_def is_ascii_digit_def byte_def)
  then have "list_all (\<lambda>q. request_wf q \<and> length (request_encode q) \<le> MAX_MESSAGE_BYTES) qs"
    using example_connect_wf by (simp add: qs_def MAX_MESSAGE_BYTES_def)
  from request_stream_round_trip [OF this _ _ w', of "\<lparr>pending = written w', read_fault = None\<rparr>" "[]"]
  have "read_messages request_decode 3 \<lparr>pending = written w', read_fault = None\<rparr>
      = (Ok qs, \<lparr>pending = [], read_fault = None\<rparr>)"
    by (simp add: w_def qs_def numeral_3_eq_3)
  then show ?thesis
    using w' by (simp add: qs_def [symmetric] w_def [symmetric] del: write_messages.simps)
qed

text \<open>\<open>write_message\<close> puts a message on the wire as its length in four big-endian bytes and its
  encoding; a message over one MiB is refused before any byte is written; when the writer fails,
  the error is reported and what was written is a proper prefix of the frame.\<close>

theorem write_message_exact:
  "let frame = to_be_bytes (of_nat (length (encode m))) @ encode m; too_large = MAX_MESSAGE_BYTES < length (encode m) in
   case write_message encode m w of
     (Ok _, w') \<Rightarrow> \<not> too_large \<and> written w' = written w @ frame
   | (Err e, w') \<Rightarrow>
       if too_large then e = MessageTooLarge (length (encode m)) \<and> w' = w
       else e = Io (write_fault w) \<and> (\<exists>n < length frame. written w' = written w @ take n frame)
   | (Panic, w') \<Rightarrow> False"
proof (cases "MAX_MESSAGE_BYTES < length (encode m)")
  case True
  then show ?thesis by (simp add: write_message_def)
next
  case False
  then have small: "length (encode m) < 2 ^ 32" by (simp add: MAX_MESSAGE_BYTES_def)
  show ?thesis
  proof (cases "room w")
    case None
    then show ?thesis using False small by (simp add: write_message_def write_all_def Let_def)
  next
    case (Some n)
    consider "n < 4" | "4 \<le> n" "n < 4 + length (encode m)" | "4 + length (encode m) \<le> n" by linarith
    then show ?thesis
    proof cases
      case 1
      then show ?thesis using False small Some
        by (auto simp: write_message_def write_all_def Let_def intro!: exI [of _ n])
    next
      case 2
      then show ?thesis using False small Some
        by (auto simp: write_message_def write_all_def Let_def intro!: exI [of _ n])
    next
      case 3
      then show ?thesis using False small Some
        by (auto simp: write_message_def write_all_def Let_def)
    qed
  qed
qed

text \<open>\<open>read_message\<close> on a stream: with fewer bytes than the header, or than the announced body,
  the result is \<open>Truncated\<close> at the end of the file and the reader's own error otherwise; an
  announced length over one MiB is refused after the four header bytes, before the body is
  allocated or read; otherwise exactly the frame is consumed, and the result is the decoder's or
  \<open>InvalidUtf8\<close>.\<close>

theorem read_message_exact:
  "let bytes = pending r; n = unat (from_be_bytes (take 4 bytes)); body = take n (drop 4 bytes);
       short = (case read_fault r of None \<Rightarrow> Truncated | Some e \<Rightarrow> read_error e);
       (res, r') = read_message decode r in
   if length bytes < 4 then res = Err short \<and> pending r' = []
   else if MAX_MESSAGE_BYTES < n then res = Err (MessageTooLarge n) \<and> pending r' = drop 4 bytes
   else if length bytes < 4 + n then res = Err short \<and> pending r' = []
   else res = (if utf8_valid body then decode body else Err InvalidUtf8)
     \<and> pending r' = drop (4 + n) bytes"
  by (cases "read_fault r")
    (auto simp: read_message_def read_exact_def Let_def from_utf8_def add.commute split: prod.splits)

text \<open>
  The decoder is laxer than the encoder: \<open>u8::from_str_radix\<close> accepts a sign, so \<open>%+A\<close> is taken
  for a newline although \<open>escape\<close> never produces it.
\<close>

lemma unescape_accepts_sign: "unescape ''%+A'' = Ok [CHR 0x0A] \<and> escape [CHR 0x0A] = ''%0A''"
  by code_simp

end
