(* ===== verification/CoreAudioApi.thy ===== *)
theory CoreAudioApi
  imports RoutingGraph Protocol
begin

text \<open>
  The public types of \<open>crates/vcable-coreaudio/src/lib.rs\<close> that the daemon works with, and the
  \<open>Display\<close> texts of the errors that it sends to its clients: those of \<open>matrix.rs\<close>, \<open>graph.rs\<close>,
  the protocol and Core Audio.
\<close>

section \<open>Devices, routes and errors\<close>

record AudioDevice =
  dev_object_id :: u32
  dev_uid :: string
  dev_name :: string
  dev_input_channels :: u32
  dev_output_channels :: u32
  dev_sample_rate :: u32
  dev_is_vcable :: bool
  dev_is_virtual :: bool

record AudioRoute =
  source_device_id :: u32
  sink_device_id :: u32
  source_channels :: u32
  sink_channels :: u32
  source_sample_rate :: u32
  sink_sample_rate :: u32
  route_matrix :: "f32 list"
  route_gain :: f32

datatype CoreAudioError =
    CA_UnsupportedPlatform
  | CA_OsStatus i32
  | CA_InvalidProperty string
  | CA_InvalidUtf8
  | CA_DriverNotInstalled
  | CA_DriverRejected string
  | CA_DeviceChangeTimeout string bool      \<comment> \<open>uid, expected present\<close>
  | CA_InvalidRoute string

section \<open>Error texts\<close>

text \<open>\<open>std::io::Error\<close>: the text of \<open>read_exact\<close> at the end of a file, or the error's own.\<close>

fun show_io_error :: "io_error \<Rightarrow> string" where
  "show_io_error UnexpectedEof = ''failed to fill whole buffer''"
| "show_io_error (OtherIo m) = m"

fun show_matrix_error :: "MatrixError \<Rightarrow> string" where
  "show_matrix_error ZeroChannels = ''channel counts must be greater than zero''"
| "show_matrix_error (WrongCoefficientCount expected actual) =
     ''expected '' @ show_nat expected @ '' coefficients, received '' @ show_nat actual"
| "show_matrix_error (NonFiniteCoefficient i) = ''coefficient '' @ show_nat i @ '' is not finite''"
| "show_matrix_error BufferLengthMismatch = ''audio buffer length does not match the matrix''"
| "show_matrix_error FrameCountOverflow = ''frame count overflows the audio buffer length''"

fun show_graph_error :: "GraphError \<Rightarrow> string" where
  "show_graph_error (InvalidIdentifier v) = ''invalid identifier: '' @ v"
| "show_graph_error GraphZeroChannels = ''endpoint channel count must be greater than zero''"
| "show_graph_error (InvalidSampleRate rate) = ''invalid sample rate: '' @ show_u32 rate"
| "show_graph_error (EndpointExists i) = ''endpoint already exists: '' @ endpoint_str i"
| "show_graph_error (EndpointNotFound i) = ''endpoint not found: '' @ endpoint_str i"
| "show_graph_error (EndpointInUse i) = ''endpoint is referenced by a route: '' @ endpoint_str i"
| "show_graph_error (RouteExists i) = ''route already exists: '' @ route_str i"
| "show_graph_error (RouteNotFound i) = ''route not found: '' @ route_str i"
| "show_graph_error (SourceDirectionRequired i) = ''endpoint is not a source: '' @ endpoint_str i"
| "show_graph_error (SinkDirectionRequired i) = ''endpoint is not a sink: '' @ endpoint_str i"
| "show_graph_error (MatrixInputMismatch expected actual) =
     ''matrix has '' @ show_nat actual @ '' inputs; source has '' @ show_nat expected"
| "show_graph_error (MatrixOutputMismatch expected actual) =
     ''matrix has '' @ show_nat actual @ '' outputs; sink has '' @ show_nat expected"
| "show_graph_error GainNotFinite = ''route gain must be finite''"
| "show_graph_error (CycleDetected a b) = ''route from '' @ a @ '' to '' @ b @ '' creates a cycle''"
| "show_graph_error (GraphMatrix e) = show_matrix_error e"

fun show_protocol_error :: "ProtocolError \<Rightarrow> string" where
  "show_protocol_error (Io e) = show_io_error e"
| "show_protocol_error (MessageTooLarge n) = ''message is too large: '' @ show_nat n @ '' bytes''"
| "show_protocol_error Truncated = ''message is truncated''"
| "show_protocol_error InvalidUtf8 = ''message is not valid UTF-8''"
| "show_protocol_error (InvalidMessage m) = ''invalid message: '' @ m"

fun show_core_audio_error :: "CoreAudioError \<Rightarrow> string" where
  "show_core_audio_error CA_UnsupportedPlatform = ''Core Audio is available only on macOS''"
| "show_core_audio_error (CA_OsStatus s) = ''Core Audio returned OSStatus '' @ show_i32 s"
| "show_core_audio_error (CA_InvalidProperty p) = ''invalid Core Audio property: '' @ p"
| "show_core_audio_error CA_InvalidUtf8 = ''Core Audio returned a non-UTF-8 string''"
| "show_core_audio_error CA_DriverNotInstalled = ''VCable HAL driver is not installed''"
| "show_core_audio_error (CA_DriverRejected m) = ''VCable driver rejected the request: '' @ m"
| "show_core_audio_error (CA_DeviceChangeTimeout uid present) =
     ''timed out waiting for Core Audio device '' @ uid @ '' to become ''
     @ (if present then ''visible'' else ''absent'')"
| "show_core_audio_error (CA_InvalidRoute m) = ''invalid audio route: '' @ m"

end
