(* ===== verification/CoreAudioHal.thy ===== *)
theory CoreAudioHal
  imports CoreAudioApi
begin

text \<open>
  The part of \<open>crates/vcable-coreaudio/src/platform.rs\<close> that talks to Core Audio's object properties:
  reading them, listing the devices, sending commands to the driver, and waiting for a device to
  appear or vanish.

  Core Audio, Core Foundation and the clock are the record \<open>hal\<close>, one function per call of the
  framework, over a state of any type: a call returns its status and what it writes through its
  pointers. Nothing is assumed of them. The model adds a log of the calls that acquire or release
  something (I/O procedures and Core Foundation strings), so that what is acquired can be shown to be
  released.
\<close>

section \<open>The frameworks\<close>

record AudioObjectPropertyAddress =
  selector :: u32
  scope :: u32
  element :: u32

datatype hal_event =
    CreateIoProc u32 i32 u64      \<comment> \<open>device, status, procedure id (\<open>0\<close> for null)\<close>
  | StartDevice u32 u64 i32
  | StopDevice u32 u64
  | DestroyIoProc u32 u64
  | GotString u64                 \<comment> \<open>a \<open>CFString\<close> the caller owns\<close>
  | ReleasedString u64

record 'h hal =
  get_data_size :: "u32 \<Rightarrow> AudioObjectPropertyAddress \<Rightarrow> 'h \<Rightarrow> (i32 \<times> u32) \<times> 'h"
  get_data :: "u32 \<Rightarrow> AudioObjectPropertyAddress \<Rightarrow> u32 \<Rightarrow> 'h \<Rightarrow> (i32 \<times> u32 \<times> string) \<times> 'h"
    \<comment> \<open>status, size, and the bytes written to the start of the buffer\<close>
  get_string :: "u32 \<Rightarrow> AudioObjectPropertyAddress \<Rightarrow> 'h \<Rightarrow> (i32 \<times> u64) \<times> 'h"
    \<comment> \<open>\<open>AudioObjectGetPropertyData\<close> into a \<open>CFStringRef\<close>\<close>
  set_data :: "u32 \<Rightarrow> AudioObjectPropertyAddress \<Rightarrow> string \<Rightarrow> 'h \<Rightarrow> i32 \<times> 'h"
  set_string :: "u32 \<Rightarrow> AudioObjectPropertyAddress \<Rightarrow> u64 \<Rightarrow> 'h \<Rightarrow> i32 \<times> 'h"
  create_io_proc :: "u32 \<Rightarrow> 'h \<Rightarrow> (i32 \<times> u64) \<times> 'h"
  destroy_io_proc :: "u32 \<Rightarrow> u64 \<Rightarrow> 'h \<Rightarrow> i32 \<times> 'h"
  start_device :: "u32 \<Rightarrow> u64 \<Rightarrow> 'h \<Rightarrow> i32 \<times> 'h"
  stop_device :: "u32 \<Rightarrow> u64 \<Rightarrow> 'h \<Rightarrow> i32 \<times> 'h"
  cf_create :: "string \<Rightarrow> 'h \<Rightarrow> u64 \<times> 'h"
  cf_length :: "u64 \<Rightarrow> 'h \<Rightarrow> int \<times> 'h"
  cf_maximum_size :: "int \<Rightarrow> 'h \<Rightarrow> nat option \<times> 'h"
    \<comment> \<open>\<open>None\<close> is \<open>kCFNotFound\<close>, the only negative answer documented\<close>
  cf_c_string :: "u64 \<Rightarrow> usize \<Rightarrow> 'h \<Rightarrow> (string option) \<times> 'h"
    \<comment> \<open>the bytes written, or \<open>None\<close> when it returns false\<close>
  instant_now :: "'h \<Rightarrow> nat \<times> 'h"               \<comment> \<open>nanoseconds\<close>
  thread_sleep :: "nat \<Rightarrow> 'h \<Rightarrow> unit \<times> 'h"

record 'h core_audio =
  hal_state :: 'h
  events :: "hal_event list"

type_synonym ('h, 'a, 'e) ca = "'h core_audio \<Rightarrow> ('a, 'e) res \<times> 'h core_audio"

definition ca_then :: "('h, 'a, 'e) ca \<Rightarrow> ('a \<Rightarrow> ('h, 'b, 'e) ca) \<Rightarrow> ('h, 'b, 'e) ca" where
  "ca_then m f s = (case m s of
      (Ok a, s1) \<Rightarrow> f a s1
    | (Err e, s1) \<Rightarrow> (Err e, s1)
    | (Panic, s1) \<Rightarrow> (Panic, s1))"

definition ca_res :: "('a, 'e) res \<Rightarrow> ('h, 'a, 'e) ca" where
  "ca_res r s = (r, s)"

definition ca_call :: "('h \<Rightarrow> 'a \<times> 'h) \<Rightarrow> ('h, 'a, 'e) ca" where
  "ca_call f s = (Ok (fst (f (hal_state s))), s\<lparr>hal_state := snd (f (hal_state s))\<rparr>)"

definition ca_log :: "hal_event \<Rightarrow> ('h, unit, 'e) ca" where
  "ca_log ev s = (Ok (), s\<lparr>events := events s @ [ev]\<rparr>)"

abbreviation ca_ok :: "'a \<Rightarrow> ('h, 'a, 'e) ca" where "ca_ok a \<equiv> ca_res (Ok a)"
abbreviation ca_fail :: "'e \<Rightarrow> ('h, 'a, 'e) ca" where "ca_fail e \<equiv> ca_res (Err e)"

definition ca_map_err :: "('e \<Rightarrow> 'd) \<Rightarrow> ('h, 'a, 'e) ca \<Rightarrow> ('h, 'a, 'd) ca" where
  "ca_map_err g m s = (map_err g (fst (m s)), snd (m s))"

fun ca_traverse :: "('a \<Rightarrow> ('h, 'b, 'e) ca) \<Rightarrow> 'a list \<Rightarrow> ('h, 'b list, 'e) ca" where
  "ca_traverse f [] = ca_ok []"
| "ca_traverse f (x # xs) = ca_then (f x) (\<lambda>y. ca_then (ca_traverse f xs) (\<lambda>ys. ca_ok (y # ys)))"

text \<open>Four-character codes, and the constants of the file.\<close>

definition fourcc :: "string \<Rightarrow> u32" where
  "fourcc s = from_be_bytes s"

definition SYSTEM_OBJECT :: u32 where "SYSTEM_OBJECT = 1"
definition SCOPE_GLOBAL :: u32 where "SCOPE_GLOBAL = fourcc ''glob''"
definition SCOPE_INPUT :: u32 where "SCOPE_INPUT = fourcc ''inpt''"
definition SCOPE_OUTPUT :: u32 where "SCOPE_OUTPUT = fourcc ''outp''"
definition HARDWARE_DEVICES :: u32 where "HARDWARE_DEVICES = fourcc ''dev#''"
definition HARDWARE_PLUGIN_LIST :: u32 where "HARDWARE_PLUGIN_LIST = fourcc ''plg#''"
definition OBJECT_NAME :: u32 where "OBJECT_NAME = fourcc ''lnam''"
definition PLUGIN_BUNDLE_ID :: u32 where "PLUGIN_BUNDLE_ID = fourcc ''piid''"
definition DEVICE_UID :: u32 where "DEVICE_UID = fourcc ''uid ''"
definition DEVICE_SAMPLE_RATE :: u32 where "DEVICE_SAMPLE_RATE = fourcc ''nsrt''"
definition DEVICE_TRANSPORT_TYPE :: u32 where "DEVICE_TRANSPORT_TYPE = fourcc ''tran''"
definition DEVICE_STREAM_CONFIGURATION :: u32 where "DEVICE_STREAM_CONFIGURATION = fourcc ''slay''"
definition DEVICE_STREAMS :: u32 where "DEVICE_STREAMS = fourcc ''stm#''"
definition DEVICE_IOPROC_STREAM_USAGE :: u32 where "DEVICE_IOPROC_STREAM_USAGE = fourcc ''suse''"
definition STREAM_VIRTUAL_FORMAT :: u32 where "STREAM_VIRTUAL_FORMAT = fourcc ''sfmt''"
definition VCABLE_CONTROL :: u32 where "VCABLE_CONTROL = fourcc ''vctl''"
definition TRANSPORT_TYPE_VIRTUAL :: u32 where "TRANSPORT_TYPE_VIRTUAL = fourcc ''virt''"
definition VCABLE_BUNDLE_ID :: string where "VCABLE_BUNDLE_ID = ''dev.vcable.driver''"
definition VCABLE_UID_PREFIX :: string where "VCABLE_UID_PREFIX = ''dev.vcable.device.''"
definition BAD_OBJECT_STATUS :: i32 where "BAD_OBJECT_STATUS = 560947818"
definition UNKNOWN_PROPERTY_STATUS :: i32 where "UNKNOWN_PROPERTY_STATUS = fourcc ''who?''"
definition DEVICE_CHANGE_TIMEOUT :: nat where "DEVICE_CHANGE_TIMEOUT = 5000000000"
definition DEVICE_CHANGE_POLL_INTERVAL :: nat where "DEVICE_CHANGE_POLL_INTERVAL = 10000000"

definition address :: "u32 \<Rightarrow> u32 \<Rightarrow> AudioObjectPropertyAddress" where
  "address sel sc = \<lparr>selector = sel, scope = sc, element = 0\<rparr>"

definition status :: "i32 \<Rightarrow> ('h, unit, CoreAudioError) ca" where
  "status v = ca_res (if v = 0 then Ok () else Err (CA_OsStatus v))"

section \<open>Bytes\<close>

text \<open>\<open>from_ne_bytes\<close> on the little-endian targets of macOS.\<close>

definition from_ne_bytes :: "string \<Rightarrow> nat" where
  "from_ne_bytes bs = foldr (\<lambda>b n. byte b + 256 * n) bs 0"

definition u32_from_ne_bytes :: "string \<Rightarrow> u32" where
  "u32_from_ne_bytes bs = of_nat (from_ne_bytes bs)"

definition f64_from_ne_bytes :: "string \<Rightarrow> f64" where
  "f64_from_ne_bytes bs =
     (let n = from_ne_bytes bs; s = (2 ^ 63 \<le> n); ex = n div 2 ^ 52 mod 2 ^ 11; m = n mod 2 ^ 52
      in if ex = 2047 then if m = 0 then Inf s else NaN
         else if ex = 0 then Fin s m (- 1074)
         else Fin s (2 ^ 52 + m) (int ex - 1075))"

definition bytes_at :: "nat \<Rightarrow> nat \<Rightarrow> string \<Rightarrow> string" where
  "bytes_at i n bs = take n (drop i bs)"

text \<open>\<open>round() as u32\<close>: half away from zero, saturating, NaN to zero.\<close>

fun round_as_u32 :: "f64 \<Rightarrow> u32" where
  "round_as_u32 NaN = 0"
| "round_as_u32 (Inf s) = (if s then 0 else - 1)"
| "round_as_u32 (Fin s m e) =
     (if s then 0
      else let n = (if 0 \<le> e then m * 2 ^ nat e else (m + 2 ^ nat (- e - 1)) div 2 ^ nat (- e))
           in if 2 ^ 32 \<le> n then - 1 else of_nat n)"

section \<open>Properties\<close>

text \<open>The buffer is zeroed, overwritten from its start, and cut to the size reported.\<close>

definition get_property_bytes :: "'h hal \<Rightarrow> u32 \<Rightarrow> u32 \<Rightarrow> u32 \<Rightarrow> ('h, string, CoreAudioError) ca" where
  "get_property_bytes h object_id sel sc =
     ca_then (ca_call (get_data_size h object_id (address sel sc))) (\<lambda>(st, size).
     ca_then (status st) (\<lambda>_.
     ca_then (ca_call (get_data h object_id (address sel sc) size)) (\<lambda>(st2, size2, written).
     ca_then (status st2) (\<lambda>_.
     let n = unat size; w = take n written; result = w @ replicate (n - length w) (CHR 0x00) in
     ca_ok (take (unat size2) result)))))"

definition get_u32_array :: "'h hal \<Rightarrow> u32 \<Rightarrow> u32 \<Rightarrow> u32 \<Rightarrow> ('h, u32 list, CoreAudioError) ca" where
  "get_u32_array h object_id sel sc =
     ca_then (get_property_bytes h object_id sel sc) (\<lambda>property.
     if length property mod 4 \<noteq> 0 then ca_fail (CA_InvalidProperty ''AudioObjectID array'')
     else ca_ok (map u32_from_ne_bytes (chunks_exact 4 property)))"

definition get_f64 :: "'h hal \<Rightarrow> u32 \<Rightarrow> u32 \<Rightarrow> u32 \<Rightarrow> ('h, f64, CoreAudioError) ca" where
  "get_f64 h object_id sel sc =
     ca_then (get_property_bytes h object_id sel sc) (\<lambda>property.
     if length property \<noteq> 8 then ca_fail (CA_InvalidProperty ''Float64'')
     else ca_ok (f64_from_ne_bytes property))"

definition get_u32 :: "'h hal \<Rightarrow> u32 \<Rightarrow> u32 \<Rightarrow> u32 \<Rightarrow> ('h, u32, CoreAudioError) ca" where
  "get_u32 h object_id sel sc =
     ca_then (get_property_bytes h object_id sel sc) (\<lambda>property.
     if length property \<noteq> 4 then ca_fail (CA_InvalidProperty ''UInt32'')
     else ca_ok (u32_from_ne_bytes property))"

text \<open>
  An \<open>isize\<close> is an \<open>int\<close> below \<open>2 ^ 63\<close>. A capacity cast from a negative one could not be allocated; it
  would take an answer below \<open>kCFNotFound\<close>, which is \<open>-1\<close>.
\<close>

definition cf_index :: "nat option \<Rightarrow> int" where
  "cf_index answer = (case answer of None \<Rightarrow> - 1 | Some n \<Rightarrow> int n)"

definition cf_string_to_rust :: "'h hal \<Rightarrow> u64 \<Rightarrow> ('h, string, CoreAudioError) ca" where
  "cf_string_to_rust h v =
     ca_then (ca_call (cf_length h v)) (\<lambda>len.
     ca_then (ca_call (cf_maximum_size h len)) (\<lambda>answer. let maximum = cf_index answer in
     if 2 ^ 63 \<le> maximum + 1 then ca_fail (CA_InvalidProperty ''CFString length'')
     else if maximum + 1 < 0 then ca_res Panic
     else let capacity = nat (maximum + 1) in
       ca_then (ca_call (cf_c_string h v capacity)) (\<lambda>written.
       case written of
         None \<Rightarrow> ca_fail CA_InvalidUtf8
       | Some bs \<Rightarrow>
           let w = take capacity bs; buffer = w @ replicate (capacity - length w) (CHR 0x00)
           in ca_res (from_utf8 CA_InvalidUtf8 (takeWhile (\<lambda>b. b \<noteq> CHR 0x00) buffer)))))"

definition cf_release :: "u64 \<Rightarrow> ('h, unit, 'e) ca" where
  "cf_release v = ca_log (ReleasedString v)"

text \<open>A panic in between unwinds past \<open>CFRelease\<close>.\<close>

definition get_cf_string :: "'h hal \<Rightarrow> u32 \<Rightarrow> u32 \<Rightarrow> u32 \<Rightarrow> ('h, string, CoreAudioError) ca" where
  "get_cf_string h object_id sel sc =
     ca_then (ca_call (get_string h object_id (address sel sc))) (\<lambda>(st, v).
     ca_then (status st) (\<lambda>_.
     if v = 0 then ca_fail (CA_InvalidProperty ''CFString'')
     else ca_then (ca_log (GotString v)) (\<lambda>_. \<lambda>s.
       let (result, s1) = cf_string_to_rust h v s in
       if result = Panic then (Panic, s1)
       else let (_ :: (unit, CoreAudioError) res, s2) = cf_release v s1 in (result, s2))))"

text \<open>The entries of an \<open>AudioBufferList\<close>: eight bytes of header, sixteen per buffer.\<close>

definition get_channel_count :: "'h hal \<Rightarrow> u32 \<Rightarrow> u32 \<Rightarrow> ('h, u32, CoreAudioError) ca" where
  "get_channel_count h object_id sc =
     ca_then (get_property_bytes h object_id DEVICE_STREAM_CONFIGURATION sc) (\<lambda>property.
     if length property < 4 then ca_fail (CA_InvalidProperty ''AudioBufferList'')
     else
       let number_buffers = unat (u32_from_ne_bytes (bytes_at 0 4 property));
           required = 8 + number_buffers * 16 in
       if usize_bound \<le> required then ca_fail (CA_InvalidProperty ''AudioBufferList size'')
       else if length property < required then ca_fail (CA_InvalidProperty ''AudioBufferList buffers'')
       else ca_ok (fold (\<lambda>index channels.
              let n = unat channels + unat (u32_from_ne_bytes (bytes_at (8 + index * 16) 4 property))
              in if 2 ^ 32 \<le> n then - 1 else of_nat n) [0..<number_buffers] 0))"

section \<open>Devices\<close>

definition read_device :: "'h hal \<Rightarrow> u32 \<Rightarrow> ('h, AudioDevice, CoreAudioError) ca" where
  "read_device h object_id =
     ca_then (get_cf_string h object_id DEVICE_UID SCOPE_GLOBAL) (\<lambda>uid.
     ca_then (get_u32 h object_id DEVICE_TRANSPORT_TYPE SCOPE_GLOBAL) (\<lambda>transport.
     ca_then (get_cf_string h object_id OBJECT_NAME SCOPE_GLOBAL) (\<lambda>name.
     ca_then (get_channel_count h object_id SCOPE_INPUT) (\<lambda>inputs.
     ca_then (get_channel_count h object_id SCOPE_OUTPUT) (\<lambda>outputs.
     ca_then (get_f64 h object_id DEVICE_SAMPLE_RATE SCOPE_GLOBAL) (\<lambda>rate.
     ca_ok \<lparr>dev_object_id = object_id, dev_uid = uid, dev_name = name, dev_input_channels = inputs,
       dev_output_channels = outputs, dev_sample_rate = round_as_u32 rate,
       dev_is_vcable = (take (length VCABLE_UID_PREFIX) uid = VCABLE_UID_PREFIX),
       dev_is_virtual = (transport = TRANSPORT_TYPE_VIRTUAL)\<rparr>))))))"

definition list_devices :: "'h hal \<Rightarrow> ('h, AudioDevice list, CoreAudioError) ca" where
  "list_devices h =
     ca_then (get_u32_array h SYSTEM_OBJECT HARDWARE_DEVICES SCOPE_GLOBAL) (ca_traverse (read_device h))"

section \<open>Driver commands\<close>

fun find_plugin :: "'h hal \<Rightarrow> u32 list \<Rightarrow> ('h, u32, CoreAudioError) ca" where
  "find_plugin h [] = ca_fail CA_DriverNotInstalled"
| "find_plugin h (p # ps) = (\<lambda>s.
     case get_cf_string h p PLUGIN_BUNDLE_ID SCOPE_GLOBAL s of
       (Panic, s1) \<Rightarrow> (Panic, s1)
     | (Err e, s1) \<Rightarrow> find_plugin h ps s1
     | (Ok bundle, s1) \<Rightarrow> if bundle = VCABLE_BUNDLE_ID then (Ok p, s1) else find_plugin h ps s1)"

definition find_vcable_plugin :: "'h hal \<Rightarrow> ('h, u32, CoreAudioError) ca" where
  "find_vcable_plugin h =
     ca_then (get_u32_array h SYSTEM_OBJECT HARDWARE_PLUGIN_LIST SCOPE_GLOBAL) (find_plugin h)"

text \<open>The command's \<open>OwnedCfString\<close> is released when it goes out of scope.\<close>

definition owned_cf_string :: "'h hal \<Rightarrow> string \<Rightarrow> ('h, u64, CoreAudioError) ca" where
  "owned_cf_string h value =
     ca_then (ca_call (cf_create h value)) (\<lambda>v.
     if v = 0 then ca_fail (CA_InvalidProperty ''CFStringCreateWithBytes'')
     else ca_then (ca_log (GotString v)) (\<lambda>_. ca_ok v))"

definition send_driver_command :: "'h hal \<Rightarrow> string \<Rightarrow> ('h, unit, CoreAudioError) ca" where
  "send_driver_command h command =
     ca_then (find_vcable_plugin h) (\<lambda>plugin_id.
     ca_then (owned_cf_string h command) (\<lambda>v. \<lambda>s.
       let (result, s1) = ca_then (ca_call (set_string h plugin_id (address VCABLE_CONTROL SCOPE_GLOBAL) v)) status s;
           (_ :: (unit, CoreAudioError) res, s2) = cf_release v s1
       in (result, s2)))"

definition validate_field :: "string \<Rightarrow> string \<Rightarrow> (unit, CoreAudioError) res" where
  "validate_field value name =
     (if value = [] \<or> list_ex (\<lambda>c. byte c \<in> {9, 13, 10, 0}) value then Err (CA_InvalidProperty name) else Ok ())"

section \<open>Waiting for a device\<close>

text \<open>One round of the loop: the result to return, or another round.\<close>

definition visibility_round ::
    "'h hal \<Rightarrow> string \<Rightarrow> bool \<Rightarrow> nat \<Rightarrow> ('h, unit option, CoreAudioError) ca" where
  "visibility_round h uid expected_present deadline s =
     (let (listed, s1) = list_devices h s;
          retry = ca_then (ca_call (instant_now h)) (\<lambda>now.
            if deadline \<le> now then ca_fail (CA_DeviceChangeTimeout uid expected_present)
            else ca_then (ca_call (thread_sleep h DEVICE_CHANGE_POLL_INTERVAL)) (\<lambda>_. ca_ok None))
      in case listed of
        Ok devices \<Rightarrow>
          if list_ex (\<lambda>d. dev_uid d = uid) devices = expected_present then (Ok (Some ()), s1) else retry s1
      | Err e \<Rightarrow>
          if e = CA_OsStatus BAD_OBJECT_STATUS \<or> e = CA_OsStatus UNKNOWN_PROPERTY_STATUS then retry s1 else (Err e, s1)
      | Panic \<Rightarrow> (Panic, s1))"

partial_function (option) visibility_loop ::
    "'h hal \<Rightarrow> string \<Rightarrow> bool \<Rightarrow> nat \<Rightarrow> 'h core_audio \<Rightarrow> ((unit, CoreAudioError) res \<times> 'h core_audio) option" where
  "visibility_loop h uid expected_present deadline s =
     (case visibility_round h uid expected_present deadline s of
        (Ok None, s1) \<Rightarrow> visibility_loop h uid expected_present deadline s1
      | (Ok (Some u), s1) \<Rightarrow> Some (Ok u, s1)
      | (Err e, s1) \<Rightarrow> Some (Err e, s1)
      | (Panic, s1) \<Rightarrow> Some (Panic, s1))"

definition wait_for_device_visibility ::
    "'h hal \<Rightarrow> string \<Rightarrow> bool \<Rightarrow> 'h core_audio \<Rightarrow> ((unit, CoreAudioError) res \<times> 'h core_audio) option" where
  "wait_for_device_visibility h uid expected_present s =
     (case ca_call (instant_now h) s of
        (Ok now, s1) \<Rightarrow> visibility_loop h uid expected_present (now + DEVICE_CHANGE_TIMEOUT) s1
      | (Err e, s1) \<Rightarrow> Some (Err e, s1)
      | (Panic, s1) \<Rightarrow> Some (Panic, s1))"

text \<open>The public operations; \<open>None\<close> is a call that does not return.\<close>

definition create_virtual_device ::
    "'h hal \<Rightarrow> string \<Rightarrow> string \<Rightarrow> u32 \<Rightarrow> u32 \<Rightarrow> u32 \<Rightarrow> 'h core_audio \<Rightarrow>
     ((unit, CoreAudioError) res \<times> 'h core_audio) option" where
  "create_virtual_device h i name inputs outputs rate s =
     (case ca_then (ca_res (validate_field i ''device id'')) (\<lambda>_.
        ca_then (ca_res (validate_field name ''device name'')) (\<lambda>_.
        if inputs = 0 \<or> outputs = 0
        then ca_fail (CA_DriverRejected ''channel counts must be greater than zero'')
        else send_driver_command h (join_with tab [''create'', i, name, show_u32 inputs,
          show_u32 outputs, show_u32 rate]))) s of
        (Ok _, s1) \<Rightarrow> wait_for_device_visibility h (VCABLE_UID_PREFIX @ i) True s1
      | (Err e, s1) \<Rightarrow> Some (Err e, s1)
      | (Panic, s1) \<Rightarrow> Some (Panic, s1))"

definition delete_virtual_device ::
    "'h hal \<Rightarrow> string \<Rightarrow> 'h core_audio \<Rightarrow> ((unit, CoreAudioError) res \<times> 'h core_audio) option" where
  "delete_virtual_device h i s =
     (case ca_then (ca_res (validate_field i ''device id'')) (\<lambda>_.
        send_driver_command h (join_with tab [''delete'', i])) s of
        (Ok _, s1) \<Rightarrow> wait_for_device_visibility h (VCABLE_UID_PREFIX @ i) False s1
      | (Err e, s1) \<Rightarrow> Some (Err e, s1)
      | (Panic, s1) \<Rightarrow> Some (Panic, s1))"

end
