(* ===== verification/AudioBuffers.thy ===== *)
theory AudioBuffers
  imports PcmStream
begin

text \<open>
  \<open>crates/vcable-coreaudio/src/platform.rs\<close>: the accesses to the audio buffer lists that Core Audio
  passes to a callback. A list has one buffer of interleaved samples, or several (one per channel,
  or groups of channels); a sample is addressed by its frame and its channel counted over all
  buffers. A read or write outside of the memory behind a buffer is a \<open>Panic\<close> of the model.
\<close>

section \<open>Buffer lists\<close>

text \<open>
  \<open>buffer_data\<close> is the memory the pointer leads to, as samples (\<open>None\<close> for a null pointer). A
  trailing part of a sample that \<open>data_byte_size\<close> may cut off is not represented.
\<close>

record AudioBuffer =
  number_channels :: u32
  data_byte_size :: u32
  buffer_data :: "f32 list option"

type_synonym AudioBufferList = "AudioBuffer list"

definition buffer_channels :: "AudioBuffer \<Rightarrow> usize" where
  "buffer_channels b = unat (number_channels b)"

definition buffer_samples :: "AudioBuffer \<Rightarrow> usize" where
  "buffer_samples b = unat (data_byte_size b) div 4"

text \<open>The result of an access is a value or a panic; the error type of the streams is not used.\<close>

type_synonym 'a access = "('a, PcmStreamError) res"

section \<open>Operations\<close>

fun list_frames_from :: "AudioBufferList \<Rightarrow> usize option \<Rightarrow> usize option" where
  "list_frames_from [] frms = frms"
| "list_frames_from (b # bs) frms =
     (if number_channels b = 0 \<or> buffer_data b = None then None
      else let bytes_per_frame = buffer_channels b * 4 in
        if \<not> bytes_per_frame dvd unat (data_byte_size b) then None
        else let cur = unat (data_byte_size b) div bytes_per_frame in
          if (case frms of None \<Rightarrow> False | Some n \<Rightarrow> n \<noteq> cur) then None
          else list_frames_from bs (Some cur))"

definition audio_buffer_list_frames :: "AudioBufferList \<Rightarrow> usize option" where
  "audio_buffer_list_frames bs = (if bs = [] then Some 0 else list_frames_from bs None)"

fun list_channels_from :: "AudioBufferList \<Rightarrow> usize \<Rightarrow> usize option" where
  "list_channels_from [] n = Some n"
| "list_channels_from (b # bs) n =
     (case checked_add n (buffer_channels b) of None \<Rightarrow> None | Some m \<Rightarrow> list_channels_from bs m)"

definition audio_buffer_list_channels :: "AudioBufferList \<Rightarrow> usize option" where
  "audio_buffer_list_channels bs = list_channels_from bs 0"

definition sample_index :: "usize \<Rightarrow> usize \<Rightarrow> usize \<Rightarrow> usize option" where
  "sample_index frame chans local =
     (case checked_mul frame chans of None \<Rightarrow> None | Some i \<Rightarrow> checked_add i local)"

definition load_sample :: "f32 list option \<Rightarrow> usize \<Rightarrow> f32 access" where
  "load_sample mem i = (case mem of
     Some xs \<Rightarrow> if i < length xs then Ok (xs ! i) else Panic
   | None \<Rightarrow> Panic)"

text \<open>The sum \<open>channel_offset + channels\<close> is below \<open>2 ^ 64\<close> for any list of \<open>u32\<close> length.\<close>

fun read_sample_from :: "AudioBufferList \<Rightarrow> usize \<Rightarrow> usize \<Rightarrow> usize \<Rightarrow> (f32 option) access" where
  "read_sample_from [] channel_offset frame channel = Ok None"
| "read_sample_from (b # bs) channel_offset frame channel =
     (let chans = buffer_channels b in
      if channel < channel_offset + chans then
        and_then (usize_sub channel channel_offset) (\<lambda>local.
        case sample_index frame chans local of
          None \<Rightarrow> Ok None
        | Some i \<Rightarrow>
            if buffer_samples b \<le> i then Ok None
            else and_then (load_sample (buffer_data b) i) (\<lambda>v. Ok (Some v)))
      else read_sample_from bs (channel_offset + chans) frame channel)"

definition read_audio_sample :: "AudioBufferList \<Rightarrow> usize \<Rightarrow> usize \<Rightarrow> (f32 option) access" where
  "read_audio_sample bs frame channel = read_sample_from bs 0 frame channel"

definition add_to_sample :: "f32 \<Rightarrow> usize \<Rightarrow> AudioBuffer \<Rightarrow> AudioBuffer access" where
  "add_to_sample v i b = and_then (load_sample (buffer_data b) i) (\<lambda>old.
     Ok (b\<lparr>buffer_data := map_option (\<lambda>xs. xs[i := fadd F32 old v]) (buffer_data b)\<rparr>))"

fun add_sample_from ::
    "AudioBufferList \<Rightarrow> usize \<Rightarrow> usize \<Rightarrow> usize \<Rightarrow> f32 \<Rightarrow> (bool \<times> AudioBufferList) access" where
  "add_sample_from [] channel_offset frame channel v = Ok (False, [])"
| "add_sample_from (b # bs) channel_offset frame channel v =
     (let chans = buffer_channels b in
      if channel < channel_offset + chans then
        and_then (usize_sub channel channel_offset) (\<lambda>local.
        case sample_index frame chans local of
          None \<Rightarrow> Ok (False, b # bs)
        | Some i \<Rightarrow>
            if buffer_samples b \<le> i then Ok (False, b # bs)
            else and_then (add_to_sample v i b) (\<lambda>b'. Ok (True, b' # bs)))
      else and_then (add_sample_from bs (channel_offset + chans) frame channel v) (\<lambda>(ok, bs').
        Ok (ok, b # bs')))"

definition add_audio_sample ::
    "AudioBufferList \<Rightarrow> usize \<Rightarrow> usize \<Rightarrow> f32 \<Rightarrow> (bool \<times> AudioBufferList) access" where
  "add_audio_sample bs frame channel v = add_sample_from bs 0 frame channel v"

definition clear_buffer :: "AudioBuffer \<Rightarrow> AudioBuffer access" where
  "clear_buffer b = (case buffer_data b of
     None \<Rightarrow> Ok b
   | Some xs \<Rightarrow>
       if length xs < buffer_samples b then Panic
       else Ok (b\<lparr>buffer_data := Some (replicate (buffer_samples b) (fzero F32) @ drop (buffer_samples b) xs)\<rparr>))"

definition clear_audio_buffer_list :: "AudioBufferList \<Rightarrow> AudioBufferList access" where
  "clear_audio_buffer_list bs = traverse clear_buffer bs"

section \<open>What a buffer list holds\<close>

text \<open>Core Audio's promise: the memory behind a buffer has the announced size.\<close>

definition buffer_wf :: "AudioBuffer \<Rightarrow> bool" where
  "buffer_wf b \<longleftrightarrow> (\<forall>xs. buffer_data b = Some xs \<longrightarrow> length xs = buffer_samples b)"

definition total_channels :: "AudioBufferList \<Rightarrow> nat" where
  "total_channels bs = sum_list (map buffer_channels bs)"

text \<open>A validated list: every buffer has the samples of \<open>n\<close> frames.\<close>

definition holds_frames :: "nat \<Rightarrow> AudioBufferList \<Rightarrow> bool" where
  "holds_frames n bs \<longleftrightarrow> list_all (\<lambda>b. 0 < buffer_channels b
     \<and> (\<exists>xs. buffer_data b = Some xs \<and> length xs = n * buffer_channels b)
     \<and> buffer_samples b = n * buffer_channels b) bs"

text \<open>The sample of a frame and a channel.\<close>

fun sample_at :: "AudioBufferList \<Rightarrow> nat \<Rightarrow> nat \<Rightarrow> f32" where
  "sample_at [] f ch = fzero F32"
| "sample_at (b # bs) f ch =
     (if ch < buffer_channels b
      then (case buffer_data b of Some xs \<Rightarrow> xs ! (f * buffer_channels b + ch) | None \<Rightarrow> fzero F32)
      else sample_at bs f (ch - buffer_channels b))"

definition frame_at :: "AudioBufferList \<Rightarrow> nat \<Rightarrow> f32 list" where
  "frame_at bs f = map (sample_at bs f) [0..<total_channels bs]"

lemma buffer_update [simp]:
  "buffer_channels (b\<lparr>buffer_data := d\<rparr>) = buffer_channels b"
  "buffer_samples (b\<lparr>buffer_data := d\<rparr>) = buffer_samples b"
  by (simp_all add: buffer_channels_def buffer_samples_def)

lemma holds_frames_Cons [simp]:
  "holds_frames n (b # bs) \<longleftrightarrow> 0 < buffer_channels b
     \<and> (\<exists>xs. buffer_data b = Some xs \<and> length xs = n * buffer_channels b)
     \<and> buffer_samples b = n * buffer_channels b \<and> holds_frames n bs"
  by (auto simp: holds_frames_def)

lemma total_channels_simps [simp]:
  "total_channels [] = 0" "total_channels (b # bs) = buffer_channels b + total_channels bs"
  by (simp_all add: total_channels_def)

lemma list_frames_holds:
  "list_all buffer_wf bs \<Longrightarrow> list_frames_from bs frms = Some n \<Longrightarrow>
     holds_frames n bs \<and> (\<forall>m. frms = Some m \<longrightarrow> m = n)"
proof (induction bs frms rule: list_frames_from.induct)
  case (2 b bs frms)
  let ?c = "buffer_channels b"
  let ?cur = "unat (data_byte_size b) div (?c * 4)"
  have c: "0 < ?c" "buffer_data b \<noteq> None" "?c * 4 dvd unat (data_byte_size b)"
    and f: "\<forall>m. frms = Some m \<longrightarrow> m = ?cur" and rest: "list_frames_from bs (Some ?cur) = Some n"
    using 2(3) by (auto simp: buffer_channels_def Let_def unat_gt_0 split: if_splits option.splits)
  have "\<not> (number_channels b = 0 \<or> buffer_data b = None)"
    using c by (auto simp: buffer_channels_def)
  moreover have "\<not> (case frms of None \<Rightarrow> False | Some m \<Rightarrow> m \<noteq> ?cur)"
    using f by (auto split: option.split)
  ultimately have "holds_frames n bs \<and> ?cur = n"
    using "2.IH" [OF _ refl _ refl] c(3) rest "2.prems"(1) by auto
  moreover have "buffer_samples b = ?cur * ?c"
    using c(3) by (auto simp: buffer_samples_def)
  ultimately show ?case
    using c "2.prems"(1) f by (auto simp: buffer_wf_def)
qed (simp add: holds_frames_def)

lemma audio_buffer_list_frames_holds:
  assumes "audio_buffer_list_frames bs = Some n" "list_all buffer_wf bs"
  shows "holds_frames n bs"
  using assms list_frames_holds [of bs None n]
  by (auto simp: audio_buffer_list_frames_def holds_frames_def split: if_splits)

lemma list_channels_total:
  "n + total_channels bs < usize_bound \<Longrightarrow> list_channels_from bs n = Some (n + total_channels bs)"
  by (induction bs arbitrary: n) (auto simp: checked_add_def split: option.splits)

lemma list_channels_Some:
  "list_channels_from bs n = Some m \<Longrightarrow> m = n + total_channels bs"
proof (induction bs arbitrary: n)
  case (Cons b bs)
  then have "list_channels_from bs (n + buffer_channels b) = Some m"
    by (auto split: option.splits)
  from Cons.IH [OF this] show ?case by simp
qed simp

section \<open>Reading and adding\<close>

lemma sample_index_ok:
  assumes "f < n" "local < c" "n * c < usize_bound"
  shows "sample_index f c local = Some (f * c + local)" "f * c + local < n * c"
proof -
  show *: "f * c + local < n * c"
    using assms(1,2) frame_slice_bound [OF assms(1), of c] by linarith
  then show "sample_index f c local = Some (f * c + local)"
    using assms(3) by (auto simp: sample_index_def checked_mul_def checked_add_def)
qed

lemma buffer_samples_bound: "buffer_samples b < usize_bound"
proof -
  have "unat (data_byte_size b) < 2 ^ 32" using unsigned_less [of "data_byte_size b"] by simp
  then show ?thesis by (simp add: buffer_samples_def usize_bound_def)
qed

lemma read_sample_ok:
  "holds_frames n bs \<Longrightarrow> f < n \<Longrightarrow> off \<le> ch \<Longrightarrow> ch < off + total_channels bs \<Longrightarrow>
     read_sample_from bs off f ch = Ok (Some (sample_at bs f (ch - off)))"
proof (induction bs arbitrary: off)
  case (Cons b bs)
  then obtain xs where b: "buffer_data b = Some xs" "length xs = n * buffer_channels b"
    "buffer_samples b = n * buffer_channels b" by auto
  show ?case
  proof (cases "ch < off + buffer_channels b")
    case True
    then have l: "ch - off < buffer_channels b" using Cons.prems(3) by simp
    have "n * buffer_channels b < usize_bound" using b(3) buffer_samples_bound [of b] by simp
    note i = sample_index_ok [OF Cons.prems(2) l this]
    show ?thesis
      using True Cons.prems(3) l i b by (simp add: load_sample_def Let_def)
  next
    case False
    then have "off + buffer_channels b \<le> ch" "\<not> ch - off < buffer_channels b" by simp_all
    then show ?thesis using Cons.IH [of "off + buffer_channels b"] Cons.prems by (simp add: Let_def)
  qed
qed simp

lemma read_sample_none:
  "holds_frames n bs \<Longrightarrow> off \<le> ch \<Longrightarrow> n \<le> f \<or> off + total_channels bs \<le> ch \<Longrightarrow>
     read_sample_from bs off f ch = Ok None"
proof (induction bs arbitrary: off)
  case (Cons b bs)
  show ?case
  proof (cases "ch < off + buffer_channels b")
    case True
    have s: "buffer_samples b = n * buffer_channels b" using Cons.prems by simp
    have "n \<le> f" using True Cons.prems(3) by auto
    then have "n * buffer_channels b \<le> f * buffer_channels b + (ch - off)"
      by (intro trans_le_add1 mult_le_mono1)
    then show ?thesis
      using True Cons.prems(2) s
      by (auto simp: Let_def sample_index_def split: option.split)
  next
    case False
    then have "off + buffer_channels b \<le> ch" by simp
    then show ?thesis
      using False Cons.IH [of "off + buffer_channels b"] Cons.prems by (auto simp: Let_def)
  qed
qed simp

text \<open>Adding to one sample changes that sample only.\<close>

definition added :: "nat \<Rightarrow> nat \<Rightarrow> f32 \<Rightarrow> nat \<Rightarrow> AudioBufferList \<Rightarrow> AudioBufferList \<Rightarrow> bool" where
  "added f ch v n bs bs' \<longleftrightarrow> holds_frames n bs' \<and> map buffer_channels bs' = map buffer_channels bs
     \<and> (\<forall>f' ch'. f' < n \<longrightarrow> ch' < total_channels bs \<longrightarrow> sample_at bs' f' ch' =
          (if f' = f \<and> ch' = ch then fadd F32 (sample_at bs f ch) v else sample_at bs f' ch'))"

lemma cell_unique:
  "l < c \<Longrightarrow> l' < c \<Longrightarrow> f * c + l = f' * c + l' \<longleftrightarrow> f = f' \<and> l = (l' :: nat)"
proof
  assume l: "l < c" "l' < c" and e: "f * c + l = f' * c + l'"
  have "(f * c + l) div c = f" "(f' * c + l') div c = f'" "(f * c + l) mod c = l" "(f' * c + l') mod c = l'"
    using l by simp_all
  then show "f = f' \<and> l = l'" using e by metis
qed simp

lemma add_sample_ok:
  "holds_frames n bs \<Longrightarrow> f < n \<Longrightarrow> off \<le> ch \<Longrightarrow> ch < off + total_channels bs \<Longrightarrow>
     \<exists>bs'. (add_sample_from bs off f ch v :: (bool \<times> AudioBufferList) access) = Ok (True, bs') \<and> added f (ch - off) v n bs bs'"
proof (induction bs arbitrary: off)
  case (Cons b bs)
  then obtain xs where b: "buffer_data b = Some xs" "length xs = n * buffer_channels b"
    "buffer_samples b = n * buffer_channels b" "0 < buffer_channels b" by auto
  let ?c = "buffer_channels b"
  show ?case
  proof (cases "ch < off + ?c")
    case True
    let ?l = "ch - off"
    have l: "?l < ?c" using True Cons.prems(3) by simp
    have "n * ?c < usize_bound" using b(3) buffer_samples_bound [of b] by simp
    note i = sample_index_ok [OF Cons.prems(2) l this]
    define b' where "b' = b\<lparr>buffer_data := Some (xs[f * ?c + ?l := fadd F32 (xs ! (f * ?c + ?l)) v])\<rparr>"
    have "(add_sample_from (b # bs) off f ch v :: (bool \<times> AudioBufferList) access) = Ok (True, b' # bs)"
      using True Cons.prems(3) l i b by (simp add: load_sample_def add_to_sample_def Let_def b'_def)
    moreover have "sample_at (b' # bs) f' ch' = (if f' = f \<and> ch' = ?l
        then fadd F32 (sample_at (b # bs) f ?l) v else sample_at (b # bs) f' ch')"
      if "f' < n" "ch' < total_channels (b # bs)" for f' ch'
    proof (cases "ch' < ?c")
      case ch': True
      have "f' * ?c + ch' < length xs" using frame_slice_bound [OF that(1), of ?c] ch' b(2) by linarith
      then show ?thesis
        using ch' l b cell_unique [OF l ch', of f f'] i(2)
        by (auto simp: b'_def nth_list_update)
    next
      case False
      then show ?thesis using l by (auto simp: b'_def)
    qed
    moreover have "holds_frames n (b' # bs)" "map buffer_channels (b' # bs) = map buffer_channels (b # bs)"
      using Cons.prems(1) b by (auto simp: b'_def)
    ultimately show ?thesis unfolding added_def by blast
  next
    case False
    then obtain bs' where
      bs': "(add_sample_from bs (off + ?c) f ch v :: (bool \<times> AudioBufferList) access) = Ok (True, bs')"
      "added f (ch - (off + ?c)) v n bs bs'"
      using Cons.IH [of "off + ?c"] Cons.prems by auto
    have "(add_sample_from (b # bs) off f ch v :: (bool \<times> AudioBufferList) access) = Ok (True, b # bs')"
      using False bs'(1) by (simp add: Let_def)
    moreover have "sample_at (b # bs') f' ch' = (if f' = f \<and> ch' = ch - off
        then fadd F32 (sample_at (b # bs) f (ch - off)) v else sample_at (b # bs) f' ch')"
      if "f' < n" "ch' < total_channels (b # bs)" for f' ch'
      using bs'(2) that False Cons.prems(3) by (auto simp: added_def)
    moreover have "holds_frames n (b # bs')" "map buffer_channels (b # bs') = map buffer_channels (b # bs)"
      using bs'(2) Cons.prems(1) by (auto simp: added_def)
    ultimately show ?thesis unfolding added_def by blast
  qed
qed simp

lemma read_audio_sample_ok:
  "holds_frames n bs \<Longrightarrow> f < n \<Longrightarrow> ch < total_channels bs \<Longrightarrow>
     read_audio_sample bs f ch = Ok (Some (sample_at bs f ch))"
  using read_sample_ok [of n bs f 0 ch] by (simp add: read_audio_sample_def)

lemma add_sample_none:
  "holds_frames n bs \<Longrightarrow> off \<le> ch \<Longrightarrow> n \<le> f \<or> off + total_channels bs \<le> ch \<Longrightarrow>
     add_sample_from bs off f ch v = Ok (False, bs)"
proof (induction bs arbitrary: off)
  case (Cons b bs)
  show ?case
  proof (cases "ch < off + buffer_channels b")
    case True
    have s: "buffer_samples b = n * buffer_channels b" using Cons.prems by simp
    have "n \<le> f" using True Cons.prems(3) by auto
    then have "n * buffer_channels b \<le> f * buffer_channels b + (ch - off)"
      by (intro trans_le_add1 mult_le_mono1)
    then show ?thesis
      using True Cons.prems(2) s by (auto simp: Let_def sample_index_def split: option.split)
  next
    case False
    then have "off + buffer_channels b \<le> ch" by simp
    then show ?thesis
      using False Cons.IH [of "off + buffer_channels b"] Cons.prems by (auto simp: Let_def)
  qed
qed simp

section \<open>Clearing\<close>

definition cleared :: "AudioBuffer \<Rightarrow> AudioBuffer" where
  "cleared b = b\<lparr>buffer_data := map_option (\<lambda>xs. replicate (length xs) (fzero F32)) (buffer_data b)\<rparr>"

lemma cleared_update [simp]:
  "buffer_channels (cleared b) = buffer_channels b" "buffer_samples (cleared b) = buffer_samples b"
  "number_channels (cleared b) = number_channels b" "data_byte_size (cleared b) = data_byte_size b"
  "buffer_data (cleared b) = None \<longleftrightarrow> buffer_data b = None"
  by (simp_all add: cleared_def)

lemma clear_ok: "list_all buffer_wf bs \<Longrightarrow> clear_audio_buffer_list bs = Ok (map cleared bs)"
proof (induction bs)
  case (Cons b bs)
  then have "clear_buffer b = Ok (cleared b)"
    by (cases b) (auto simp: clear_buffer_def cleared_def buffer_wf_def buffer_samples_def split: option.split)
  then show ?case using Cons by (simp add: clear_audio_buffer_list_def)
qed (simp add: clear_audio_buffer_list_def)

lemma cleared_total [simp]: "total_channels (map cleared bs) = total_channels bs"
  by (simp add: total_channels_def comp_def)

lemma cleared_holds: "holds_frames n bs \<Longrightarrow> holds_frames n (map cleared bs)"
  by (induction bs) (auto simp: cleared_def)

lemma cleared_wf: "list_all buffer_wf bs \<Longrightarrow> list_all buffer_wf (map cleared bs)"
  by (induction bs) (auto simp: buffer_wf_def cleared_def)

lemma cleared_frames [simp]: "audio_buffer_list_frames (map cleared bs) = audio_buffer_list_frames bs"
proof -
  have "list_frames_from (map cleared bs) frms = list_frames_from bs frms" for frms
    by (induction bs arbitrary: frms) (simp_all add: Let_def)
  then show ?thesis by (simp add: audio_buffer_list_frames_def)
qed

lemma cleared_channels [simp]: "audio_buffer_list_channels (map cleared bs) = audio_buffer_list_channels bs"
proof -
  have "list_channels_from (map cleared bs) n = list_channels_from bs n" for n
    by (induction bs arbitrary: n) (simp_all cong: option.case_cong)
  then show ?thesis by (simp add: audio_buffer_list_channels_def)
qed

lemma cleared_sample:
  "holds_frames n bs \<Longrightarrow> f < n \<Longrightarrow> ch < total_channels bs \<Longrightarrow> sample_at (map cleared bs) f ch = fzero F32"
proof (induction bs arbitrary: ch)
  case (Cons b bs)
  then obtain xs where b: "buffer_data b = Some xs" "length xs = n * buffer_channels b" by auto
  have "f * buffer_channels b + ch < length xs" if "ch < buffer_channels b"
    using frame_slice_bound [OF Cons.prems(2), of "buffer_channels b"] that b(2) by linarith
  then show ?case using Cons b by (auto simp: cleared_def)
qed simp

section \<open>Mixing into a list\<close>

text \<open>
  The loops over the channels of a frame: \<open>chs\<close> are the channels still to come, \<open>sample\<close> gives the
  value for each, and the first write that fails ends the loop.
\<close>

fun add_channels ::
    "('m \<Rightarrow> usize \<Rightarrow> usize \<Rightarrow> f32 \<Rightarrow> (bool \<times> 'm) access) \<Rightarrow> (usize \<Rightarrow> f32 access) \<Rightarrow>
     usize \<Rightarrow> usize list \<Rightarrow> 'm \<Rightarrow> (bool \<times> 'm) access" where
  "add_channels add sample f [] m = Ok (True, m)"
| "add_channels add sample f (ch # chs) m =
     and_then (sample ch) (\<lambda>v.
     and_then (add m f ch v) (\<lambda>(ok, m').
       if ok then add_channels add sample f chs m' else Ok (False, m')))"

text \<open>What the callbacks rely on: a grid of samples in which one sample can be added to.\<close>

locale sample_grid =
  fixes get :: "'m \<Rightarrow> nat \<Rightarrow> nat \<Rightarrow> f32"
    and add :: "'m \<Rightarrow> nat \<Rightarrow> nat \<Rightarrow> f32 \<Rightarrow> (bool \<times> 'm) access"
    and grid :: "nat \<Rightarrow> nat \<Rightarrow> 'm \<Rightarrow> bool"
  assumes add_ok: "grid n c m \<Longrightarrow> f < n \<Longrightarrow> ch < c \<Longrightarrow> \<exists>m'. add m f ch v = Ok (True, m') \<and> grid n c m'
      \<and> (\<forall>f' < n. \<forall>ch' < c. get m' f' ch' =
           (if f' = f \<and> ch' = ch then fadd F32 (get m f ch) v else get m f' ch'))"
    and add_outside: "grid n c m \<Longrightarrow> n \<le> f \<or> c \<le> ch \<Longrightarrow> add m f ch v = Ok (False, m)"
begin

lemma add_channels_ok:
  "grid n c m \<Longrightarrow> f < n \<Longrightarrow> set chs \<subseteq> {..<c} \<Longrightarrow> distinct chs \<Longrightarrow> (\<And>ch. ch \<in> set chs \<Longrightarrow> sample ch = Ok (s ch)) \<Longrightarrow>
     \<exists>m'. add_channels add sample f chs m = Ok (True, m') \<and> grid n c m'
       \<and> (\<forall>f' < n. \<forall>ch' < c. get m' f' ch' =
           (if f' = f \<and> ch' \<in> set chs then fadd F32 (get m f ch') (s ch') else get m f' ch'))"
proof (induction chs arbitrary: m)
  case (Cons ch chs)
  have "ch < c" using Cons.prems(3) by simp
  then obtain m1 where m1: "add m f ch (s ch) = Ok (True, m1)" "grid n c m1"
    "\<forall>f' < n. \<forall>ch' < c. get m1 f' ch' = (if f' = f \<and> ch' = ch then fadd F32 (get m f ch) (s ch) else get m f' ch')"
    using add_ok [OF Cons.prems(1,2)] by blast
  obtain m' where m': "add_channels add sample f chs m1 = Ok (True, m')" "grid n c m'"
    "\<forall>f' < n. \<forall>ch' < c. get m' f' ch' =
       (if f' = f \<and> ch' \<in> set chs then fadd F32 (get m1 f ch') (s ch') else get m1 f' ch')"
    using Cons.IH [OF m1(2) Cons.prems(2)] Cons.prems(3,4,5) by auto
  have "add_channels add sample f (ch # chs) m = Ok (True, m')"
    using Cons.prems(5) [of ch] m1(1) m'(1) by simp
  moreover have "\<forall>f' < n. \<forall>ch' < c. get m' f' ch' =
      (if f' = f \<and> ch' \<in> set (ch # chs) then fadd F32 (get m f ch') (s ch') else get m f' ch')"
    using m1(3) m'(3) Cons.prems(2,4) by auto
  ultimately show ?case using m'(2) by blast
qed simp

lemma add_channels_returns:
  "grid n c m \<Longrightarrow> (\<And>ch. ch \<in> set chs \<Longrightarrow> \<exists>v. sample ch = Ok v) \<Longrightarrow>
     \<exists>ok m'. add_channels add sample f chs m = Ok (ok, m') \<and> grid n c m'"
proof (induction chs arbitrary: m)
  case (Cons ch chs)
  obtain v where v: "sample ch = Ok v" using Cons.prems(2) by auto
  show ?case
  proof (cases "f < n \<and> ch < c")
    case True
    then obtain m1 where "add m f ch v = Ok (True, m1)" "grid n c m1" using add_ok [OF Cons.prems(1)] by blast
    then show ?thesis using Cons.IH [of m1] Cons.prems(2) v by simp
  next
    case False
    then have "n \<le> f \<or> c \<le> ch" by auto
    then show ?thesis using add_outside [OF Cons.prems(1)] Cons.prems(1) v by (simp add: ex_bool_eq)
  qed
qed (simp add: ex_bool_eq)

end

definition audio_grid :: "nat \<Rightarrow> nat \<Rightarrow> AudioBufferList \<Rightarrow> bool" where
  "audio_grid n c bs \<longleftrightarrow> holds_frames n bs \<and> total_channels bs = c"

lemma added_channels: "added f ch v n bs bs' \<Longrightarrow> total_channels bs' = total_channels bs"
  by (simp add: added_def total_channels_def)

lemma audio_grid_add:
  assumes "audio_grid n c bs" "f < n" "ch < c"
  shows "\<exists>bs'. add_audio_sample bs f ch v = Ok (True, bs') \<and> audio_grid n c bs'
      \<and> (\<forall>f' < n. \<forall>ch' < c. sample_at bs' f' ch' =
           (if f' = f \<and> ch' = ch then fadd F32 (sample_at bs f ch) v else sample_at bs f' ch'))"
proof -
  obtain bs' where bs': "add_audio_sample bs f ch v = Ok (True, bs')" "added f ch v n bs bs'"
    using add_sample_ok [of n bs f 0 ch v] assms by (auto simp: add_audio_sample_def audio_grid_def)
  then have "audio_grid n c bs'"
    using assms(1) added_channels [OF bs'(2)] by (simp add: audio_grid_def added_def)
  moreover have "\<forall>f' < n. \<forall>ch' < c. sample_at bs' f' ch' =
      (if f' = f \<and> ch' = ch then fadd F32 (sample_at bs f ch) v else sample_at bs f' ch')"
    using bs'(2) assms(1) unfolding added_def audio_grid_def by blast
  ultimately show ?thesis using bs'(1) by blast
qed

interpretation abl: sample_grid sample_at add_audio_sample audio_grid
proof
  fix n c bs f ch v assume "audio_grid n c bs" "n \<le> f \<or> c \<le> ch"
  then show "add_audio_sample bs f ch v = Ok (False, bs)"
    using add_sample_none [of n bs 0 ch f v] by (auto simp: add_audio_sample_def audio_grid_def)
qed (rule audio_grid_add)

section \<open>Properties\<close>

definition demo_list :: AudioBufferList where
  "demo_list = [\<lparr>number_channels = 1, data_byte_size = 8, buffer_data = Some [fzero F32, fone F32]\<rparr>,
     \<lparr>number_channels = 2, data_byte_size = 16,
       buffer_data = Some [fzero F32, fone F32, fone F32, fzero F32]\<rparr>]"

lemma demo_list_ok: "list_all buffer_wf demo_list" "audio_buffer_list_frames demo_list = Some 2"
  "total_channels demo_list = 3"
  by (simp_all add: demo_list_def buffer_wf_def buffer_samples_def audio_buffer_list_frames_def
      buffer_channels_def Let_def)

text \<open>C38: Access to the audio buffers is exact and in bounds. On a list that passes
  \<open>audio_buffer_list_frames\<close>, and whose buffers have the size they announce, no access leaves a
  buffer; a sample can be read exactly inside of the frames and channels; adding to one changes that
  sample only, never an aliased one; clearing makes every sample zero and keeps the geometry.\<close>

theorem audio_buffer_access_exact:
  assumes "list_all buffer_wf bs" "audio_buffer_list_frames bs = Some n"
  shows "read_audio_sample bs f ch =
      Ok (if f < n \<and> ch < total_channels bs then Some (sample_at bs f ch) else None)
    \<and> (\<exists>bs'. add_audio_sample bs f ch v = Ok (f < n \<and> ch < total_channels bs, bs')
        \<and> total_channels bs' = total_channels bs
        \<and> (\<forall>f' < n. \<forall>ch' < total_channels bs. sample_at bs' f' ch' =
             (if f' = f \<and> ch' = ch then fadd F32 (sample_at bs f ch) v else sample_at bs f' ch')))
    \<and> (\<exists>bs'. clear_audio_buffer_list bs = Ok bs' \<and> audio_buffer_list_frames bs' = Some n
        \<and> total_channels bs' = total_channels bs
        \<and> (\<forall>f' < n. \<forall>ch' < total_channels bs. sample_at bs' f' ch' = fzero F32))"
proof -
  have h: "holds_frames n bs" using audio_buffer_list_frames_holds [OF assms(2,1)] .
  then have g: "audio_grid n (total_channels bs) bs" by (simp add: audio_grid_def)
  have "read_audio_sample bs f ch =
      Ok (if f < n \<and> ch < total_channels bs then Some (sample_at bs f ch) else None)"
    using read_audio_sample_ok [OF h] read_sample_none [OF h, of 0 ch f]
    by (auto simp: read_audio_sample_def not_less)
  moreover have "\<exists>bs'. add_audio_sample bs f ch v = Ok (f < n \<and> ch < total_channels bs, bs')
        \<and> total_channels bs' = total_channels bs
        \<and> (\<forall>f' < n. \<forall>ch' < total_channels bs. sample_at bs' f' ch' =
             (if f' = f \<and> ch' = ch then fadd F32 (sample_at bs f ch) v else sample_at bs f' ch'))"
  proof (cases "f < n \<and> ch < total_channels bs")
    case True
    then show ?thesis using abl.add_ok [OF g, of f ch v] by (auto simp: audio_grid_def)
  next
    case False
    then show ?thesis using abl.add_outside [OF g, of f ch v] by (auto simp: not_less)
  qed
  moreover have "\<exists>bs'. clear_audio_buffer_list bs = Ok bs' \<and> audio_buffer_list_frames bs' = Some n
        \<and> total_channels bs' = total_channels bs
        \<and> (\<forall>f' < n. \<forall>ch' < total_channels bs. sample_at bs' f' ch' = fzero F32)"
    using clear_ok [OF assms(1)] cleared_sample [OF h] assms(2) by simp
  ultimately show ?thesis by blast
qed

theorem audio_buffer_access_exact_witness:
  "read_audio_sample demo_list 1 1 = Ok (Some (fone F32)) \<and> read_audio_sample demo_list 2 1 = Ok None"
proof -
  have "sample_at demo_list 1 1 = fone F32" by (simp add: demo_list_def buffer_channels_def)
  then show ?thesis
    using audio_buffer_access_exact [OF demo_list_ok(1,2), of 1 1 "fzero F32"]
      audio_buffer_access_exact [OF demo_list_ok(1,2), of 2 1 "fzero F32"]
    by (simp add: demo_list_ok)
qed

end
