(* ===== verification/RouterIo.thy ===== *)
theory RouterIo
  imports AudioBuffers ChannelMatrix
begin

text \<open>
  The router's half of \<open>crates/vcable-coreaudio/src/platform.rs\<close>: \<open>audio_device_io_proc\<close>, the
  callback that runs once per I/O cycle of a device. It copies the captured frames into the ring of
  every route that starts at the device, and resamples and mixes into the output list the frames of
  every route that ends there.

  A ring is shared by the two ends of its route, which may belong to one device, so the rings live
  in a store and a route holds the index of its own (the \<open>Arc\<close> of the code).
\<close>

section \<open>State\<close>

record RouterMetrics =
  underruns :: u64
  overruns :: u64
  router_format_errors :: u64

definition router_metrics_new :: RouterMetrics where
  "router_metrics_new = \<lparr>underruns = 0, overruns = 0, router_format_errors = 0\<rparr>"

text \<open>\<open>fetch_add(1, Relaxed)\<close> wraps.\<close>

definition count_underrun :: "RouterMetrics \<Rightarrow> RouterMetrics" where
  "count_underrun m = m\<lparr>underruns := underruns m + 1\<rparr>"

definition count_overrun :: "RouterMetrics \<Rightarrow> RouterMetrics" where
  "count_overrun m = m\<lparr>overruns := overruns m + 1\<rparr>"

definition count_format_error :: "RouterMetrics \<Rightarrow> RouterMetrics" where
  "count_format_error m = m\<lparr>router_format_errors := router_format_errors m + 1\<rparr>"

record OutgoingRoute =
  out_ring :: nat
  out_channels :: usize

record IncomingRoute =
  in_ring :: nat
  in_channels :: usize          \<comment> \<open>\<open>source_channels\<close>\<close>
  in_sink_channels :: usize
  in_step :: f64                \<comment> \<open>\<open>nominal_step\<close>\<close>
  in_gain :: f32
  in_matrix :: "f32 list"
  in_current :: "f32 list"
  in_next :: "f32 list"
  in_interpolated :: "f32 list"
  in_phase :: f64
  in_primed :: bool

text \<open>A null procedure id is \<open>0\<close>.\<close>

record DeviceIoContext =
  ctx_device :: u32
  outgoing :: "OutgoingRoute list"
  incoming :: "IncomingRoute list"
  ctx_procedure :: u64
  ctx_running :: bool

record router_store =
  rings :: "ring list"
  router_metrics :: RouterMetrics

section \<open>The resampler of a route\<close>

definition startup_frames :: usize where
  "startup_frames = 512"

type_synonym route_io = "IncomingRoute \<times> ring \<times> RouterMetrics"

text \<open>\<open>pop\<close> into every sample of a slice, up to the first that fails.\<close>

fun pop_each :: "f32 list \<Rightarrow> ring \<Rightarrow> bool \<times> f32 list \<times> ring" where
  "pop_each [] q = (True, [], q)"
| "pop_each (x # xs) q = (case pop q of
       (None, q1) \<Rightarrow> (False, x # xs, q1)
     | (Some v, q1) \<Rightarrow> (let (ok, ys, q2) = pop_each xs q1 in (ok, v # ys, q2)))"

definition read_source_frame :: "bool \<Rightarrow> IncomingRoute \<Rightarrow> ring \<Rightarrow> bool \<times> IncomingRoute \<times> ring" where
  "read_source_frame is_next r q =
     (if consumer_available q < in_channels r then (False, r, q)
      else if is_next then let (ok, xs, q1) = pop_each (in_next r) q in (ok, r\<lparr>in_next := xs\<rparr>, q1)
      else let (ok, xs, q1) = pop_each (in_current r) q in (ok, r\<lparr>in_current := xs\<rparr>, q1))"

definition route_prime :: "route_io \<Rightarrow> (bool \<times> route_io) access" where
  "route_prime = (\<lambda>(r, q, m).
     if in_primed r then Ok (True, (r, q, m))
     else and_then (usize_div (consumer_available q) (in_channels r)) (\<lambda>buffered.
       if buffered < startup_frames then Ok (False, (r, q, m))
       else let (ok, r1, q1) = read_source_frame False r q in
         if \<not> ok then Ok (False, (r1, q1, count_underrun m))
         else let (ok, r2, q2) = read_source_frame True r1 q1 in
           if \<not> ok then Ok (False, (r2, q2, count_underrun m))
           else Ok (True, (r2\<lparr>in_phase := fzero F64, in_primed := True\<rparr>, q2, m))))"

definition route_interpolate :: "IncomingRoute \<Rightarrow> IncomingRoute access" where
  "route_interpolate r =
     (let n = in_channels r; p = convert F32 (in_phase r)
      in if n \<le> length (in_interpolated r) \<and> n \<le> length (in_current r) \<and> n \<le> length (in_next r)
         then Ok (r\<lparr>in_interpolated :=
             map (\<lambda>i. lerp (in_current r ! i) (in_next r ! i) p) [0..<n] @ drop n (in_interpolated r)\<rparr>)
         else Panic)"

definition route_correction :: "usize \<Rightarrow> f64 access" where
  "route_correction buffered =
     (let target = of_natural F64 startup_frames;
          error = fdiv F64 (fsub F64 (of_natural F64 buffered) target) target
      in fclamp (fmul F64 error (decimal F64 False 5 10000))
           (fneg (decimal F64 False 1 1000)) (decimal F64 False 1 1000))"

text \<open>The \<open>while\<close> loop on the phase; the flag records the \<open>break\<close>.\<close>

definition route_advance_body :: "bool \<times> route_io \<Rightarrow> (bool \<times> route_io) access" where
  "route_advance_body = (\<lambda>(broken, r, q, m).
     if length (in_current r) \<noteq> length (in_next r) then Panic
     else let (ok, r1, q1) = read_source_frame True (r\<lparr>in_current := in_next r\<rparr>) q in
       if \<not> ok then Ok (True, (r1\<lparr>in_primed := False\<rparr>, q1, count_underrun m))
       else Ok (False, (r1\<lparr>in_phase := fsub F64 (in_phase r1) (fone F64)\<rparr>, q1, m)))"

definition route_loop :: "bool \<times> route_io \<Rightarrow> (bool \<times> route_io, PcmStreamError) comp" where
  "route_loop = while_res (\<lambda>(broken, r, q, m). \<not> broken \<and> fle (fone F64) (in_phase r)) route_advance_body"

definition prepare_output_frame :: "route_io \<Rightarrow> (bool \<times> route_io, PcmStreamError) comp" where
  "prepare_output_frame s =
     and_run (Some (route_prime s)) (\<lambda>(go, (r, q, m)).
     if \<not> go then ret (False, (r, q, m))
     else and_run (Some (route_interpolate r)) (\<lambda>r1.
       and_run (Some (usize_div (consumer_available q) (in_channels r1))) (\<lambda>buffered.
       and_run (Some (route_correction buffered)) (\<lambda>correction.
       let r2 = r1\<lparr>in_phase := fadd F64 (in_phase r1)
             (fmul F64 (in_step r1) (fadd F64 (fone F64) correction))\<rparr> in
       and_run (route_loop (False, (r2, q, m))) (\<lambda>(broken, s1). ret (True, s1))))))"

text \<open>The slice bounds panic, and so does the product in a build with overflow checks.\<close>

definition mixed_sample :: "IncomingRoute \<Rightarrow> usize \<Rightarrow> f32 access" where
  "mixed_sample r sink_channel =
     (case checked_mul sink_channel (in_channels r) of
        None \<Rightarrow> Panic
      | Some start \<Rightarrow>
          and_then (slice start (in_channels r) (in_matrix r)) (\<lambda>row.
          Ok (fmul F32 (dot row (in_interpolated r)) (in_gain r))))"

section \<open>The callback\<close>

definition ring_of :: "nat \<Rightarrow> router_store \<Rightarrow> ring access" where
  "ring_of i s = (if i < length (rings s) then Ok (rings s ! i) else Panic)"

definition set_ring :: "nat \<Rightarrow> ring \<Rightarrow> router_store \<Rightarrow> router_store" where
  "set_ring i q s = s\<lparr>rings := (rings s)[i := q]\<rparr>"

definition router_meter :: "(RouterMetrics \<Rightarrow> RouterMetrics) \<Rightarrow> router_store \<Rightarrow> router_store" where
  "router_meter f s = s\<lparr>router_metrics := f (router_metrics s)\<rparr>"

text \<open>The channels of one frame; \<open>debug_assert!(pushed)\<close> is a panic.\<close>

fun push_channels :: "AudioBufferList \<Rightarrow> usize \<Rightarrow> usize list \<Rightarrow> ring \<Rightarrow> (bool \<times> ring) access" where
  "push_channels inp f [] q = Ok (True, q)"
| "push_channels inp f (ch # chs) q =
     and_then (read_audio_sample inp f ch) (\<lambda>sample.
       case sample of
         None \<Rightarrow> Ok (False, q)
       | Some v \<Rightarrow> (let (pushed, q1) = push v q in if pushed then push_channels inp f chs q1 else Panic))"

fun outgoing_routes ::
    "AudioBufferList \<Rightarrow> usize \<Rightarrow> OutgoingRoute list \<Rightarrow> router_store \<Rightarrow> (bool \<times> router_store) access" where
  "outgoing_routes inp f [] s = Ok (True, s)"
| "outgoing_routes inp f (r # rs) s =
     and_then (ring_of (out_ring r) s) (\<lambda>q.
       if producer_available q < out_channels r
       then outgoing_routes inp f rs (router_meter count_overrun s)
       else and_then (push_channels inp f [0..<out_channels r] q) (\<lambda>(ok, q1).
         if ok then outgoing_routes inp f rs (set_ring (out_ring r) q1 s)
         else Ok (False, router_meter count_format_error (set_ring (out_ring r) q1 s))))"

fun outgoing_frames ::
    "AudioBufferList \<Rightarrow> usize list \<Rightarrow> OutgoingRoute list \<Rightarrow> router_store \<Rightarrow> (bool \<times> router_store) access" where
  "outgoing_frames inp [] rs s = Ok (True, s)"
| "outgoing_frames inp (f # fs) rs s =
     and_then (outgoing_routes inp f rs s) (\<lambda>(ok, s1).
       if ok then outgoing_frames inp fs rs s1 else Ok (False, s1))"

fun incoming_frames ::
    "usize list \<Rightarrow> AudioBufferList \<Rightarrow> route_io \<Rightarrow> (bool \<times> AudioBufferList \<times> route_io, PcmStreamError) comp" where
  "incoming_frames [] out s = ret (True, out, s)"
| "incoming_frames (f # fs) out s =
     and_run (prepare_output_frame s) (\<lambda>(ok, (r, q, m)).
       if \<not> ok then incoming_frames fs out (r, q, m)
       else and_run (Some (add_channels add_audio_sample (mixed_sample r) f [0..<in_sink_channels r] out))
         (\<lambda>(valid, out1).
           if valid then incoming_frames fs out1 (r, q, m)
           else ret (False, out1, (r, q, count_format_error m))))"

fun incoming_routes ::
    "usize \<Rightarrow> IncomingRoute list \<Rightarrow> AudioBufferList \<Rightarrow> router_store \<Rightarrow>
     (bool \<times> IncomingRoute list \<times> AudioBufferList \<times> router_store, PcmStreamError) comp" where
  "incoming_routes n [] out s = ret (True, [], out, s)"
| "incoming_routes n (r # rs) out s =
     and_run (Some (ring_of (in_ring r) s)) (\<lambda>q.
     and_run (incoming_frames [0..<n] out (r, q, router_metrics s)) (\<lambda>(ok, out1, (r1, q1, m1)).
     let s1 = (set_ring (in_ring r) q1 s)\<lparr>router_metrics := m1\<rparr> in
     if \<not> ok then ret (False, r1 # rs, out1, s1)
     else and_run (incoming_routes n rs out1 s1) (\<lambda>(ok2, rs2, out2, s2). ret (ok2, r1 # rs2, out2, s2))))"

text \<open>The two halves; the flag is false when the callback returns early.\<close>

definition router_capture ::
    "OutgoingRoute list \<Rightarrow> AudioBufferList option \<Rightarrow> router_store \<Rightarrow> (bool \<times> router_store) access" where
  "router_capture outs inp s =
     (case inp of
        Some bs \<Rightarrow>
          if outs = [] then Ok (True, s)
          else (case audio_buffer_list_frames bs of
              None \<Rightarrow> Ok (False, router_meter count_format_error s)
            | Some n \<Rightarrow> outgoing_frames bs [0..<n] outs s)
      | None \<Rightarrow> Ok (True, s))"

definition router_playback ::
    "IncomingRoute list \<Rightarrow> AudioBufferList option \<Rightarrow> router_store \<Rightarrow>
     (IncomingRoute list \<times> AudioBufferList option \<times> router_store, PcmStreamError) comp" where
  "router_playback ins outp s =
     (case outp of
        Some bs \<Rightarrow>
          if ins = [] then ret (ins, outp, s)
          else (case audio_buffer_list_frames bs of
              None \<Rightarrow> ret (ins, outp, router_meter count_format_error s)
            | Some n \<Rightarrow>
                and_run (Some (clear_audio_buffer_list bs)) (\<lambda>bs1.
                and_run (incoming_routes n ins bs1 s) (\<lambda>(ok, ins1, bs2, s1). ret (ins1, Some bs2, s1))))
      | None \<Rightarrow> ret (ins, outp, s))"

definition audio_device_io_proc ::
    "DeviceIoContext option \<Rightarrow> router_store \<Rightarrow> AudioBufferList option \<Rightarrow> AudioBufferList option \<Rightarrow>
     (int \<times> DeviceIoContext option \<times> router_store \<times> AudioBufferList option, PcmStreamError) comp" where
  "audio_device_io_proc client s inp outp =
     (case client of
        None \<Rightarrow> ret (- 1, None, s, outp)
      | Some ctx \<Rightarrow>
          and_run (Some (router_capture (outgoing ctx) inp s)) (\<lambda>(ok, s1).
          if \<not> ok then ret (0, Some ctx, s1, outp)
          else and_run (router_playback (incoming ctx) outp s1) (\<lambda>(ins, outp1, s2).
            ret (0, Some (ctx\<lparr>incoming := ins\<rparr>), s2, outp1))))"

end
