(* ===== verification/PcmIo.thy ===== *)
theory PcmIo
  imports AudioBuffers PcmProperties
begin

text \<open>
  \<open>pcm_audio_device_io_proc\<close> of \<open>crates/vcable-coreaudio/src/platform.rs\<close>: the Core Audio callback of
  a PCM stream. The playback half fills the output list from the resampler, the capture half appends
  the input frames to the ring. A null pointer is \<open>None\<close>. The properties compose the buffer lists
  with the stream: what a callback leaves in the buffers and in the ring.
\<close>

section \<open>Playback\<close>

text \<open>The loop over the frames still to come.\<close>

fun playback_frames ::
    "usize list \<Rightarrow> AudioBufferList \<Rightarrow> reading \<Rightarrow> (AudioBufferList \<times> reading, PcmStreamError) comp" where
  "playback_frames [] out s = ret (out, s)"
| "playback_frames (f # fs) out s =
     and_run (playback_next_frame s) (\<lambda>(frame, s1).
       case frame of
         None \<Rightarrow> playback_frames fs out s1
       | Some xs \<Rightarrow>
           and_run (Some (add_channels add_audio_sample (\<lambda>ch. Ok (xs ! ch)) f [0..<length xs] out)) (\<lambda>(valid, out1).
           if valid then playback_frames fs out1 s1
           else ret (out1, (fst s1, meter format_error (snd s1)))))"

definition playback_io ::
    "AudioBufferList option \<Rightarrow> reading \<Rightarrow> (AudioBufferList option \<times> reading, PcmStreamError) comp" where
  "playback_io outp = (\<lambda>(r, sh).
     let sh1 = meter callback sh; bad = meter format_error sh1 in
     case outp of
       None \<Rightarrow> ret (None, (r, bad))
     | Some out \<Rightarrow>
         and_run (Some (clear_audio_buffer_list out)) (\<lambda>out1.
         case audio_buffer_list_frames out1 of
           None \<Rightarrow> ret (Some out1, (r, bad))
         | Some n \<Rightarrow>
             if audio_buffer_list_channels out1 \<noteq> Some (rs_channels r) then ret (Some out1, (r, bad))
             else and_run (playback_frames [0..<n] out1 (r, sh1)) (\<lambda>(out2, s2). ret (Some out2, s2))))"

section \<open>Capture\<close>

fun capture_channels ::
    "AudioBufferList \<Rightarrow> usize \<Rightarrow> usize list \<Rightarrow> CaptureCallbackState \<Rightarrow> (bool \<times> CaptureCallbackState) access" where
  "capture_channels inp f [] c = Ok (True, c)"
| "capture_channels inp f (ch # chs) c =
     and_then (read_audio_sample inp f ch) (\<lambda>sample.
       case sample of
         None \<Rightarrow> Ok (False, c)
       | Some v \<Rightarrow>
           if ch < length (scratch c) then capture_channels inp f chs (c\<lparr>scratch := (scratch c)[ch := v]\<rparr>)
           else Panic)"

fun capture_frames ::
    "AudioBufferList \<Rightarrow> usize list \<Rightarrow> CaptureCallbackState \<times> pcm_shared \<Rightarrow> (CaptureCallbackState \<times> pcm_shared) access" where
  "capture_frames inp [] s = Ok s"
| "capture_frames inp (f # fs) s =
     (let (c, sh) = s in
      and_then (has_capacity_for_frame c sh) (\<lambda>has_room.
        if \<not> has_room then capture_frames inp fs (c, meter (overrun 1) sh)
        else and_then (capture_channels inp f [0..<c_channels c] c) (\<lambda>(ok, c1).
          if \<not> ok then Ok (c1, meter format_error sh)
          else capture_frames inp fs (c1, commit_scratch_frame c1 sh))))"

definition capture_io ::
    "AudioBufferList option \<Rightarrow> CaptureCallbackState \<times> pcm_shared \<Rightarrow> (CaptureCallbackState \<times> pcm_shared) access" where
  "capture_io inp = (\<lambda>(c, sh).
     let sh1 = meter callback sh; bad = meter format_error sh1 in
     case inp of
       None \<Rightarrow> Ok (c, bad)
     | Some bs \<Rightarrow> (case audio_buffer_list_frames bs of
         None \<Rightarrow> Ok (c, bad)
       | Some n \<Rightarrow>
           if audio_buffer_list_channels bs \<noteq> Some (c_channels c) then Ok (c, bad)
           else capture_frames bs [0..<n] (c, sh1)))"

section \<open>The callback\<close>

datatype PcmCallback = Playback RingResampler | Capture CaptureCallbackState

text \<open>The client data, the shared part of the stream, and the two lists: the status returned, the
  callback state, the shared part and the output list afterwards.\<close>

definition pcm_audio_device_io_proc ::
    "PcmCallback option \<Rightarrow> pcm_shared \<Rightarrow> AudioBufferList option \<Rightarrow> AudioBufferList option \<Rightarrow>
     (int \<times> PcmCallback option \<times> pcm_shared \<times> AudioBufferList option, PcmStreamError) comp" where
  "pcm_audio_device_io_proc client sh inp outp =
     (case client of
        None \<Rightarrow> ret (- 1, None, sh, outp)
      | Some (Playback r) \<Rightarrow>
          and_run (playback_io outp (r, sh)) (\<lambda>(outp1, (r1, sh1)). ret (0, Some (Playback r1), sh1, outp1))
      | Some (Capture c) \<Rightarrow>
          and_run (Some (capture_io inp (c, sh))) (\<lambda>(c1, sh1). ret (0, Some (Capture c1), sh1, outp)))"

section \<open>Playback fills the list from the play head\<close>

text \<open>What the play head gives over \<open>n\<close> frames of a callback, gaps included.\<close>

fun resample_run :: "nat \<Rightarrow> resampler_params \<Rightarrow> playhead \<Rightarrow> f32 list option list \<times> playhead" where
  "resample_run 0 P h = ([], h)"
| "resample_run (Suc n) P h =
     (let (out, h1) = resample_step P h; (outs, h2) = resample_run n P h1 in (out # outs, h2))"

definition silent_or :: "f32 list option \<Rightarrow> nat \<Rightarrow> f32 \<Rightarrow> f32" where
  "silent_or out ch old = (case out of None \<Rightarrow> old | Some xs \<Rightarrow> fadd F32 old (xs ! ch))"

lemma playback_frame_length:
  assumes "stream_inv c k (r, sh)" "playback_next_frame (r, sh) = ret (Some f, (r', sh'))"
    and "stream_inv c k (r', sh')"
  shows "length f = c"
proof -
  obtain ok r1 sh1 where "prepare_next_frame (r, sh) = ret (ok, (r1, sh1))"
    using prepare_stream [OF assms(1)] by metis
  then have "f = interpolated r'"
    using assms(2) by (auto simp: playback_next_frame_def split: if_splits)
  then show ?thesis
    using assms(3) by (simp add: stream_inv_def reading_inv_def resampler_inv_def)
qed

lemma playback_frames_ok:
  "stream_inv c k (r, sh) \<Longrightarrow> audio_grid n c out \<Longrightarrow> set fs \<subseteq> {..<n} \<Longrightarrow> distinct fs \<Longrightarrow>
     \<exists>out' r' sh'. playback_frames fs out (r, sh) = ret (out', (r', sh'))
       \<and> stream_inv c k (r', sh') \<and> params r' = params r \<and> audio_grid n c out'
       \<and> format_errors (metrics sh') = format_errors (metrics sh)
       \<and> (let (outs, h) = resample_run (length fs) (params r) (playhead_of (r, sh)) in
           h = playhead_of (r', sh')
           \<and> (\<forall>i < length fs. \<forall>ch < c. sample_at out' (fs ! i) ch = silent_or (outs ! i) ch (sample_at out (fs ! i) ch))
           \<and> (\<forall>f < n. \<forall>ch < c. f \<notin> set fs \<longrightarrow> sample_at out' f ch = sample_at out f ch))"
proof (induction fs arbitrary: out r sh)
  case Nil
  then show ?case by simp
next
  case (Cons f fs)
  obtain frame r1 sh1 where s: "playback_next_frame (r, sh) = ret (frame, (r1, sh1))"
    "stream_inv c k (r1, sh1)" "params r1 = params r"
    "resample_step (params r) (playhead_of (r, sh)) = (frame, playhead_of (r1, sh1))"
    "same_meters (case frame of Some f \<Rightarrow> transferred 1 (metrics sh)
        | None \<Rightarrow> if has_primed r then underrun 1 (metrics sh) else metrics sh) (metrics sh1)"
    using playback_step [OF Cons.prems(1)] by blast
  have fe: "format_errors (metrics sh1) = format_errors (metrics sh)"
    using s(5) by (auto simp: same_meters_iff transferred_def underrun_def split: option.splits if_splits)
  have fn: "f < n" "f \<notin> set fs" using Cons.prems(3,4) by auto
  have "\<exists>out1. audio_grid n c out1
      \<and> (\<forall>f' < n. \<forall>ch < c. sample_at out1 f' ch =
           (if f' = f then silent_or frame ch (sample_at out f ch) else sample_at out f' ch))
      \<and> playback_frames (f # fs) out (r, sh) = playback_frames fs out1 (r1, sh1)"
  proof (cases frame)
    case None
    then show ?thesis
      using s(1) Cons.prems(2) by (intro exI [of _ out]) (auto simp: silent_or_def)
  next
    case (Some xs)
    have len: "length xs = c" using playback_frame_length [OF Cons.prems(1)] s(1,2) Some by blast
    obtain out1 where "add_channels add_audio_sample (\<lambda>ch. Ok (xs ! ch)) f [0..<c] out = Ok (True, out1)"
      "audio_grid n c out1"
      "\<forall>f' < n. \<forall>ch' < c. sample_at out1 f' ch' =
         (if f' = f \<and> ch' \<in> set [0..<c] then fadd F32 (sample_at out f ch') (xs ! ch') else sample_at out f' ch')"
      using abl.add_channels_ok [OF Cons.prems(2) fn(1), of "[0..<c]" "\<lambda>ch. Ok (xs ! ch)" "\<lambda>ch. xs ! ch"]
      by (auto simp: atLeast0LessThan)
    then show ?thesis
      using s(1) Some len by (intro exI [of _ out1]) (auto simp: silent_or_def)
  qed
  then obtain out1 where out1: "audio_grid n c out1"
    "\<forall>f' < n. \<forall>ch < c. sample_at out1 f' ch =
       (if f' = f then silent_or frame ch (sample_at out f ch) else sample_at out f' ch)"
    "playback_frames (f # fs) out (r, sh) = playback_frames fs out1 (r1, sh1)" by blast
  obtain outs h where run: "resample_run (length fs) (params r1) (playhead_of (r1, sh1)) = (outs, h)"
    by (cases "resample_run (length fs) (params r1) (playhead_of (r1, sh1))")
  obtain out' r' sh' where ih: "playback_frames fs out1 (r1, sh1) = ret (out', (r', sh'))"
    "stream_inv c k (r', sh')" "params r' = params r1" "audio_grid n c out'"
    "format_errors (metrics sh') = format_errors (metrics sh1)" "h = playhead_of (r', sh')"
    "\<forall>i < length fs. \<forall>ch < c. sample_at out' (fs ! i) ch = silent_or (outs ! i) ch (sample_at out1 (fs ! i) ch)"
    "\<forall>f < n. \<forall>ch < c. f \<notin> set fs \<longrightarrow> sample_at out' f ch = sample_at out1 f ch"
    using Cons.IH [OF s(2) out1(1)] Cons.prems(3,4) run by auto
  have "sample_at out' ((f # fs) ! i) ch = silent_or ((frame # outs) ! i) ch (sample_at out ((f # fs) ! i) ch)"
    if "i < length (f # fs)" "ch < c" for i ch
  proof (cases i)
    case 0
    then show ?thesis using ih(8) out1(2) fn that(2) by simp
  next
    case (Suc j)
    then have "fs ! j \<in> set fs" using that(1) by simp
    then have "fs ! j \<noteq> f" "fs ! j < n" using fn(2) Cons.prems(3) by auto
    then show ?thesis using ih(7) out1(2) that Suc by simp
  qed
  moreover have "sample_at out' g ch = sample_at out g ch" if "g < n" "ch < c" "g \<notin> set (f # fs)" for g ch
    using ih(8) out1(2) that by simp
  moreover have "resample_run (length (f # fs)) (params r) (playhead_of (r, sh)) = (frame # outs, h)"
    using run s(3,4) by simp
  ultimately show ?case
    using out1(3) ih(1-6) s(3) fe by (intro exI [of _ out'] exI [of _ r'] exI [of _ sh']) simp
qed

text \<open>The callback of a playback stream plays exactly what the play head gives. It always returns,
  never panics or leaves a buffer, and keeps the stream invariant. On a list with one buffer size per
  frame and the stream's channels, frame \<open>i\<close> of the output is the \<open>i\<close>-th frame of the abstract
  resampler, or silence where that has none, and the play head has moved on accordingly; any other
  list, and a missing one, is counted as a format error and consumes nothing.\<close>

lemma playback_callback_exact:
  assumes "stream_inv c k (r, sh)" "\<And>bs. outp = Some bs \<Longrightarrow> list_all buffer_wf bs"
  shows "\<exists>r' sh' outp'. pcm_audio_device_io_proc (Some (Playback r)) sh inp outp
      = ret (0, Some (Playback r'), sh', outp')
    \<and> stream_inv c k (r', sh') \<and> params r' = params r
    \<and> (case outp of
        Some bs \<Rightarrow> (case audio_buffer_list_frames bs of
          Some n \<Rightarrow>
            if audio_buffer_list_channels bs = Some c then
              let (outs, h) = resample_run n (params r) (playhead_of (r, sh)) in
                h = playhead_of (r', sh') \<and> format_errors (metrics sh') = format_errors (metrics sh)
                \<and> (\<exists>bs'. outp' = Some bs' \<and> (\<forall>i < n. \<forall>ch < c.
                      sample_at bs' i ch = silent_or (outs ! i) ch (fzero F32)))
            else r' = r \<and> sh' = meter format_error (meter callback sh)
        | None \<Rightarrow> r' = r \<and> sh' = meter format_error (meter callback sh))
      | None \<Rightarrow> r' = r \<and> sh' = meter format_error (meter callback sh))"
proof -
  let ?sh = "meter callback sh"
  have inv: "stream_inv c k (r, ?sh)" using assms(1) by (simp add: stream_inv_meter callback_def)
  have bad: "stream_inv c k (r, meter format_error ?sh)"
    using inv stream_inv_meter [of format_error ?sh] by (simp add: format_error_def)
  have rc: "rs_channels r = c" using stream_invD(2) [OF assms(1)] .
  have head: "playhead_of (r, ?sh) = playhead_of (r, sh)" by (simp add: playhead_of_def ring_frames_def)
  show ?thesis
  proof (cases outp)
    case None
    then show ?thesis using bad by (simp add: pcm_audio_device_io_proc_def playback_io_def Let_def)
  next
    case (Some bs)
    note clear = clear_ok [OF assms(2) [OF Some]]
    show ?thesis
    proof (cases "audio_buffer_list_frames bs = None \<or> audio_buffer_list_channels bs \<noteq> Some c")
      case True
      then show ?thesis using Some bad clear rc
        by (auto simp: pcm_audio_device_io_proc_def playback_io_def Let_def split: option.split)
    next
      case False
      then obtain n where n: "audio_buffer_list_frames bs = Some n" "audio_buffer_list_channels bs = Some c" by auto
      have h: "holds_frames n bs" using audio_buffer_list_frames_holds [OF n(1) assms(2) [OF Some]] .
      have tc: "total_channels bs = c"
        using list_channels_Some [of bs 0 c] n(2) by (simp add: audio_buffer_list_channels_def)
      have g: "audio_grid n c (map cleared bs)" using cleared_holds [OF h] tc by (simp add: audio_grid_def)
      obtain outs hd where run: "resample_run n (params r) (playhead_of (r, sh)) = (outs, hd)"
        by (cases "resample_run n (params r) (playhead_of (r, sh))")
      obtain out' r' sh' where q: "playback_frames [0..<n] (map cleared bs) (r, ?sh) = ret (out', (r', sh'))"
        "stream_inv c k (r', sh')" "params r' = params r"
        "format_errors (metrics sh') = format_errors (metrics ?sh)" "hd = playhead_of (r', sh')"
        "\<forall>i < n. \<forall>ch < c. sample_at out' i ch = silent_or (outs ! i) ch (sample_at (map cleared bs) i ch)"
        using playback_frames_ok [OF inv g, of "[0..<n]"] run head by (auto simp: atLeast0LessThan)
      have "format_errors (metrics sh') = format_errors (metrics sh)" using q(4) by (simp add: callback_def)
      moreover have "\<forall>i < n. \<forall>ch < c. sample_at out' i ch = silent_or (outs ! i) ch (fzero F32)"
        using q(6) cleared_sample [OF h] tc by simp
      ultimately show ?thesis
        using Some n q(1-3,5) clear rc run by (simp add: pcm_audio_device_io_proc_def playback_io_def Let_def)
    qed
  qed
qed

section \<open>Capture takes what fits\<close>

text \<open>How many of \<open>n\<close> frames fit next to \<open>used\<close> ones of \<open>k\<close>.\<close>

abbreviation fitting :: "nat \<Rightarrow> nat \<Rightarrow> nat \<Rightarrow> nat" where
  "fitting k used n \<equiv> min n (k - used)"

lemma capture_channels_ok:
  "holds_frames n bs \<Longrightarrow> f < n \<Longrightarrow> set chs \<subseteq> {..<total_channels bs} \<Longrightarrow> length (scratch c) = total_channels bs \<Longrightarrow>
     distinct chs \<Longrightarrow>
     \<exists>xs. capture_channels bs f chs c = Ok (True, c\<lparr>scratch := xs\<rparr>) \<and> length xs = total_channels bs
       \<and> (\<forall>ch < total_channels bs. xs ! ch = (if ch \<in> set chs then sample_at bs f ch else scratch c ! ch))"
proof (induction chs arbitrary: c)
  case Nil
  then show ?case by (intro exI [of _ "scratch c"]) simp
next
  case (Cons ch chs)
  let ?c = "c\<lparr>scratch := (scratch c)[ch := sample_at bs f ch]\<rparr>"
  have r: "read_audio_sample bs f ch = Ok (Some (sample_at bs f ch))" "ch < length (scratch c)"
    using Cons.prems read_audio_sample_ok by auto
  obtain xs where "capture_channels bs f chs ?c = Ok (True, ?c\<lparr>scratch := xs\<rparr>)" "length xs = total_channels bs"
    "\<forall>ch' < total_channels bs. xs ! ch' = (if ch' \<in> set chs then sample_at bs f ch' else scratch ?c ! ch')"
    using Cons.IH [of ?c] Cons.prems by auto
  then show ?case
    using r Cons.prems(4,5) by (intro exI [of _ xs]) (auto simp: nth_list_update)
qed

lemma capture_channels_frame:
  assumes "holds_frames n bs" "f < n" "length (scratch c) = total_channels bs"
  shows "capture_channels bs f [0..<total_channels bs] c = Ok (True, c\<lparr>scratch := frame_at bs f\<rparr>)"
proof -
  obtain xs where xs: "capture_channels bs f [0..<total_channels bs] c = Ok (True, c\<lparr>scratch := xs\<rparr>)"
    "length xs = total_channels bs" "\<forall>ch < total_channels bs. xs ! ch = sample_at bs f ch"
    using capture_channels_ok [OF assms(1,2) _ assms(3), of "[0..<total_channels bs]"]
    by (auto simp: atLeast0LessThan)
  then have "xs = frame_at bs f" by (auto simp: frame_at_def intro: nth_equalityI)
  then show ?thesis using xs(1) by simp
qed

lemma capture_frames_ok:
  "stream_inv c k (r, sh) \<Longrightarrow> k * c + c < usize_bound \<Longrightarrow> holds_frames n bs \<Longrightarrow> total_channels bs = c \<Longrightarrow>
     set fs \<subseteq> {..<n} \<Longrightarrow> length xs = c \<Longrightarrow>
     \<exists>xs' sh'. capture_frames bs fs (capture_of c k xs, sh) = Ok (capture_of c k xs', sh')
       \<and> length xs' = c \<and> stream_inv c k (r, sh')
       \<and> (let m = fitting k (length (ring_frames c sh)) (length fs) in
           frames (playhead_of (r, sh')) = frames (playhead_of (r, sh)) @ map (frame_at bs) (take m fs)
           \<and> transferred_frames (metrics sh') = transferred_frames (metrics sh) + of_nat m
           \<and> overrun_frames (metrics sh') = overrun_frames (metrics sh) + of_nat (length fs - m)
           \<and> format_errors (metrics sh') = format_errors (metrics sh))"
proof (induction fs arbitrary: sh xs)
  case Nil
  then show ?case by (intro exI [of _ xs] exI [of _ sh]) simp
next
  case (Cons f fs)
  let ?used = "length (ring_frames c sh)"
  have cap: "has_capacity_for_frame (capture_of c k xs) sh = Ok (?used < k)"
    using has_capacity_ok [OF Cons.prems(1,2)] .
  have fs: "f < n" "set fs \<subseteq> {..<n}" using Cons.prems(5) by auto
  show ?case
  proof (cases "?used < k")
    case True
    define sh1 where "sh1 = commit_scratch_frame (capture_of c k (frame_at bs f)) sh"
    have ch: "capture_channels bs f [0..<c] (capture_of c k xs) = Ok (True, capture_of c k (frame_at bs f))"
      using capture_channels_frame [OF Cons.prems(3) fs(1), of "capture_of c k xs"] Cons.prems(4,6)
      by (simp add: capture_of_def)
    have len: "length (frame_at bs f) = c" using Cons.prems(4) by (simp add: frame_at_def)
    have q: "stream_inv c k (r, sh1)"
      "frames (playhead_of (r, sh1)) = frames (playhead_of (r, sh)) @ [frame_at bs f]"
      "metrics sh1 = transferred 1 (add_fill 1 (metrics sh))"
      using capture_commit [OF Cons.prems(1) len True] by (simp_all add: sh1_def Let_def)
    have used: "length (ring_frames c sh1) = Suc ?used"
      using q(2) stream_invD(2) [OF Cons.prems(1)] by (simp add: frames_eq split: if_splits)
    obtain xs' sh' where ih: "capture_frames bs fs (capture_of c k (frame_at bs f), sh1) = Ok (capture_of c k xs', sh')"
      "length xs' = c" "stream_inv c k (r, sh')"
      "frames (playhead_of (r, sh')) = frames (playhead_of (r, sh1))
         @ map (frame_at bs) (take (fitting k (Suc ?used) (length fs)) fs)"
      "transferred_frames (metrics sh') = transferred_frames (metrics sh1) + of_nat (fitting k (Suc ?used) (length fs))"
      "overrun_frames (metrics sh') = overrun_frames (metrics sh1)
         + of_nat (length fs - fitting k (Suc ?used) (length fs))"
      "format_errors (metrics sh') = format_errors (metrics sh1)"
      using Cons.IH [OF q(1) Cons.prems(2,3,4) fs(2) len] used by (auto simp: Let_def)
    have m: "fitting k ?used (length (f # fs)) = Suc (fitting k (Suc ?used) (length fs))"
      using True by simp
    have "capture_frames bs (f # fs) (capture_of c k xs, sh) = Ok (capture_of c k xs', sh')"
      using cap True ch ih(1) by (simp add: sh1_def) (simp add: capture_of_def)
    then show ?thesis
      using ih(2-7) q(2,3) unfolding m Let_def
      by (intro exI [of _ xs'] exI [of _ sh']) (simp add: transferred_def add_fill_def)
  next
    case False
    let ?sh1 = "meter (overrun 1) sh"
    have q: "stream_inv c k (r, ?sh1)"
      using Cons.prems(1) by (simp add: stream_inv_meter overrun_def)
    have m: "fitting k ?used (length (f # fs)) = 0" "fitting k ?used (length fs) = 0" using False by simp_all
    obtain xs' sh' where ih: "capture_frames bs fs (capture_of c k xs, ?sh1) = Ok (capture_of c k xs', sh')"
      "length xs' = c" "stream_inv c k (r, sh')"
      "frames (playhead_of (r, sh')) = frames (playhead_of (r, ?sh1))"
      "transferred_frames (metrics sh') = transferred_frames (metrics ?sh1)"
      "overrun_frames (metrics sh') = overrun_frames (metrics ?sh1) + of_nat (length fs)"
      "format_errors (metrics sh') = format_errors (metrics ?sh1)"
      using Cons.IH [OF q Cons.prems(2,3,4) fs(2) Cons.prems(6)] m(2) by (auto simp: Let_def)
    have "capture_frames bs (f # fs) (capture_of c k xs, sh) = Ok (capture_of c k xs', sh')"
      using cap False ih(1) by simp
    then show ?thesis
      using ih(2-7) unfolding m Let_def
      by (intro exI [of _ xs'] exI [of _ sh']) (simp add: overrun_def)
  qed
qed

text \<open>The callback of a capture stream stores exactly what fits. It never panics or leaves a buffer,
  and keeps the stream invariant. On a list with the stream's channels the first frames for which
  the ring has room are appended whole and in order behind the buffered ones, each counted as
  transferred, and every other frame is counted as an overrun; a list that does not fit the format,
  and a missing one, is counted as a format error and stores nothing.\<close>

lemma capture_callback_exact:
  assumes "stream_inv c k (r, sh)" "k * c + c < usize_bound" "length xs = c"
    and "\<And>bs. inp = Some bs \<Longrightarrow> list_all buffer_wf bs"
  shows "\<exists>xs' sh'. pcm_audio_device_io_proc (Some (Capture (capture_of c k xs))) sh inp outp
      = ret (0, Some (Capture (capture_of c k xs')), sh', outp)
    \<and> length xs' = c \<and> stream_inv c k (r, sh')
    \<and> (case inp of
        Some bs \<Rightarrow> (case audio_buffer_list_frames bs of
          Some n \<Rightarrow>
            if audio_buffer_list_channels bs = Some c then
              let m = fitting k (length (ring_frames c sh)) n in
                frames (playhead_of (r, sh')) = frames (playhead_of (r, sh)) @ map (frame_at bs) [0..<m]
                \<and> transferred_frames (metrics sh') = transferred_frames (metrics sh) + of_nat m
                \<and> overrun_frames (metrics sh') = overrun_frames (metrics sh) + of_nat (n - m)
            else sh' = meter format_error (meter callback sh)
        | None \<Rightarrow> sh' = meter format_error (meter callback sh))
      | None \<Rightarrow> sh' = meter format_error (meter callback sh))"
proof -
  let ?sh = "meter callback sh"
  have inv: "stream_inv c k (r, ?sh)" using assms(1) by (simp add: stream_inv_meter callback_def)
  have bad: "stream_inv c k (r, meter format_error ?sh)"
    using inv stream_inv_meter [of format_error ?sh] by (simp add: format_error_def)
  have cc: "c_channels (capture_of c k xs) = c" by (simp add: capture_of_def)
  show ?thesis
  proof (cases inp)
    case None
    then show ?thesis using bad assms(3)
      by (auto simp: pcm_audio_device_io_proc_def capture_io_def Let_def)
  next
    case (Some bs)
    show ?thesis
    proof (cases "audio_buffer_list_frames bs = None \<or> audio_buffer_list_channels bs \<noteq> Some c")
      case True
      then show ?thesis using Some bad cc assms(3)
        by (intro exI [of _ xs] exI [of _ "meter format_error ?sh"])
          (auto simp: pcm_audio_device_io_proc_def capture_io_def Let_def split: option.split)
    next
      case False
      then obtain n where n: "audio_buffer_list_frames bs = Some n" "audio_buffer_list_channels bs = Some c" by auto
      have h: "holds_frames n bs" using audio_buffer_list_frames_holds [OF n(1) assms(4) [OF Some]] .
      have tc: "total_channels bs = c"
        using list_channels_Some [of bs 0 c] n(2) by (simp add: audio_buffer_list_channels_def)
      define m where "m = fitting k (length (ring_frames c sh)) n"
      have "take m [0..<n] = [0..<m]" by (simp add: m_def take_upt)
      then obtain xs' sh' where
        "capture_frames bs [0..<n] (capture_of c k xs, ?sh) = Ok (capture_of c k xs', sh')"
        "length xs' = c" "stream_inv c k (r, sh')"
        "frames (playhead_of (r, sh')) = frames (playhead_of (r, sh)) @ map (frame_at bs) [0..<m]"
        "transferred_frames (metrics sh') = transferred_frames (metrics sh) + of_nat m"
        "overrun_frames (metrics sh') = overrun_frames (metrics sh) + of_nat (n - m)"
        using capture_frames_ok [OF inv assms(2) h tc _ assms(3), of "[0..<n]"]
        by (auto simp: atLeast0LessThan Let_def m_def callback_def)
      then show ?thesis
        using Some n cc unfolding m_def
        by (intro exI [of _ xs'] exI [of _ sh'])
          (simp add: pcm_audio_device_io_proc_def capture_io_def Let_def)
    qed
  qed
qed

section \<open>Concrete callbacks\<close>

definition example_list :: AudioBufferList where
  "example_list = [\<lparr>number_channels = 2, data_byte_size = 16,
     buffer_data = Some [sample 6, sample 7, sample 8, sample 9]\<rparr>]"

lemma example_list_ok: "list_all buffer_wf example_list" "audio_buffer_list_frames example_list = Some 2"
  "audio_buffer_list_channels example_list = Some 2"
  by (simp_all add: example_list_def buffer_wf_def buffer_samples_def audio_buffer_list_frames_def
      audio_buffer_list_channels_def buffer_channels_def Let_def checked_add_def usize_bound_def)

lemma playback_callback_exact_example:
  "\<exists>r' sh' bs'. pcm_audio_device_io_proc (Some (Playback example_resampler)) (example_shared 3) None (Some example_list)
      = ret (0, Some (Playback r'), sh', Some bs') \<and> format_errors (metrics sh') = 0"
proof -
  have "format_errors (metrics (example_shared 3)) = 0" by (simp add: example_shared_def metrics_new_def)
  moreover obtain outs h where
    "resample_run 2 (params example_resampler) (playhead_of (example_resampler, example_shared 3)) = (outs, h)"
    by (cases "resample_run 2 (params example_resampler) (playhead_of (example_resampler, example_shared 3))")
  ultimately show ?thesis
    using playback_callback_exact [OF example_inv [of 3], of "Some example_list" None] example_list_ok
    by (auto simp: Let_def)
qed

lemma capture_callback_exact_example:
  "\<exists>xs' sh'. pcm_audio_device_io_proc (Some (Capture (capture_of 2 4 [NaN, NaN]))) (example_shared 3) (Some example_list) None
      = ret (0, Some (Capture (capture_of 2 4 xs')), sh', None)
    \<and> frames (playhead_of (example_resampler, sh'))
      = frames (playhead_of (example_resampler, example_shared 3)) @ [[sample 6, sample 7]]
    \<and> overrun_frames (metrics sh') = 1"
proof -
  have used: "length (ring_frames 2 (example_shared 3)) = 3"
    by (simp add: ring_frames_def example_shared_def example_contents length_chunks_exact)
  have fr: "frame_at example_list 0 = [sample 6, sample 7]"
    by (simp add: frame_at_def example_list_def buffer_channels_def upt_conv_Cons)
  have zero: "overrun_frames (metrics (example_shared 3)) = 0" by (simp add: example_shared_def metrics_new_def)
  show ?thesis
    using capture_callback_exact [OF example_inv [of 3], of "[NaN, NaN]" "Some example_list" None] example_list_ok
    by (auto simp: Let_def used fr zero usize_bound_def upt_conv_Cons)
qed

end
