(* ===== verification/PlatformStreams.thy ===== *)
theory PlatformStreams
  imports CoreAudioHal RouterIo PcmIo
begin

text \<open>
  The streams of \<open>crates/vcable-coreaudio/src/platform.rs\<close> and the part of \<open>pcm.rs\<close> that starts and
  drops them: \<open>PcmPlatformStream\<close>, \<open>AudioRouter\<close>, the validation of devices and routes, and the stream
  usage of an I/O procedure. What \<open>Drop\<close> does when an error returns early is part of each definition.
\<close>

section \<open>I/O procedures\<close>

definition io_create :: "'h hal \<Rightarrow> u32 \<Rightarrow> 'h core_audio \<Rightarrow> (i32 \<times> u64) \<times> 'h core_audio" where
  "io_create h dev s =
     (let ((st, pid), t) = create_io_proc h dev (hal_state s)
      in ((st, pid), s\<lparr>hal_state := t, events := events s @ [CreateIoProc dev st pid]\<rparr>))"

definition io_start :: "'h hal \<Rightarrow> u32 \<Rightarrow> u64 \<Rightarrow> ('h, i32, 'e) ca" where
  "io_start h dev pid =
     ca_then (ca_call (start_device h dev pid)) (\<lambda>st.
     ca_then (ca_log (StartDevice dev pid st)) (\<lambda>_. ca_ok st))"

text \<open>The status of stopping and destroying is ignored.\<close>

definition io_stop :: "'h hal \<Rightarrow> u32 \<Rightarrow> u64 \<Rightarrow> ('h, unit, 'e) ca" where
  "io_stop h dev pid = ca_then (ca_call (stop_device h dev pid)) (\<lambda>_. ca_log (StopDevice dev pid))"

definition io_destroy :: "'h hal \<Rightarrow> u32 \<Rightarrow> u64 \<Rightarrow> ('h, unit, 'e) ca" where
  "io_destroy h dev pid = ca_then (ca_call (destroy_io_proc h dev pid)) (\<lambda>_. ca_log (DestroyIoProc dev pid))"

definition to_ne_bytes :: "nat \<Rightarrow> nat \<Rightarrow> string" where
  "to_ne_bytes k n = map (\<lambda>i. char_of (n div 256 ^ i mod 256)) [0..<k]"

text \<open>The structure has a pointer and a count before the flags.\<close>

definition configure_stream_usage ::
    "'h hal \<Rightarrow> u32 \<Rightarrow> u64 \<Rightarrow> u32 \<Rightarrow> bool \<Rightarrow> ('h, unit, CoreAudioError) ca" where
  "configure_stream_usage h dev pid sc enabled =
     ca_then (get_u32_array h dev DEVICE_STREAMS sc) (\<lambda>streams.
     if streams = [] then ca_ok ()
     else case checked_add 12 (length streams * 4) of
        None \<Rightarrow> ca_fail (CA_InvalidProperty ''IOProc stream usage size'')
      | Some bytes \<Rightarrow>
          ca_then (ca_call (set_data h dev (address DEVICE_IOPROC_STREAM_USAGE sc)
            (to_ne_bytes 8 (unat pid) @ to_ne_bytes 4 (length streams)
              @ concat (replicate (length streams) (to_ne_bytes 4 (if enabled then 1 else 0)))))) status)"

text \<open>A body that may fail while it owns something: an early return drops it.\<close>

definition or_drop :: "('h, unit, 'e) ca \<Rightarrow> ('h, 'a, 'e) ca \<Rightarrow> ('h, 'a, 'e) ca" where
  "or_drop clean m s = (case m s of
      (Ok a, s1) \<Rightarrow> (Ok a, s1)
    | (r, s1) \<Rightarrow> (r, snd (clean s1)))"

section \<open>The stream of a PCM device\<close>

fun from_core_audio :: "CoreAudioError \<Rightarrow> PcmStreamError" where
  "from_core_audio CA_UnsupportedPlatform = UnsupportedPlatform"
| "from_core_audio (CA_OsStatus st) = CoreAudioOsStatus st"
| "from_core_audio (CA_InvalidProperty p) = CoreAudioProperty p"
| "from_core_audio e = CoreAudio (show_core_audio_error e)"

fun show_pcm_direction :: "PcmStreamDirection \<Rightarrow> string" where
  "show_pcm_direction InputDirection = ''input''"
| "show_pcm_direction OutputDirection = ''output''"

fun show_pcm_error :: "PcmStreamError \<Rightarrow> string" where
  "show_pcm_error UnsupportedPlatform = ''PCM Core Audio streams require macOS''"
| "show_pcm_error (DeviceNotFound uid) = ''Core Audio device UID not found: '' @ uid"
| "show_pcm_error (AmbiguousDevice uid matches) =
     ''Core Audio device UID '' @ uid @ '' matched '' @ show_nat matches @ '' devices''"
| "show_pcm_error (WrongDirection uid required) =
     ''Core Audio device '' @ uid @ '' has no '' @ show_pcm_direction required @ '' channels''"
| "show_pcm_error (FormatMismatch expected actual) =
     ''PCM format mismatch: expected '' @ show_u32 (fmt_sample_rate expected) @ '' Hz/''
     @ show_nat (unat (fmt_channels expected)) @ '' channels, got '' @ show_u32 (fmt_sample_rate actual) @ '' Hz/''
     @ show_nat (unat (fmt_channels actual)) @ '' channels''"
| "show_pcm_error (UnsupportedDevicePcmFormat uid) = ''Core Audio device '' @ uid @ '' does not expose packed f32 PCM''"
| "show_pcm_error InvalidChannelCount = ''channel count must be greater than zero''"
| "show_pcm_error InvalidSampleRate = ''sample rate must be greater than zero''"
| "show_pcm_error InvalidBufferLength = ''interleaved buffer length is not a whole number of frames''"
| "show_pcm_error InvalidRingCapacity = ''invalid PCM ring-buffer capacity''"
| "show_pcm_error InvalidTargetFill = ''target fill must be inside the PCM ring buffer''"
| "show_pcm_error InvalidDriftPpm = ''max drift must be less than 1,000,000 ppm''"
| "show_pcm_error (BufferFull wanted free) = ''PCM ring buffer is full: requested '' @ show_nat wanted @ '' frames, ''
     @ show_nat free @ '' available''"
| "show_pcm_error StreamClosed = ''PCM stream is closed''"
| "show_pcm_error (CoreAudioOsStatus st) = ''Core Audio returned OSStatus '' @ show_i32 st"
| "show_pcm_error (CoreAudioProperty p) = ''invalid Core Audio property: '' @ p"
| "show_pcm_error (CoreAudio m) = ''Core Audio error: '' @ m"

text \<open>A converted error says what it said before, apart from a prefix.\<close>

lemma converted_error_text:
  "e \<noteq> CA_UnsupportedPlatform \<Longrightarrow> \<exists>prefix. show_pcm_error (from_core_audio e) = prefix @ show_core_audio_error e"
  by (cases e) auto

record PcmDevice =
  pd_object_id :: u32
  pd_sample_rate :: u32

record PcmPlatformStream =
  ps_device :: u32
  ps_procedure :: u64
  ps_running :: bool
  ps_callback :: PcmCallback

definition platform_drop :: "'h hal \<Rightarrow> PcmPlatformStream \<Rightarrow> ('h, unit, PcmStreamError) ca" where
  "platform_drop h st =
     ca_then (if ps_running st then io_stop h (ps_device st) (ps_procedure st) else ca_ok ()) (\<lambda>_.
     if ps_procedure st \<noteq> 0 then io_destroy h (ps_device st) (ps_procedure st) else ca_ok ())"

definition finish_start :: "'h hal \<Rightarrow> PcmPlatformStream \<Rightarrow> i32 \<Rightarrow> ('h, PcmPlatformStream, PcmStreamError) ca" where
  "finish_start h st start_status =
     (if start_status \<noteq> 0 then ca_fail (CoreAudioOsStatus start_status) else ca_ok (st\<lparr>ps_running := True\<rparr>))"

text \<open>Whatever fails after the creation, the stream is dropped with the procedure id it has then.\<close>

definition platform_start ::
    "'h hal \<Rightarrow> PcmDevice \<Rightarrow> PcmCallback \<Rightarrow> bool \<Rightarrow> bool \<Rightarrow> ('h, PcmPlatformStream, PcmStreamError) ca" where
  "platform_start h device cb input_enabled output_enabled s =
     (let ((create_status, pid), s1) = io_create h (pd_object_id device) s;
          st = \<lparr>ps_device = pd_object_id device, ps_procedure = pid, ps_running = False, ps_callback = cb\<rparr>
      in or_drop (platform_drop h st)
       (if create_status \<noteq> 0 then ca_fail (CoreAudioOsStatus create_status)
        else ca_then (ca_map_err from_core_audio
               (configure_stream_usage h (ps_device st) pid SCOPE_INPUT input_enabled)) (\<lambda>_.
             ca_then (ca_map_err from_core_audio
               (configure_stream_usage h (ps_device st) pid SCOPE_OUTPUT output_enabled)) (\<lambda>_.
             ca_then (io_start h (ps_device st) pid) (\<lambda>start_status.
             finish_start h st start_status)))) s1)"

definition start_playback :: "'h hal \<Rightarrow> PcmDevice \<Rightarrow> RingResampler \<Rightarrow> ('h, PcmPlatformStream, PcmStreamError) ca" where
  "start_playback h device r = platform_start h device (Playback r) False True"

definition start_capture ::
    "'h hal \<Rightarrow> PcmDevice \<Rightarrow> CaptureCallbackState \<Rightarrow> ('h, PcmPlatformStream, PcmStreamError) ca" where
  "start_capture h device c = platform_start h device (Capture c) True False"

section \<open>Resolving a device\<close>

text \<open>The forty bytes of an \<open>AudioStreamBasicDescription\<close>.\<close>

record AudioStreamBasicDescription =
  sd_sample_rate :: f64
  format_id :: u32
  format_flags :: u32
  bytes_per_packet :: u32
  frames_per_packet :: u32
  bytes_per_frame :: u32
  channels_per_frame :: u32
  bits_per_channel :: u32

definition read_description :: "string \<Rightarrow> AudioStreamBasicDescription" where
  "read_description p =
     (let field = (\<lambda>i. u32_from_ne_bytes (bytes_at (8 + 4 * i) 4 p)) in
      \<lparr>sd_sample_rate = f64_from_ne_bytes (bytes_at 0 8 p), format_id = field 0, format_flags = field 1,
       bytes_per_packet = field 2, frames_per_packet = field 3, bytes_per_frame = field 4,
       channels_per_frame = field 5, bits_per_channel = field 6\<rparr>)"

definition FORMAT_LINEAR_PCM :: u32 where "FORMAT_LINEAR_PCM = fourcc ''lpcm''"

text \<open>\<open>None\<close> when the size of a frame overflows: the flags are tested bit by bit.\<close>

definition expected_bytes_per_frame :: "AudioStreamBasicDescription \<Rightarrow> u32 option" where
  "expected_bytes_per_frame f =
     (if bit (format_flags f) 5 then Some 4
      else if 2 ^ 32 \<le> unat (channels_per_frame f) * 4 then None else Some (channels_per_frame f * 4))"

definition valid_description :: "AudioDevice \<Rightarrow> AudioStreamBasicDescription \<Rightarrow> u32 \<Rightarrow> bool" where
  "valid_description device f expected \<longleftrightarrow>
     round_as_u32 (sd_sample_rate f) = dev_sample_rate device
     \<and> format_id f = FORMAT_LINEAR_PCM
     \<and> bit (format_flags f) 0
     \<and> bit (format_flags f) 3
     \<and> \<not> bit (format_flags f) 1
     \<and> frames_per_packet f = 1
     \<and> bytes_per_frame f = expected
     \<and> bytes_per_packet f = expected
     \<and> bits_per_channel f = 32
     \<and> 0 < channels_per_frame f"

fun validate_streams :: "'h hal \<Rightarrow> AudioDevice \<Rightarrow> u32 list \<Rightarrow> u32 \<Rightarrow> ('h, u32, PcmStreamError) ca" where
  "validate_streams h device [] acc = ca_ok acc"
| "validate_streams h device (i # ids) acc =
     ca_then (ca_map_err from_core_audio (get_property_bytes h i STREAM_VIRTUAL_FORMAT SCOPE_GLOBAL)) (\<lambda>property.
     let unsupported = UnsupportedDevicePcmFormat (dev_uid device) in
     if length property \<noteq> 40 then ca_fail unsupported
     else let f = read_description property in
       case expected_bytes_per_frame f of
         None \<Rightarrow> ca_fail unsupported
       | Some expected \<Rightarrow>
           if \<not> valid_description device f expected then ca_fail unsupported
           else if 2 ^ 32 \<le> unat acc + unat (channels_per_frame f) then ca_fail unsupported
           else validate_streams h device ids (acc + channels_per_frame f))"

definition validate_f32_stream_format :: "'h hal \<Rightarrow> AudioDevice \<Rightarrow> u32 \<Rightarrow> ('h, unit, PcmStreamError) ca" where
  "validate_f32_stream_format h device sc =
     ca_then (ca_map_err from_core_audio (get_u32_array h (dev_object_id device) DEVICE_STREAMS sc)) (\<lambda>ids.
     ca_then (validate_streams h device ids 0) (\<lambda>acc.
     if acc \<noteq> (if sc = SCOPE_INPUT then dev_input_channels device else dev_output_channels device)
     then ca_fail (UnsupportedDevicePcmFormat (dev_uid device)) else ca_ok ()))"

definition resolve_pcm_device ::
    "'h hal \<Rightarrow> PcmStreamConfig \<Rightarrow> PcmStreamDirection \<Rightarrow> ('h, PcmDevice, PcmStreamError) ca" where
  "resolve_pcm_device h config dir =
     ca_then (ca_map_err from_core_audio (list_devices h)) (\<lambda>devices.
     let uid = device_uid config; found = filter (\<lambda>d. dev_uid d = uid) devices in
     if found = [] then ca_fail (DeviceNotFound uid)
     else if length found \<noteq> 1 then ca_fail (AmbiguousDevice uid (length found))
     else let device = last found;
         (chans, sc) = (case dir of
             InputDirection \<Rightarrow> (dev_input_channels device, SCOPE_INPUT)
           | OutputDirection \<Rightarrow> (dev_output_channels device, SCOPE_OUTPUT));
         actual = \<lparr>fmt_sample_rate = dev_sample_rate device, fmt_channels = chans\<rparr> in
       if chans = 0 then ca_fail (WrongDirection uid dir)
       else if actual \<noteq> client_format config then ca_fail (FormatMismatch (client_format config) actual)
       else ca_then (validate_f32_stream_format h device sc) (\<lambda>_.
         ca_ok \<lparr>pd_object_id = dev_object_id device, pd_sample_rate = dev_sample_rate device\<rparr>))"

section \<open>Starting and dropping the streams of \<open>pcm.rs\<close>\<close>

text \<open>
  \<open>open_playback\<close> and \<open>open_capture\<close> are what lies between the resolved device and the platform
  stream. They repeat the validation, on the same configuration.
\<close>

definition pcm_playback_start ::
    "'h hal \<Rightarrow> PcmStreamConfig \<Rightarrow> ('h, PcmPlatformStream \<times> PcmWriter \<times> pcm_shared, PcmStreamError) ca" where
  "pcm_playback_start h config =
     ca_then (ca_res (validate_config config)) (\<lambda>_.
     ca_then (resolve_pcm_device h config OutputDirection) (\<lambda>device.
     ca_then (ca_res (open_playback (\<lambda>_ _. Ok (pd_sample_rate device)) config)) (\<lambda>(writer, (r, sh)).
     ca_then (start_playback h device r) (\<lambda>platform. ca_ok (platform, writer, sh)))))"

definition pcm_capture_start ::
    "'h hal \<Rightarrow> PcmStreamConfig \<Rightarrow> ('h, PcmPlatformStream \<times> reading, PcmStreamError) ca" where
  "pcm_capture_start h config =
     ca_then (ca_res (validate_config config)) (\<lambda>_.
     ca_then (resolve_pcm_device h config InputDirection) (\<lambda>device.
     ca_then (ca_res (open_capture (\<lambda>_ _. Ok (pd_sample_rate device)) config)) (\<lambda>(c, reader).
     ca_then (start_capture h device c) (\<lambda>platform. ca_ok (platform, reader)))))"

text \<open>\<open>Drop\<close>: the platform stream first, then the other end is told.\<close>

definition pcm_stream_drop :: "'h hal \<Rightarrow> PcmPlatformStream \<Rightarrow> pcm_shared \<Rightarrow> ('h, pcm_shared, PcmStreamError) ca" where
  "pcm_stream_drop h platform sh =
     ca_then (platform_drop h platform) (\<lambda>_. ca_ok (meter close sh))"

section \<open>The router\<close>

text \<open>Collecting the devices in a map keeps the last of those with one identifier.\<close>

definition devices_by_id :: "AudioDevice list \<Rightarrow> (u32, AudioDevice) btree" where
  "devices_by_id ds = fold (\<lambda>d. bt_insert (dev_object_id d) d) ds bt_empty"

definition validate_route :: "(u32, AudioDevice) btree \<Rightarrow> AudioRoute \<Rightarrow> (unit, CoreAudioError) res" where
  "validate_route devices r =
     (let bad = (\<lambda>m. Err (CA_InvalidRoute m)) in
      if source_channels r = 0 \<or> sink_channels r = 0
      then bad ''channel counts must be greater than zero''
      else if length (route_matrix r) \<noteq> unat (source_channels r) * unat (sink_channels r)
           \<or> \<not> list_all is_finite (route_matrix r)
      then bad ''channel matrix dimensions or values are invalid''
      else if \<not> is_finite (route_gain r) \<or> source_sample_rate r = 0 \<or> sink_sample_rate r = 0
      then bad ''gain and sample rates must be finite and nonzero''
      else case bt_get devices (source_device_id r) of
        None \<Rightarrow> bad (''source device '' @ show_u32 (source_device_id r) @ '' is unavailable'')
      | Some source \<Rightarrow> (case bt_get devices (sink_device_id r) of
          None \<Rightarrow> bad (''sink device '' @ show_u32 (sink_device_id r) @ '' is unavailable'')
        | Some sink \<Rightarrow>
            if dev_input_channels source \<noteq> source_channels r \<or> dev_sample_rate source \<noteq> source_sample_rate r
            then bad (''source device '' @ show_u32 (source_device_id r) @ '' format changed'')
            else if dev_output_channels sink \<noteq> sink_channels r \<or> dev_sample_rate sink \<noteq> sink_sample_rate r
            then bad (''sink device '' @ show_u32 (sink_device_id r) @ '' format changed'')
            else Ok ()))"

fun validate_each :: "(u32, AudioDevice) btree \<Rightarrow> AudioRoute list \<Rightarrow> (unit, CoreAudioError) res" where
  "validate_each devices [] = Ok ()"
| "validate_each devices (r # rs) = and_then (validate_route devices r) (\<lambda>_. validate_each devices rs)"

definition validate_routes :: "'h hal \<Rightarrow> AudioRoute list \<Rightarrow> ('h, unit, CoreAudioError) ca" where
  "validate_routes h rs =
     ca_then (list_devices h) (\<lambda>devices. ca_res (validate_each (devices_by_id devices) rs))"

text \<open>The \<open>Display\<close> texts of the ring's errors.\<close>

fun show_ring_error :: "RingBufferError \<Rightarrow> string" where
  "show_ring_error CapacityTooSmall = ''ring-buffer capacity must be at least two''"
| "show_ring_error CapacityNotPowerOfTwo = ''ring-buffer capacity must be a power of two''"

definition route_ring :: "AudioRoute \<Rightarrow> (ring, CoreAudioError) res" where
  "route_ring r =
     and_then (ok_or (CA_InvalidRoute ''ring-buffer size overflow'')
       (checked_mul (unat (source_channels r)) 16384)) (\<lambda>n.
     case checked_next_power_of_two n of
       None \<Rightarrow> Panic
     | Some sample_capacity \<Rightarrow>
         map_err (\<lambda>e. CA_InvalidRoute (show_ring_error e)) (spsc_ring_buffer sample_capacity))"

definition incoming_new :: "nat \<Rightarrow> AudioRoute \<Rightarrow> IncomingRoute" where
  "incoming_new i r =
     (let c = unat (source_channels r); silence = replicate c (fzero F32) in
      \<lparr>in_ring = i, in_channels = c, in_sink_channels = unat (sink_channels r),
       in_step = fdiv F64 (of_natural F64 (unat (source_sample_rate r))) (of_natural F64 (unat (sink_sample_rate r))),
       in_gain = route_gain r, in_matrix = route_matrix r, in_current = silence, in_next = silence,
       in_interpolated = silence, in_phase = fzero F64, in_primed = False\<rparr>)"

type_synonym builders = "(u32, OutgoingRoute list \<times> IncomingRoute list) btree"

text \<open>\<open>entry(device).or_default()\<close>.\<close>

definition entry_or_default :: "builders \<Rightarrow> u32 \<Rightarrow> OutgoingRoute list \<times> IncomingRoute list" where
  "entry_or_default b dev = (case bt_get b dev of None \<Rightarrow> ([], []) | Some e \<Rightarrow> e)"

definition add_outgoing :: "u32 \<Rightarrow> OutgoingRoute \<Rightarrow> builders \<Rightarrow> builders" where
  "add_outgoing dev x b = (let (outs, ins) = entry_or_default b dev in bt_insert dev (outs @ [x], ins) b)"

definition add_incoming :: "u32 \<Rightarrow> IncomingRoute \<Rightarrow> builders \<Rightarrow> builders" where
  "add_incoming dev x b = (let (outs, ins) = entry_or_default b dev in bt_insert dev (outs, ins @ [x]) b)"

fun build_routes :: "AudioRoute list \<Rightarrow> builders \<times> ring list \<Rightarrow> (builders \<times> ring list, CoreAudioError) res" where
  "build_routes [] s = Ok s"
| "build_routes (r # rs) (b, qs) =
     and_then (route_ring r) (\<lambda>q.
     let i = length qs in
     build_routes rs
       (add_incoming (sink_device_id r) (incoming_new i r)
         (add_outgoing (source_device_id r) \<lparr>out_ring = i, out_channels = unat (source_channels r)\<rparr> b),
        qs @ [q]))"

definition build_contexts :: "builders \<Rightarrow> DeviceIoContext list" where
  "build_contexts b = map (\<lambda>(dev, outs, ins).
     \<lparr>ctx_device = dev, outgoing = outs, incoming = ins, ctx_procedure = 0, ctx_running = False\<rparr>) b"

record AudioRouter =
  contexts :: "DeviceIoContext list"
  store :: router_store

text \<open>The two loops of \<open>start\<close> change the contexts in place, so these come back with an error too.\<close>

fun create_procedures ::
    "'h hal \<Rightarrow> DeviceIoContext list \<Rightarrow> 'h core_audio \<Rightarrow>
     (unit, CoreAudioError) res \<times> DeviceIoContext list \<times> 'h core_audio" where
  "create_procedures h [] s = (Ok (), [], s)"
| "create_procedures h (x # xs) s =
     (let ((st, pid), s1) = io_create h (ctx_device x) s;
          x1 = x\<lparr>ctx_procedure := pid\<rparr>
      in case ca_then (status st) (\<lambda>_.
           ca_then (configure_stream_usage h (ctx_device x) pid SCOPE_INPUT (outgoing x \<noteq> [])) (\<lambda>_.
           configure_stream_usage h (ctx_device x) pid SCOPE_OUTPUT (incoming x \<noteq> []))) s1 of
         (Ok _, s2) \<Rightarrow> (let (r, xs3, s3) = create_procedures h xs s2 in (r, x1 # xs3, s3))
       | (r, s2) \<Rightarrow> (r, x1 # xs, s2))"

fun start_procedures ::
    "'h hal \<Rightarrow> DeviceIoContext list \<Rightarrow> 'h core_audio \<Rightarrow>
     (unit, CoreAudioError) res \<times> DeviceIoContext list \<times> 'h core_audio" where
  "start_procedures h [] s = (Ok (), [], s)"
| "start_procedures h (x # xs) s =
     (case ca_then (io_start h (ctx_device x) (ctx_procedure x)) status s of
        (Ok _, s1) \<Rightarrow> (let (r, xs2, s2) = start_procedures h xs s1 in (r, x\<lparr>ctx_running := True\<rparr> # xs2, s2))
      | (r, s1) \<Rightarrow> (r, x # xs, s1))"

definition drop_context :: "'h hal \<Rightarrow> DeviceIoContext \<Rightarrow> ('h, unit, CoreAudioError) ca" where
  "drop_context h x =
     ca_then (if ctx_running x then io_stop h (ctx_device x) (ctx_procedure x) else ca_ok ()) (\<lambda>_.
     if ctx_procedure x \<noteq> 0 then io_destroy h (ctx_device x) (ctx_procedure x) else ca_ok ())"

definition router_drop :: "'h hal \<Rightarrow> DeviceIoContext list \<Rightarrow> ('h, unit, CoreAudioError) ca" where
  "router_drop h xs = ca_then (ca_traverse (drop_context h) xs) (\<lambda>_. ca_ok ())"

definition router_start :: "'h hal \<Rightarrow> AudioRoute list \<Rightarrow> ('h, AudioRouter, CoreAudioError) ca" where
  "router_start h rs =
     ca_then (validate_routes h rs) (\<lambda>_.
     ca_then (ca_res (build_routes rs (bt_empty, []))) (\<lambda>(b, qs). \<lambda>s.
       case create_procedures h (build_contexts b) s of
         (Ok _, xs1, s1) \<Rightarrow>
           (case start_procedures h xs1 s1 of
              (Ok _, xs2, s2) \<Rightarrow>
                (Ok \<lparr>contexts = xs2, store = \<lparr>rings = qs, router_metrics = router_metrics_new\<rparr>\<rparr>, s2)
            | (Err e, xs2, s2) \<Rightarrow> (Err e, snd (router_drop h xs2 s2))
            | (Panic, xs2, s2) \<Rightarrow> (Panic, snd (router_drop h xs2 s2)))
       | (Err e, xs1, s1) \<Rightarrow> (Err e, snd (router_drop h xs1 s1))
       | (Panic, xs1, s1) \<Rightarrow> (Panic, snd (router_drop h xs1 s1))))"

end
