(* ===== verification/HalProperties.thy ===== *)
theory HalProperties
  imports PlatformStreams "HOL-Library.Multiset"
begin

text \<open>
  What the platform layer promises towards Core Audio, whatever the frameworks answer. A monitor over
  the log of calls says what is acquired; the locale \<open>hal_relation\<close> proves once, for all operations
  on properties, devices and the driver, what their calls keep, and is used for the resources (they
  leave nothing behind) and for the clock (the wait for a device ends).
\<close>

section \<open>Acquired and released\<close>

text \<open>
  A monitor over the log of calls. A procedure may only be started while it exists and does not run,
  stopped while it runs, and destroyed while it exists and does not run; a string may only be
  released while it is held. A call out of order is \<open>None\<close>. (A null id stands for the device
  itself.) The counts make no assumption on the ids that Core Audio hands out.
\<close>

record resources =
  procs :: "(u32 \<times> u64) multiset"
  active :: "(u32 \<times> u64) multiset"
  held :: "u64 multiset"

fun use_event :: "hal_event \<Rightarrow> resources \<Rightarrow> resources option" where
  "use_event (CreateIoProc dev st pid) m =
     Some (if pid = 0 then m else m\<lparr>procs := add_mset (dev, pid) (procs m)\<rparr>)"
| "use_event (StartDevice dev pid st) m =
     (if pid \<noteq> 0 \<and> count (procs m) (dev, pid) \<le> count (active m) (dev, pid) then None
      else Some (if st = 0 then m\<lparr>active := add_mset (dev, pid) (active m)\<rparr> else m))"
| "use_event (StopDevice dev pid) m =
     (if (dev, pid) \<notin># active m then None else Some (m\<lparr>active := active m - {#(dev, pid)#}\<rparr>))"
| "use_event (DestroyIoProc dev pid) m =
     (if count (procs m) (dev, pid) \<le> count (active m) (dev, pid) then None
      else Some (m\<lparr>procs := procs m - {#(dev, pid)#}\<rparr>))"
| "use_event (GotString v) m = Some (m\<lparr>held := add_mset v (held m)\<rparr>)"
| "use_event (ReleasedString v) m =
     (if v \<notin># held m then None else Some (m\<lparr>held := held m - {#v#}\<rparr>))"

fun use_events :: "hal_event list \<Rightarrow> resources \<Rightarrow> resources option" where
  "use_events [] m = Some m"
| "use_events (e # es) m = (case use_event e m of None \<Rightarrow> None | Some m1 \<Rightarrow> use_events es m1)"

lemma use_events_append:
  "use_events (es @ fs) m = (case use_events es m of None \<Rightarrow> None | Some m1 \<Rightarrow> use_events fs m1)"
  by (induction es arbitrary: m) (auto split: option.split)

definition nothing_held :: resources where
  "nothing_held = \<lparr>procs = {#}, active = {#}, held = {#}\<rparr>"

text \<open>What is acquired after everything that happened; \<open>None\<close> when a call was out of order.\<close>

definition resources_of :: "'h core_audio \<Rightarrow> resources option" where
  "resources_of s = use_events (events s) nothing_held"

section \<open>What every operation keeps\<close>

text \<open>
  The operations on properties, devices and the driver are built from calls by sequencing. A
  relation between the states before and after that is reflexive, transitive, kept by the calls and
  by a string that is held in between, is kept by all of them.
\<close>

definition keeps :: "('h core_audio \<Rightarrow> 'h core_audio \<Rightarrow> bool) \<Rightarrow> ('h core_audio \<Rightarrow> 'r \<times> 'h core_audio) \<Rightarrow> bool" where
  "keeps R f \<longleftrightarrow> (\<forall>s. R s (snd (f s)))"

lemma keepsI: "(\<And>s. R s (snd (f s))) \<Longrightarrow> keeps R f"
  by (simp add: keeps_def)

lemma keepsD: "keeps R f \<Longrightarrow> f s = (r, s') \<Longrightarrow> R s s'"
  by (metis keeps_def snd_conv)

lemma keeps_branches:
  "keeps R f \<Longrightarrow> keeps R g \<Longrightarrow> keeps R (if b then f else g)"
  "(\<And>a b. keeps R (k a b)) \<Longrightarrow> keeps R (case p of (a, b) \<Rightarrow> k a b)"
  "keeps R f \<Longrightarrow> (\<And>a. keeps R (l a)) \<Longrightarrow> keeps R (case x of None \<Rightarrow> f | Some a \<Rightarrow> l a)"
  "keeps R m \<Longrightarrow> keeps R (ca_map_err d m)"
  by (auto simp: keeps_def ca_map_err_def split: prod.split option.split)

text \<open>Within the documented answers of Core Foundation a conversion does not panic, so no string is lost.\<close>

lemma cf_string_returns: "fst (cf_string_to_rust h v s) \<noteq> Panic"
proof -
  have "\<not> cf_index answer + 1 < 0" for answer by (simp add: cf_index_def split: option.split)
  then show ?thesis
    by (auto simp: cf_string_to_rust_def ca_then_def ca_call_def ca_res_def Let_def from_utf8_def
        split: option.splits)
qed

locale hal_relation =
  fixes R :: "'h core_audio \<Rightarrow> 'h core_audio \<Rightarrow> bool" and h :: "'h hal"
  assumes refl: "R s s"
    and trans: "R s t \<Longrightarrow> R t u \<Longrightarrow> R s u"
    and calls: "R s (s\<lparr>hal_state := snd (get_data_size h i a (hal_state s))\<rparr>)"
      "R s (s\<lparr>hal_state := snd (get_data h i a n (hal_state s))\<rparr>)"
      "R s (s\<lparr>hal_state := snd (get_string h i a (hal_state s))\<rparr>)"
      "R s (s\<lparr>hal_state := snd (set_data h i a bs (hal_state s))\<rparr>)"
      "R s (s\<lparr>hal_state := snd (set_string h i a v (hal_state s))\<rparr>)"
      "R s (s\<lparr>hal_state := snd (cf_create h bs (hal_state s))\<rparr>)"
      "R s (s\<lparr>hal_state := snd (cf_length h v (hal_state s))\<rparr>)"
      "R s (s\<lparr>hal_state := snd (cf_maximum_size h z (hal_state s))\<rparr>)"
      "R s (s\<lparr>hal_state := snd (cf_c_string h v k (hal_state s))\<rparr>)"
      "R s (s\<lparr>hal_state := snd (instant_now h (hal_state s))\<rparr>)"
      "R s (s\<lparr>hal_state := snd (thread_sleep h k (hal_state s))\<rparr>)"
    and string: "R (s\<lparr>events := events s @ [GotString v]\<rparr>) t \<Longrightarrow> R s (t\<lparr>events := events t @ [ReleasedString v]\<rparr>)"
begin

lemma keeps_res: "keeps R (ca_res r)"
  by (simp add: keeps_def ca_res_def refl)

lemma keeps_calls:
  "keeps R (ca_call (get_data_size h i a) :: ('h, i32 \<times> u32, 'e) ca)" "keeps R (ca_call (get_data h i a n) :: ('h, i32 \<times> u32 \<times> string, 'e) ca)"
  "keeps R (ca_call (get_string h i a) :: ('h, i32 \<times> u64, 'e) ca)" "keeps R (ca_call (set_data h i a bs) :: ('h, i32, 'e) ca)"
  "keeps R (ca_call (set_string h i a v) :: ('h, i32, 'e) ca)" "keeps R (ca_call (cf_create h bs) :: ('h, u64, 'e) ca)"
  "keeps R (ca_call (cf_length h v) :: ('h, int, 'e) ca)" "keeps R (ca_call (cf_maximum_size h z) :: ('h, nat option, 'e) ca)"
  "keeps R (ca_call (cf_c_string h v k) :: ('h, string option, 'e) ca)" "keeps R (ca_call (instant_now h) :: ('h, nat, 'e) ca)"
  "keeps R (ca_call (thread_sleep h k) :: ('h, unit, 'e) ca)"
  by (simp_all add: keeps_def ca_call_def calls)

lemma keeps_then:
  assumes "keeps R m" "\<And>a. keeps R (f a)"
  shows "keeps R (ca_then m f)"
proof (rule keepsI)
  fix s :: "'h core_audio"
  obtain r s1 where m: "m s = (r, s1)" by (cases "m s")
  have r1: "R s s1" by (rule keepsD [OF assms(1) m])
  have "R s1 (snd (f a s1))" for a using assms(2) [of a] by (simp add: keeps_def)
  then show "R s (snd (ca_then m f s))"
    using m r1 trans [OF r1] by (cases r) (auto simp: ca_then_def)
qed

lemmas steps = keeps_branches keeps_res keeps_calls keeps_then

lemma keeps_traverse: "(\<And>x. keeps R (f x)) \<Longrightarrow> keeps R (ca_traverse f xs)"
  by (induction xs) (auto intro: steps)

lemma keeps_status: "keeps R (status st)"
  unfolding status_def by (rule keeps_res)

lemma keeps_bytes: "keeps R (get_property_bytes h i sel sc)"
  unfolding get_property_bytes_def Let_def by (intro steps keeps_status)

lemma keeps_reads:
  "keeps R (get_u32_array h i sel sc)" "keeps R (get_f64 h i sel sc)" "keeps R (get_u32 h i sel sc)"
  "keeps R (get_channel_count h i sc)"
  unfolding get_u32_array_def get_f64_def get_u32_def get_channel_count_def Let_def
  by (intro steps keeps_bytes)+

lemma keeps_cf_string_to_rust: "keeps R (cf_string_to_rust h v)"
  unfolding cf_string_to_rust_def Let_def by (intro steps)

lemma keeps_get_cf_string: "keeps R (get_cf_string h i sel sc)"
proof -
  have q: "keeps R (ca_then (ca_log (GotString v)) (\<lambda>_ :: unit. \<lambda>s.
      let (result, s1) = cf_string_to_rust h v s in
      if result = Panic then (Panic, s1)
      else let (_ :: (unit, CoreAudioError) res, s2) = cf_release v s1 in (result, s2)))" for v
  proof (rule keepsI)
    fix s :: "'h core_audio"
    have "R (s\<lparr>events := events s @ [GotString v]\<rparr>)
        (snd (cf_string_to_rust h v (s\<lparr>events := events s @ [GotString v]\<rparr>)))"
      using keeps_cf_string_to_rust [of v] by (simp add: keeps_def)
    from string [OF this]
    show "R s (snd (ca_then (ca_log (GotString v)) (\<lambda>_ :: unit. \<lambda>s.
        let (result, s1) = cf_string_to_rust h v s in
        if result = Panic then (Panic, s1)
        else let (_ :: (unit, CoreAudioError) res, s2) = cf_release v s1 in (result, s2)) s))"
      by (simp add: ca_then_def ca_log_def cf_release_def case_prod_beta cf_string_returns Let_def)
  qed
  show ?thesis unfolding get_cf_string_def by (rule q | rule keeps_status | rule steps)+
qed

lemma keeps_devices: "keeps R (list_devices h)"
  unfolding list_devices_def read_device_def
  by (intro steps keeps_traverse keeps_reads keeps_get_cf_string)

lemma keeps_find_plugin: "keeps R (find_plugin h ps)"
proof (induction ps)
  case (Cons p ps)
  show ?case
  proof (rule keepsI)
    fix s :: "'h core_audio"
    obtain r s1 where g: "get_cf_string h p PLUGIN_BUNDLE_ID SCOPE_GLOBAL s = (r, s1)"
      by (cases "get_cf_string h p PLUGIN_BUNDLE_ID SCOPE_GLOBAL s")
    have "R s s1" by (rule keepsD [OF keeps_get_cf_string g])
    moreover have "R s1 (snd (find_plugin h ps s1))" using Cons.IH by (simp add: keeps_def)
    ultimately show "R s (snd (find_plugin h (p # ps) s))"
      using g trans by (cases r) auto
  qed
qed (simp add: keeps_res)

lemma keeps_send: "keeps R (send_driver_command h c)"
proof -
  define set_it where "set_it = (\<lambda>p v. ca_then (ca_call (set_string h p (address VCABLE_CONTROL SCOPE_GLOBAL) v)) status
    :: ('h, unit, CoreAudioError) ca)"
  have k: "keeps R (set_it p v)" for p v unfolding set_it_def by (intro steps keeps_status)
  have q: "keeps R (ca_then (owned_cf_string h c) (\<lambda>v. \<lambda>s.
      let (result, s1) = set_it p v s; (_ :: (unit, CoreAudioError) res, s2) = cf_release v s1
      in (result, s2)))" for p
  proof (rule keepsI)
    fix s :: "'h core_audio"
    obtain v t where c: "cf_create h c (hal_state s) = (v, t)" by (cases "cf_create h c (hal_state s)")
    have r1: "R s (s\<lparr>hal_state := t\<rparr>)" using calls(6) [of s c] c by simp
    have "R (s\<lparr>hal_state := t, events := events s @ [GotString v]\<rparr>)
        (snd (set_it p v (s\<lparr>hal_state := t, events := events s @ [GotString v]\<rparr>)))"
      using k by (simp add: keeps_def)
    then have "R (s\<lparr>hal_state := t\<rparr>) ((snd (set_it p v (s\<lparr>hal_state := t, events := events s @ [GotString v]\<rparr>)))
        \<lparr>events := events (snd (set_it p v (s\<lparr>hal_state := t, events := events s @ [GotString v]\<rparr>))) @ [ReleasedString v]\<rparr>)"
      using string [of "s\<lparr>hal_state := t\<rparr>" v] by simp
    from trans [OF r1 this] r1
    show "R s (snd (ca_then (owned_cf_string h c) (\<lambda>v. \<lambda>s.
        let (result, s1) = set_it p v s; (_ :: (unit, CoreAudioError) res, s2) = cf_release v s1
        in (result, s2)) s))"
      using c by (simp add: owned_cf_string_def ca_then_def ca_call_def ca_res_def ca_log_def
          cf_release_def case_prod_beta)
  qed
  have "keeps R (ca_then (find_vcable_plugin h) (\<lambda>p. ca_then (owned_cf_string h c) (\<lambda>v. \<lambda>s.
      let (result, s1) = set_it p v s; (_ :: (unit, CoreAudioError) res, s2) = cf_release v s1
      in (result, s2))))"
    unfolding find_vcable_plugin_def by (rule q | rule keeps_find_plugin | rule keeps_reads | rule steps)+
  then show ?thesis unfolding send_driver_command_def set_it_def .
qed

lemma keeps_round: "keeps R (visibility_round h uid b d)"
proof (rule keepsI)
  fix s :: "'h core_audio"
  obtain r s1 where l: "list_devices h s = (r, s1)" by (cases "list_devices h s")
  have r1: "R s s1" by (rule keepsD [OF keeps_devices l])
  have "keeps R (ca_then (ca_call (instant_now h)) (\<lambda>now.
      if d \<le> now then ca_fail (CA_DeviceChangeTimeout uid b)
      else ca_then (ca_call (thread_sleep h DEVICE_CHANGE_POLL_INTERVAL)) (\<lambda>_. ca_ok None))
      :: ('h, unit option, CoreAudioError) ca)"
    by (intro steps)
  then have "R s1 (snd ((ca_then (ca_call (instant_now h)) (\<lambda>now.
      if d \<le> now then ca_fail (CA_DeviceChangeTimeout uid b)
      else ca_then (ca_call (thread_sleep h DEVICE_CHANGE_POLL_INTERVAL)) (\<lambda>_. ca_ok None))
      :: ('h, unit option, CoreAudioError) ca) s1))" by (simp add: keeps_def)
  then show "R s (snd (visibility_round h uid b d s))"
    using l r1 trans [OF r1] by (cases r) (auto simp: visibility_round_def)
qed

lemma keeps_loop: "visibility_loop h uid b d s = Some (r, s') \<Longrightarrow> R s s'"
proof -
  have "g = h \<longrightarrow> R s (snd y)" if "visibility_loop g uid b d s = Some y" for g y
  proof (rule visibility_loop.raw_induct [where P = "\<lambda>g uid b d s y. g = h \<longrightarrow> R s (snd y)", OF _ that], rule impI)
    fix loop g uid b d s y
    assume ih: "\<And>g uid b d s y. loop g uid b d s = Some y \<Longrightarrow> g = h \<longrightarrow> R s (snd y)"
      and y: "(case visibility_round g uid b d s of
        (Ok None, s1) \<Rightarrow> loop g uid b d s1 | (Ok (Some u), s1) \<Rightarrow> Some (Ok u, s1)
      | (Err e, s1) \<Rightarrow> Some (Err e, s1) | (Panic, s1) \<Rightarrow> Some (Panic, s1)) = Some y" and g: "g = h"
    obtain r1 s1 where v: "visibility_round g uid b d s = (r1, s1)" by (cases "visibility_round g uid b d s")
    have "R s s1" using keepsD [OF keeps_round [of uid b d], of s r1 s1] v g by simp
    then show "R s (snd y)"
      using ih y v g trans by (auto split: res.splits option.splits)
  qed
  then show "visibility_loop h uid b d s = Some (r, s') \<Longrightarrow> R s s'" by fastforce
qed

lemma keeps_wait: "wait_for_device_visibility h uid b s = Some (r, s') \<Longrightarrow> R s s'"
  using calls(10) [of s] trans keeps_loop
  by (auto simp: wait_for_device_visibility_def ca_call_def)

lemma keeps_usage: "keeps R (configure_stream_usage h dev pid sc b)"
  unfolding configure_stream_usage_def by (intro steps keeps_reads keeps_status)

lemma keeps_validate_streams: "keeps R (validate_streams h d ids n)"
  by (induction ids arbitrary: n) (auto simp: Let_def intro!: steps keeps_bytes split: option.split)

lemma keeps_resolve: "keeps R (resolve_pcm_device h cfg dir)"
  unfolding resolve_pcm_device_def validate_f32_stream_format_def Let_def
  by (intro steps keeps_devices keeps_reads keeps_validate_streams)

end

definition same_resources :: "'h core_audio \<Rightarrow> 'h core_audio \<Rightarrow> bool" where
  "same_resources s t \<longleftrightarrow> (resources_of s \<noteq> None \<longrightarrow> resources_of t = resources_of s)"

lemma string_released:
  assumes "same_resources (s\<lparr>events := events s @ [GotString v]\<rparr>) t"
  shows "same_resources s (t\<lparr>events := events t @ [ReleasedString v]\<rparr>)"
proof -
  have "resources_of (s\<lparr>events := events s @ [GotString v]\<rparr>) = map_option (\<lambda>m. m\<lparr>held := add_mset v (held m)\<rparr>) (resources_of s)"
    by (simp add: resources_of_def use_events_append split: option.split)
  moreover have "resources_of (t\<lparr>events := events t @ [ReleasedString v]\<rparr>)
      = (case resources_of t of None \<Rightarrow> None | Some m \<Rightarrow> use_event (ReleasedString v) m)"
    by (simp add: resources_of_def use_events_append split: option.split)
  ultimately show ?thesis using assms by (auto simp: same_resources_def)
qed

lemma resources_hal [simp]: "resources_of (s\<lparr>hal_state := t\<rparr>) = resources_of s"
  by (simp add: resources_of_def)

interpretation resources: hal_relation same_resources h for h
proof unfold_locales
  show "same_resources s (t\<lparr>events := events t @ [ReleasedString v]\<rparr>)"
    if "same_resources (s\<lparr>events := events s @ [GotString v]\<rparr>) t" for s t :: "'a core_audio" and v
    using that by (rule string_released)
qed (auto simp: same_resources_def)

text \<open>Nothing that runs has been destroyed.\<close>

definition resources_wf :: "resources \<Rightarrow> bool" where
  "resources_wf m \<longleftrightarrow> (\<forall>x. snd x \<noteq> 0 \<longrightarrow> count (active m) x \<le> count (procs m) x)"

lemma use_event_wf: "use_event e m = Some m' \<Longrightarrow> resources_wf m \<Longrightarrow> resources_wf m'"
  by (cases e) (auto simp: resources_wf_def le_SucI le_diff_conv split: if_splits)

lemma use_events_wf: "use_events es m = Some m' \<Longrightarrow> resources_wf m \<Longrightarrow> resources_wf m'"
  by (induction es arbitrary: m) (auto dest: use_event_wf split: option.splits)

lemma resources_of_wf: "resources_of s = Some m \<Longrightarrow> resources_wf m"
  using use_events_wf [of "events s" nothing_held m]
  by (simp add: resources_of_def resources_wf_def [of nothing_held]) (simp add: nothing_held_def)

lemma resources_after [simp]:
  "resources_of (s\<lparr>events := events s @ [e]\<rparr>) = (case resources_of s of None \<Rightarrow> None | Some m \<Rightarrow> use_event e m)"
  by (simp add: resources_of_def use_events_append split: option.split)

section \<open>The wait for a device\<close>

text \<open>
  What the wait relies on: the clock, read as \<open>c\<close> of the state, does not run backwards during a call,
  \<open>Instant::now\<close> reads it, and a sleep takes at least as long as asked for.
\<close>

definition clock_advances :: "'h hal \<Rightarrow> ('h \<Rightarrow> nat) \<Rightarrow> bool" where
  "clock_advances h c \<longleftrightarrow> (\<forall>x.
     (\<forall>i a. c x \<le> c (snd (get_data_size h i a x)))
     \<and> (\<forall>i a n. c x \<le> c (snd (get_data h i a n x)))
     \<and> (\<forall>i a. c x \<le> c (snd (get_string h i a x)))
     \<and> (\<forall>i a bs. c x \<le> c (snd (set_data h i a bs x)))
     \<and> (\<forall>i a v. c x \<le> c (snd (set_string h i a v x)))
     \<and> (\<forall>bs. c x \<le> c (snd (cf_create h bs x)))
     \<and> (\<forall>v. c x \<le> c (snd (cf_length h v x)))
     \<and> (\<forall>z. c x \<le> c (snd (cf_maximum_size h z x)))
     \<and> (\<forall>v k. c x \<le> c (snd (cf_c_string h v k x)))
     \<and> (c x \<le> fst (instant_now h x) \<and> fst (instant_now h x) \<le> c (snd (instant_now h x)))
     \<and> (\<forall>k. c x + k \<le> c (snd (thread_sleep h k x))))"

definition later :: "'h hal \<Rightarrow> ('h \<Rightarrow> nat) \<Rightarrow> 'h core_audio \<Rightarrow> 'h core_audio \<Rightarrow> bool" where
  "later h c s t \<longleftrightarrow> (clock_advances h c \<longrightarrow> c (hal_state s) \<le> c (hal_state t))"

lemma clock_now:
  "clock_advances h c \<Longrightarrow> c x \<le> fst (instant_now h x) \<and> fst (instant_now h x) \<le> c (snd (instant_now h x))"
  by (simp add: clock_advances_def)

lemma clock_sleep: "clock_advances h c \<Longrightarrow> c x + k \<le> c (snd (thread_sleep h k x))"
  by (simp add: clock_advances_def)

interpretation clock: hal_relation "later h c" h for h c
proof
  fix s :: "'a core_audio" and k
  show "later h c s (s\<lparr>hal_state := snd (instant_now h (hal_state s))\<rparr>)"
    using clock_now [of h c] le_trans by (fastforce simp: later_def)
  show "later h c s (s\<lparr>hal_state := snd (thread_sleep h k (hal_state s))\<rparr>)"
    using clock_sleep [of h c] add_leD1 by (fastforce simp: later_def)
qed (auto simp: later_def clock_advances_def)

text \<open>How the wait may end.\<close>

definition wait_end ::
    "'h hal \<Rightarrow> ('h \<Rightarrow> nat) \<Rightarrow> string \<Rightarrow> bool \<Rightarrow> nat \<Rightarrow> (unit, CoreAudioError) res \<Rightarrow> 'h core_audio \<Rightarrow> bool" where
  "wait_end h c uid b deadline r s' = (case r of
      Ok _ \<Rightarrow> \<exists>t ds. list_devices h t = (Ok ds, s') \<and> (uid \<in> dev_uid ` set ds) = b
    | Err e \<Rightarrow> (e = CA_DeviceChangeTimeout uid b \<and> deadline \<le> c (hal_state s'))
        \<or> (\<exists>t. list_devices h t = (Err e, s') \<and> e \<noteq> CA_OsStatus BAD_OBJECT_STATUS
              \<and> e \<noteq> CA_OsStatus UNKNOWN_PROPERTY_STATUS)
    | Panic \<Rightarrow> \<exists>t. list_devices h t = (Panic, s'))"

lemma round_end:
  assumes "clock_advances h c" "visibility_round h uid b deadline s = (r, s')"
  shows "case r of
      Ok None \<Rightarrow> c (hal_state s) < deadline \<and> c (hal_state s) + DEVICE_CHANGE_POLL_INTERVAL \<le> c (hal_state s')
    | Ok (Some u) \<Rightarrow> wait_end h c uid b deadline (Ok u) s'
    | Err e \<Rightarrow> wait_end h c uid b deadline (Err e) s'
    | Panic \<Rightarrow> wait_end h c uid b deadline Panic s'"
proof -
  obtain listed s1 where l: "list_devices h s = (listed, s1)" by (cases "list_devices h s")
  have c1: "c (hal_state s) \<le> c (hal_state s1)"
    using keepsD [OF clock.keeps_devices l, of c] assms(1) by (simp add: later_def)
  obtain now x where n: "instant_now h (hal_state s1) = (now, x)" by (cases "instant_now h (hal_state s1)")
  have nb: "c (hal_state s1) \<le> now" "now \<le> c x" using clock_now [OF assms(1), of "hal_state s1"] n by simp_all
  define y where "y = snd (thread_sleep h DEVICE_CHANGE_POLL_INTERVAL x)"
  have yb: "c x + DEVICE_CHANGE_POLL_INTERVAL \<le> c y" unfolding y_def by (rule clock_sleep [OF assms(1)])
  define retry where "retry = (if deadline \<le> now
      then (Err (CA_DeviceChangeTimeout uid b), s1\<lparr>hal_state := x\<rparr>)
      else (Ok None, s1\<lparr>hal_state := y\<rparr>) :: (unit option, CoreAudioError) res \<times> 'a core_audio)"
  have run: "visibility_round h uid b deadline s = (case listed of
        Ok devices \<Rightarrow> if list_ex (\<lambda>d. dev_uid d = uid) devices = b then (Ok (Some ()), s1) else retry
      | Err e \<Rightarrow> if e = CA_OsStatus BAD_OBJECT_STATUS \<or> e = CA_OsStatus UNKNOWN_PROPERTY_STATUS then retry else (Err e, s1)
      | Panic \<Rightarrow> (Panic, s1))"
    using l n by (cases listed) (simp_all add: visibility_round_def ca_then_def ca_call_def ca_res_def retry_def y_def Let_def)
  have ret: "case fst retry of
      Ok None \<Rightarrow> c (hal_state s) < deadline
        \<and> c (hal_state s) + DEVICE_CHANGE_POLL_INTERVAL \<le> c (hal_state (snd retry))
    | Err e \<Rightarrow> wait_end h c uid b deadline (Err e) (snd retry) | _ \<Rightarrow> False"
    using c1 nb yb by (auto simp: retry_def wait_end_def)
  have rs: "retry = (fst retry, snd retry)" by simp
  show ?thesis
  proof (cases listed)
    case (Ok ds)
    have ex: "list_ex (\<lambda>d. dev_uid d = uid) ds \<longleftrightarrow> uid \<in> dev_uid ` set ds" by (auto simp: list_ex_iff)
    show ?thesis
    proof (cases "(uid \<in> dev_uid ` set ds) = b")
      case True
      then show ?thesis using run assms(2) Ok l ex by (auto simp: wait_end_def)
    next
      case False
      then have "retry = (r, s')" using run assms(2) Ok ex by simp
      then show ?thesis using ret by (auto split: res.splits option.splits)
    qed
  next
    case (Err e)
    then show ?thesis using run assms(2) l ret by (auto simp: wait_end_def split: if_splits res.splits option.splits)
  next
    case Panic
    then show ?thesis using run assms(2) l by (auto simp: wait_end_def)
  qed
qed

lemma loop_ends:
  assumes "clock_advances h c"
  shows "\<exists>r s'. visibility_loop h uid b deadline s = Some (r, s') \<and> wait_end h c uid b deadline r s'"
proof (induction "deadline - c (hal_state s)" arbitrary: s rule: less_induct)
  case less
  obtain r s1 where v: "visibility_round h uid b deadline s = (r, s1)" by (cases "visibility_round h uid b deadline s")
  note e = round_end [OF assms v]
  show ?case
  proof (cases "r = Ok None")
    case True
    then have "c (hal_state s) < deadline" "c (hal_state s) + 10000000 \<le> c (hal_state s1)"
      using e by (simp_all add: DEVICE_CHANGE_POLL_INTERVAL_def)
    then have "deadline - c (hal_state s1) < deadline - c (hal_state s)" by linarith
    from less [OF this] show ?thesis using v True by (simp add: visibility_loop.simps [of h uid b deadline s])
  next
    case False
    then show ?thesis using v e by (auto simp: visibility_loop.simps [of h uid b deadline s] split: res.splits option.splits)
  qed
qed

text \<open>C24: The wait for a device ends. If the clock advances, the loop returns: with success only when
  the last listing shows what was waited for, with a timeout only after the five seconds have passed,
  and otherwise with an error of the listing that is not one of the two that a retired object causes.\<close>

theorem wait_for_device_ends:
  assumes "clock_advances h c"
  shows "\<exists>r s'. wait_for_device_visibility h uid b s = Some (r, s')
    \<and> wait_end h c uid b (c (hal_state s) + DEVICE_CHANGE_TIMEOUT) r s'"
proof -
  obtain now x where n: "instant_now h (hal_state s) = (now, x)" by (cases "instant_now h (hal_state s)")
  have "c (hal_state s) \<le> now" using clock_now [OF assms, of "hal_state s"] n by simp
  moreover obtain r s' where
    "visibility_loop h uid b (now + DEVICE_CHANGE_TIMEOUT) (s\<lparr>hal_state := x\<rparr>) = Some (r, s')"
    "wait_end h c uid b (now + DEVICE_CHANGE_TIMEOUT) r s'"
    using loop_ends [OF assms] by blast
  moreover have "wait_for_device_visibility h uid b s = visibility_loop h uid b (now + DEVICE_CHANGE_TIMEOUT) (s\<lparr>hal_state := x\<rparr>)"
    using n by (simp add: wait_for_device_visibility_def ca_call_def)
  ultimately show ?thesis by (auto simp: wait_end_def split: res.splits)
qed

text \<open>A framework without any device, whose state is the clock.\<close>

definition idle_hal :: "nat hal" where
  "idle_hal = \<lparr>get_data_size = \<lambda>_ _ x. ((0, 0), x), get_data = \<lambda>_ _ _ x. ((0, 0, []), x),
     get_string = \<lambda>_ _ x. ((0, 0), x), set_data = \<lambda>_ _ _ x. (0, x), set_string = \<lambda>_ _ _ x. (0, x),
     create_io_proc = \<lambda>_ x. ((0, 1), x), destroy_io_proc = \<lambda>_ _ x. (0, x),
     start_device = \<lambda>_ _ x. (0, x), stop_device = \<lambda>_ _ x. (0, x), cf_create = \<lambda>_ x. (1, x),
     cf_length = \<lambda>_ x. (0, x), cf_maximum_size = \<lambda>_ x. (Some 0, x), cf_c_string = \<lambda>_ _ x. (Some [], x),
     instant_now = \<lambda>x. (x, x), thread_sleep = \<lambda>k x. ((), x + k)\<rparr>"

lemma idle_devices: "list_devices idle_hal s = (Ok [], s)"
  by (simp add: list_devices_def get_u32_array_def get_property_bytes_def idle_hal_def ca_then_def ca_call_def
      ca_res_def status_def Let_def)

theorem wait_for_device_ends_witness:
  "\<exists>s'. wait_for_device_visibility idle_hal ''a'' True \<lparr>hal_state = 0, events = []\<rparr>
      = Some (Err (CA_DeviceChangeTimeout ''a'' True), s') \<and> 5000000000 \<le> hal_state s'"
proof -
  have "clock_advances idle_hal (\<lambda>x. x)" by (simp add: clock_advances_def idle_hal_def)
  from wait_for_device_ends [OF this, of "''a''" True "\<lparr>hal_state = 0, events = []\<rparr>"]
  obtain r s' where "wait_for_device_visibility idle_hal ''a'' True \<lparr>hal_state = 0, events = []\<rparr> = Some (r, s')"
    "wait_end idle_hal (\<lambda>x. x) ''a'' True 5000000000 r s'" by (auto simp: DEVICE_CHANGE_TIMEOUT_def)
  then show ?thesis by (cases r) (auto simp: wait_end_def idle_devices)
qed

end
