(* ===== verification/RouterProperties.thy ===== *)
theory RouterProperties
  imports RouterIo PcmProperties
begin

text \<open>
  What the router's callback promises: every call returns, a route plays what an abstract play head
  gives over its buffered frames, the captured frames enter the rings whole and in order, and the
  output is the sum of the routes.
\<close>

section \<open>The abstract play head of a route\<close>

text \<open>\<open>rh_frames\<close> are the frames in order, wherever they are held.\<close>

record route_head =
  rh_frames :: "f32 list list"
  rh_phase :: f64
  rh_primed :: bool

fun route_skip :: "f64 \<Rightarrow> 'a list \<Rightarrow> f64 \<times> 'a list" where
  "route_skip p (x # y # z # fs) =
     (if fle (fone F64) p then route_skip (fsub F64 p (fone F64)) (y # z # fs) else (p, x # y # z # fs))"
| "route_skip p [x, y] = (if fle (fone F64) p then (p, []) else (p, [x, y]))"
| "route_skip p fs = (p, fs)"

definition route_drift :: "usize \<Rightarrow> f64" where
  "route_drift n = (case route_correction n of Ok c \<Rightarrow> c | _ \<Rightarrow> NaN)"

definition route_step :: "f64 \<Rightarrow> route_head \<Rightarrow> f32 list option \<times> route_head" where
  "route_step step h =
     (if \<not> rh_primed h \<and> length (rh_frames h) < startup_frames then (None, h)
      else case rh_frames h of
        x # y # fs \<Rightarrow>
          (let p = (if rh_primed h then rh_phase h else fzero F64);
               (p', rest) = route_skip (fadd F64 p (fmul F64 step (fadd F64 (fone F64) (route_drift (length fs)))))
                 (x # y # fs)
           in (Some (mix p x y), \<lparr>rh_frames = rest, rh_phase = p', rh_primed = (rest \<noteq> [])\<rparr>))
      | _ \<Rightarrow> (None, h))"

definition frames_in :: "usize \<Rightarrow> ring \<Rightarrow> f32 list list" where
  "frames_in c q = chunks_exact c (contents q)"

definition head_of :: "IncomingRoute \<Rightarrow> ring \<Rightarrow> route_head" where
  "head_of r q = \<lparr>rh_frames = (if in_primed r then [in_current r, in_next r] else []) @ frames_in (in_channels r) q,
     rh_phase = in_phase r, rh_primed = in_primed r\<rparr>"

definition ring_framed :: "usize \<Rightarrow> ring \<Rightarrow> bool" where
  "ring_framed c q \<longleftrightarrow> 0 < c \<and> ring_inv q \<and> c dvd length (contents q)"

definition route_inv :: "IncomingRoute \<Rightarrow> ring \<Rightarrow> bool" where
  "route_inv r q \<longleftrightarrow> ring_framed (in_channels r) q \<and> length (in_current r) = in_channels r
     \<and> length (in_next r) = in_channels r \<and> length (in_interpolated r) = in_channels r
     \<and> length (in_matrix r) = in_sink_channels r * in_channels r \<and> length (in_matrix r) < usize_bound"

text \<open>What no step of a route changes.\<close>

definition same_config :: "IncomingRoute \<Rightarrow> IncomingRoute \<Rightarrow> bool" where
  "same_config r r' \<longleftrightarrow> in_ring r' = in_ring r \<and> in_channels r' = in_channels r
     \<and> in_sink_channels r' = in_sink_channels r \<and> in_step r' = in_step r \<and> in_gain r' = in_gain r
     \<and> in_matrix r' = in_matrix r"

lemma same_config_refl [simp]: "same_config r r"
  by (simp add: same_config_def)

lemma same_config_trans: "same_config a b \<Longrightarrow> same_config b c \<Longrightarrow> same_config a c"
  by (simp add: same_config_def)

section \<open>Reading frames\<close>

lemma pop_each_ok:
  "ring_inv q \<Longrightarrow> length xs \<le> length (contents q) \<Longrightarrow>
     \<exists>q'. pop_each xs q = (True, take (length xs) (contents q), q') \<and> ring_inv q' \<and> capacity q' = capacity q
       \<and> contents q' = drop (length xs) (contents q)"
proof (induction xs arbitrary: q)
  case (Cons x xs)
  obtain v ys where c: "contents q = v # ys" using Cons.prems(2) by (cases "contents q") auto
  obtain w q1 where p: "pop q = (w, q1)" by (cases "pop q")
  note r = pop_refines [OF Cons.prems(1) p]
  obtain q' where "pop_each xs q1 = (True, take (length xs) (contents q1), q')" "ring_inv q'"
    "capacity q' = capacity q1" "contents q' = drop (length xs) (contents q1)"
    using Cons.IH [OF r(2)] r(4) c Cons.prems(2) by auto
  then show ?case using p r c by simp
qed simp

lemma frames_in_Cons:
  assumes "ring_framed c q" "frames_in c q = f # fs"
  shows "c \<le> length (contents q)" "f = take c (contents q)" "fs = chunks_exact c (drop c (contents q))"
proof -
  show c: "c \<le> length (contents q)" using assms(2) by (auto simp: frames_in_def intro: leI)
  have "f # fs = take c (contents q) # chunks_exact c (drop c (contents q))"
    using chunks_exact_Cons [OF _ c] assms by (simp add: frames_in_def ring_framed_def)
  then show "f = take c (contents q)" "fs = chunks_exact c (drop c (contents q))" by auto
qed

lemma length_frames_in: "ring_framed c q \<Longrightarrow> length (frames_in c q) = consumer_available q div c"
  by (simp add: frames_in_def ring_framed_def length_chunks_exact)

lemma read_source_frame_empty:
  assumes "ring_framed (in_channels r) q" "frames_in (in_channels r) q = []"
  shows "read_source_frame b r q = (False, r, q)"
proof -
  have "consumer_available q div in_channels r = 0"
    using length_frames_in [OF assms(1)] assms(2) by simp
  then show ?thesis
    using assms(1) by (simp add: read_source_frame_def ring_framed_def div_eq_0_iff)
qed

lemma read_source_frame_some:
  assumes fr: "ring_framed (in_channels r) q" "frames_in (in_channels r) q = f # fs"
    and len: "length (in_current r) = in_channels r" "length (in_next r) = in_channels r"
  obtains q' where "read_source_frame b r q = (True, (if b then r\<lparr>in_next := f\<rparr> else r\<lparr>in_current := f\<rparr>), q')"
    "ring_framed (in_channels r) q'" "frames_in (in_channels r) q' = fs" "capacity q' = capacity q"
    "length f = in_channels r"
proof -
  note c = frames_in_Cons [OF fr]
  have i: "ring_inv q" "in_channels r dvd length (contents q)" using fr(1) by (auto simp: ring_framed_def)
  define xs where "xs = (if b then in_next r else in_current r)"
  have l: "length xs = in_channels r" using len by (simp add: xs_def)
  obtain q' where q': "pop_each xs q = (True, f, q')" "ring_inv q'" "capacity q' = capacity q"
    "contents q' = drop (in_channels r) (contents q)"
    using pop_each_ok [OF i(1), of xs] c(1,2) l by auto
  have "read_source_frame b r q = (True, (if b then r\<lparr>in_next := f\<rparr> else r\<lparr>in_current := f\<rparr>), q')"
    using q'(1) c(1) by (auto simp: read_source_frame_def xs_def)
  moreover have "ring_framed (in_channels r) q'"
    using fr(1) q'(2,4) i(2) c(1) by (simp add: ring_framed_def del: length_contents)
  moreover have "length f = in_channels r" using c(1,2) by simp
  ultimately show ?thesis using that q'(3,4) c(3) by (simp add: frames_in_def)
qed

section \<open>One output frame\<close>

lemma route_correction_ok: "route_correction n = Ok (route_drift n)"
proof -
  have "fle (fneg (decimal F64 False 1 1000)) (decimal F64 False 1 1000)"
    by (simp add: float_eval)
  then show ?thesis by (simp add: route_drift_def route_correction_def fclamp_def Let_def)
qed

lemma route_interpolate_ok:
  assumes "route_inv r q"
  shows "route_interpolate r = Ok (r\<lparr>in_interpolated := mix (in_phase r) (in_current r) (in_next r)\<rparr>)"
proof -
  have "map (\<lambda>i. lerp (in_current r ! i) (in_next r ! i) p) [0..<in_channels r]
      = map2 (\<lambda>a b. lerp a b p) (in_current r) (in_next r)" for p
    using assms by (intro nth_equalityI) (auto simp: route_inv_def)
  then show ?thesis
    using assms by (simp add: route_interpolate_def route_inv_def mix_def Let_def)
qed

lemma route_prime_ok:
  assumes inv: "route_inv r q"
  obtains ok r' q' where "route_prime (r, q, m) = Ok (ok, (r', q', m))" "route_inv r' q'" "same_config r r'"
    "ok \<longleftrightarrow> in_primed r \<or> startup_frames \<le> length (rh_frames (head_of r q))"
    "if ok then in_primed r' \<and> in_phase r' = (if in_primed r then in_phase r else fzero F64)
        \<and> rh_frames (head_of r' q') = rh_frames (head_of r q)
     else r' = r \<and> q' = q" "capacity q' = capacity q"
proof (cases "in_primed r")
  case True
  then show ?thesis using inv by (intro that [of True r q]) (auto simp: route_prime_def)
next
  case np: False
  have f: "ring_framed (in_channels r) q" and l: "length (in_current r) = in_channels r"
    "length (in_next r) = in_channels r" using inv by (auto simp: route_inv_def)
  have n: "(usize_div (consumer_available q) (in_channels r) :: usize access) = Ok (length (frames_in (in_channels r) q))"
    using f length_frames_in [OF f] by (simp add: ring_framed_def)
  have h: "rh_frames (head_of r q) = frames_in (in_channels r) q" using np by (simp add: head_of_def)
  show ?thesis
  proof (cases "length (frames_in (in_channels r) q) < startup_frames")
    case True
    then show ?thesis using inv np n h
      by (intro that [of False r q]) (auto simp: route_prime_def)
  next
    case False
    then obtain x y fs where xy: "frames_in (in_channels r) q = x # y # fs"
      by (cases "frames_in (in_channels r) q"; cases "tl (frames_in (in_channels r) q)") (auto simp: startup_frames_def)
    obtain q1 where q1: "read_source_frame False r q = (True, r\<lparr>in_current := x\<rparr>, q1)"
      "ring_framed (in_channels r) q1" "frames_in (in_channels r) q1 = y # fs" "capacity q1 = capacity q"
      "length x = in_channels r"
      by (rule read_source_frame_some [OF f xy l, of False]) simp
    let ?r1 = "r\<lparr>in_current := x\<rparr>"
    have "ring_framed (in_channels ?r1) q1" "frames_in (in_channels ?r1) q1 = y # fs"
      "length (in_current ?r1) = in_channels ?r1" "length (in_next ?r1) = in_channels ?r1"
      using q1 l by simp_all
    from read_source_frame_some [OF this, of True] obtain q2 where
      q2: "read_source_frame True ?r1 q1 = (True, ?r1\<lparr>in_next := y\<rparr>, q2)"
      "ring_framed (in_channels r) q2" "frames_in (in_channels r) q2 = fs" "capacity q2 = capacity q1"
      "length y = in_channels r" by auto
    let ?r2 = "?r1\<lparr>in_next := y, in_phase := fzero F64, in_primed := True\<rparr>"
    have "route_inv ?r2 q2" using inv q1(5) q2(2,5) by (simp add: route_inv_def)
    then show ?thesis
      using np n h False q1 q2 xy
      by (intro that [of True ?r2 q2]) (auto simp: route_prime_def same_config_def head_of_def not_less)
  qed
qed

lemma route_loop_ok:
  assumes "route_inv r q" "in_primed r"
  shows "\<exists>b r' q'. route_loop (False, (r, q, m)) = ret (b, (r', q', if b then count_underrun m else m))
    \<and> route_inv r' q' \<and> same_config r r' \<and> in_interpolated r' = in_interpolated r
    \<and> (in_phase r', rh_frames (head_of r' q')) = route_skip (in_phase r) (rh_frames (head_of r q))
    \<and> b = (rh_frames (head_of r' q') = []) \<and> in_primed r' = (\<not> b) \<and> capacity q' = capacity q"
  using assms
proof (induction "length (frames_in (in_channels r) q)" arbitrary: r q)
  case 0
  then have e: "frames_in (in_channels r) q = []" and f: "ring_framed (in_channels r) q" by (auto simp: route_inv_def)
  let ?r1 = "r\<lparr>in_current := in_next r\<rparr>"
  have rd: "read_source_frame True ?r1 q = (False, ?r1, q)"
    using read_source_frame_empty [of ?r1 q True] e f by simp
  have h: "rh_frames (head_of r q) = [in_current r, in_next r]" using "0.prems"(2) e by (simp add: head_of_def)
  show ?case
  proof (cases "fle (fone F64) (in_phase r)")
    case True
    have "route_loop (False, (r, q, m)) = ret (True, (?r1\<lparr>in_primed := False\<rparr>, q, count_underrun m))"
      unfolding route_loop_def
      using True "0.prems"(1) rd
      by (subst while_res_unfold, simp add: route_advance_body_def route_inv_def)
        (subst while_res_unfold, simp)
    then show ?thesis
      using True "0.prems"(1) e h
      by (auto simp: route_inv_def same_config_def head_of_def)
  next
    case False
    then have "route_loop (False, (r, q, m)) = ret (False, (r, q, m))"
      unfolding route_loop_def by (subst while_res_unfold) simp
    then show ?thesis using False "0.prems" h by auto
  qed
next
  case (Suc k)
  then obtain z fs where z: "frames_in (in_channels r) q = z # fs" by (cases "frames_in (in_channels r) q") auto
  have f: "ring_framed (in_channels r) q" and l: "length (in_current r) = in_channels r"
    "length (in_next r) = in_channels r" using Suc.prems by (auto simp: route_inv_def)
  let ?r1 = "r\<lparr>in_current := in_next r\<rparr>"
  have h: "rh_frames (head_of r q) = in_current r # in_next r # z # fs"
    using Suc.prems(2) z by (simp add: head_of_def)
  show ?case
  proof (cases "fle (fone F64) (in_phase r)")
    case True
    have "ring_framed (in_channels ?r1) q" "frames_in (in_channels ?r1) q = z # fs"
      "length (in_current ?r1) = in_channels ?r1" "length (in_next ?r1) = in_channels ?r1"
      using f z l by simp_all
    from read_source_frame_some [OF this, of True] obtain q1 where
      q1: "read_source_frame True ?r1 q = (True, ?r1\<lparr>in_next := z\<rparr>, q1)" "ring_framed (in_channels r) q1"
      "frames_in (in_channels r) q1 = fs" "capacity q1 = capacity q" "length z = in_channels r" by auto
    let ?r2 = "?r1\<lparr>in_next := z, in_phase := fsub F64 (in_phase r) (fone F64)\<rparr>"
    have i2: "route_inv ?r2 q1" "in_primed ?r2" using Suc.prems q1(2,5) by (simp_all add: route_inv_def)
    have "k = length (frames_in (in_channels ?r2) q1)" using Suc.hyps(2) z q1(3) by simp
    from Suc.hyps(1) [OF this i2] obtain b r' q' where
      ih: "route_loop (False, (?r2, q1, m)) = ret (b, (r', q', if b then count_underrun m else m))"
      "route_inv r' q'" "same_config ?r2 r'" "in_interpolated r' = in_interpolated ?r2"
      "(in_phase r', rh_frames (head_of r' q')) = route_skip (in_phase ?r2) (rh_frames (head_of ?r2 q1))"
      "b = (rh_frames (head_of r' q') = [])" "in_primed r' = (\<not> b)" "capacity q' = capacity q1" by blast
    have "route_loop (False, (r, q, m)) = route_loop (False, (?r2, q1, m))"
      unfolding route_loop_def using True q1(1) l
      by (subst while_res_unfold) (simp add: route_advance_body_def)
    moreover have "rh_frames (head_of ?r2 q1) = in_next r # z # fs"
      using Suc.prems(2) q1(3) by (simp add: head_of_def)
    then have "route_skip (in_phase ?r2) (rh_frames (head_of ?r2 q1)) = route_skip (in_phase r) (rh_frames (head_of r q))"
      using h True by simp
    ultimately show ?thesis using ih q1(4) by (auto simp: same_config_def)
  next
    case False
    then have "route_loop (False, (r, q, m)) = ret (False, (r, q, m))"
      unfolding route_loop_def by (subst while_res_unfold) simp
    then show ?thesis using False Suc.prems h by auto
  qed
qed

text \<open>The refinement of one call, for any phase and any step, infinite ones and NaN included.\<close>

lemma route_frame_refines:
  assumes inv: "route_inv r q"
  shows "\<exists>out r' q' b. prepare_output_frame (r, q, m)
      = ret (out \<noteq> None, (r', q', if b then count_underrun m else m))
    \<and> route_inv r' q' \<and> same_config r r' \<and> capacity q' = capacity q
    \<and> route_step (in_step r) (head_of r q) = (out, head_of r' q')
    \<and> (\<forall>xs. out = Some xs \<longrightarrow> in_interpolated r' = xs)
    \<and> b = (out \<noteq> None \<and> \<not> in_primed r')"
proof -
  obtain ok r1 q1 where p: "route_prime (r, q, m) = Ok (ok, (r1, q1, m))" "route_inv r1 q1" "same_config r r1"
    "ok \<longleftrightarrow> in_primed r \<or> startup_frames \<le> length (rh_frames (head_of r q))"
    "if ok then in_primed r1 \<and> in_phase r1 = (if in_primed r then in_phase r else fzero F64)
        \<and> rh_frames (head_of r1 q1) = rh_frames (head_of r q)
     else r1 = r \<and> q1 = q" "capacity q1 = capacity q"
    using route_prime_ok [OF inv] by metis
  show ?thesis
  proof (cases ok)
    case False
    then have "route_step (in_step r) (head_of r q) = (None, head_of r q)"
      using p(4) by (simp add: route_step_def head_of_def)
    moreover have "prepare_output_frame (r, q, m) = ret (False, (r, q, m))"
      using False p(1,5) by (simp add: prepare_output_frame_def)
    ultimately show ?thesis
      using inv by (intro exI [of _ None] exI [of _ r] exI [of _ q] exI [of _ False]) simp
  next
    case True
    let ?x = "in_current r1" and ?y = "in_next r1" and ?fs = "frames_in (in_channels r1) q1"
    let ?p = "in_phase r1" let ?xs = "mix ?p ?x ?y"
    have h: "rh_frames (head_of r q) = ?x # ?y # ?fs" and primed: "in_primed r1"
      using p(5) True by (auto simp: head_of_def)
    define r2 where "r2 = r1\<lparr>in_interpolated := ?xs, in_phase := fadd F64 ?p
        (fmul F64 (in_step r1) (fadd F64 (fone F64) (route_drift (length ?fs))))\<rparr>"
    have i2: "route_inv r2 q1" "in_primed r2"
      using p(2) primed by (simp_all add: r2_def route_inv_def mix_def)
    have "ring_framed (in_channels r1) q1" using p(2) by (simp add: route_inv_def)
    then have n: "(usize_div (consumer_available q1) (in_channels r1) :: usize access) = Ok (length ?fs)"
      using length_frames_in by (simp add: ring_framed_def)
    have run: "prepare_output_frame (r, q, m) = and_run (route_loop (False, (r2, q1, m))) (\<lambda>(broken, s1). ret (True, s1))"
      using p(1) True n by (simp add: prepare_output_frame_def route_interpolate_ok [OF p(2)]
          route_correction_ok Let_def r2_def)
    obtain b r' q' where l: "route_loop (False, (r2, q1, m)) = ret (b, (r', q', if b then count_underrun m else m))"
      "route_inv r' q'" "same_config r2 r'" "in_interpolated r' = in_interpolated r2"
      "(in_phase r', rh_frames (head_of r' q')) = route_skip (in_phase r2) (rh_frames (head_of r2 q1))"
      "b = (rh_frames (head_of r' q') = [])" "in_primed r' = (\<not> b)" "capacity q' = capacity q1"
      using route_loop_ok [OF i2, of m] by blast
    have cfg: "same_config r r'" using p(3) l(3) by (simp add: same_config_def r2_def)
    have st: "in_step r1 = in_step r" using p(3) by (simp add: same_config_def)
    have "rh_frames (head_of r2 q1) = ?x # ?y # ?fs" using primed by (simp add: head_of_def r2_def)
    moreover have "head_of r' q' = \<lparr>rh_frames = rh_frames (head_of r' q'), rh_phase = in_phase r',
        rh_primed = (rh_frames (head_of r' q') \<noteq> [])\<rparr>"
      using l(6,7) by (simp add: head_of_def)
    ultimately have "route_step (in_step r) (head_of r q) = (Some ?xs, head_of r' q')"
      using h p(4,5) True l(5) [symmetric] st
      by (auto simp: route_step_def r2_def Let_def head_of_def split: prod.splits)
    then show ?thesis
      using run l cfg p(6) by (intro exI [of _ "Some ?xs"] exI [of _ r'] exI [of _ q'] exI [of _ b]) (simp add: r2_def)
  qed
qed

section \<open>Capture\<close>

text \<open>The frame a route takes from the input, and the number of frames its ring has room for.\<close>

definition route_frame :: "OutgoingRoute \<Rightarrow> AudioBufferList \<Rightarrow> nat \<Rightarrow> f32 list" where
  "route_frame r bs f = map (sample_at bs f) [0..<out_channels r]"

definition room :: "OutgoingRoute \<Rightarrow> router_store \<Rightarrow> nat" where
  "room r s = producer_available (rings s ! out_ring r) div out_channels r"

definition outgoing_inv :: "OutgoingRoute list \<Rightarrow> router_store \<Rightarrow> bool" where
  "outgoing_inv outs s \<longleftrightarrow> distinct (map out_ring outs)
     \<and> (\<forall>r \<in> set outs. out_ring r < length (rings s) \<and> ring_framed (out_channels r) (rings s ! out_ring r))"

text \<open>What capturing the frames \<open>fs\<close> does to the store.\<close>

definition captured ::
    "AudioBufferList \<Rightarrow> nat list \<Rightarrow> OutgoingRoute list \<Rightarrow> router_store \<Rightarrow> router_store \<Rightarrow> bool" where
  "captured bs fs outs s s' \<longleftrightarrow>
     (\<forall>r \<in> set outs. ring_framed (out_channels r) (rings s' ! out_ring r)
        \<and> capacity (rings s' ! out_ring r) = capacity (rings s ! out_ring r)
        \<and> contents (rings s' ! out_ring r) = contents (rings s ! out_ring r)
            @ concat (map (route_frame r bs) (take (room r s) fs)))
     \<and> (\<forall>i. i \<notin> out_ring ` set outs \<longrightarrow> rings s' ! i = rings s ! i)
     \<and> length (rings s') = length (rings s)
     \<and> router_metrics s' = (router_metrics s)\<lparr>overruns := overruns (router_metrics s)
          + of_nat (\<Sum>r\<leftarrow>outs. length fs - room r s)\<rparr>"

lemma push_channels_ok:
  "ring_inv q \<Longrightarrow> holds_frames n bs \<Longrightarrow> f < n \<Longrightarrow> set chs \<subseteq> {..<total_channels bs} \<Longrightarrow>
     length chs \<le> producer_available q \<Longrightarrow>
     \<exists>q'. push_channels bs f chs q = Ok (True, q') \<and> ring_inv q' \<and> capacity q' = capacity q
       \<and> contents q' = contents q @ map (sample_at bs f) chs"
proof (induction chs arbitrary: q)
  case (Cons ch chs)
  have rd: "read_audio_sample bs f ch = Ok (Some (sample_at bs f ch))"
    using read_audio_sample_ok [OF Cons.prems(2,3)] Cons.prems(4) by simp
  obtain b q1 where p: "push (sample_at bs f ch) q = (b, q1)" by (cases "push (sample_at bs f ch) q")
  note r = push_refines [OF Cons.prems(1) p]
  have b: "b" using r(1) Cons.prems(5) rq.free [OF Cons.prems(1)] by simp
  have "length chs \<le> producer_available q1"
    using Cons.prems(5) r b by (simp add: rq.free Cons.prems(1) del: length_contents)
  then obtain q' where "push_channels bs f chs q1 = Ok (True, q')" "ring_inv q'" "capacity q' = capacity q1"
    "contents q' = contents q1 @ map (sample_at bs f) chs"
    using Cons.IH [OF r(2) Cons.prems(2,3)] Cons.prems(4) by auto
  then show ?case using rd p b r by simp
qed simp

lemma captured_frame:
  "outgoing_inv outs s \<Longrightarrow> holds_frames n bs \<Longrightarrow> f < n \<Longrightarrow>
     (\<And>r. r \<in> set outs \<Longrightarrow> out_channels r \<le> total_channels bs) \<Longrightarrow>
     \<exists>s'. outgoing_routes bs f outs s = Ok (True, s') \<and> captured bs [f] outs s s'"
proof (induction outs arbitrary: s)
  case Nil
  then show ?case by (simp add: captured_def)
next
  case (Cons r outs)
  let ?i = "out_ring r" and ?q = "rings s ! out_ring r"
  have i: "?i < length (rings s)" and fr: "ring_framed (out_channels r) ?q" and new: "?i \<notin> out_ring ` set outs"
    using Cons.prems(1) by (auto simp: outgoing_inv_def)
  then have c: "0 < out_channels r" and inv: "ring_inv ?q" by (auto simp: ring_framed_def)
  obtain s1 where s1: "outgoing_routes bs f (r # outs) s = outgoing_routes bs f outs s1"
    "captured bs [f] [r] s s1"
  proof (cases "producer_available ?q < out_channels r")
    case True
    then have "room r s = 0" by (simp add: room_def)
    then show ?thesis
      using True i fr by (intro that [of "router_meter count_overrun s"])
        (auto simp: ring_of_def captured_def router_meter_def count_overrun_def)
  next
    case False
    then have rm: "0 < room r s" using c by (simp add: room_def div_greater_zero_iff)
    obtain q' where q': "push_channels bs f [0..<out_channels r] ?q = Ok (True, q')" "ring_inv q'"
      "capacity q' = capacity ?q" "contents q' = contents ?q @ map (sample_at bs f) [0..<out_channels r]"
      using push_channels_ok [OF inv Cons.prems(2,3), of "[0..<out_channels r]"] Cons.prems(4) False by force
    have "ring_framed (out_channels r) q'"
      using fr q'(2,4) by (simp add: ring_framed_def del: length_contents)
    moreover have "take (room r s) [f] = [f]" using rm by (cases "room r s") auto
    ultimately show ?thesis
      using False i q' rm by (intro that [of "set_ring ?i q' s"])
        (auto simp: ring_of_def captured_def set_ring_def route_frame_def Suc_le_eq)
  qed
  have same: "rings s1 ! out_ring r' = rings s ! out_ring r'" "room r' s1 = room r' s" if "r' \<in> set outs" for r'
  proof -
    have "out_ring r' \<noteq> ?i" using that new by (metis imageI)
    then show "rings s1 ! out_ring r' = rings s ! out_ring r'" "room r' s1 = room r' s"
      using s1(2) by (auto simp: captured_def room_def)
  qed
  have "outgoing_inv outs s1"
    using Cons.prems(1) s1(2) same(1) by (auto simp: outgoing_inv_def captured_def)
  then obtain s' where s': "outgoing_routes bs f outs s1 = Ok (True, s')" "captured bs [f] outs s1 s'"
    using Cons.IH [of s1] Cons.prems(2-4) by auto
  have sum: "(\<Sum>r\<leftarrow>outs. Suc 0 - room r s1) = (\<Sum>r\<leftarrow>outs. Suc 0 - room r s)"
    using same(2) by (intro arg_cong [where f = sum_list] map_cong) simp_all
  have "captured bs [f] (r # outs) s s'"
    using s1(2) s'(2) new same sum
    by (auto simp: captured_def)
  then show ?case using s1(1) s'(1) by auto
qed

lemma captured_frames:
  assumes "captured bs [f] outs s s1" "captured bs fs outs s1 s2" "outgoing_inv outs s"
  shows "captured bs (f # fs) outs s s2"
proof -
  have step: "room r s1 = room r s - 1 \<and> take (room r s) (f # fs)
      = take (room r s) [f] @ take (room r s1) fs
      \<and> (Suc 0 - room r s) + (length fs - room r s1) = Suc (length fs) - room r s"
    if "r \<in> set outs" for r
  proof -
    let ?q = "rings s ! out_ring r" and ?q1 = "rings s1 ! out_ring r" and ?c = "out_channels r"
    have q: "ring_framed ?c ?q" "ring_framed ?c ?q1" "capacity ?q1 = capacity ?q"
      "contents ?q1 = contents ?q @ concat (map (route_frame r bs) (take (room r s) [f]))"
      using assms(1,3) that by (auto simp: captured_def outgoing_inv_def)
    then have i: "0 < ?c" "ring_inv ?q" "ring_inv ?q1" by (auto simp: ring_framed_def)
    have free: "producer_available ?q = capacity ?q - length (contents ?q)"
      "producer_available ?q1 = capacity ?q - length (contents ?q1)"
      using i q(3) by (simp_all add: rq.free del: length_contents)
    have "room r s1 = room r s - 1"
    proof (cases "room r s")
      case 0
      then have "contents ?q1 = contents ?q" using q(4) by simp
      then show ?thesis using 0 free by (simp add: room_def)
    next
      case (Suc k)
      then have "length (contents ?q1) = length (contents ?q) + ?c"
        using q(4) by (simp add: route_frame_def del: length_contents)
      then have "producer_available ?q1 = producer_available ?q - ?c" using free by simp
      moreover have "?c \<le> producer_available ?q" using Suc i(1) by (auto simp: room_def intro: leI)
      ultimately show ?thesis using le_div_geq [OF i(1)] by (simp add: room_def)
    qed
    then show ?thesis by (cases "room r s") auto
  qed
  have "(\<Sum>r\<leftarrow>outs. Suc 0 - room r s) + (\<Sum>r\<leftarrow>outs. length fs - room r s1)
      = (\<Sum>r\<leftarrow>outs. Suc (length fs) - room r s)"
    using step by (induction outs) (auto simp: algebra_simps)
  then have w: "(of_nat (\<Sum>r\<leftarrow>outs. Suc 0 - room r s) :: u64) + of_nat (\<Sum>r\<leftarrow>outs. length fs - room r s1)
      = of_nat (\<Sum>r\<leftarrow>outs. Suc (length fs) - room r s)"
    by (metis of_nat_add)
  have "contents (rings s2 ! out_ring r) = contents (rings s ! out_ring r)
      @ concat (map (route_frame r bs) (take (room r s) (f # fs)))" if "r \<in> set outs" for r
  proof -
    have "concat (map (route_frame r bs) (take (room r s) (f # fs)))
        = concat (map (route_frame r bs) (take (room r s) [f])) @ concat (map (route_frame r bs) (take (room r s1) fs))"
      using step [OF that] by (metis concat_append map_append)
    then show ?thesis using assms(1,2) that by (simp add: captured_def)
  qed
  then show ?thesis
    using assms w unfolding captured_def
    by (simp add: add.assoc)
qed

lemma outgoing_frames_ok:
  "outgoing_inv outs s \<Longrightarrow> holds_frames n bs \<Longrightarrow> set fs \<subseteq> {..<n} \<Longrightarrow>
     (\<And>r. r \<in> set outs \<Longrightarrow> out_channels r \<le> total_channels bs) \<Longrightarrow>
     \<exists>s'. outgoing_frames bs fs outs s = Ok (True, s') \<and> captured bs fs outs s s'"
proof (induction fs arbitrary: s)
  case Nil
  then show ?case by (auto simp: captured_def outgoing_inv_def)
next
  case (Cons f fs)
  then obtain s1 where s1: "outgoing_routes bs f outs s = Ok (True, s1)" "captured bs [f] outs s s1"
    using captured_frame [of outs s n bs f] by auto
  then have "outgoing_inv outs s1" using Cons.prems(1) by (auto simp: outgoing_inv_def captured_def)
  then obtain s' where "outgoing_frames bs fs outs s1 = Ok (True, s')" "captured bs fs outs s1 s'"
    using Cons.IH [of s1] Cons.prems(2-4) by auto
  then show ?case using s1 captured_frames [OF s1(2) _ Cons.prems(1)] by auto
qed

section \<open>Playback\<close>

text \<open>The outputs of a play head over \<open>n\<close> frames, and how often it ran dry.\<close>

fun route_run :: "nat \<Rightarrow> f64 \<Rightarrow> route_head \<Rightarrow> f32 list option list \<times> nat \<times> route_head" where
  "route_run 0 step h = ([], 0, h)"
| "route_run (Suc n) step h =
     (let (out, h1) = route_step step h;
          (outs, dry, h2) = route_run n step h1
      in (out # outs, (if out \<noteq> None \<and> \<not> rh_primed h1 then 1 else 0) + dry, h2))"

text \<open>What a route adds to a sample: nothing in a gap or beyond its channels.\<close>

definition route_sample :: "IncomingRoute \<Rightarrow> f32 list \<Rightarrow> nat \<Rightarrow> f32" where
  "route_sample r xs ch =
     fmul F32 (dot (take (in_channels r) (drop (ch * in_channels r) (in_matrix r))) xs) (in_gain r)"

definition route_adds :: "IncomingRoute \<Rightarrow> f32 list option \<Rightarrow> nat \<Rightarrow> f32 \<Rightarrow> f32" where
  "route_adds r out ch old = (case out of
      Some xs \<Rightarrow> if ch < in_sink_channels r then fadd F32 old (route_sample r xs ch) else old
    | None \<Rightarrow> old)"

lemma route_sample_config: "same_config r r' \<Longrightarrow> route_sample r' = route_sample r"
  by (auto simp: route_sample_def same_config_def fun_eq_iff)

lemma route_adds_config: "same_config r r' \<Longrightarrow> route_adds r' = route_adds r"
  using route_sample_config [of r r'] by (auto simp: route_adds_def same_config_def fun_eq_iff split: option.split)

lemma mixed_sample_ok:
  assumes "route_inv r q" "ch < in_sink_channels r"
  shows "mixed_sample r ch = Ok (route_sample r (in_interpolated r) ch)"
proof -
  have b: "ch * in_channels r + in_channels r \<le> length (in_matrix r)"
    using assms frame_slice_bound [OF assms(2), of "in_channels r"] by (simp add: route_inv_def)
  then have "ch * in_channels r < usize_bound" using assms(1) by (simp add: route_inv_def)
  then show ?thesis using b by (simp add: mixed_sample_def checked_mul_def route_sample_def)
qed

lemma incoming_frames_ok:
  "route_inv r q \<Longrightarrow> audio_grid n c out \<Longrightarrow> in_sink_channels r \<le> c \<Longrightarrow> set fs \<subseteq> {..<n} \<Longrightarrow> distinct fs \<Longrightarrow>
     route_run (length fs) (in_step r) (head_of r q) = (outs, dry, h) \<Longrightarrow>
     \<exists>out' r' q'. incoming_frames fs out (r, q, m)
         = ret (True, out', (r', q', m\<lparr>underruns := underruns m + of_nat dry\<rparr>))
       \<and> route_inv r' q' \<and> same_config r r' \<and> capacity q' = capacity q \<and> audio_grid n c out' \<and> h = head_of r' q'
       \<and> (\<forall>i < length fs. \<forall>ch < c. sample_at out' (fs ! i) ch = route_adds r (outs ! i) ch (sample_at out (fs ! i) ch))
       \<and> (\<forall>f < n. \<forall>ch < c. f \<notin> set fs \<longrightarrow> sample_at out' f ch = sample_at out f ch)"
proof (induction fs arbitrary: out r q m outs dry)
  case Nil
  then show ?case by simp
next
  case (Cons f fs)
  obtain fr r1 q1 b where p: "prepare_output_frame (r, q, m) = ret (fr \<noteq> None, (r1, q1, if b then count_underrun m else m))"
    "route_inv r1 q1" "same_config r r1" "capacity q1 = capacity q"
    "route_step (in_step r) (head_of r q) = (fr, head_of r1 q1)"
    "\<forall>xs. fr = Some xs \<longrightarrow> in_interpolated r1 = xs" "b = (fr \<noteq> None \<and> \<not> in_primed r1)"
    using route_frame_refines [OF Cons.prems(1), of m] by blast
  let ?m1 = "if b then count_underrun m else m"
  have cfg: "in_step r1 = in_step r" "in_sink_channels r1 = in_sink_channels r" "route_sample r1 = route_sample r"
    using p(3) route_sample_config [OF p(3)] by (simp_all add: same_config_def)
  obtain outs1 dry1 where run: "route_run (length fs) (in_step r1) (head_of r1 q1) = (outs1, dry1, h)"
    and o: "outs = fr # outs1" "dry = (if b then 1 else 0) + dry1"
    using Cons.prems(6) p(5,7) cfg(1)
    by (auto simp: head_of_def split: prod.splits if_splits)
  have fn: "f < n" "f \<notin> set fs" "set fs \<subseteq> {..<n}" "distinct fs" using Cons.prems(4,5) by auto
  obtain out1 where out1: "audio_grid n c out1"
    "\<forall>f' < n. \<forall>ch < c. sample_at out1 f' ch =
       (if f' = f then route_adds r fr ch (sample_at out f ch) else sample_at out f' ch)"
    "incoming_frames (f # fs) out (r, q, m) = incoming_frames fs out1 (r1, q1, ?m1)"
  proof (cases fr)
    case None
    then show ?thesis using p(1) Cons.prems(2) by (intro that [of out]) (auto simp: route_adds_def)
  next
    case (Some xs)
    have "mixed_sample r1 ch = Ok (route_sample r xs ch)" if "ch < in_sink_channels r1" for ch
      using mixed_sample_ok [OF p(2) that] p(6) Some cfg(3) by simp
    then obtain out1 where
      "add_channels add_audio_sample (mixed_sample r1) f [0..<in_sink_channels r1] out = Ok (True, out1)"
      "audio_grid n c out1"
      "\<forall>f' < n. \<forall>ch < c. sample_at out1 f' ch =
         (if f' = f \<and> ch \<in> set [0..<in_sink_channels r1] then fadd F32 (sample_at out f ch) (route_sample r xs ch)
          else sample_at out f' ch)"
      using abl.add_channels_ok [OF Cons.prems(2) fn(1), of "[0..<in_sink_channels r1]" "mixed_sample r1"
          "\<lambda>ch. route_sample r xs ch"] Cons.prems(3) cfg(2) by (auto simp: atLeast0LessThan)
    then show ?thesis
      using p(1) Some cfg(2) by (intro that [of out1]) (auto simp: route_adds_def)
  qed
  obtain out' r' q' where ih: "incoming_frames fs out1 (r1, q1, ?m1)
        = ret (True, out', (r', q', ?m1\<lparr>underruns := underruns ?m1 + of_nat dry1\<rparr>))"
    "route_inv r' q'" "same_config r1 r'" "capacity q' = capacity q1" "audio_grid n c out'" "h = head_of r' q'"
    "\<forall>i < length fs. \<forall>ch < c. sample_at out' (fs ! i) ch = route_adds r1 (outs1 ! i) ch (sample_at out1 (fs ! i) ch)"
    "\<forall>f < n. \<forall>ch < c. f \<notin> set fs \<longrightarrow> sample_at out' f ch = sample_at out1 f ch"
    using Cons.IH [OF p(2) out1(1) _ fn(3,4) run, of ?m1] Cons.prems(3) cfg(2) by auto
  have adds: "route_adds r1 = route_adds r" by (rule route_adds_config [OF p(3)])
  have "sample_at out' ((f # fs) ! i) ch = route_adds r (outs ! i) ch (sample_at out ((f # fs) ! i) ch)"
    if "i < length (f # fs)" "ch < c" for i ch
  proof (cases i)
    case 0
    then show ?thesis using ih(8) out1(2) fn that(2) o(1) by simp
  next
    case (Suc j)
    then have "fs ! j \<in> set fs" using that(1) by simp
    then have "fs ! j \<noteq> f" "fs ! j < n" using fn by auto
    then show ?thesis using ih(7) out1(2) that Suc o(1) adds by simp
  qed
  moreover have "sample_at out' g ch = sample_at out g ch" if "g < n" "ch < c" "g \<notin> set (f # fs)" for g ch
    using ih(8) out1(2) that by simp
  moreover have "?m1\<lparr>underruns := underruns ?m1 + of_nat dry1\<rparr> = m\<lparr>underruns := underruns m + of_nat dry\<rparr>"
    using o(2) by (simp add: count_underrun_def)
  ultimately show ?case
    using out1(3) ih p(3,4) by (intro exI [of _ out'] exI [of _ r'] exI [of _ q']) (auto intro: same_config_trans)
qed

text \<open>Several routes into one list: their outputs are added in order.\<close>

definition route_outs :: "nat \<Rightarrow> router_store \<Rightarrow> IncomingRoute \<Rightarrow> f32 list option list \<times> nat \<times> route_head" where
  "route_outs n s r = route_run n (in_step r) (head_of r (rings s ! in_ring r))"

definition incoming_inv :: "IncomingRoute list \<Rightarrow> router_store \<Rightarrow> bool" where
  "incoming_inv ins s \<longleftrightarrow> distinct (map in_ring ins)
     \<and> (\<forall>r \<in> set ins. in_ring r < length (rings s) \<and> route_inv r (rings s ! in_ring r))"

definition played :: "nat \<Rightarrow> IncomingRoute list \<Rightarrow> router_store \<Rightarrow> IncomingRoute list \<Rightarrow> router_store \<Rightarrow> bool" where
  "played n ins s ins' s' \<longleftrightarrow>
     list_all2 (\<lambda>r r'. same_config r r' \<and> route_inv r' (rings s' ! in_ring r)
        \<and> capacity (rings s' ! in_ring r) = capacity (rings s ! in_ring r)
        \<and> head_of r' (rings s' ! in_ring r) = snd (snd (route_outs n s r))) ins ins'
     \<and> (\<forall>i. i \<notin> in_ring ` set ins \<longrightarrow> rings s' ! i = rings s ! i)
     \<and> length (rings s') = length (rings s)
     \<and> router_metrics s' = (router_metrics s)\<lparr>underruns := underruns (router_metrics s)
          + of_nat (\<Sum>r\<leftarrow>ins. fst (snd (route_outs n s r)))\<rparr>"

definition mixed_output :: "nat \<Rightarrow> router_store \<Rightarrow> IncomingRoute list \<Rightarrow> nat \<Rightarrow> nat \<Rightarrow> f32 \<Rightarrow> f32" where
  "mixed_output n s ins f ch = (\<lambda>old. foldl (\<lambda>acc r. route_adds r (fst (route_outs n s r) ! f) ch acc) old ins)"

lemma incoming_routes_ok:
  "incoming_inv ins s \<Longrightarrow> audio_grid n c out \<Longrightarrow> (\<And>r. r \<in> set ins \<Longrightarrow> in_sink_channels r \<le> c) \<Longrightarrow>
     \<exists>ins' out' s'. incoming_routes n ins out s = ret (True, ins', out', s')
       \<and> audio_grid n c out' \<and> played n ins s ins' s'
       \<and> (\<forall>f < n. \<forall>ch < c. sample_at out' f ch = mixed_output n s ins f ch (sample_at out f ch))"
proof (induction ins arbitrary: out s)
  case Nil
  then show ?case by (simp add: played_def mixed_output_def)
next
  case (Cons r ins)
  let ?i = "in_ring r" and ?q = "rings s ! in_ring r"
  have i: "?i < length (rings s)" "route_inv r ?q" and new: "?i \<notin> in_ring ` set ins"
    using Cons.prems(1) by (auto simp: incoming_inv_def)
  obtain outs dry h where run: "route_outs n s r = (outs, dry, h)" by (cases "route_outs n s r")
  then have "route_run (length [0..<n]) (in_step r) (head_of r ?q) = (outs, dry, h)" by (simp add: route_outs_def)
  from incoming_frames_ok [OF i(2) Cons.prems(2) _ _ _ this, of "router_metrics s"] Cons.prems(3)
  obtain out1 r1 q1 where f: "incoming_frames [0..<n] out (r, ?q, router_metrics s)
      = ret (True, out1, (r1, q1, (router_metrics s)\<lparr>underruns := underruns (router_metrics s) + of_nat dry\<rparr>))"
    "route_inv r1 q1" "same_config r r1" "capacity q1 = capacity ?q" "audio_grid n c out1" "h = head_of r1 q1"
    "\<forall>f < n. \<forall>ch < c. sample_at out1 f ch = route_adds r (outs ! f) ch (sample_at out f ch)"
    by (auto simp: atLeast0LessThan)
  define s1 where "s1 = (set_ring ?i q1 s)\<lparr>router_metrics :=
      (router_metrics s)\<lparr>underruns := underruns (router_metrics s) + of_nat dry\<rparr>\<rparr>"
  have same: "rings s1 ! in_ring r' = rings s ! in_ring r'" "route_outs n s1 r' = route_outs n s r'"
    if "r' \<in> set ins" for r'
  proof -
    have "in_ring r' \<noteq> ?i" using that new by (metis imageI)
    then show "rings s1 ! in_ring r' = rings s ! in_ring r'" by (simp add: s1_def set_ring_def)
    then show "route_outs n s1 r' = route_outs n s r'" by (simp add: route_outs_def)
  qed
  have len: "length (rings s1) = length (rings s)" and at: "rings s1 ! ?i = q1"
    and other: "\<And>j. j \<noteq> ?i \<Longrightarrow> rings s1 ! j = rings s ! j"
    using i(1) by (simp_all add: s1_def set_ring_def)
  have "incoming_inv ins s1" using Cons.prems(1) same(1) len by (auto simp: incoming_inv_def)
  then obtain ins' out' s' where ih: "incoming_routes n ins out1 s1 = ret (True, ins', out', s')"
    "audio_grid n c out'" "played n ins s1 ins' s'"
    "\<forall>f < n. \<forall>ch < c. sample_at out' f ch = mixed_output n s1 ins f ch (sample_at out1 f ch)"
    using Cons.IH [OF _ f(5)] Cons.prems(3) by (metis list.set_intros(2))
  have "mixed_output n s1 ins f ch x = mixed_output n s ins f ch x" for f ch x
    unfolding mixed_output_def using same(2) by (intro foldl_cong) simp_all
  then have mix: "\<forall>f < n. \<forall>ch < c. sample_at out' f ch = mixed_output n s (r # ins) f ch (sample_at out f ch)"
    using ih(4) f(7) run by (simp add: mixed_output_def)
  have "rings s' ! ?i = q1" using ih(3) new at by (simp add: played_def)
  moreover have "(\<Sum>r\<leftarrow>ins. fst (snd (route_outs n s1 r))) = (\<Sum>r\<leftarrow>ins. fst (snd (route_outs n s r)))"
    using same(2) by (intro arg_cong [where f = sum_list] map_cong) simp_all
  moreover have "list_all2 (\<lambda>r r'. same_config r r' \<and> route_inv r' (rings s' ! in_ring r)
        \<and> capacity (rings s' ! in_ring r) = capacity (rings s ! in_ring r)
        \<and> head_of r' (rings s' ! in_ring r) = snd (snd (route_outs n s r))) ins ins'"
  proof -
    have "list_all2 (\<lambda>r r'. same_config r r' \<and> route_inv r' (rings s' ! in_ring r)
        \<and> capacity (rings s' ! in_ring r) = capacity (rings s1 ! in_ring r)
        \<and> head_of r' (rings s' ! in_ring r) = snd (snd (route_outs n s1 r))) ins ins'"
      using ih(3) by (simp add: played_def)
    then show ?thesis by (rule list.rel_mono_strong) (simp add: same)
  qed
  ultimately have "played n (r # ins) s (r1 # ins') s'"
    using ih(3) f(2-4,6) run len other by (auto simp: played_def s1_def set_ring_def add.assoc)
  moreover have "incoming_routes n (r # ins) out s = ret (True, r1 # ins', out', s')"
    using i(1) f(1) ih(1) by (simp add: ring_of_def s1_def Let_def)
  ultimately show ?case using ih(2) mix by blast
qed

section \<open>The callback\<close>

text \<open>A context as the router builds it: no two routes of a kind share a ring.\<close>

definition context_inv :: "DeviceIoContext \<Rightarrow> router_store \<Rightarrow> bool" where
  "context_inv ctx s \<longleftrightarrow> outgoing_inv (outgoing ctx) s \<and> incoming_inv (incoming ctx) s"

lemma captured_keeps_incoming:
  assumes "captured bs fs outs s s1" "incoming_inv ins s" "outgoing_inv outs s"
    and "\<And>w r. w \<in> set outs \<Longrightarrow> r \<in> set ins \<Longrightarrow> out_ring w = in_ring r \<Longrightarrow> out_channels w = in_channels r"
  shows "incoming_inv ins s1"
proof -
  have "route_inv r (rings s1 ! in_ring r)" if "r \<in> set ins" for r
  proof (cases "in_ring r \<in> out_ring ` set outs")
    case True
    then obtain w where w: "w \<in> set outs" "out_ring w = in_ring r" by auto
    then have "ring_framed (in_channels r) (rings s1 ! in_ring r)"
      using assms(1) assms(4) [OF w(1) that w(2)] by (auto simp: captured_def)
    then show ?thesis using assms(2) that by (auto simp: incoming_inv_def route_inv_def)
  next
    case False
    then show ?thesis using assms(1,2) that by (auto simp: captured_def incoming_inv_def)
  qed
  then show ?thesis using assms(1,2) by (auto simp: incoming_inv_def captured_def)
qed

lemma router_capture_ok:
  assumes "outgoing_inv outs s" "inp = Some bs" "list_all buffer_wf bs" "audio_buffer_list_frames bs = Some n"
    and "\<And>r. r \<in> set outs \<Longrightarrow> out_channels r \<le> total_channels bs"
  obtains s1 where "router_capture outs inp s = Ok (True, s1)" "captured bs [0..<n] outs s s1"
proof (cases "outs = []")
  case True
  then show ?thesis using assms(2) by (intro that [of s]) (simp_all add: router_capture_def captured_def)
next
  case False
  have "holds_frames n bs" using audio_buffer_list_frames_holds [OF assms(4,3)] .
  then show ?thesis
    using outgoing_frames_ok [OF assms(1), of n bs "[0..<n]"] assms(2,4,5) False that
    by (auto simp: router_capture_def atLeast0LessThan)
qed

lemma router_playback_ok:
  assumes "incoming_inv ins s" "outp = Some bs" "list_all buffer_wf bs" "audio_buffer_list_frames bs = Some n"
    and "\<And>r. r \<in> set ins \<Longrightarrow> in_sink_channels r \<le> total_channels bs" and "ins \<noteq> []"
  obtains ins' bs' s' where "router_playback ins outp s = ret (ins', Some bs', s')" "played n ins s ins' s'"
    "audio_grid n (total_channels bs) bs'"
    "\<forall>f < n. \<forall>ch < total_channels bs. sample_at bs' f ch = mixed_output n s ins f ch (fzero F32)"
proof -
  have h: "holds_frames n bs" using audio_buffer_list_frames_holds [OF assms(4,3)] .
  have g: "audio_grid n (total_channels bs) (map cleared bs)"
    using cleared_holds [OF h] by (simp add: audio_grid_def)
  obtain ins' out' s' where
    "incoming_routes n ins (map cleared bs) s = ret (True, ins', out', s')"
    "audio_grid n (total_channels bs) out'" "played n ins s ins' s'"
    "\<forall>f < n. \<forall>ch < total_channels bs.
       sample_at out' f ch = mixed_output n s ins f ch (sample_at (map cleared bs) f ch)"
    using incoming_routes_ok [OF assms(1) g] assms(5) by blast
  then show ?thesis
    using assms(2,4,6) clear_ok [OF assms(3)] cleared_sample [OF h]
    by (intro that [of ins' out' s']) (auto simp: router_playback_def)
qed

lemma played_keeps_context:
  assumes "played n ins s ins' s'" "incoming_inv ins s" "outgoing_inv outs s"
    and "\<And>w r. w \<in> set outs \<Longrightarrow> r \<in> set ins \<Longrightarrow> out_ring w = in_ring r \<Longrightarrow> out_channels w = in_channels r"
  shows "incoming_inv ins' s' \<and> outgoing_inv outs s'"
proof -
  have l: "list_all2 (\<lambda>r r'. same_config r r' \<and> route_inv r' (rings s' ! in_ring r)) ins ins'"
    using assms(1) by (auto simp: played_def elim: list.rel_mono_strong)
  then have "list_all2 (\<lambda>r r'. in_ring r' = in_ring r) ins ins'"
    by (auto simp: same_config_def elim: list.rel_mono_strong)
  then have "map in_ring ins' = map in_ring ins" by (induction rule: list_all2_induct) auto
  moreover have "\<exists>r \<in> set ins. same_config r r' \<and> route_inv r' (rings s' ! in_ring r)" if "r' \<in> set ins'" for r'
    using l that by (induction rule: list_all2_induct) auto
  ultimately have "incoming_inv ins' s'"
    using assms(1,2) by (fastforce simp: incoming_inv_def played_def same_config_def)
  moreover have "ring_framed (out_channels w) (rings s' ! out_ring w)" if "w \<in> set outs" for w
  proof (cases "out_ring w \<in> in_ring ` set ins")
    case True
    then obtain r where r: "r \<in> set ins" "in_ring r = out_ring w" by auto
    have "\<exists>r'. same_config r r' \<and> route_inv r' (rings s' ! in_ring r)"
      using l r(1) by (induction rule: list_all2_induct) auto
    then obtain r' where "same_config r r'" "route_inv r' (rings s' ! in_ring r)" by blast
    then show ?thesis using assms(4) [OF that r(1)] r(2) by (simp add: route_inv_def same_config_def)
  next
    case False
    then show ?thesis using assms(1,3) that by (auto simp: played_def outgoing_inv_def)
  qed
  ultimately show ?thesis using assms(1,3) by (auto simp: outgoing_inv_def played_def)
qed

text \<open>C23: A route's resampler always returns. For any phase and any step, infinite ones and NaN
  included, \<open>prepare_output_frame\<close> ends without a panic (its loop takes a frame from the ring in every
  round), and it is one step of the abstract play head: a frame out exactly when the route is primed
  or the start-up fill is reached, each output a mix of two neighbouring frames, and an underrun
  counted exactly when the route runs dry.\<close>

theorem route_frame_returns:
  assumes "route_inv r q"
  shows "\<exists>out r' q' b. prepare_output_frame (r, q, m)
      = ret (out \<noteq> None, (r', q', if b then count_underrun m else m))
    \<and> route_inv r' q' \<and> same_config r r' \<and> capacity q' = capacity q
    \<and> route_step (in_step r) (head_of r q) = (out, head_of r' q')
    \<and> (\<forall>xs. out = Some xs \<longrightarrow> in_interpolated r' = xs)
    \<and> b = (out \<noteq> None \<and> \<not> in_primed r')"
  by (rule route_frame_refines [OF assms])

text \<open>C22: The router's callback moves every frame once. On valid lists with enough channels it returns
  without a panic and keeps its invariant; each outgoing route appends the captured frames to its
  ring, whole, in order and as many as the ring has room for, the rest counted as overruns; each
  incoming route advances its play head over its ring by the frames of the cycle, with every time it
  runs dry counted; and the output is silence plus the frames of the incoming routes through their
  matrices and gains, added in order.\<close>

theorem router_callback_exact:
  assumes "context_inv ctx s" "incoming ctx \<noteq> []"
    and "list_all buffer_wf ib" "audio_buffer_list_frames ib = Some n"
    and "list_all buffer_wf ob" "audio_buffer_list_frames ob = Some k"
    and "\<And>w. w \<in> set (outgoing ctx) \<Longrightarrow> out_channels w \<le> total_channels ib"
    and "\<And>r. r \<in> set (incoming ctx) \<Longrightarrow> in_sink_channels r \<le> total_channels ob"
    and "\<And>w r. w \<in> set (outgoing ctx) \<Longrightarrow> r \<in> set (incoming ctx) \<Longrightarrow> out_ring w = in_ring r \<Longrightarrow>
           out_channels w = in_channels r"
  shows "\<exists>ins' s1 s' ob'. audio_device_io_proc (Some ctx) s (Some ib) (Some ob)
      = ret (0, Some (ctx\<lparr>incoming := ins'\<rparr>), s', Some ob')
    \<and> captured ib [0..<n] (outgoing ctx) s s1
    \<and> played k (incoming ctx) s1 ins' s'
    \<and> (\<forall>f < k. \<forall>ch < total_channels ob.
         sample_at ob' f ch = mixed_output k s1 (incoming ctx) f ch (fzero F32))
    \<and> context_inv (ctx\<lparr>incoming := ins'\<rparr>) s'"
proof -
  have i: "outgoing_inv (outgoing ctx) s" "incoming_inv (incoming ctx) s"
    using assms(1) by (simp_all add: context_inv_def)
  obtain s1 where c: "router_capture (outgoing ctx) (Some ib) s = Ok (True, s1)"
    "captured ib [0..<n] (outgoing ctx) s s1"
    using router_capture_ok [OF i(1) refl assms(3,4,7)] by metis
  have i1: "incoming_inv (incoming ctx) s1"
    using captured_keeps_incoming [OF c(2) i(2,1)] assms(9) by blast
  have o1: "outgoing_inv (outgoing ctx) s1"
    using i(1) c(2) by (auto simp: outgoing_inv_def captured_def)
  obtain ins' ob' s' where p: "router_playback (incoming ctx) (Some ob) s1 = ret (ins', Some ob', s')"
    "played k (incoming ctx) s1 ins' s'"
    "\<forall>f < k. \<forall>ch < total_channels ob. sample_at ob' f ch = mixed_output k s1 (incoming ctx) f ch (fzero F32)"
    using router_playback_ok [OF i1 refl assms(5,6,8,2)] by metis
  have "context_inv (ctx\<lparr>incoming := ins'\<rparr>) s'"
    using played_keeps_context [OF p(2) i1 o1] assms(9) by (simp add: context_inv_def)
  then show ?thesis using c p by (auto simp: audio_device_io_proc_def)
qed

section \<open>Examples\<close>

definition example_incoming :: IncomingRoute where
  "example_incoming = \<lparr>in_ring = 1, in_channels = 2, in_sink_channels = 1, in_step = fone F64,
     in_gain = fone F32, in_matrix = [fone F32, fzero F32], in_current = [sample 6, sample 7],
     in_next = [sample 4, sample 5], in_interpolated = [fzero F32, fzero F32], in_phase = fzero F64,
     in_primed = True\<rparr>"

definition example_context :: DeviceIoContext where
  "example_context = \<lparr>ctx_device = 1, outgoing = [\<lparr>out_ring = 0, out_channels = 2\<rparr>],
     incoming = [example_incoming], ctx_procedure = 1, ctx_running = True\<rparr>"

definition example_store :: router_store where
  "example_store = \<lparr>rings = [example_ring 3, example_ring 2], router_metrics = router_metrics_new\<rparr>"

lemma example_framed: "n \<le> 4 \<Longrightarrow> ring_framed 2 (example_ring n)"
  by (simp add: ring_framed_def example_ring_inv example_contents del: length_contents)

lemma example_capacity: "capacity (example_ring n) = 8"
  by (simp add: capacity_def example_ring_def)

lemma example_free: "n \<le> 4 \<Longrightarrow> producer_available (example_ring n) = 8 - 2 * n"
  by (simp add: rq.free example_ring_inv example_contents example_capacity del: length_contents)

lemma example_route_inv: "route_inv example_incoming (example_ring 2)"
  using example_framed [of 2] by (simp add: route_inv_def example_incoming_def usize_bound_def)

lemma example_context_inv: "context_inv example_context example_store"
  using example_framed [of 3] example_route_inv
  by (simp add: context_inv_def outgoing_inv_def incoming_inv_def example_context_def example_store_def)
    (simp add: example_incoming_def)

theorem route_frame_returns_witness:
  "\<exists>out r' q' m'. prepare_output_frame (example_incoming, example_ring 2, router_metrics_new)
     = ret (out, (r', q', m')) \<and> route_inv r' q'"
  using route_frame_returns [OF example_route_inv, of router_metrics_new] by blast

theorem router_callback_exact_witness:
  "\<exists>ctx' s' bs'. audio_device_io_proc (Some example_context) example_store (Some demo_list) (Some demo_list)
      = ret (0, Some ctx', s', Some bs')
    \<and> contents (rings s' ! 0) = map sample [0..<6] @ [fzero F32, fzero F32]
    \<and> overruns (router_metrics s') = 1"
proof -
  have a: "incoming example_context = [example_incoming]"
    "outgoing example_context = [\<lparr>out_ring = 0, out_channels = 2\<rparr>]" by (simp_all add: example_context_def)
  have i: "in_sink_channels example_incoming = 1" "in_ring example_incoming = 1"
    by (simp_all add: example_incoming_def)
  have st: "rings example_store ! 0 = example_ring 3" "router_metrics example_store = router_metrics_new"
    by (simp_all add: example_store_def)
  have rm: "room \<lparr>out_ring = 0, out_channels = 2\<rparr> example_store = 1" by (simp add: room_def st example_free)
  have fr: "route_frame \<lparr>out_ring = 0, out_channels = 2\<rparr> demo_list 0 = [fzero F32, fzero F32]"
    by (simp add: route_frame_def demo_list_def buffer_channels_def upt_conv_Cons)
  obtain ins' s1 s' bs' where r: "audio_device_io_proc (Some example_context) example_store (Some demo_list) (Some demo_list)
      = ret (0, Some (example_context\<lparr>incoming := ins'\<rparr>), s', Some bs')"
    "captured demo_list [0..<2] (outgoing example_context) example_store s1"
    "played 2 (incoming example_context) s1 ins' s'"
    using router_callback_exact [OF example_context_inv _ demo_list_ok(1,2) demo_list_ok(1,2)]
    unfolding a by (auto simp: demo_list_ok i)
  have "contents (rings s1 ! 0) = map sample [0..<6] @ [fzero F32, fzero F32]"
    using r(2) by (simp add: captured_def a rm fr st example_contents upt_conv_Cons)
  moreover have "rings s' ! 0 = rings s1 ! 0" using r(3) by (simp add: played_def a i)
  moreover have "overruns (router_metrics s') = 1"
    using r(2,3) by (simp add: captured_def played_def a rm st router_metrics_new_def)
  ultimately show ?thesis using r(1) by auto
qed

text \<open>
  A list with fewer channels than a route expects (the format of a device can change while the
  router runs) stops the callback in the middle of a frame, after the first samples have entered the
  ring: the reader then takes every later frame from the wrong offset.
\<close>

definition short_list :: AudioBufferList where
  "short_list = [\<lparr>number_channels = 1, data_byte_size = 4, buffer_data = Some [fone F32]\<rparr>]"

lemma format_change_splits_a_frame:
  "\<exists>s'. router_capture [\<lparr>out_ring = 0, out_channels = 2\<rparr>] (Some short_list) example_store = Ok (False, s')
     \<and> contents (rings s' ! 0) = map sample [0..<6] @ [fone F32] \<and> \<not> ring_framed 2 (rings s' ! 0)"
proof -
  let ?q = "example_ring 3"
  have inv: "ring_inv ?q" by (simp add: example_ring_inv)
  have free: "producer_available ?q = 2" by (simp add: example_free)
  obtain b q where p: "push (fone F32) ?q = (b, q)" by (cases "push (fone F32) ?q")
  note r = push_refines [OF inv p]
  have "b" using r(1) by (simp add: example_contents example_capacity del: length_contents)
  then have c: "contents q = map sample [0..<6] @ [fone F32]" using r(4) by (simp add: example_contents)
  then have nf: "\<not> ring_framed 2 q" by (simp add: ring_framed_def del: length_contents)
  have rd: "read_audio_sample short_list 0 0 = Ok (Some (fone F32))" "read_audio_sample short_list 0 1 = Ok None"
    by (simp_all add: read_audio_sample_def short_list_def buffer_channels_def buffer_samples_def Let_def
        sample_index_def load_sample_def checked_mul_def checked_add_def usize_bound_def)
  have "push_channels short_list 0 [0..<2] ?q = Ok (False, q)"
    using rd p \<open>b\<close> by (simp add: upt_conv_Cons)
  moreover have "audio_buffer_list_frames short_list = Some 1"
    by (simp add: audio_buffer_list_frames_def short_list_def buffer_channels_def Let_def)
  ultimately show ?thesis
    using free c nf by (simp add: router_capture_def ring_of_def example_store_def set_ring_def router_meter_def)
qed

end
