(* ===== verification/StreamProperties.thy ===== *)
theory StreamProperties
  imports HalProperties RouterProperties
begin

text \<open>
  What the streams of the platform layer promise, whatever the frameworks answer: every I/O procedure
  that is created is stopped and destroyed, once and in this order, and a started router has the
  invariant that its callback needs.
\<close>

section \<open>Streams\<close>

text \<open>What a started stream adds.\<close>

definition owns :: "(u32 \<times> u64) \<Rightarrow> bool \<Rightarrow> resources \<Rightarrow> resources" where
  "owns x runs m = m\<lparr>procs := (if snd x = 0 then procs m else add_mset x (procs m)),
     active := (if runs then add_mset x (active m) else active m)\<rparr>"

lemma owns_wf: "resources_wf m \<Longrightarrow> resources_wf (owns x b m)"
  by (auto simp: resources_wf_def owns_def le_SucI)

lemma io_create_owns:
  assumes "io_create h dev s = ((st, pid), s1)" "resources_of s = Some m"
  shows "resources_of s1 = Some (owns (dev, pid) False m)"
proof -
  obtain t where "s1 = s\<lparr>hal_state := t, events := events s @ [CreateIoProc dev st pid]\<rparr>"
    using assms(1) by (auto simp: io_create_def split: prod.splits)
  then have "s1 = (s\<lparr>hal_state := t\<rparr>)\<lparr>events := events (s\<lparr>hal_state := t\<rparr>) @ [CreateIoProc dev st pid]\<rparr>" by simp
  then show ?thesis using assms(2) by (simp only: resources_after) (simp add: owns_def)
qed

lemma owns_simps [simp]:
  "procs (owns x b m) = (if snd x = 0 then procs m else add_mset x (procs m))"
  "active (owns x b m) = (if b then add_mset x (active m) else active m)" "held (owns x b m) = held m"
  by (simp_all add: owns_def)

lemma owns_commute: "owns x a (owns y b m) = owns y b (owns x a m)"
  by (simp add: owns_def add_mset_commute)

lemma io_start_owns:
  fixes m :: resources
  assumes "(io_start h dev pid s :: (i32, 'e) res \<times> 'h core_audio) = (r, s1)"
    and "resources_of s = Some (owns (dev, pid) False m)" "resources_wf m"
  obtains st where "r = Ok st" "resources_of s1 = Some (owns (dev, pid) (st = 0) m)"
proof -
  obtain st t where st: "start_device h dev pid (hal_state s) = (st, t)"
    by (cases "start_device h dev pid (hal_state s)")
  have "count (active m) (dev, pid) \<le> count (procs m) (dev, pid)" if "pid \<noteq> 0"
    using assms(3) that by (simp add: resources_wf_def)
  then have u: "use_event (StartDevice dev pid st) (owns (dev, pid) False m) = Some (owns (dev, pid) (st = 0) m)"
    by (auto simp: owns_def)
  have "r = Ok st" "s1 = (s\<lparr>hal_state := t\<rparr>)\<lparr>events := events (s\<lparr>hal_state := t\<rparr>) @ [StartDevice dev pid st]\<rparr>"
    using assms(1) st by (auto simp: io_start_def ca_then_def ca_call_def ca_log_def ca_res_def)
  then show ?thesis using that u assms(2) by (simp only: resources_after) simp
qed

lemma release_owns:
  fixes m :: resources
  assumes "resources_of s = Some (owns (dev, pid) runs m)" "resources_wf m"
  shows "\<exists>s1. (ca_then (if runs then io_stop h dev pid else ca_ok ()) (\<lambda>_.
      if pid \<noteq> 0 then io_destroy h dev pid else ca_ok ()) :: ('h, unit, 'e) ca) s = (Ok (), s1)
    \<and> resources_of s1 = Some m"
proof -
  have stop: "\<exists>s1. (if runs then io_stop h dev pid else ca_ok () :: ('h, unit, 'e) ca) s = (Ok (), s1)
      \<and> resources_of s1 = Some (owns (dev, pid) False m)"
  proof (cases runs)
    case True
    define t where "t = s\<lparr>hal_state := snd (stop_device h dev pid (hal_state s))\<rparr>"
    have "(io_stop h dev pid :: ('h, unit, 'e) ca) s = (Ok (), t\<lparr>events := events t @ [StopDevice dev pid]\<rparr>)"
      by (simp add: io_stop_def ca_then_def ca_call_def ca_log_def t_def)
    moreover have "resources_of t = Some (owns (dev, pid) True m)" using assms(1) True by (simp add: t_def)
    then have "resources_of (t\<lparr>events := events t @ [StopDevice dev pid]\<rparr>) = Some (owns (dev, pid) False m)"
      by (simp only: resources_after) (simp add: owns_def)
    ultimately show ?thesis using True by simp
  qed (use assms(1) in \<open>simp add: ca_res_def\<close>)
  then obtain s1 where s1: "(if runs then io_stop h dev pid else ca_ok () :: ('h, unit, 'e) ca) s = (Ok (), s1)"
    "resources_of s1 = Some (owns (dev, pid) False m)" by blast
  show ?thesis
  proof (cases "pid = 0")
    case True
    then show ?thesis using s1 by (simp add: ca_then_def ca_res_def owns_def)
  next
    case False
    define t where "t = s1\<lparr>hal_state := snd (destroy_io_proc h dev pid (hal_state s1))\<rparr>"
    have "(io_destroy h dev pid :: ('h, unit, 'e) ca) s1 = (Ok (), t\<lparr>events := events t @ [DestroyIoProc dev pid]\<rparr>)"
      by (simp add: io_destroy_def ca_then_def ca_call_def ca_log_def t_def)
    moreover have "resources_of t = Some (owns (dev, pid) False m)" using s1(2) by (simp add: t_def)
    moreover have "count (active m) (dev, pid) \<le> count (procs m) (dev, pid)"
      using assms(2) False by (simp add: resources_wf_def)
    ultimately have "resources_of (t\<lparr>events := events t @ [DestroyIoProc dev pid]\<rparr>) = Some m"
      using False by (simp only: resources_after) (simp add: owns_def)
    then show ?thesis
      using s1 False \<open>(io_destroy h dev pid :: ('h, unit, 'e) ca) s1 = _\<close> by (simp add: ca_then_def)
  qed
qed

text \<open>A fallible part that leaves nothing behind, in a sequence.\<close>

lemma quiet_result:
  assumes "keeps same_resources f" "f s = (r, s1)" "resources_of s = Some m"
  shows "resources_of s1 = Some m"
  using keepsD [OF assms(1,2)] assms(3) by (simp add: same_resources_def)

definition stream_proc :: "PcmPlatformStream \<Rightarrow> u32 \<times> u64" where
  "stream_proc st = (ps_device st, ps_procedure st)"

lemma platform_drop_releases:
  assumes "resources_of s = Some (owns (stream_proc st) (ps_running st) m)" "resources_wf m"
  shows "\<exists>s1. platform_drop h st s = (Ok (), s1) \<and> resources_of s1 = Some m"
  using release_owns [of s "ps_device st" "ps_procedure st" "ps_running st" m h] assms
  by (simp add: platform_drop_def stream_proc_def)

lemma platform_start_owns:
  assumes "platform_start h dev cb inp outp s = (r, s')" "resources_of s = Some m"
  shows "case r of
      Ok st \<Rightarrow> ps_running st \<and> ps_callback st = cb \<and> ps_device st = pd_object_id dev
        \<and> resources_of s' = Some (owns (stream_proc st) True m)
    | _ \<Rightarrow> resources_of s' = Some m"
proof -
  obtain cs pid s1 where c: "io_create h (pd_object_id dev) s = ((cs, pid), s1)"
    by (metis surj_pair)
  define st where "st = \<lparr>ps_device = pd_object_id dev, ps_procedure = pid, ps_running = False, ps_callback = cb\<rparr>"
  have wf: "resources_wf m" by (rule resources_of_wf [OF assms(2)])
  have m1: "resources_of s1 = Some (owns (stream_proc st) False m)"
    using io_create_owns [OF c assms(2)] by (simp add: st_def stream_proc_def)
  define body where "body = (if cs \<noteq> 0 then ca_fail (CoreAudioOsStatus cs)
      else ca_then (ca_map_err from_core_audio (configure_stream_usage h (ps_device st) pid SCOPE_INPUT inp)) (\<lambda>_.
           ca_then (ca_map_err from_core_audio (configure_stream_usage h (ps_device st) pid SCOPE_OUTPUT outp)) (\<lambda>_.
           ca_then (io_start h (ps_device st) pid) (\<lambda>start_status. finish_start h st start_status))))"
  have run: "platform_start h dev cb inp outp s = or_drop (platform_drop h st) body s1"
    using c by (simp add: platform_start_def st_def body_def Let_def)
  have body: "case fst (body s1) of
      Ok t \<Rightarrow> t = st\<lparr>ps_running := True\<rparr> \<and> resources_of (snd (body s1)) = Some (owns (stream_proc st) True m)
    | _ \<Rightarrow> resources_of (snd (body s1)) = Some (owns (stream_proc st) False m)"
  proof -
    define usage where "usage = (\<lambda>sc b. ca_map_err from_core_audio (configure_stream_usage h (ps_device st) pid sc b))"
    have eq: "body = (if cs \<noteq> 0 then ca_fail (CoreAudioOsStatus cs)
      else ca_then (usage SCOPE_INPUT inp) (\<lambda>_. ca_then (usage SCOPE_OUTPUT outp) (\<lambda>_.
           ca_then (io_start h (ps_device st) pid) (\<lambda>start_status. finish_start h st start_status))))"
      by (simp add: body_def usage_def)
    have q: "keeps same_resources (usage sc b)" for sc b
      unfolding usage_def by (intro keeps_branches resources.keeps_usage)
    obtain r2 s2 where u2: "usage SCOPE_INPUT inp s1 = (r2, s2)" by (cases "usage SCOPE_INPUT inp s1")
    have m2: "resources_of s2 = Some (owns (stream_proc st) False m)" by (rule quiet_result [OF q u2 m1])
    obtain r3 s3 where u3: "usage SCOPE_OUTPUT outp s2 = (r3, s3)" by (cases "usage SCOPE_OUTPUT outp s2")
    have m3: "resources_of s3 = Some (owns (stream_proc st) False m)" by (rule quiet_result [OF q u3 m2])
    obtain r4 s4 where u4: "io_start h (ps_device st) pid s3 = (r4 :: (i32, PcmStreamError) res, s4)"
      by (cases "io_start h (ps_device st) pid s3 :: (i32, PcmStreamError) res \<times> _")
    have "stream_proc st = (ps_device st, pid)" by (simp add: stream_proc_def st_def)
    then obtain st4 where "r4 = Ok st4" "resources_of s4 = Some (owns (stream_proc st) (st4 = 0) m)"
      using io_start_owns [OF u4 _ wf] m3 by metis
    then show ?thesis
      using m1 m2 m3 u2 u3 u4
      by (cases r2; cases r3) (auto simp: eq ca_then_def ca_res_def finish_start_def)
  qed
  show ?thesis
  proof (cases "fst (body s1)")
    case (Ok t)
    then show ?thesis
      using body run assms(1) by (cases "body s1") (auto simp: or_drop_def st_def stream_proc_def)
  next
    case (Err e)
    then show ?thesis
      using body run assms(1) platform_drop_releases [of "snd (body s1)" st m h] wf
      by (cases "body s1") (auto simp: or_drop_def st_def)
  next
    case Panic
    then show ?thesis
      using body run assms(1) platform_drop_releases [of "snd (body s1)" st m h] wf
      by (cases "body s1") (auto simp: or_drop_def st_def)
  qed
qed

section \<open>The router's procedures\<close>

definition ctx_proc :: "DeviceIoContext \<Rightarrow> u32 \<times> u64" where
  "ctx_proc x = (ctx_device x, ctx_procedure x)"

text \<open>What a list of contexts holds, on top of \<open>m\<close>.\<close>

definition with_contexts :: "DeviceIoContext list \<Rightarrow> resources \<Rightarrow> resources" where
  "with_contexts xs m = fold (\<lambda>x. owns (ctx_proc x) (ctx_running x)) xs m"

lemma with_contexts_simps [simp]:
  "with_contexts [] m = m"
  "with_contexts (x # xs) m = with_contexts xs (owns (ctx_proc x) (ctx_running x) m)"
  by (simp_all add: with_contexts_def)

lemma with_contexts_owns: "with_contexts xs (owns k b m) = owns k b (with_contexts xs m)"
  by (induction xs arbitrary: m) (simp_all add: owns_commute [of _ _ k b])

lemma with_contexts_wf: "resources_wf m \<Longrightarrow> resources_wf (with_contexts xs m)"
  by (induction xs arbitrary: m) (simp_all add: owns_wf)

lemma router_drop_releases:
  assumes "resources_of s = Some (with_contexts xs m)" "resources_wf m"
  shows "\<exists>s1. router_drop h xs s = (Ok (), s1) \<and> resources_of s1 = Some m"
proof -
  have "\<exists>ys s1. ca_traverse (drop_context h) xs s = (Ok ys, s1) \<and> resources_of s1 = Some m"
    using assms
  proof (induction xs arbitrary: s)
    case Nil
    then show ?case by (simp add: ca_res_def)
  next
    case (Cons x xs)
    have "resources_of s = Some (owns (ctx_device x, ctx_procedure x) (ctx_running x) (with_contexts xs m))"
      using Cons.prems(1) by (simp add: with_contexts_owns ctx_proc_def)
    from release_owns [OF this with_contexts_wf [OF Cons.prems(2)], of h, where 'e = CoreAudioError]
    obtain s1 where s1: "drop_context h x s = (Ok (), s1)" "resources_of s1 = Some (with_contexts xs m)"
      by (auto simp: drop_context_def)
    obtain ys s2 where "ca_traverse (drop_context h) xs s1 = (Ok ys, s2)" "resources_of s2 = Some m"
      using Cons.IH [OF s1(2) Cons.prems(2)] by blast
    then show ?case using s1(1) by (simp add: ca_then_def ca_res_def)
  qed
  then show ?thesis by (auto simp: router_drop_def ca_then_def ca_res_def)
qed

text \<open>The two loops keep the rest of a context.\<close>

definition same_routes :: "DeviceIoContext \<Rightarrow> DeviceIoContext \<Rightarrow> bool" where
  "same_routes x y \<longleftrightarrow> ctx_device y = ctx_device x \<and> outgoing y = outgoing x \<and> incoming y = incoming x"

lemma create_procedures_owns:
  assumes "create_procedures h xs s = (r, ys, s')" "resources_of s = Some m"
    and "list_all (\<lambda>x. ctx_procedure x = 0 \<and> \<not> ctx_running x) xs"
  shows "resources_of s' = Some (with_contexts ys m)" "list_all2 same_routes xs ys"
    "list_all (\<lambda>x. \<not> ctx_running x) ys"
proof -
  have "resources_of s' = Some (with_contexts ys m) \<and> list_all2 same_routes xs ys \<and> list_all (\<lambda>x. \<not> ctx_running x) ys"
    using assms
  proof (induction xs arbitrary: s m r ys s')
    case (Cons x xs)
    obtain st pid s1 where c: "io_create h (ctx_device x) s = ((st, pid), s1)" by (metis surj_pair)
    define x1 where "x1 = x\<lparr>ctx_procedure := pid\<rparr>"
    have m1: "resources_of s1 = Some (with_contexts [x1] m)"
      using io_create_owns [OF c Cons.prems(2)] Cons.prems(3) by (simp add: x1_def ctx_proc_def)
    define body where "body = ca_then (status st) (\<lambda>_.
           ca_then (configure_stream_usage h (ctx_device x) pid SCOPE_INPUT (outgoing x \<noteq> [])) (\<lambda>_.
           configure_stream_usage h (ctx_device x) pid SCOPE_OUTPUT (incoming x \<noteq> [])))"
    obtain rb s2 where b: "body s1 = (rb, s2)" by (cases "body s1")
    have "keeps same_resources body"
      unfolding body_def by (intro resources.keeps_then resources.keeps_status resources.keeps_usage)
    then have m2: "resources_of s2 = Some (with_contexts [x1] m)" using quiet_result [where f = body, OF _ b m1] by blast
    have idle: "list_all (\<lambda>x. ctx_procedure x = 0 \<and> \<not> ctx_running x) xs" "\<not> ctx_running x"
      using Cons.prems(3) by simp_all
    have step: "create_procedures h (x # xs) s = (case rb of
        Ok _ \<Rightarrow> (let (r, ys, s3) = create_procedures h xs s2 in (r, x1 # ys, s3)) | _ \<Rightarrow> (rb, x1 # xs, s2))"
      using c b by (cases rb) (auto simp: body_def x1_def Let_def)
    have like: "same_routes x x1" "ctx_running x1 = ctx_running x" "\<And>zs. list_all2 same_routes zs zs"
      by (simp_all add: x1_def same_routes_def list.rel_refl)
    show ?case
    proof (cases rb)
      case (Ok u)
      obtain r3 ys3 s3 where rec: "create_procedures h xs s2 = (r3, ys3, s3)" by (metis surj_pair)
      have "resources_of s3 = Some (with_contexts ys3 (with_contexts [x1] m)) \<and> list_all2 same_routes xs ys3
          \<and> list_all (\<lambda>x. \<not> ctx_running x) ys3"
        by (rule Cons.IH [OF rec m2 idle(1)])
      then show ?thesis using step rec Ok Cons.prems(1) idle(2) like by (auto simp del: create_procedures.simps)
    next
      case (Err e)
      have "with_contexts xs n = n" for n
        using idle(1) by (induction xs arbitrary: n) (simp_all add: owns_def ctx_proc_def)
      then show ?thesis
        using step Err Cons.prems(1) idle m2
        by (auto simp: list_all_iff like simp del: create_procedures.simps)
    next
      case Panic
      have "with_contexts xs n = n" for n
        using idle(1) by (induction xs arbitrary: n) (simp_all add: owns_def ctx_proc_def)
      then show ?thesis
        using step Panic Cons.prems(1) idle m2
        by (auto simp: list_all_iff like simp del: create_procedures.simps)
    qed
  qed simp
  then show "resources_of s' = Some (with_contexts ys m)" "list_all2 same_routes xs ys"
    "list_all (\<lambda>x. \<not> ctx_running x) ys" by blast+
qed

lemma start_procedures_owns:
  assumes "start_procedures h xs s = (r, ys, s')" "resources_of s = Some (with_contexts xs m)" "resources_wf m"
    and "list_all (\<lambda>x. \<not> ctx_running x) xs"
  shows "resources_of s' = Some (with_contexts ys m) \<and> list_all2 same_routes xs ys
    \<and> (r = Ok () \<longrightarrow> list_all ctx_running ys)"
  using assms
proof (induction xs arbitrary: s m r ys s')
  case (Cons x xs)
  obtain r1 s1 where st: "io_start h (ctx_device x) (ctx_procedure x) s = (r1 :: (i32, CoreAudioError) res, s1)"
    by (cases "io_start h (ctx_device x) (ctx_procedure x) s :: (i32, CoreAudioError) res \<times> _")
  have m0: "resources_of s = Some (owns (ctx_device x, ctx_procedure x) False (with_contexts xs m))"
    using Cons.prems(2,4) by (simp add: with_contexts_owns ctx_proc_def)
  obtain v where v: "r1 = Ok v" "resources_of s1 = Some (owns (ctx_proc x) (v = 0) (with_contexts xs m))"
    using io_start_owns [OF st m0 with_contexts_wf [OF Cons.prems(3)]] by (metis ctx_proc_def)
  have refl: "list_all2 same_routes zs zs" for zs
    by (rule list.rel_refl) (simp add: same_routes_def)
  have idle: "list_all (\<lambda>x. \<not> ctx_running x) xs" "\<not> ctx_running x" using Cons.prems(4) by simp_all
  show ?case
  proof (cases "v = 0")
    case True
    define x1 where "x1 = x\<lparr>ctx_running := True\<rparr>"
    obtain r2 ys2 s2 where rec: "start_procedures h xs s1 = (r2, ys2, s2)" by (metis surj_pair)
    have "resources_of s1 = Some (with_contexts xs (owns (ctx_proc x) True m))"
      using v True by (simp add: with_contexts_owns)
    from Cons.IH [OF rec this owns_wf [OF Cons.prems(3)] idle(1)]
    have "resources_of s2 = Some (with_contexts (x1 # ys2) m) \<and> list_all2 same_routes xs ys2
        \<and> (r2 = Ok () \<longrightarrow> list_all ctx_running ys2)"
      by (simp add: x1_def ctx_proc_def)
    moreover have "start_procedures h (x # xs) s = (r2, x1 # ys2, s2)"
      using st v True rec by (simp add: ca_then_def status_def ca_res_def x1_def)
    moreover have "same_routes x x1" by (simp add: x1_def same_routes_def)
    ultimately show ?thesis using Cons.prems(1) by (auto simp: x1_def simp del: start_procedures.simps)
  next
    case False
    then have "start_procedures h (x # xs) s = (Err (CA_OsStatus v), x # xs, s1)"
      using st v by (simp add: ca_then_def status_def ca_res_def)
    moreover have "resources_of s1 = Some (with_contexts (x # xs) m)"
      using v False idle(2) by (simp add: with_contexts_owns)
    ultimately show ?thesis using Cons.prems(1) refl [of "x # xs"] by auto
  qed
qed simp

lemma build_contexts_idle: "list_all (\<lambda>x. ctx_procedure x = 0 \<and> \<not> ctx_running x) (build_contexts b)"
  by (auto simp: build_contexts_def list_all_iff)

lemma router_start_owns:
  assumes "router_start h rs s = (r, s')" "resources_of s = Some m"
  shows "case r of
      Ok router \<Rightarrow> resources_of s' = Some (with_contexts (contexts router) m)
        \<and> list_all ctx_running (contexts router)
        \<and> (\<exists>b qs. build_routes rs (bt_empty, []) = Ok (b, qs) \<and> list_all2 same_routes (build_contexts b) (contexts router)
            \<and> store router = \<lparr>rings = qs, router_metrics = router_metrics_new\<rparr>)
    | _ \<Rightarrow> resources_of s' = Some m"
proof -
  have wf: "resources_wf m" by (rule resources_of_wf [OF assms(2)])
  obtain rv s1 where v: "validate_routes h rs s = (rv, s1)" by (cases "validate_routes h rs s")
  have "keeps same_resources (validate_routes h rs)"
    unfolding validate_routes_def by (intro resources.keeps_then resources.keeps_devices resources.keeps_res)
  then have m1: "resources_of s1 = Some m" using quiet_result [where f = "validate_routes h rs", OF _ v assms(2)] by blast
  show ?thesis
  proof (cases rv)
    case Ok
    show ?thesis
    proof (cases "build_routes rs (bt_empty, [])")
      case built: (Ok bq)
      obtain b qs where bq: "bq = (b, qs)" by (cases bq)
      obtain r2 xs2 s2 where c: "create_procedures h (build_contexts b) s1 = (r2, xs2, s2)" by (metis surj_pair)
      note own = create_procedures_owns [OF c m1 build_contexts_idle]
      obtain r3 xs3 s3 where st: "start_procedures h xs2 s2 = (r3, xs3, s3)" by (metis surj_pair)
      note own3 = start_procedures_owns [OF st own(1) wf own(3)]
      have run: "router_start h rs s = (case r2 of
          Ok _ \<Rightarrow> (case r3 of Ok _ \<Rightarrow>
              (Ok \<lparr>contexts = xs3, store = \<lparr>rings = qs, router_metrics = router_metrics_new\<rparr>\<rparr>, s3)
            | Err e \<Rightarrow> (Err e, snd (router_drop h xs3 s3)) | Panic \<Rightarrow> (Panic, snd (router_drop h xs3 s3)))
        | Err e \<Rightarrow> (Err e, snd (router_drop h xs2 s2)) | Panic \<Rightarrow> (Panic, snd (router_drop h xs2 s2)))"
        using v Ok built bq c st
        by (cases r2; cases r3) (simp_all add: router_start_def ca_then_def ca_res_def)
      have d2: "resources_of (snd (router_drop h xs2 s2)) = Some m"
        using router_drop_releases [OF own(1) wf, of h] by auto
      have d3: "resources_of (snd (router_drop h xs3 s3)) = Some m"
        using router_drop_releases [OF conjunct1 [OF own3] wf, of h] by auto
      have "same_routes x z" if "same_routes x y" "same_routes y z" for x y z
        using that by (simp add: same_routes_def)
      then have "list_all2 same_routes (build_contexts b) xs3"
        using list_all2_trans [OF _ own(2) conjunct1 [OF conjunct2 [OF own3]]] by blast
      then show ?thesis
        using run assms(1) d2 d3 own3 built bq
        by (cases r2; cases r3) auto
    qed (use v Ok assms(1) m1 in \<open>auto simp: router_start_def ca_then_def ca_res_def\<close>)
  qed (use v assms(1) m1 in \<open>auto simp: router_start_def ca_then_def\<close>)
qed

section \<open>A started router\<close>

text \<open>The \<open>i\<close>-th route has the \<open>i\<close>-th ring.\<close>

definition route_out :: "nat \<Rightarrow> AudioRoute \<Rightarrow> OutgoingRoute" where
  "route_out i r = \<lparr>out_ring = i, out_channels = unat (source_channels r)\<rparr>"

definition numbered :: "nat \<Rightarrow> AudioRoute list \<Rightarrow> (nat \<times> AudioRoute) list" where
  "numbered k rs = zip [k..<k + length rs] rs"

definition outs_of :: "u32 \<Rightarrow> (nat \<times> AudioRoute) list \<Rightarrow> OutgoingRoute list" where
  "outs_of dev irs = map (\<lambda>(i, r). route_out i r) (filter (\<lambda>(i, r). source_device_id r = dev) irs)"

definition ins_of :: "u32 \<Rightarrow> (nat \<times> AudioRoute) list \<Rightarrow> IncomingRoute list" where
  "ins_of dev irs = map (\<lambda>(i, r). incoming_new i r) (filter (\<lambda>(i, r). sink_device_id r = dev) irs)"

lemma numbered_simps [simp]:
  "numbered k [] = []" "numbered k (r # rs) = (k, r) # numbered (Suc k) rs"
  by (simp_all add: numbered_def upt_rec)

lemma add_routes_sorted:
  "bt_sorted b \<Longrightarrow> bt_sorted (add_outgoing dev x b)" "bt_sorted b \<Longrightarrow> bt_sorted (add_incoming dev y b)"
  by (simp_all add: add_outgoing_def add_incoming_def bt_sorted_insert split: prod.split)

lemma add_routes_entry:
  "bt_sorted b \<Longrightarrow> entry_or_default (add_outgoing dev x b) d = (let (outs, ins) = entry_or_default b d in
     (if d = dev then outs @ [x] else outs, ins))"
  "bt_sorted b \<Longrightarrow> entry_or_default (add_incoming dev y b) d = (let (outs, ins) = entry_or_default b d in
     (outs, if d = dev then ins @ [y] else ins))"
  by (auto simp: add_outgoing_def add_incoming_def entry_or_default_def bt_get_insert split: prod.split option.split)

lemma build_routes_entries:
  "build_routes rs (b, qs) = Ok (b', qs') \<Longrightarrow> bt_sorted b \<Longrightarrow>
     bt_sorted b' \<and> (\<forall>d. entry_or_default b' d = (let (outs, ins) = entry_or_default b d in
         (outs @ outs_of d (numbered (length qs) rs), ins @ ins_of d (numbered (length qs) rs))))
     \<and> (\<exists>new. qs' = qs @ new \<and> list_all2 (\<lambda>r q. route_ring r = Ok q) rs new)"
proof (induction rs arbitrary: b qs)
  case Nil
  then show ?case by (simp add: outs_of_def ins_of_def)
next
  case (Cons r rs)
  let ?b = "add_incoming (sink_device_id r) (incoming_new (length qs) r)
      (add_outgoing (source_device_id r) (route_out (length qs) r) b)"
  obtain q where q: "route_ring r = Ok q" and rest: "build_routes rs (?b, qs @ [q]) = Ok (b', qs')"
    using Cons.prems(1) by (auto simp: res_simps Let_def route_out_def)
  have s: "bt_sorted (add_outgoing (source_device_id r) (route_out (length qs) r) b)" "bt_sorted ?b"
    using Cons.prems(2) by (simp_all add: add_routes_sorted)
  from Cons.IH [OF rest s(2)] obtain new where
    ih: "bt_sorted b'" "\<And>d. entry_or_default b' d = (let (outs, ins) = entry_or_default ?b d in
         (outs @ outs_of d (numbered (Suc (length qs)) rs), ins @ ins_of d (numbered (Suc (length qs)) rs)))"
    "qs' = (qs @ [q]) @ new" "list_all2 (\<lambda>r q. route_ring r = Ok q) rs new" by auto
  have "qs' = qs @ q # new" "list_all2 (\<lambda>r q. route_ring r = Ok q) (r # rs) (q # new)"
    using ih(3,4) q by simp_all
  moreover have "entry_or_default b' d = (let (outs, ins) = entry_or_default b d in
         (outs @ outs_of d (numbered (length qs) (r # rs)), ins @ ins_of d (numbered (length qs) (r # rs))))" for d
    using ih(2) [of d] Cons.prems(2) s(1)
    by (auto simp: add_routes_entry outs_of_def ins_of_def Let_def split: prod.split)
  ultimately show ?case using ih(1) by blast
qed

lemma route_ring_fresh:
  assumes "route_ring r = Ok q"
  shows "ring_inv q" "contents q = []"
  using assms spsc_ring_buffer_Ok by (auto simp: route_ring_def res_simps split: option.splits)

lemma validate_each_Ok: "validate_each ds rs = Ok () \<Longrightarrow> r \<in> set rs \<Longrightarrow> validate_route ds r = Ok ()"
  by (induction rs) (auto simp: res_simps)

lemma validate_route_shape:
  assumes "validate_route ds r = Ok ()"
  shows "source_channels r \<noteq> 0" "sink_channels r \<noteq> 0"
    "length (route_matrix r) = unat (source_channels r) * unat (sink_channels r)"
  using assms by (auto simp: validate_route_def Let_def split: if_splits)

lemma set_numbered: "(i, r) \<in> set (numbered k rs) \<longleftrightarrow> k \<le> i \<and> i < k + length rs \<and> r = rs ! (i - k)"
proof
  assume "(i, r) \<in> set (numbered k rs)"
  then obtain j where "j < length rs" "i = k + j" "r = rs ! j"
    by (auto simp: numbered_def in_set_zip)
  then show "k \<le> i \<and> i < k + length rs \<and> r = rs ! (i - k)" by simp
next
  assume "k \<le> i \<and> i < k + length rs \<and> r = rs ! (i - k)"
  then show "(i, r) \<in> set (numbered k rs)"
    by (auto simp: numbered_def in_set_zip intro!: exI [of _ "i - k"])
qed

lemma distinct_numbered: "distinct (map fst (filter P (numbered k rs)))"
proof -
  have "distinct (map fst (numbered k rs))" by (simp add: numbered_def)
  then show ?thesis by (rule distinct_map_filter)
qed

lemma incoming_new_inv:
  assumes "validate_route ds r = Ok ()" "route_ring r = Ok q"
  shows "route_inv (incoming_new i r) q" "ring_framed (unat (source_channels r)) q"
proof -
  note v = validate_route_shape [OF assms(1)] and q = route_ring_fresh [OF assms(2)]
  have pos: "0 < unat (source_channels r)" using v(1) by (simp add: unat_gt_0)
  show f: "ring_framed (unat (source_channels r)) q" using pos q by (simp add: ring_framed_def del: length_contents)
  have "unat (source_channels r) < 2 ^ 32" "unat (sink_channels r) < 2 ^ 32"
    using unsigned_less [of "source_channels r"] unsigned_less [of "sink_channels r"] by simp_all
  then have "unat (source_channels r) * unat (sink_channels r) < 2 ^ 32 * 2 ^ 32"
    by (intro mult_strict_mono) simp_all
  then have "unat (source_channels r) * unat (sink_channels r) < usize_bound" by (simp add: usize_bound_def)
  then show "route_inv (incoming_new i r) q"
    using f v(3) by (simp add: route_inv_def incoming_new_def Let_def mult.commute)
qed

lemma built_context_inv:
  assumes b: "build_routes rs (bt_empty, []) = Ok (b, qs)" and v: "validate_each ds rs = Ok ()"
    and x: "x \<in> set (build_contexts b)"
  shows "outgoing x = outs_of (ctx_device x) (numbered 0 rs)" "incoming x = ins_of (ctx_device x) (numbered 0 rs)"
    "context_inv x \<lparr>rings = qs, router_metrics = m\<rparr>"
proof -
  note e = build_routes_entries [OF b]
  have sorted: "bt_sorted b" using e by (simp add: bt_sorted_def bt_empty_def)
  have entry: "entry_or_default b d = (outs_of d (numbered 0 rs), ins_of d (numbered 0 rs))" for d
    using e by (simp add: bt_sorted_def bt_empty_def entry_or_default_def)
  obtain dev outs ins where mem: "(dev, outs, ins) \<in> set b" and
    xe: "ctx_device x = dev" "outgoing x = outs" "incoming x = ins"
    using x by (auto simp: build_contexts_def)
  then have "entry_or_default b dev = (outs, ins)"
    using bt_entries_get [OF sorted, of dev "(outs, ins)"] by (simp add: entry_or_default_def)
  then show o: "outgoing x = outs_of (ctx_device x) (numbered 0 rs)"
    and i: "incoming x = ins_of (ctx_device x) (numbered 0 rs)" using entry [of dev] xe by simp_all
  have qs: "list_all2 (\<lambda>r q. route_ring r = Ok q) rs qs"
    using e by (auto simp: bt_sorted_def bt_empty_def)
  have ring: "i < length qs \<and> route_inv (incoming_new i (rs ! i)) (qs ! i) \<and> ring_framed (unat (source_channels (rs ! i))) (qs ! i)"
    if "i < length rs" for i
  proof -
    have "route_ring (rs ! i) = Ok (qs ! i)" "i < length qs"
      using qs that by (auto simp: list_all2_conv_all_nth)
    then show ?thesis using incoming_new_inv [OF validate_each_Ok [OF v]] that by simp
  qed
  have "distinct (map out_ring (outgoing x))" "distinct (map in_ring (incoming x))"
    using distinct_numbered [of "\<lambda>(i, r). source_device_id r = ctx_device x" 0 rs]
      distinct_numbered [of "\<lambda>(i, r). sink_device_id r = ctx_device x" 0 rs]
    by (simp_all add: o i outs_of_def ins_of_def route_out_def incoming_new_def Let_def comp_def case_prod_beta)
  then show "context_inv x \<lparr>rings = qs, router_metrics = m\<rparr>"
    using ring
    by (auto simp: context_inv_def outgoing_inv_def incoming_inv_def o i outs_of_def ins_of_def set_numbered
        route_out_def) (simp_all add: incoming_new_def Let_def)
qed

lemma started_context:
  assumes "router_start h rs s = (Ok router, s')" "resources_of s = Some m" and v: "validate_each ds rs = Ok ()"
    and y: "y \<in> set (contexts router)"
  shows "context_inv y (store router)" "outgoing y = outs_of (ctx_device y) (numbered 0 rs)"
    "incoming y = ins_of (ctx_device y) (numbered 0 rs)"
proof -
  obtain b qs where b: "build_routes rs (bt_empty, []) = Ok (b, qs)" "list_all2 same_routes (build_contexts b) (contexts router)"
    "store router = \<lparr>rings = qs, router_metrics = router_metrics_new\<rparr>"
    using router_start_owns [OF assms(1,2)] by auto
  obtain x where "x \<in> set (build_contexts b)" "same_routes x y"
    using b(2) y by (metis in_set_conv_nth list_all2_conv_all_nth)
  then show "context_inv y (store router)" "outgoing y = outs_of (ctx_device y) (numbered 0 rs)"
    "incoming y = ins_of (ctx_device y) (numbered 0 rs)"
    using built_context_inv(1,2) [OF b(1) v, of x] built_context_inv(3) [OF b(1) v, of x router_metrics_new] b(3)
    by (simp_all add: same_routes_def context_inv_def)
qed

lemma built_devices:
  assumes "build_routes rs (bt_empty, []) = Ok (b, qs)"
  shows "(\<exists>x \<in> set (build_contexts b). ctx_device x = d)
    \<longleftrightarrow> (\<exists>r \<in> set rs. source_device_id r = d \<or> sink_device_id r = d)"
proof -
  have "fst ` set b = (\<Union>r \<in> set rs. {source_device_id r, sink_device_id r}) \<union> fst ` set b0"
    if "build_routes rs (b0, qs0) = Ok (b, qs)" for b0 qs0
    using that
  proof (induction rs arbitrary: b0 qs0)
    case (Cons r rs)
    then show ?case
      by (force simp: res_simps Let_def add_outgoing_def add_incoming_def bt_insert_keys split: prod.splits)
  qed simp
  from this [OF assms] show ?thesis by (auto simp: build_contexts_def bt_empty_def image_iff) force+
qed

lemma validated_at_start:
  assumes "router_start h rs s = (Ok router, s')"
  shows "\<exists>ds t. list_devices h s = (Ok ds, t) \<and> validate_each (devices_by_id ds) rs = Ok ()"
  using assms
  by (auto simp: router_start_def validate_routes_def ca_then_def ca_res_def split: prod.splits res.splits)

lemma in_outs_of: "w \<in> set (outs_of d irs) \<longleftrightarrow> (\<exists>i r. (i, r) \<in> set irs \<and> source_device_id r = d \<and> w = route_out i r)"
  by (force simp: outs_of_def)

lemma in_ins_of: "x \<in> set (ins_of d irs) \<longleftrightarrow> (\<exists>i r. (i, r) \<in> set irs \<and> sink_device_id r = d \<and> x = incoming_new i r)"
  by (force simp: ins_of_def)

lemma route_ends [simp]:
  "out_ring (route_out i r) = i" "out_channels (route_out i r) = unat (source_channels r)"
  "in_ring (incoming_new i r) = i" "in_channels (incoming_new i r) = unat (source_channels r)"
  by (simp_all add: route_out_def incoming_new_def Let_def)

text \<open>C34: A started router is ready for its callbacks: every context satisfies the invariant that
  \<open>router_callback_exact\<close> asks for, all I/O procedures run, and every route has one ring of its own,
  written at its source device and read at its sink device with the same channels.\<close>

theorem started_router_is_ready:
  assumes "router_start h rs s = (Ok router, s')" "resources_of s = Some m"
  shows "(\<forall>x \<in> set (contexts router). ctx_running x \<and> context_inv x (store router)
        \<and> (\<forall>w \<in> set (outgoing x). \<forall>r \<in> set (incoming x). out_ring w = in_ring r \<longrightarrow> out_channels w = in_channels r))
    \<and> (\<forall>i < length rs.
        (\<exists>x \<in> set (contexts router). ctx_device x = source_device_id (rs ! i) \<and> route_out i (rs ! i) \<in> set (outgoing x))
        \<and> (\<exists>x \<in> set (contexts router). ctx_device x = sink_device_id (rs ! i) \<and> incoming_new i (rs ! i) \<in> set (incoming x)))"
proof -
  obtain ds t where v: "validate_each (devices_by_id ds) rs = Ok ()" using validated_at_start [OF assms(1)] by blast
  note ctx = started_context [OF assms v]
  obtain b qs where b: "build_routes rs (bt_empty, []) = Ok (b, qs)" "list_all2 same_routes (build_contexts b) (contexts router)"
    and run: "list_all ctx_running (contexts router)"
    using router_start_owns [OF assms] by auto
  have dev: "\<exists>x \<in> set (contexts router). ctx_device x = d"
    if ex: "\<exists>r \<in> set rs. source_device_id r = d \<or> sink_device_id r = d" for d
  proof -
    obtain x where x: "x \<in> set (build_contexts b)" "ctx_device x = d" using built_devices [OF b(1), of d] ex by blast
    then obtain y where "y \<in> set (contexts router)" "same_routes x y"
      using b(2) by (metis in_set_conv_nth list_all2_conv_all_nth)
    then show ?thesis using x by (auto simp: same_routes_def)
  qed
  have same: "out_channels w = in_channels r"
    if "x \<in> set (contexts router)" "w \<in> set (outgoing x)" "r \<in> set (incoming x)" "out_ring w = in_ring r" for x w r
    using that ctx(2,3) [OF that(1)]
    by (auto simp: in_outs_of in_ins_of set_numbered)
  have both: "(\<exists>x \<in> set (contexts router). ctx_device x = source_device_id (rs ! i) \<and> route_out i (rs ! i) \<in> set (outgoing x))
      \<and> (\<exists>x \<in> set (contexts router). ctx_device x = sink_device_id (rs ! i) \<and> incoming_new i (rs ! i) \<in> set (incoming x))"
    if i: "i < length rs" for i
  proof -
    have r: "rs ! i \<in> set rs" "(i, rs ! i) \<in> set (numbered 0 rs)" using i by (simp_all add: set_numbered)
    obtain x where x: "x \<in> set (contexts router)" "ctx_device x = source_device_id (rs ! i)"
      using dev [of "source_device_id (rs ! i)"] r(1) by blast
    obtain y where y: "y \<in> set (contexts router)" "ctx_device y = sink_device_id (rs ! i)"
      using dev [of "sink_device_id (rs ! i)"] r(1) by blast
    have "route_out i (rs ! i) \<in> set (outgoing x)"
      unfolding ctx(2) [OF x(1)] in_outs_of using x(2) r(2) by metis
    moreover have "incoming_new i (rs ! i) \<in> set (incoming y)"
      unfolding ctx(3) [OF y(1)] in_ins_of using y(2) r(2) by metis
    ultimately show ?thesis using x y by blast
  qed
  have "\<forall>x \<in> set (contexts router). ctx_running x" using run by (simp add: list_all_iff)
  then show ?thesis using ctx(1) same both by blast
qed

text \<open>C20: The router gives back what it takes. Whatever Core Audio answers, a failed start leaves no I/O
  procedure and no string behind; after a successful one each of its devices runs one procedure, and
  dropping the router, at any later time, stops and destroys exactly these, each once, stopped
  before it is destroyed.\<close>

theorem router_releases_everything:
  assumes "resources_of s = Some m"
  shows "case router_start h rs s of
      (Ok router, s1) \<Rightarrow> list_all ctx_running (contexts router)
        \<and> resources_of s1 = Some (with_contexts (contexts router) m)
        \<and> (\<forall>t n. resources_of t = Some (with_contexts (contexts router) n) \<and> resources_wf n \<longrightarrow>
             (\<exists>t1. router_drop h (contexts router) t = (Ok (), t1) \<and> resources_of t1 = Some n))
    | (_, s1) \<Rightarrow> resources_of s1 = Some m"
proof -
  obtain r s1 where r: "router_start h rs s = (r, s1)" by (cases "router_start h rs s")
  show ?thesis
    using router_start_owns [OF r assms] router_drop_releases r by (cases r) auto
qed

lemma start_after_quiet:
  assumes q: "keeps same_resources f" and m: "resources_of s = Some m"
    and start: "\<And>a t. resources_of t = Some m \<Longrightarrow> case fst (g a t) of
        Ok v \<Rightarrow> good v \<and> resources_of (snd (g a t)) = Some (n v) | _ \<Rightarrow> resources_of (snd (g a t)) = Some m"
  shows "case fst (ca_then f g s) of
      Ok v \<Rightarrow> good v \<and> resources_of (snd (ca_then f g s)) = Some (n v)
    | _ \<Rightarrow> resources_of (snd (ca_then f g s)) = Some m"
proof -
  obtain r s1 where f: "f s = (r, s1)" by (cases "f s")
  have "resources_of s1 = Some m" by (rule quiet_result [where f = f, OF q f m])
  note m1 = this
  show ?thesis
  proof (cases r)
    case (Ok a)
    then have eq: "ca_then f g s = g a s1" using f by (simp add: ca_then_def)
    show ?thesis unfolding eq by (rule start [OF m1])
  qed (use f m1 in \<open>simp_all add: ca_then_def\<close>)
qed

lemma platform_start_cases:
  assumes "resources_of t = Some m"
  shows "case fst (ca_then (platform_start h dev cb i out) (\<lambda>st. ca_ok (st, x)) t) of
      Ok v \<Rightarrow> ps_running (fst v) \<and> resources_of (snd (ca_then (platform_start h dev cb i out) (\<lambda>st. ca_ok (st, x)) t))
          = Some (owns (stream_proc (fst v)) True m)
    | _ \<Rightarrow> resources_of (snd (ca_then (platform_start h dev cb i out) (\<lambda>st. ca_ok (st, x)) t)) = Some m"
proof -
  obtain r t1 where r: "platform_start h dev cb i out t = (r, t1)" by (cases "platform_start h dev cb i out t")
  show ?thesis using platform_start_owns [OF r assms] r by (cases r) (simp_all add: ca_then_def ca_res_def)
qed

text \<open>C21: The PCM streams give back what they take. Whatever Core Audio answers (a size of
  \<open>CFStringGetMaximumSizeForEncoding\<close> being a length or \<open>kCFNotFound\<close>, as documented), a start that fails at any
  point leaves no I/O procedure and no string behind; a successful start leaves one running
  procedure, and dropping the stream stops and destroys exactly that one and marks the stream closed.\<close>

theorem pcm_streams_release_everything:
  assumes "resources_of s = Some m"
  shows "(case pcm_playback_start h cfg s of
        (Ok (st, w, sh), s1) \<Rightarrow> ps_running st \<and> resources_of s1 = Some (owns (stream_proc st) True m)
      | (_, s1) \<Rightarrow> resources_of s1 = Some m)
    \<and> (case pcm_capture_start h cfg s of
        (Ok (st, reader), s1) \<Rightarrow> ps_running st \<and> resources_of s1 = Some (owns (stream_proc st) True m)
      | (_, s1) \<Rightarrow> resources_of s1 = Some m)
    \<and> (\<forall>st sh t n. ps_running st \<and> resources_of t = Some (owns (stream_proc st) True n) \<and> resources_wf n \<longrightarrow>
        (\<exists>sh1 t1. pcm_stream_drop h st sh t = (Ok sh1, t1) \<and> resources_of t1 = Some n \<and> closed (metrics sh1)))"
proof -
  have play: "case fst (pcm_playback_start h cfg s) of
      Ok v \<Rightarrow> ps_running (fst v) \<and> resources_of (snd (pcm_playback_start h cfg s)) = Some (owns (stream_proc (fst v)) True m)
    | _ \<Rightarrow> resources_of (snd (pcm_playback_start h cfg s)) = Some m"
    unfolding pcm_playback_start_def start_playback_def
    by (rule start_after_quiet [OF resources.keeps_res assms], rule start_after_quiet [OF resources.keeps_resolve],
        assumption, rule start_after_quiet [OF resources.keeps_res], assumption, simp only: case_prod_beta,
        rule platform_start_cases, assumption)
  have capt: "case fst (pcm_capture_start h cfg s) of
      Ok v \<Rightarrow> ps_running (fst v) \<and> resources_of (snd (pcm_capture_start h cfg s)) = Some (owns (stream_proc (fst v)) True m)
    | _ \<Rightarrow> resources_of (snd (pcm_capture_start h cfg s)) = Some m"
    unfolding pcm_capture_start_def start_capture_def
    by (rule start_after_quiet [OF resources.keeps_res assms], rule start_after_quiet [OF resources.keeps_resolve],
        assumption, rule start_after_quiet [OF resources.keeps_res], assumption, simp only: case_prod_beta,
        rule platform_start_cases, assumption)
  have "\<exists>sh1 t1. pcm_stream_drop h st sh t = (Ok sh1, t1) \<and> resources_of t1 = Some n \<and> closed (metrics sh1)"
    if "ps_running st" "resources_of t = Some (owns (stream_proc st) True n)" "resources_wf n" for st sh t n
    using platform_drop_releases [of t st n h] that by (auto simp: pcm_stream_drop_def ca_then_def ca_res_def close_def)
  then show ?thesis
    using play capt
    by (cases "pcm_playback_start h cfg s"; cases "fst (pcm_playback_start h cfg s)";
        cases "pcm_capture_start h cfg s"; cases "fst (pcm_capture_start h cfg s)") auto
qed

section \<open>A framework with one device\<close>

text \<open>Device 7 with one input and one output channel at 48 kHz, each with the stream 9.\<close>

definition demo_bytes :: "u32 \<Rightarrow> string" where
  "demo_bytes sel =
     (if sel = HARDWARE_DEVICES then [CHR 0x07, CHR 0x00, CHR 0x00, CHR 0x00]
      else if sel = DEVICE_STREAMS then [CHR 0x09, CHR 0x00, CHR 0x00, CHR 0x00]
      else if sel = DEVICE_STREAM_CONFIGURATION then
        [CHR 0x01, CHR 0x00, CHR 0x00, CHR 0x00, CHR 0x00, CHR 0x00, CHR 0x00, CHR 0x00, CHR 0x01,
         CHR 0x00, CHR 0x00, CHR 0x00, CHR 0x00, CHR 0x00, CHR 0x00, CHR 0x00, CHR 0x00, CHR 0x00, CHR 0x00, CHR 0x00, CHR 0x00, CHR 0x00, CHR 0x00, CHR 0x00]
      else if sel = DEVICE_SAMPLE_RATE then
        [CHR 0x00, CHR 0x00, CHR 0x00, CHR 0x00, CHR 0x00, CHR 0x70, CHR 0xE7, CHR 0x40]
      else if sel = STREAM_VIRTUAL_FORMAT then
        [CHR 0x00, CHR 0x00, CHR 0x00, CHR 0x00, CHR 0x00, CHR 0x70, CHR 0xE7, CHR 0x40,
         CHR 0x6D, CHR 0x63, CHR 0x70, CHR 0x6C, CHR 0x09, CHR 0x00, CHR 0x00, CHR 0x00, CHR 0x04, CHR 0x00, CHR 0x00, CHR 0x00,
         CHR 0x01, CHR 0x00, CHR 0x00, CHR 0x00, CHR 0x04, CHR 0x00, CHR 0x00, CHR 0x00, CHR 0x01, CHR 0x00, CHR 0x00, CHR 0x00,
         CHR 0x20, CHR 0x00, CHR 0x00, CHR 0x00, CHR 0x00, CHR 0x00, CHR 0x00, CHR 0x00]
      else [CHR 0x00, CHR 0x00, CHR 0x00, CHR 0x00])"

definition demo_hal :: "nat hal" where
  "demo_hal = idle_hal\<lparr>get_data_size := \<lambda>_ a x. ((0, of_nat (length (demo_bytes (selector a)))), x),
     get_data := \<lambda>_ a n x. ((0, n, demo_bytes (selector a)), x),
     get_string := \<lambda>_ _ x. ((0, 1), x), cf_length := \<lambda>_ x. (3, x), cf_maximum_size := \<lambda>_ x. (Some 9, x),
     cf_c_string := \<lambda>_ _ x. (Some ''dev'', x), create_io_proc := \<lambda>_ x. ((0, 5), x)\<rparr>"

lemma demo_selectors:
  "HARDWARE_DEVICES = 1684370979" "DEVICE_STREAMS = 1937009955" "DEVICE_STREAM_CONFIGURATION = 1936482681"
  "DEVICE_SAMPLE_RATE = 1853059700" "DEVICE_TRANSPORT_TYPE = 1953653102" "STREAM_VIRTUAL_FORMAT = 1936092532"
  by (simp_all add: HARDWARE_DEVICES_def DEVICE_STREAMS_def DEVICE_STREAM_CONFIGURATION_def DEVICE_SAMPLE_RATE_def
      DEVICE_TRANSPORT_TYPE_def STREAM_VIRTUAL_FORMAT_def fourcc_def from_be_bytes_def byte_def)

lemma demo_fields:
  "get_data_size demo_hal = (\<lambda>_ a x. ((0, of_nat (length (demo_bytes (selector a)))), x))"
  "get_data demo_hal = (\<lambda>_ a n x. ((0, n, demo_bytes (selector a)), x))"
  "get_string demo_hal = (\<lambda>_ _ x. ((0, 1), x))" "cf_length demo_hal = (\<lambda>_ x. (3, x))"
  "cf_maximum_size demo_hal = (\<lambda>_ x. (Some 9, x))" "cf_c_string demo_hal = (\<lambda>_ _ x. (Some ''dev'', x))"
  "create_io_proc demo_hal = (\<lambda>_ x. ((0, 5), x))" "start_device demo_hal = (\<lambda>_ _ x. (0, x))"
  "set_data demo_hal = (\<lambda>_ _ _ x. (0, x))"
  by (simp_all add: demo_hal_def idle_hal_def)

lemma demo_read:
  assumes "length (demo_bytes sel) < 100"
  shows "get_property_bytes demo_hal i sel sc s = (Ok (demo_bytes sel), s)"
proof -
  have "unat (of_nat (length (demo_bytes sel)) :: u32) = length (demo_bytes sel)"
    using assms by (simp add: unat_of_nat)
  then show ?thesis
    by (simp add: get_property_bytes_def demo_fields ca_then_def ca_call_def ca_res_def status_def address_def Let_def)
qed

lemma demo_lengths:
  "demo_bytes HARDWARE_DEVICES = [CHR 0x07, CHR 0x00, CHR 0x00, CHR 0x00]"
  "demo_bytes DEVICE_STREAMS = [CHR 0x09, CHR 0x00, CHR 0x00, CHR 0x00]"
  "demo_bytes DEVICE_TRANSPORT_TYPE = [CHR 0x00, CHR 0x00, CHR 0x00, CHR 0x00]"
  "demo_bytes DEVICE_SAMPLE_RATE = [CHR 0x00, CHR 0x00, CHR 0x00, CHR 0x00, CHR 0x00, CHR 0x70, CHR 0xE7, CHR 0x40]"
  "demo_bytes DEVICE_STREAM_CONFIGURATION = [CHR 0x01, CHR 0x00, CHR 0x00, CHR 0x00, CHR 0x00, CHR 0x00, CHR 0x00, CHR 0x00, CHR 0x01,
         CHR 0x00, CHR 0x00, CHR 0x00, CHR 0x00, CHR 0x00, CHR 0x00, CHR 0x00, CHR 0x00, CHR 0x00, CHR 0x00, CHR 0x00, CHR 0x00, CHR 0x00, CHR 0x00, CHR 0x00]"
  "demo_bytes STREAM_VIRTUAL_FORMAT = [CHR 0x00, CHR 0x00, CHR 0x00, CHR 0x00, CHR 0x00, CHR 0x70, CHR 0xE7, CHR 0x40,
         CHR 0x6D, CHR 0x63, CHR 0x70, CHR 0x6C, CHR 0x09, CHR 0x00, CHR 0x00, CHR 0x00, CHR 0x04, CHR 0x00, CHR 0x00, CHR 0x00,
         CHR 0x01, CHR 0x00, CHR 0x00, CHR 0x00, CHR 0x04, CHR 0x00, CHR 0x00, CHR 0x00, CHR 0x01, CHR 0x00, CHR 0x00, CHR 0x00,
         CHR 0x20, CHR 0x00, CHR 0x00, CHR 0x00, CHR 0x00, CHR 0x00, CHR 0x00, CHR 0x00]"
  by (simp_all add: demo_bytes_def demo_selectors)

lemma demo_string: "get_cf_string demo_hal i sel sc s = (Ok ''dev'', s\<lparr>events := events s @ [GotString 1, ReleasedString 1]\<rparr>)"
proof -
  have "cf_string_to_rust demo_hal 1 t = (Ok ''dev'', t)" for t
    by (simp add: cf_string_to_rust_def demo_fields ca_then_def ca_call_def ca_res_def Let_def
        from_utf8_def cf_index_def) (simp add: utf8_ascii is_ascii_def byte_def)
  then show ?thesis
    by (simp add: get_cf_string_def demo_fields ca_then_def ca_call_def ca_res_def ca_log_def status_def cf_release_def)
qed

definition demo_one :: AudioDevice where
  "demo_one = \<lparr>dev_object_id = 7, dev_uid = ''dev'', dev_name = ''dev'', dev_input_channels = 1,
     dev_output_channels = 1, dev_sample_rate = 48000, dev_is_vcable = False, dev_is_virtual = False\<rparr>"

lemma demo_numbers:
  "u32_from_ne_bytes [CHR 0x07, CHR 0x00, CHR 0x00, CHR 0x00] = 7"
  "u32_from_ne_bytes [CHR 0x09, CHR 0x00, CHR 0x00, CHR 0x00] = 9"
  "u32_from_ne_bytes [CHR 0x01, CHR 0x00, CHR 0x00, CHR 0x00] = 1"
  "u32_from_ne_bytes ([CHR 0x00, CHR 0x00, CHR 0x00, CHR 0x00]) = 0"
  "f64_from_ne_bytes [CHR 0x00, CHR 0x00, CHR 0x00, CHR 0x00, CHR 0x00, CHR 0x70, CHR 0xE7, CHR 0x40] = Fin False 6597069766656000 (- 37)"
  "TRANSPORT_TYPE_VIRTUAL = 1986622068"
  by (simp_all add: u32_from_ne_bytes_def f64_from_ne_bytes_def from_ne_bytes_def byte_def Let_def
      TRANSPORT_TYPE_VIRTUAL_def fourcc_def from_be_bytes_def)

lemma demo_reads:
  "get_u32 demo_hal i DEVICE_TRANSPORT_TYPE sc s = (Ok 0, s)"
  "get_f64 demo_hal i DEVICE_SAMPLE_RATE sc s = (Ok (Fin False 6597069766656000 (- 37)), s)"
  "get_u32_array demo_hal i HARDWARE_DEVICES sc s = (Ok [7], s)"
  "get_u32_array demo_hal i DEVICE_STREAMS sc s = (Ok [9], s)"
  by (simp_all add: get_u32_def get_f64_def get_u32_array_def ca_then_def ca_res_def demo_read demo_lengths
      chunks_exact_single demo_numbers)

lemma demo_channels: "get_channel_count demo_hal i sc s = (Ok 1, s)"
proof -
  have "bytes_at 0 4 (demo_bytes DEVICE_STREAM_CONFIGURATION) = [CHR 0x01, CHR 0x00, CHR 0x00, CHR 0x00]"
    "bytes_at 8 4 (demo_bytes DEVICE_STREAM_CONFIGURATION) = [CHR 0x01, CHR 0x00, CHR 0x00, CHR 0x00]"
    "length (demo_bytes DEVICE_STREAM_CONFIGURATION) = 24"
    by (simp_all add: demo_lengths bytes_at_def)
  then show ?thesis
    by (simp add: get_channel_count_def ca_then_def ca_res_def demo_read demo_numbers Let_def usize_bound_def)
qed

lemma demo_device_read:
  "read_device demo_hal 7 s
     = (Ok demo_one, s\<lparr>events := events s @ [GotString 1, ReleasedString 1, GotString 1, ReleasedString 1]\<rparr>)"
proof -
  have "take (length VCABLE_UID_PREFIX) ''dev'' \<noteq> VCABLE_UID_PREFIX" by (simp add: VCABLE_UID_PREFIX_def)
  moreover have "round_as_u32 (Fin False 6597069766656000 (- 37)) = 48000" by simp
  ultimately show ?thesis
    by (simp add: read_device_def ca_then_def ca_res_def demo_string demo_reads(1,2) demo_channels demo_one_def
        demo_numbers(6) del: round_as_u32.simps)
qed

lemma demo_devices_list:
  "list_devices demo_hal s
     = (Ok [demo_one], s\<lparr>events := events s @ [GotString 1, ReleasedString 1, GotString 1, ReleasedString 1]\<rparr>)"
  by (simp add: list_devices_def ca_then_def ca_res_def demo_reads(3) demo_device_read)

definition demo_loop :: AudioRoute where
  "demo_loop = \<lparr>source_device_id = 7, sink_device_id = 7, source_channels = 1, sink_channels = 1,
     source_sample_rate = 48000, sink_sample_rate = 48000, route_matrix = [fone F32], route_gain = fone F32\<rparr>"

abbreviation demo_start :: "nat core_audio" where
  "demo_start \<equiv> \<lparr>hal_state = 0, events = []\<rparr>"

lemma demo_resources: "resources_of demo_start = Some nothing_held"
  by (simp add: resources_of_def)

lemma demo_usage: "configure_stream_usage demo_hal dev pid sc b s = (Ok (), s)"
  by (simp add: configure_stream_usage_def ca_then_def ca_call_def ca_res_def demo_reads(4) demo_fields status_def
      checked_add_def usize_bound_def)

lemma demo_io:
  "io_create demo_hal dev s = ((0, 5), s\<lparr>events := events s @ [CreateIoProc dev 0 5]\<rparr>)"
  "(io_start demo_hal dev pid s :: (i32, 'e) res \<times> nat core_audio) = (Ok 0, s\<lparr>events := events s @ [StartDevice dev pid 0]\<rparr>)"
  by (simp_all add: io_create_def io_start_def demo_fields ca_then_def ca_call_def ca_log_def ca_res_def)

lemma demo_router: "\<exists>router s1. router_start demo_hal [demo_loop] s = (Ok router, s1)
    \<and> map ctx_proc (contexts router) = [(7, 5)]"
proof -
  have v: "\<exists>s1. validate_routes demo_hal [demo_loop] s = (Ok (), s1)"
    by (simp add: validate_routes_def ca_then_def ca_res_def demo_devices_list devices_by_id_def validate_route_def
        demo_one_def demo_loop_def Let_def bt_empty_def fone_def)
  have "checked_next_power_of_two 16384 = Some 16384"
    by (simp add: checked_next_power_of_two_def usize_bound_def Let_def)
  moreover have "is_power_of_two 16384" by (simp add: is_power_of_two_def)
  ultimately obtain q where q: "route_ring demo_loop = Ok q"
    by (simp add: route_ring_def demo_loop_def checked_mul_def usize_bound_def spsc_ring_buffer_def isize_max_def)
  obtain x where b: "build_routes [demo_loop] (bt_empty, []) = Ok ([(7, x)], [q])"
    using q by (simp add: Let_def add_outgoing_def add_incoming_def entry_or_default_def bt_empty_def)
      (simp add: demo_loop_def)
  obtain s1 where s1: "validate_routes demo_hal [demo_loop] s = (Ok (), s1)" using v by blast
  show ?thesis
    using s1 b
    by (cases x) (simp add: router_start_def ca_then_def ca_res_def build_contexts_def demo_io demo_usage status_def
        Let_def ctx_proc_def)
qed

theorem started_router_is_ready_witness:
  "\<exists>router s1. router_start demo_hal [demo_loop] demo_start = (Ok router, s1)
     \<and> (\<exists>x \<in> set (contexts router). route_out 0 demo_loop \<in> set (outgoing x) \<and> context_inv x (store router))"
proof -
  obtain router s1 where r: "router_start demo_hal [demo_loop] demo_start = (Ok router, s1)"
    using demo_router by blast
  from started_router_is_ready [OF r demo_resources]
  have "\<exists>x \<in> set (contexts router). route_out 0 demo_loop \<in> set (outgoing x) \<and> context_inv x (store router)"
    by auto
  then show ?thesis using r by blast
qed

theorem router_releases_everything_witness:
  "\<exists>router s1 s2. router_start demo_hal [demo_loop] demo_start = (Ok router, s1)
     \<and> resources_of s1 = Some \<lparr>procs = {#(7, 5)#}, active = {#(7, 5)#}, held = {#}\<rparr>
     \<and> router_drop demo_hal (contexts router) s1 = (Ok (), s2) \<and> resources_of s2 = Some nothing_held"
proof -
  obtain router s1 where r: "router_start demo_hal [demo_loop] demo_start = (Ok router, s1)"
    "map ctx_proc (contexts router) = [(7, 5)]"
    using demo_router by metis
  from router_releases_everything [OF demo_resources, of demo_hal "[demo_loop]"] r(1)
  have e: "list_all ctx_running (contexts router)" "resources_of s1 = Some (with_contexts (contexts router) nothing_held)"
    "\<exists>t1. router_drop demo_hal (contexts router) s1 = (Ok (), t1) \<and> resources_of t1 = Some nothing_held"
    using resources_of_wf [OF demo_resources] by auto
  obtain x where x: "contexts router = [x]" "ctx_proc x = (7, 5)" using r(2) by auto
  have "with_contexts [x] nothing_held = \<lparr>procs = {#(7, 5)#}, active = {#(7, 5)#}, held = {#}\<rparr>"
    using e(1) x by (simp add: owns_def nothing_held_def)
  then show ?thesis using r(1) e(2,3) x by auto
qed

definition demo_config :: PcmStreamConfig where
  "demo_config = \<lparr>device_uid = ''none'', client_format = \<lparr>fmt_sample_rate = 48000, fmt_channels = 1\<rparr>,
     capacity_frames = 4, target_fill_frames = 2, max_drift_ppm = 0\<rparr>"

theorem pcm_streams_release_everything_witness:
  "resources_of (snd (pcm_playback_start demo_hal demo_config demo_start)) = Some nothing_held
   \<and> (\<exists>sh t. pcm_stream_drop demo_hal \<lparr>ps_device = 7, ps_procedure = 5, ps_running = True, ps_callback = Capture (capture_of 1 4 [])\<rparr>
       (example_shared 3) \<lparr>hal_state = 0, events = [CreateIoProc 7 0 5, StartDevice 7 5 0]\<rparr> = (Ok sh, t)
     \<and> resources_of t = Some nothing_held \<and> closed (metrics sh))"
proof -
  let ?st = "\<lparr>ps_device = 7, ps_procedure = 5, ps_running = True, ps_callback = Capture (capture_of 1 4 [])\<rparr>"
  let ?t = "\<lparr>hal_state = 0, events = [CreateIoProc 7 0 5, StartDevice 7 5 0]\<rparr> :: nat core_audio"
  note all = pcm_streams_release_everything [OF demo_resources, of demo_hal demo_config]
  have "resources_of ?t = Some (owns (stream_proc ?st) True nothing_held)"
    by (simp add: resources_of_def owns_def nothing_held_def stream_proc_def)
  then have drop: "\<exists>sh t. pcm_stream_drop demo_hal ?st (example_shared 3) ?t = (Ok sh, t)
      \<and> resources_of t = Some nothing_held \<and> closed (metrics sh)"
    using conjunct2 [OF conjunct2 [OF all], rule_format, of ?st ?t nothing_held "example_shared 3"]
      resources_of_wf [OF demo_resources] by simp
  have "fst (resolve_pcm_device demo_hal demo_config OutputDirection demo_start) = Err (DeviceNotFound ''none'')"
    by (simp add: resolve_pcm_device_def ca_then_def ca_map_err_def ca_res_def demo_devices_list demo_one_def
        demo_config_def Let_def)
  moreover have "validate_config demo_config \<noteq> Panic"
    by (simp add: validate_config_def demo_config_def res_simps)
  ultimately have "\<exists>e. fst (pcm_playback_start demo_hal demo_config demo_start) = Err e"
    by (cases "validate_config demo_config"; cases "resolve_pcm_device demo_hal demo_config OutputDirection demo_start")
      (auto simp: pcm_playback_start_def ca_then_def ca_res_def)
  then have "resources_of (snd (pcm_playback_start demo_hal demo_config demo_start)) = Some nothing_held"
    using conjunct1 [OF all] by (cases "pcm_playback_start demo_hal demo_config demo_start") auto
  then show ?thesis using drop by blast
qed

end
