(* ===== verification/AudioOrder.thy ===== *)
theory AudioOrder
  imports PcmProperties
begin

text \<open>
  Audio in order, for every resampler of the program: frames go in at one end, wait, and come out at the
  other end as mixes of two neighbours. What is kept is stated over the whole history, and moves with
  each frame that goes in and each step of the head.
\<close>

text \<open>\<open>rest\<close> waits: it is the end of all frames \<open>fed\<close>. What came \<open>out\<close> are mixes of neighbours at
  positions that never go back and that are not behind what was given up.\<close>

definition in_transit :: "f32 list list \<Rightarrow> f32 list list \<Rightarrow> f32 list list \<Rightarrow> bool" where
  "in_transit fed out rest \<longleftrightarrow> (\<exists>c is. rest = drop c fed \<and> c \<le> length fed \<and> sorted is
     \<and> (\<forall>j \<in> set is. j \<le> c) \<and> list_all2 (mixed_at fed) out is)"

lemma transit_start: "in_transit [] [] []"
  unfolding in_transit_def by (intro exI [of _ 0] exI [of _ "[]"]) simp

lemma transit_feed:
  assumes "in_transit fed out rest"
  shows "in_transit (fed @ fs) out (rest @ fs)"
proof -
  obtain c "is" where c: "rest = drop c fed" "c \<le> length fed" "sorted is" "\<forall>j \<in> set is. j \<le> c"
    "list_all2 (mixed_at fed) out is" using assms by (auto simp: in_transit_def)
  have "list_all2 (mixed_at (fed @ fs)) out is"
    using c(5) by (rule list.rel_mono_strong) (auto simp: mixed_at_def nth_append)
  then show ?thesis
    using c unfolding in_transit_def by (intro exI [of _ c] exI [of _ "is"]) simp
qed

lemma mixed_at_drop:
  assumes "drop c fed = x # y # fs"
  shows "mixed_at fed (mix p x y) c"
proof -
  have "length fed - c = Suc (Suc (length fs))" using arg_cong [OF assms, of length] by simp
  then have l: "Suc c < length fed" by arith
  have "fed ! c = drop c fed ! 0" "fed ! Suc c = drop c fed ! 1" using l by simp_all
  then show ?thesis using l assms by (auto simp: mixed_at_def)
qed

text \<open>One step of a head: perhaps a mix of the first two waiting frames, and some are given up.\<close>

definition frames_step :: "f32 list option \<Rightarrow> f32 list list \<Rightarrow> f32 list list \<Rightarrow> bool" where
  "frames_step out rest rest' \<longleftrightarrow> (\<exists>m \<le> length rest. rest' = drop m rest)
     \<and> (\<forall>f. out = Some f \<longrightarrow> (\<exists>p x y fs. rest = x # y # fs \<and> f = mix p x y))"

abbreviation came_out :: "'a option list \<Rightarrow> 'a list" where
  "came_out outs \<equiv> concat (map (case_option [] (\<lambda>f. [f])) outs)"

lemma transit_step:
  assumes "in_transit fed out rest" "frames_step o' rest rest'"
  shows "in_transit fed (out @ case_option [] (\<lambda>f. [f]) o') rest'"
proof -
  obtain c "is" where c: "rest = drop c fed" "c \<le> length fed" "sorted is" "\<forall>j \<in> set is. j \<le> c"
    "list_all2 (mixed_at fed) out is" using assms(1) by (auto simp: in_transit_def)
  obtain m where m: "m \<le> length rest" "rest' = drop m rest"
    and o': "\<forall>f. o' = Some f \<longrightarrow> (\<exists>p x y fs. rest = x # y # fs \<and> f = mix p x y)"
    using assms(2) by (auto simp: frames_step_def)
  let ?is = "is @ case_option [] (\<lambda>_. [c]) o'"
  have "mixed_at fed f c" if g: "o' = Some f" for f
  proof -
    obtain p x y fs where d: "rest = x # y # fs" and f: "f = mix p x y" using o' g by blast
    have "mixed_at fed (mix p x y) c" using mixed_at_drop c(1) d by metis
    then show ?thesis using f by simp
  qed
  then have "list_all2 (mixed_at fed) (out @ case_option [] (\<lambda>f. [f]) o') ?is"
    using c(5) by (cases o') (simp_all add: list_all2_appendI)
  moreover have "sorted ?is" using c(3,4) by (cases o') (auto simp: sorted_append)
  moreover have "rest' = drop (c + m) fed" "c + m \<le> length fed" using m c(1,2) by (simp_all add: add.commute)
  moreover have "\<forall>j \<in> set ?is. j \<le> c + m" using c(4) by (cases o') fastforce+
  ultimately show ?thesis unfolding in_transit_def by blast
qed

section \<open>The play head of the PCM streams\<close>

lemma resample_step_transit: "resample_step P h = (out, h') \<Longrightarrow> frames_step out (frames h) (frames h')"
proof -
  assume "resample_step P h = (out, h')"
  then obtain m where m: "frames h' = drop m (frames h)" "case out of None \<Rightarrow> m = 0
      | Some f \<Rightarrow> \<exists>x y fs. frames h = x # y # fs \<and> f = mix (head_phase h) x y"
    using resample_step_frames by blast
  have "frames h' = drop (min m (length (frames h))) (frames h)" using m(1) by (simp add: min_def)
  then show ?thesis using m(2) unfolding frames_step_def
    by (intro conjI exI [of _ "min m (length (frames h))"]) (auto split: option.splits)
qed

lemma resample_steps_transit:
  "in_transit fed out (frames h) \<Longrightarrow> resample_steps n P h = (fs, h') \<Longrightarrow> in_transit fed (out @ fs) (frames h')"
proof (induction n arbitrary: out h fs)
  case (Suc n)
  obtain o1 h1 where o: "resample_step P h = (o1, h1)" by (cases "resample_step P h")
  note t = transit_step [OF Suc.prems(1) resample_step_transit [OF o]]
  show ?case
  proof (cases o1)
    case None
    then show ?thesis using t o Suc.prems(2) by simp
  next
    case (Some f)
    obtain gs where gs: "resample_steps n P h1 = (gs, h')" "fs = f # gs"
      using Suc.prems(2) o Some by (auto simp: Let_def split: prod.splits)
    show ?thesis using Suc.IH [OF t gs(1)] gs(2) Some by simp
  qed
qed simp

end
