(* ===== verification/PcmCycles.thy ===== *)
theory PcmCycles
  imports StreamProperties AudioOrder
begin

text \<open>
  A PCM stream from its start on Core Audio on: the process on one side writes or reads, the device on the
  other side calls back, in any order, until the stream is closed and after. What a playback stream was
  given is played in order, and what a capture stream took is read in order.
\<close>

section \<open>Started streams\<close>

lemma platform_start_callback: "platform_start h dev cb i out s = (Ok st, s') \<Longrightarrow> ps_callback st = cb"
  by (auto simp: platform_start_def or_drop_def finish_start_def ca_then_def ca_res_def Let_def
      split: prod.splits res.splits if_splits)

lemma opened_ring:
  assumes v: "validate_config cfg = Ok v" and ring: "create_ring (v_internal_sample_capacity v) = Ok ring"
    and r: "resampler_new (v_channels v) t (capacity_frames cfg) step ppm = Ok r"
  shows "stream_inv (v_channels v) (capacity_frames cfg)
      (r, \<lparr>buffer = ring, metrics = metrics_new (capacity_frames cfg)\<rparr>)"
    and "frames (playhead_of (r, \<lparr>buffer = ring, metrics = metrics_new (capacity_frames cfg)\<rparr>)) = []"
    and "capacity_frames cfg * v_channels v + v_channels v < usize_bound"
proof -
  note val = validated [OF v]
  have sp: "spsc_ring_buffer (v_internal_sample_capacity v) = Ok ring"
    using ring by (simp add: create_ring_def split: res.splits)
  note rb = spsc_ring_buffer_Ok [OF this]
  have "capacity_frames cfg * v_channels v \<le> capacity ring" using val(7) rb(2) by simp
  note ok = resampler_new_ok [OF r val(1) rb(1,3) this val(9)]
  show "stream_inv (v_channels v) (capacity_frames cfg)
      (r, \<lparr>buffer = ring, metrics = metrics_new (capacity_frames cfg)\<rparr>)"
    "frames (playhead_of (r, \<lparr>buffer = ring, metrics = metrics_new (capacity_frames cfg)\<rparr>)) = []"
    using ok by blast+
  have "4 * v_internal_sample_capacity v \<le> isize_max"
    using ring by (auto simp: create_ring_validated [OF v] split: if_splits)
  moreover have "v_channels v < 2 ^ 32" using val(4) unsigned_less [of "fmt_channels (client_format cfg)", where 'a = nat] by simp
  ultimately show "capacity_frames cfg * v_channels v + v_channels v < usize_bound"
    using val(7) by (simp add: isize_max_def usize_bound_def)
qed

lemma capture_started:
  assumes "pcm_capture_start h cfg s = (Ok (st, (r, sh)), s')"
  obtains c where "ps_callback st = Capture (capture_of c (capacity_frames cfg) (replicate c (fzero F32)))"
    "stream_inv c (capacity_frames cfg) (r, sh)" "frames (playhead_of (r, sh)) = []"
    "capacity_frames cfg * c + c < usize_bound" "metrics sh = metrics_new (capacity_frames cfg)"
proof -
  obtain dev c0 t1 t2 where o: "open_capture (\<lambda>_ _. Ok (pd_sample_rate dev)) cfg = Ok (c0, (r, sh))"
    "start_capture h dev c0 t1 = (Ok st, t2)"
    using assms by (auto simp: pcm_capture_start_def ca_then_def ca_res_def split: prod.splits res.splits)
  have cb: "ps_callback st = Capture c0" using platform_start_callback o(2) unfolding start_capture_def by blast
  obtain v ring step where v: "validate_config cfg = Ok v" "create_ring (v_internal_sample_capacity v) = Ok ring"
    "capture_new (v_channels v) (capacity_frames cfg) = Ok c0"
    "resampler_new (v_channels v) (target_fill_frames cfg) (capacity_frames cfg) step (max_drift_ppm cfg) = Ok r"
    "sh = \<lparr>buffer = ring, metrics = metrics_new (capacity_frames cfg)\<rparr>"
    using o(1) by (auto simp: open_capture_def res_simps)
  have "c0 = capture_of (v_channels v) (capacity_frames cfg) (replicate (v_channels v) (fzero F32))"
    using v(3) by (auto simp: capture_new_def capture_of_def res_simps split: option.splits)
  then show thesis using that [of "v_channels v"] cb opened_ring [OF v(1,2,4)] v(5) by simp
qed

lemma playback_started:
  assumes "pcm_playback_start h cfg s = (Ok (st, w, sh), s')"
  obtains c r where "ps_callback st = Playback r" "w = writer_of c (capacity_frames cfg)"
    "stream_inv c (capacity_frames cfg) (r, sh)" "frames (playhead_of (r, sh)) = []"
proof -
  obtain dev r t1 t2 where o: "open_playback (\<lambda>_ _. Ok (pd_sample_rate dev)) cfg = Ok (w, (r, sh))"
    "start_playback h dev r t1 = (Ok st, t2)"
    using assms by (auto simp: pcm_playback_start_def ca_then_def ca_res_def split: prod.splits res.splits)
  have cb: "ps_callback st = Playback r" using platform_start_callback o(2) unfolding start_playback_def by blast
  obtain v ring where v: "validate_config cfg = Ok v" "create_ring (v_internal_sample_capacity v) = Ok ring"
    "playback_state_new (v_channels v) cfg (pd_sample_rate dev) = Ok r"
    "w = \<lparr>w_channels = v_channels v, w_logical_capacity_samples = v_logical_capacity_samples v\<rparr>"
    "sh = \<lparr>buffer = ring, metrics = metrics_new (capacity_frames cfg)\<rparr>"
    using o(1) by (auto simp: open_playback_def res_simps)
  have "w = writer_of (v_channels v) (capacity_frames cfg)"
    using v(4) validated(5) [OF v(1)] by (simp add: writer_of_def)
  then show thesis
    using that [OF cb] opened_ring [OF v(1,2) v(3) [unfolded playback_state_new_def]] v(5) by blast
qed

section \<open>Captured frames are read in order\<close>

text \<open>The frames that a callback stores: the first ones for which there is room.\<close>

definition stored_frames :: "CaptureCallbackState \<Rightarrow> pcm_shared \<Rightarrow> AudioBufferList option \<Rightarrow> f32 list list" where
  "stored_frames c sh inp = (case inp of
      None \<Rightarrow> []
    | Some bs \<Rightarrow> (case audio_buffer_list_frames bs of
        None \<Rightarrow> []
      | Some n \<Rightarrow> if audio_buffer_list_channels bs \<noteq> Some (c_channels c) then []
          else map (frame_at bs) [0..<fitting (c_logical_capacity_samples c div c_channels c)
            (length (ring_frames (c_channels c) sh)) n]))"

definition frames_read :: "usize \<Rightarrow> (usize, PcmStreamError) res \<Rightarrow> f32 list \<Rightarrow> f32 list list" where
  "frames_read c res pcm = (case res of Ok n \<Rightarrow> chunks_exact c (take (n * c) pcm) | _ \<Rightarrow> [])"

abbreviation well_formed :: "AudioBufferList option \<Rightarrow> bool" where
  "well_formed list \<equiv> (\<forall>bs. list = Some bs \<longrightarrow> list_all buffer_wf bs)"

text \<open>The calls so far, the frames \<open>fed\<close> that the callbacks stored and the frames \<open>out\<close> that the process read.\<close>

inductive capture_runs ::
    "CaptureCallbackState \<times> reading \<Rightarrow> f32 list list \<Rightarrow> f32 list list \<Rightarrow> CaptureCallbackState \<times> reading \<Rightarrow> bool"
  for s0 where
  start: "capture_runs s0 [] [] s0"
| callback: "capture_runs s0 fed out (c, (r, sh)) \<Longrightarrow> well_formed inp \<Longrightarrow>
    pcm_audio_device_io_proc (Some (Capture c)) sh inp outp = ret (st, Some (Capture c'), sh', outp') \<Longrightarrow>
    capture_runs s0 (fed @ stored_frames c sh inp) out (c', (r, sh'))"
| read: "capture_runs s0 fed out (c, (r, sh)) \<Longrightarrow>
    try_read_interleaved pcm (r, sh) = ret (res, pcm', (r', sh')) \<Longrightarrow>
    capture_runs s0 fed (out @ frames_read (rs_channels r) res pcm') (c, (r', sh'))"
| close: "capture_runs s0 fed out (c, (r, sh)) \<Longrightarrow> capture_runs s0 fed out (c, (r, meter close sh))"

definition captures :: "usize \<Rightarrow> usize \<Rightarrow> f32 list list \<Rightarrow> f32 list list \<Rightarrow> CaptureCallbackState \<times> reading \<Rightarrow> bool" where
  "captures c k fed out = (\<lambda>(cb, (r, sh)). (\<exists>xs. length xs = c \<and> cb = capture_of c k xs)
     \<and> stream_inv c k (r, sh) \<and> k * c + c < usize_bound
     \<and> in_transit fed out (frames (playhead_of (r, sh))) \<and> transferred_frames (metrics sh) = of_nat (length fed))"

lemma captures_callback:
  assumes "captures c k fed out (cb, (r, sh))" "well_formed inp"
  shows "\<exists>cb' sh'. pcm_audio_device_io_proc (Some (Capture cb)) sh inp outp = ret (0, Some (Capture cb'), sh', outp)
    \<and> captures c k (fed @ stored_frames cb sh inp) out (cb', (r, sh'))"
proof -
  obtain xs where i: "length xs = c" "cb = capture_of c k xs" "stream_inv c k (r, sh)" "k * c + c < usize_bound"
    "in_transit fed out (frames (playhead_of (r, sh)))" "transferred_frames (metrics sh) = of_nat (length fed)"
    using assms(1) by (auto simp: captures_def)
  have "0 < c" using stream_invD(3) [OF i(3)] .
  then have k: "c_logical_capacity_samples cb div c = k" "c_channels cb = c"
    by (simp_all add: i(2) capture_of_def)
  obtain xs' sh' where q: "pcm_audio_device_io_proc (Some (Capture cb)) sh inp outp
      = ret (0, Some (Capture (capture_of c k xs')), sh', outp)" "length xs' = c" "stream_inv c k (r, sh')"
    and e: "case inp of
        Some bs \<Rightarrow> (case audio_buffer_list_frames bs of
          Some n \<Rightarrow>
            if audio_buffer_list_channels bs = Some c then
              let m = fitting k (length (ring_frames c sh)) n in
                frames (playhead_of (r, sh')) = frames (playhead_of (r, sh)) @ map (frame_at bs) [0..<m]
                \<and> transferred_frames (metrics sh') = transferred_frames (metrics sh) + of_nat m
                \<and> overrun_frames (metrics sh') = overrun_frames (metrics sh) + of_nat (n - m)
            else sh' = meter format_error (meter callback sh)
        | None \<Rightarrow> sh' = meter format_error (meter callback sh))
      | None \<Rightarrow> sh' = meter format_error (meter callback sh)"
    using capture_callback_exact [OF i(3,4,1), of inp outp] assms(2) i(2) by blast
  have bad: "frames (playhead_of (r, meter format_error (meter callback sh))) = frames (playhead_of (r, sh)) @ []"
    "transferred_frames (metrics (meter format_error (meter callback sh))) = transferred_frames (metrics sh)"
    by (simp_all only: frames_meter append_Nil2) (simp add: format_error_def callback_def)
  have "frames (playhead_of (r, sh')) = frames (playhead_of (r, sh)) @ stored_frames cb sh inp
      \<and> transferred_frames (metrics sh') = transferred_frames (metrics sh) + of_nat (length (stored_frames cb sh inp))"
    using e bad by (auto simp: stored_frames_def k Let_def split: option.splits if_splits)
  then show ?thesis
    using q i(4,6) transit_feed [OF i(5), of "stored_frames cb sh inp"]
    by (intro exI [of _ "capture_of c k xs'"] exI [of _ sh']) (auto simp: captures_def)
qed

lemma resample_steps_widths:
  "resample_steps n P h = (fs, h') \<Longrightarrow> \<forall>f \<in> set (frames h). length f = c \<Longrightarrow> f \<in> set fs \<Longrightarrow> length f = c"
proof (induction n arbitrary: h fs)
  case (Suc n)
  obtain o1 h1 where o: "resample_step P h = (o1, h1)" by (cases "resample_step P h")
  then obtain m where m: "frames h1 = drop m (frames h)"
    and m': "\<forall>g. o1 = Some g \<longrightarrow> (\<exists>p x y gs. frames h = x # y # gs \<and> g = mix p x y)"
    using resample_step_transit [OF o] unfolding frames_step_def by blast
  show ?case
  proof (cases o1)
    case None
    then show ?thesis using Suc.prems(1,3) o by simp
  next
    case (Some g)
    then obtain gs where gs: "resample_steps n P h1 = (gs, h')" "fs = g # gs"
      using Suc.prems(1) o by (auto simp: Let_def split: prod.splits)
    obtain p x y rest where "frames h = x # y # rest" "g = mix p x y" using m' Some by blast
    then have "length g = c" using Suc.prems(2) by (simp add: mix_def)
    moreover have "\<forall>f \<in> set (frames h1). length f = c" using Suc.prems(2) m in_set_dropD by metis
    ultimately show ?thesis using Suc.IH [OF gs(1)] Suc.prems(3) gs(2) by auto
  qed
qed simp

lemma captures_read:
  assumes "captures c k fed out (cb, (r, sh))"
  shows "\<exists>res pcm' r' sh'. try_read_interleaved pcm (r, sh) = ret (res, pcm', (r', sh')) \<and> res \<noteq> Panic
    \<and> captures c k fed (out @ frames_read c res pcm') (cb, (r', sh'))"
proof -
  have i: "stream_inv c k (r, sh)" "in_transit fed out (frames (playhead_of (r, sh)))"
    using assms by (auto simp: captures_def)
  note c = stream_invD(2,3) [OF i(1)]
  show ?thesis
  proof (cases "closed (metrics sh) \<or> length pcm mod c \<noteq> 0")
    case True
    then have "try_read_interleaved pcm (r, sh)
        = ret (Err (if closed (metrics sh) then StreamClosed else InvalidBufferLength), pcm, (r, sh))"
      using c by (auto simp: try_read_interleaved_def ensure_open_def Let_def dvd_eq_mod_eq_0)
    then show ?thesis using assms by (auto simp: frames_read_def)
  next
    case False
    obtain fs h where fs: "resample_steps (length pcm div c) (params r) (playhead_of (r, sh)) = (fs, h)"
      by (cases "resample_steps (length pcm div c) (params r) (playhead_of (r, sh))") simp
    obtain r' sh' where q: "try_read_interleaved pcm (r, sh) =
        ret (Ok (length fs), concat fs @ drop (length fs * c) pcm, (r', sh'))"
      "stream_inv c k (r', sh')" "h = playhead_of (r', sh')" "drained sh sh'"
      using try_read_ok [OF i(1) _ _ fs] False by blast
    have w: "length f = c" if "f \<in> set fs" for f
      using resample_steps_widths [OF fs _ that] stream_frames_length [OF i(1)] by blast
    then have "length (concat fs) = length fs * c"
      by (induction fs) auto
    then have "frames_read c (Ok (length fs)) (concat fs @ drop (length fs * c) pcm) = fs"
      using chunks_exact_concat [OF c(2) w] by (simp add: frames_read_def)
    moreover have "transferred_frames (metrics sh') = transferred_frames (metrics sh)"
      using q(4) by (simp add: drained_def same_meters_iff)
    ultimately show ?thesis
      using q assms resample_steps_transit [OF i(2) fs] by (auto simp: captures_def)
  qed
qed

lemma captures_runs:
  "capture_runs s0 fed out s \<Longrightarrow> captures c k [] [] s0 \<Longrightarrow> captures c k fed out s"
proof (induction rule: capture_runs.induct)
  case (callback fed out cb r sh inp outp st cb' sh' outp')
  then have "captures c k fed out (cb, (r, sh))" by simp
  then show ?case using captures_callback [of c k fed out cb r sh inp outp] callback.hyps(2,3) by auto
next
  case (read fed out cb r sh pcm res pcm' r' sh')
  then have i: "captures c k fed out (cb, (r, sh))" by simp
  then have "rs_channels r = c" using stream_invD(2) by (auto simp: captures_def)
  then show ?case using captures_read [OF i, of pcm] read.hyps(2) by auto
next
  case (close fed out cb r sh)
  then show ?case by (simp add: captures_def stream_inv_meter close_def)
qed simp

text \<open>C19: A capture stream hands on what the device delivers, in order. After a successful start, and
  after any callbacks, reads and a close in any order, every further callback and every further read
  returns without a panic; the frames that the callbacks stored are those that were given up followed
  by those that still wait, at most two more than the capacity; the process has read mixes of
  neighbouring stored frames at positions that never go back; and the transferred-frames counter is
  the number of stored frames.\<close>

theorem capture_stream_in_order:
  assumes "pcm_capture_start h cfg s = (Ok (st, reader), s')"
  shows "\<exists>c0. ps_callback st = Capture c0 \<and> (\<forall>fed out cb r sh. capture_runs (c0, reader) fed out (cb, (r, sh)) \<longrightarrow>
      in_transit fed out (frames (playhead_of (r, sh)))
    \<and> length (frames (playhead_of (r, sh))) \<le> capacity_frames cfg + 2
    \<and> transferred_frames (metrics sh) = of_nat (length fed)
    \<and> (\<forall>inp outp. well_formed inp \<longrightarrow> (\<exists>cb' sh'. pcm_audio_device_io_proc (Some (Capture cb)) sh inp outp
          = ret (0, Some (Capture cb'), sh', outp)))
    \<and> (\<forall>pcm. \<exists>res pcm' s1. try_read_interleaved pcm (r, sh) = ret (res, pcm', s1) \<and> res \<noteq> Panic))"
proof -
  let ?k = "capacity_frames cfg"
  obtain r0 sh0 where rd: "reader = (r0, sh0)" by (cases reader)
  obtain c where c: "ps_callback st = Capture (capture_of c ?k (replicate c (fzero F32)))"
    "stream_inv c ?k (r0, sh0)" "frames (playhead_of (r0, sh0)) = []" "?k * c + c < usize_bound"
    "metrics sh0 = metrics_new ?k" by (rule capture_started [OF assms [unfolded rd]])
  then have start: "captures c ?k [] [] (capture_of c ?k (replicate c (fzero F32)), reader)"
    using transit_start
    by (auto simp: captures_def rd metrics_new_def intro: exI [of _ "replicate c (fzero F32)"])
  show ?thesis
  proof (rule exI, rule conjI, rule c(1), intro allI impI conjI)
    fix fed out cb r sh
    assume "capture_runs (capture_of c ?k (replicate c (fzero F32)), reader) fed out (cb, (r, sh))"
    from captures_runs [OF this start] have i: "captures c ?k fed out (cb, (r, sh))" .
    then show "in_transit fed out (frames (playhead_of (r, sh)))"
      "transferred_frames (metrics sh) = of_nat (length fed)" by (simp_all add: captures_def)
    show "length (frames (playhead_of (r, sh))) \<le> ?k + 2"
      using i by (auto simp: captures_def frames_eq stream_inv_def)
    show "\<exists>cb' sh'. pcm_audio_device_io_proc (Some (Capture cb)) sh inp outp
        = ret (0, Some (Capture cb'), sh', outp)" if "well_formed inp" for inp outp
      using captures_callback [OF i that] by blast
    show "\<exists>res pcm' s1. try_read_interleaved pcm (r, sh) = ret (res, pcm', s1) \<and> res \<noteq> Panic" for pcm
      using captures_read [OF i, of pcm] by blast
  qed
qed

section \<open>A stream on the framework with one device\<close>

lemma demo_description:
  "read_description (demo_bytes STREAM_VIRTUAL_FORMAT) = \<lparr>sd_sample_rate = Fin False 6597069766656000 (- 37),
     format_id = FORMAT_LINEAR_PCM, format_flags = 9, bytes_per_packet = 4, frames_per_packet = 1,
     bytes_per_frame = 4, channels_per_frame = 1, bits_per_channel = 32\<rparr>"
  by (simp add: read_description_def demo_lengths bytes_at_def demo_numbers(5) Let_def FORMAT_LINEAR_PCM_def fourcc_def
      from_be_bytes_def u32_from_ne_bytes_def from_ne_bytes_def byte_def)

lemma demo_format: "validate_f32_stream_format demo_hal demo_one sc s = (Ok (), s)"
proof -
  have "bit (9 :: u32) 0" "bit (9 :: u32) 3" "\<not> bit (9 :: u32) 1" "\<not> bit (9 :: u32) 5"
    by (simp_all add: bit_simps)
  moreover have "length (demo_bytes STREAM_VIRTUAL_FORMAT) = 40" by (simp add: demo_lengths)
  moreover have "round_as_u32 (Fin False 6597069766656000 (- 37)) = 48000" by simp
  ultimately show ?thesis
    by (simp add: validate_f32_stream_format_def ca_then_def ca_res_def ca_map_err_def demo_reads(4) demo_read
        demo_description expected_bytes_per_frame_def valid_description_def Let_def del: round_as_u32.simps)
      (simp add: demo_one_def)
qed

definition tone_config :: PcmStreamConfig where
  "tone_config = \<lparr>device_uid = ''dev'', client_format = \<lparr>fmt_sample_rate = 48000, fmt_channels = 1\<rparr>,
     capacity_frames = 4, target_fill_frames = 2, max_drift_ppm = 0\<rparr>"

lemma demo_resolve: "\<exists>t. resolve_pcm_device demo_hal tone_config dir s = (Ok \<lparr>pd_object_id = 7, pd_sample_rate = 48000\<rparr>, t)"
  by (cases dir) (simp_all add: resolve_pcm_device_def ca_then_def ca_res_def ca_map_err_def demo_devices_list tone_config_def
      Let_def demo_format, simp_all add: demo_one_def)

lemma tone_validated: "validate_config tone_config = Ok \<lparr>v_channels = 1, v_logical_capacity_samples = 4, v_internal_sample_capacity = 4\<rparr>"
proof -
  have "bits 3 = Suc 1" by (rule bits_eqI) simp_all
  then show ?thesis
    by (simp add: validate_config_def tone_config_def res_simps Let_def checked_mul_def checked_next_power_of_two_def usize_bound_def)
qed

lemma tone_ring: "\<exists>ring. create_ring 4 = Ok ring"
proof -
  have "is_power_of_two 4" by (simp add: is_power_of_two_def)
  then show ?thesis by (simp add: create_ring_def spsc_ring_buffer_def isize_max_def)
qed

lemma tone_platform:
  "\<exists>st t. platform_start demo_hal \<lparr>pd_object_id = 7, pd_sample_rate = 48000\<rparr> cb i out s = (Ok st, t)"
  by (simp add: platform_start_def or_drop_def finish_start_def ca_then_def ca_res_def ca_map_err_def demo_io demo_usage)

lemma tone_starts:
  "\<exists>st reader t. pcm_capture_start demo_hal tone_config s = (Ok (st, reader), t)"
  "\<exists>st w sh t. pcm_playback_start demo_hal tone_config s = (Ok (st, w, sh), t)"
proof -
  obtain ring where ring: "create_ring 4 = Ok ring" using tone_ring by blast
  have "\<exists>c r sh. open_capture (\<lambda>_ _. Ok rate) tone_config = Ok (c, (r, sh))" for rate
    by (simp add: open_capture_def tone_validated ring capture_new_def resampler_new_def)
      (simp add: tone_config_def checked_mul_def usize_bound_def usize_sub_def)
  then obtain c r sh where c: "open_capture (\<lambda>_ _. Ok 48000) tone_config = Ok (c, (r, sh))" by blast
  obtain t1 where t1: "resolve_pcm_device demo_hal tone_config InputDirection s = (Ok \<lparr>pd_object_id = 7, pd_sample_rate = 48000\<rparr>, t1)"
    using demo_resolve by blast
  obtain st t2 where "start_capture demo_hal \<lparr>pd_object_id = 7, pd_sample_rate = 48000\<rparr> c t1 = (Ok st, t2)"
    using tone_platform unfolding start_capture_def by blast
  then show "\<exists>st reader t. pcm_capture_start demo_hal tone_config s = (Ok (st, reader), t)"
    using c t1 by (simp add: pcm_capture_start_def ca_then_def ca_res_def tone_validated)
  have "\<exists>w r sh. open_playback (\<lambda>_ _. Ok rate) tone_config = Ok (w, (r, sh))" for rate
    by (simp add: open_playback_def tone_validated ring playback_state_new_def resampler_new_def)
      (simp add: tone_config_def usize_sub_def)
  then obtain w r sh where w: "open_playback (\<lambda>_ _. Ok 48000) tone_config = Ok (w, (r, sh))" by blast
  obtain t3 where t3: "resolve_pcm_device demo_hal tone_config OutputDirection s = (Ok \<lparr>pd_object_id = 7, pd_sample_rate = 48000\<rparr>, t3)"
    using demo_resolve by blast
  obtain st t4 where "start_playback demo_hal \<lparr>pd_object_id = 7, pd_sample_rate = 48000\<rparr> r t3 = (Ok st, t4)"
    using tone_platform unfolding start_playback_def by blast
  then show "\<exists>st w sh t. pcm_playback_start demo_hal tone_config s = (Ok (st, w, sh), t)"
    using w t3 by (simp add: pcm_playback_start_def ca_then_def ca_res_def tone_validated)
qed

theorem capture_stream_in_order_witness:
  "\<exists>st r sh s' c0 cb' sh'. pcm_capture_start demo_hal tone_config demo_start = (Ok (st, (r, sh)), s')
     \<and> ps_callback st = Capture c0
     \<and> pcm_audio_device_io_proc (Some (Capture c0)) sh (Some short_list) None = ret (0, Some (Capture cb'), sh', None)"
proof -
  obtain st r sh s' where s: "pcm_capture_start demo_hal tone_config demo_start = (Ok (st, (r, sh)), s')"
    using tone_starts(1) by fast
  have "well_formed (Some short_list)" by (simp add: short_list_def buffer_wf_def buffer_samples_def)
  then show ?thesis
    using capture_stream_in_order [OF s] s capture_runs.start by blast
qed

section \<open>Written frames are played in order\<close>

text \<open>The frames that a callback plays: those that the head gives on a list of the stream's format.\<close>

definition played_frames :: "RingResampler \<Rightarrow> pcm_shared \<Rightarrow> AudioBufferList option \<Rightarrow> f32 list option list" where
  "played_frames r sh outp = (case outp of
      None \<Rightarrow> []
    | Some bs \<Rightarrow> (case audio_buffer_list_frames bs of
        None \<Rightarrow> []
      | Some n \<Rightarrow> if audio_buffer_list_channels bs \<noteq> Some (rs_channels r) then []
          else fst (resample_run n (params r) (playhead_of (r, sh)))))"

definition written_frames :: "PcmWriter \<Rightarrow> (unit, PcmStreamError) res \<Rightarrow> f32 list \<Rightarrow> f32 list list" where
  "written_frames w res pcm = (if is_ok res then chunks_exact (w_channels w) pcm else [])"

text \<open>The calls so far, the frames \<open>fed\<close> that the process wrote and the frames \<open>out\<close> that were played.\<close>

inductive playback_runs ::
    "PcmWriter \<Rightarrow> reading \<Rightarrow> f32 list list \<Rightarrow> f32 list list \<Rightarrow> reading \<Rightarrow> bool" for w s0 where
  start: "playback_runs w s0 [] [] s0"
| wrote: "playback_runs w s0 fed out (r, sh) \<Longrightarrow> try_write_interleaved w pcm sh = (res, sh') \<Longrightarrow>
    playback_runs w s0 (fed @ written_frames w res pcm) out (r, sh')"
| callback: "playback_runs w s0 fed out (r, sh) \<Longrightarrow> well_formed outp \<Longrightarrow>
    pcm_audio_device_io_proc (Some (Playback r)) sh inp outp = ret (st, Some (Playback r'), sh', outp') \<Longrightarrow>
    playback_runs w s0 fed (out @ came_out (played_frames r sh outp)) (r', sh')"
| close: "playback_runs w s0 fed out (r, sh) \<Longrightarrow> playback_runs w s0 fed out (r, meter close sh)"

lemma resample_run_transit:
  "in_transit fed out (frames h) \<Longrightarrow> resample_run n P h = (outs, h') \<Longrightarrow> in_transit fed (out @ came_out outs) (frames h')"
proof (induction n arbitrary: out h outs)
  case (Suc n)
  obtain o1 h1 outs1 where o: "resample_step P h = (o1, h1)" "resample_run n P h1 = (outs1, h')" "outs = o1 # outs1"
    using Suc.prems(2) by (auto simp: Let_def split: prod.splits)
  show ?case using Suc.IH [OF transit_step [OF Suc.prems(1) resample_step_transit [OF o(1)]] o(2)] o(3) by simp
qed simp

definition plays :: "usize \<Rightarrow> usize \<Rightarrow> f32 list list \<Rightarrow> f32 list list \<Rightarrow> reading \<Rightarrow> bool" where
  "plays c k fed out = (\<lambda>(r, sh). stream_inv c k (r, sh) \<and> in_transit fed out (frames (playhead_of (r, sh))))"

text \<open>What a callback leaves in the output: the played frames, silence where there is none.\<close>

definition shows_frames :: "usize \<Rightarrow> f32 list option list \<Rightarrow> AudioBufferList option \<Rightarrow> bool" where
  "shows_frames c outs outp \<longleftrightarrow> outs = [] \<or> (\<exists>bs. outp = Some bs \<and> (\<forall>i < length outs. \<forall>ch < c.
     sample_at bs i ch = silent_or (outs ! i) ch (fzero F32)))"

lemma resample_run_length: "length (fst (resample_run n P h)) = n"
  by (induction n arbitrary: h) (auto simp: Let_def split: prod.split, metis fst_conv)

lemma plays_callback:
  assumes "plays c k fed out (r, sh)" "well_formed outp"
  shows "\<exists>r' sh' outp'. pcm_audio_device_io_proc (Some (Playback r)) sh inp outp = ret (0, Some (Playback r'), sh', outp')
    \<and> plays c k fed (out @ came_out (played_frames r sh outp)) (r', sh')
    \<and> shows_frames c (played_frames r sh outp) outp'"
proof -
  have i: "stream_inv c k (r, sh)" "in_transit fed out (frames (playhead_of (r, sh)))" "rs_channels r = c"
    using assms(1) stream_invD(2) by (auto simp: plays_def)
  obtain r' sh' outp' where q: "pcm_audio_device_io_proc (Some (Playback r)) sh inp outp
      = ret (0, Some (Playback r'), sh', outp')" "stream_inv c k (r', sh')"
    and e: "case outp of
        Some bs \<Rightarrow> (case audio_buffer_list_frames bs of
          Some n \<Rightarrow>
            if audio_buffer_list_channels bs = Some c then
              let (outs, h) = resample_run n (params r) (playhead_of (r, sh)) in
                h = playhead_of (r', sh') \<and> format_errors (metrics sh') = format_errors (metrics sh)
                \<and> (\<exists>bs'. outp' = Some bs' \<and> (\<forall>i < n. \<forall>ch < c.
                      sample_at bs' i ch = silent_or (outs ! i) ch (fzero F32)))
            else r' = r \<and> sh' = meter format_error (meter callback sh)
        | None \<Rightarrow> r' = r \<and> sh' = meter format_error (meter callback sh))
      | None \<Rightarrow> r' = r \<and> sh' = meter format_error (meter callback sh)"
    using playback_callback_exact [OF i(1), of outp inp] assms(2) by blast
  have bad: "frames (playhead_of (r, meter format_error (meter callback sh))) = frames (playhead_of (r, sh))"
    by (simp only: frames_meter)
  have "in_transit fed (out @ came_out (played_frames r sh outp)) (frames (playhead_of (r', sh')))
      \<and> shows_frames c (played_frames r sh outp) outp'"
  proof (cases "played_frames r sh outp = [] \<and> r' = r \<and> sh' = meter format_error (meter callback sh)")
    case True
    then show ?thesis using i(2) bad by (simp add: shows_frames_def)
  next
    case False
    then obtain bs n where n: "outp = Some bs" "audio_buffer_list_frames bs = Some n" "audio_buffer_list_channels bs = Some c"
      using e i(3) by (auto simp: played_frames_def split: option.splits if_splits)
    obtain outs h where run: "resample_run n (params r) (playhead_of (r, sh)) = (outs, h)"
      by (cases "resample_run n (params r) (playhead_of (r, sh))")
    have "played_frames r sh outp = outs" "length outs = n"
      using n i(3) run resample_run_length [of n "params r" "playhead_of (r, sh)"] by (simp_all add: played_frames_def)
    then show ?thesis using e n run resample_run_transit [OF i(2) run] by (auto simp: shows_frames_def)
  qed
  then show ?thesis using q by (auto simp: plays_def)
qed

lemma plays_runs:
  "playback_runs (writer_of c k) s0 fed out s \<Longrightarrow> plays c k [] [] s0 \<Longrightarrow> plays c k fed out s"
proof (induction rule: playback_runs.induct)
  case (wrote fed out r sh pcm res sh')
  then have i: "stream_inv c k (r, sh)" "in_transit fed out (frames (playhead_of (r, sh)))" by (auto simp: plays_def)
  then show ?case using try_write_effect [OF i(1) wrote.hyps(2)] transit_feed [OF i(2)]
    by (simp add: plays_def written_frames_def) (simp add: writer_of_def)
next
  case (callback fed out r sh outp inp st r' sh' outp')
  then have "plays c k fed out (r, sh)" by simp
  then show ?case using plays_callback [of c k fed out r sh outp inp] callback.hyps(2,3) by auto
next
  case (close fed out r sh)
  then show ?case by (simp add: plays_def stream_inv_meter close_def)
qed simp

text \<open>C18: A playback stream plays what the process writes, in order. After a successful start, and after
  any writes, callbacks and a close in any order, every further call returns without a panic; a callback
  fills its list with the frames it takes, and with silence where there is none; the accepted frames are
  those that were given up followed by those that still wait, at most two more than the capacity; and
  what was played are mixes of neighbouring accepted frames at positions that never go back.\<close>

theorem playback_stream_in_order:
  assumes "pcm_playback_start h cfg s = (Ok (st, w, sh0), s')"
  shows "\<exists>r0. ps_callback st = Playback r0 \<and> (\<forall>fed out r sh. playback_runs w (r0, sh0) fed out (r, sh) \<longrightarrow>
      in_transit fed out (frames (playhead_of (r, sh)))
    \<and> length (frames (playhead_of (r, sh))) \<le> capacity_frames cfg + 2
    \<and> (\<forall>pcm. fst (try_write_interleaved w pcm sh) \<noteq> Panic)
    \<and> (\<forall>inp outp. well_formed outp \<longrightarrow> (\<exists>r' sh' outp'. pcm_audio_device_io_proc (Some (Playback r)) sh inp outp
          = ret (0, Some (Playback r'), sh', outp')
        \<and> shows_frames (rs_channels r) (played_frames r sh outp) outp')))"
proof -
  let ?k = "capacity_frames cfg"
  obtain c r0 where c: "ps_callback st = Playback r0" "w = writer_of c ?k" "stream_inv c ?k (r0, sh0)"
    "frames (playhead_of (r0, sh0)) = []" by (rule playback_started [OF assms])
  then have start: "plays c ?k [] [] (r0, sh0)" using transit_start by (simp add: plays_def)
  show ?thesis
  proof (rule exI, rule conjI, rule c(1), intro allI impI conjI)
    fix fed out r sh
    assume "playback_runs w (r0, sh0) fed out (r, sh)"
    from plays_runs [OF this [unfolded c(2)] start] have i: "plays c ?k fed out (r, sh)" .
    then have inv: "stream_inv c ?k (r, sh)" by (simp add: plays_def)
    show "in_transit fed out (frames (playhead_of (r, sh)))" using i by (simp add: plays_def)
    show "length (frames (playhead_of (r, sh))) \<le> ?k + 2" using inv by (auto simp: frames_eq stream_inv_def)
    show "fst (try_write_interleaved w pcm sh) \<noteq> Panic" for pcm
      using try_write_effect [OF inv, of pcm] by (cases "try_write_interleaved w pcm sh") (simp add: c(2))
    show "\<exists>r' sh' outp'. pcm_audio_device_io_proc (Some (Playback r)) sh inp outp = ret (0, Some (Playback r'), sh', outp')
        \<and> shows_frames (rs_channels r) (played_frames r sh outp) outp'" if "well_formed outp" for inp outp
      using plays_callback [OF i that, of inp] stream_invD(2) [OF inv] by blast
  qed
qed

theorem playback_stream_in_order_witness:
  "\<exists>st w sh s' r0 r' sh' outp'. pcm_playback_start demo_hal tone_config demo_start = (Ok (st, w, sh), s')
     \<and> ps_callback st = Playback r0
     \<and> pcm_audio_device_io_proc (Some (Playback r0)) sh None (Some short_list) = ret (0, Some (Playback r'), sh', outp')"
proof -
  obtain st w sh s' where s: "pcm_playback_start demo_hal tone_config demo_start = (Ok (st, w, sh), s')"
    using tone_starts(2) by fast
  have "well_formed (Some short_list)" by (simp add: short_list_def buffer_wf_def buffer_samples_def)
  then show ?thesis
    using playback_stream_in_order [OF s] s playback_runs.start by blast
qed

end
