(* ===== verification/DriverLoopback.thy ===== *)
theory DriverLoopback
  imports IeeeFloat
begin

text \<open>
  \<open>native/VCableDriver/VCableDriver.cpp\<close>: the loopback memory of one virtual device, written by
  \<open>Device::Write\<close> and read by \<open>Device::Read\<close>. It holds the last \<open>kRingFrames\<close> frames by their absolute
  frame number; \<open>tags\<close> says which frame a slot holds (its number plus one, or \<open>0\<close>), so that a read
  \<open>kLoopbackLatencyFrames\<close> behind gives that frame or silence, never another one.

  The abstract specification is a delay line over the log of the frames written. The channel counts
  (at most 64) and the sizes in memory are naturals; frame numbers are \<open>UInt64\<close>. A sample is stored as
  its 32 bits and read back as the same value. A call is one step.
\<close>

section \<open>The device memory\<close>

definition kRingFrames :: nat where "kRingFrames = 65536"
definition kLoopbackLatencyFrames :: u64 where "kLoopbackLatencyFrames = 512"

record loopback =
  lb_inputs :: nat
  lb_outputs :: nat
  lb_samples :: "f32 list"
  lb_tags :: "u64 list"
  lb_input_active :: bool
  lb_output_active :: bool
  lb_underruns :: u64

definition sampleStride :: "loopback \<Rightarrow> nat" where
  "sampleStride d = max (lb_inputs d) (lb_outputs d)"

definition loopback_new :: "nat \<Rightarrow> nat \<Rightarrow> loopback" where
  "loopback_new ins outs = \<lparr>lb_inputs = ins, lb_outputs = outs,
     lb_samples = replicate (kRingFrames * max ins outs) (fzero F32), lb_tags = replicate kRingFrames 0,
     lb_input_active = True, lb_output_active = True, lb_underruns = 0\<rparr>"

definition ClearTags :: "loopback \<Rightarrow> loopback" where
  "ClearTags d = d\<lparr>lb_tags := foldl (\<lambda>ts i. ts[i := 0]) (lb_tags d) [0..<kRingFrames]\<rparr>"

definition ring_frame :: "u64 \<Rightarrow> nat" where
  "ring_frame i = unat (i mod of_nat kRingFrames)"

definition store_frame :: "loopback \<Rightarrow> nat \<Rightarrow> (nat \<Rightarrow> f32) \<Rightarrow> f32 list" where
  "store_frame d base frame = foldl
     (\<lambda>s channel. s[base + channel := (if channel < lb_outputs d then frame channel else fzero F32)])
     (lb_samples d) [0..<sampleStride d]"

definition write_frame :: "u64 \<Rightarrow> (nat \<Rightarrow> f32) \<Rightarrow> loopback \<Rightarrow> loopback" where
  "write_frame absolute frame d =
     (let slot = ring_frame absolute; base = slot * sampleStride d
      in d\<lparr>lb_samples := store_frame d base frame, lb_tags := (lb_tags d)[slot := absolute + 1]\<rparr>)"

text \<open>The buffer of a call is \<open>None\<close> for a null pointer.\<close>

definition Write :: "u64 \<Rightarrow> nat \<Rightarrow> f32 list option \<Rightarrow> loopback \<Rightarrow> loopback" where
  "Write time n input d =
     (case input of
        None \<Rightarrow> d
      | Some xs \<Rightarrow>
          if \<not> lb_output_active d then d
          else foldl (\<lambda>dev frame. write_frame (time + of_nat frame)
                   (\<lambda>channel. xs ! (frame * lb_outputs d + channel)) dev) d [0..<n])"

definition read_frame :: "u64 \<Rightarrow> loopback \<Rightarrow> f32 list \<times> loopback" where
  "read_frame input_frame d =
     (let silence = replicate (lb_inputs d) (fzero F32) in
      if input_frame < kLoopbackLatencyFrames then (silence, d)
      else let source = input_frame - kLoopbackLatencyFrames; slot = ring_frame source in
        if lb_tags d ! slot \<noteq> source + 1 then (silence, d\<lparr>lb_underruns := lb_underruns d + 1\<rparr>)
        else let n = min (lb_inputs d) (lb_outputs d); base = slot * sampleStride d
          in (map (\<lambda>channel. lb_samples d ! (base + channel)) [0..<n] @ drop n silence, d))"

fun read_frames :: "u64 \<Rightarrow> nat \<Rightarrow> loopback \<Rightarrow> f32 list \<times> loopback" where
  "read_frames time 0 d = ([], d)"
| "read_frames time (Suc n) d =
     (let (xs, d1) = read_frame time d; (ys, d2) = read_frames (time + 1) n d1 in (xs @ ys, d2))"

definition Read :: "u64 \<Rightarrow> nat \<Rightarrow> f32 list option \<Rightarrow> loopback \<Rightarrow> f32 list option \<times> loopback" where
  "Read time n buf d =
     (case buf of
        None \<Rightarrow> (None, d)
      | Some out \<Rightarrow>
          let count = n * lb_inputs d in
          if \<not> lb_input_active d then (Some (replicate count (fzero F32) @ drop count out), d)
          else let (xs, d1) = read_frames time n d in (Some (xs @ drop count out), d1))"

section \<open>The delay line\<close>

type_synonym frame_log = "(u64 \<times> (nat \<Rightarrow> f32)) list"

fun last_in :: "nat \<Rightarrow> frame_log \<Rightarrow> (u64 \<times> (nat \<Rightarrow> f32)) option" where
  \<comment> \<open>the last frame of the log (newest first) that went to the slot \<open>r\<close>\<close>
  "last_in r [] = None"
| "last_in r ((a, f) # l) = (if ring_frame a = r then Some (a, f) else last_in r l)"

definition delayed :: "nat \<Rightarrow> nat \<Rightarrow> frame_log \<Rightarrow> u64 \<Rightarrow> f32 list" where
  "delayed ins outs l time =
     (let source = time - kLoopbackLatencyFrames in
      case last_in (ring_frame source) l of
        Some (a, f) \<Rightarrow>
          if kLoopbackLatencyFrames \<le> time \<and> a = source
          then map (\<lambda>channel. if channel < outs then f channel else fzero F32) [0..<ins]
          else replicate ins (fzero F32)
      | None \<Rightarrow> replicate ins (fzero F32))"

definition holds :: "loopback \<Rightarrow> nat \<Rightarrow> (u64 \<times> (nat \<Rightarrow> f32)) option \<Rightarrow> bool" where
  "holds d r p \<longleftrightarrow> (case p of
       None \<Rightarrow> lb_tags d ! r = 0
     | Some (a, f) \<Rightarrow> lb_tags d ! r = a + 1
         \<and> (\<forall>c < sampleStride d. lb_samples d ! (r * sampleStride d + c)
              = (if c < lb_outputs d then f c else fzero F32)))"

definition loop_inv :: "frame_log \<Rightarrow> loopback \<Rightarrow> bool" where
  "loop_inv l d \<longleftrightarrow> length (lb_tags d) = kRingFrames
     \<and> length (lb_samples d) = kRingFrames * sampleStride d
     \<and> (\<forall>r < kRingFrames. holds d r (last_in r l))"

lemma ring_frame_nat: "ring_frame i = unat i mod kRingFrames"
  by (simp add: ring_frame_def kRingFrames_def unat_mod)

lemma ring_frame_less [simp]: "ring_frame i < kRingFrames"
  by (simp add: ring_frame_nat kRingFrames_def)

lemma foldl_clear:
  "n \<le> length xs \<Longrightarrow> foldl (\<lambda>ts i. ts[i := x]) xs [0..<n] = replicate n x @ drop n xs"
proof (induction n)
  case (Suc n)
  then show ?case
    by (simp add: list_update_append Cons_nth_drop_Suc [symmetric] replicate_append_same [symmetric])
qed simp

lemma loop_inv_new: "loop_inv [] (loopback_new ins outs)"
  by (simp add: loop_inv_def holds_def loopback_new_def sampleStride_def)

lemma loop_inv_clear:
  assumes "loop_inv l d"
  shows "loop_inv [] (ClearTags d)"
  using assms by (simp add: loop_inv_def holds_def ClearTags_def foldl_clear sampleStride_def)

section \<open>Every operation follows the delay line\<close>

lemma store_frame_partial:
  assumes "n \<le> m" "base + m \<le> length s"
  shows "length (foldl (\<lambda>s c. s[base + c := g c]) s [0..<n]) = length s
    \<and> (\<forall>i < length s. foldl (\<lambda>s c. s[base + c := g c]) s [0..<n] ! i
         = (if base \<le> i \<and> i < base + n then g (i - base) else s ! i))"
  using assms
proof (induction n)
  case (Suc n)
  then have "length (foldl (\<lambda>s c. s[base + c := g c]) s [0..<n]) = length s" by simp
  moreover have "foldl (\<lambda>s c. s[base + c := g c]) s [0..<Suc n]
      = (foldl (\<lambda>s c. s[base + c := g c]) s [0..<n])[base + n := g n]" by simp
  ultimately show ?case using Suc by (auto simp: nth_list_update)
qed auto

lemma slot_room: "slot < n \<Longrightarrow> slot * k + k \<le> n * (k :: nat)"
  using mult_le_mono1 [of "Suc slot" n k] by simp

lemma slots_disjoint:
  fixes r r' k c :: nat
  assumes "c < k" "r * k \<le> r' * k + c" "r' * k + c < r * k + k"
  shows "r' = r"
proof (rule ccontr)
  assume "r' \<noteq> r"
  then consider "Suc r' \<le> r" | "Suc r \<le> r'" by linarith
  then show False
  proof cases
    case 1
    then have "Suc r' * k \<le> r * k" by (intro mult_le_mono1)
    then show ?thesis using assms by simp
  next
    case 2
    then have "Suc r * k \<le> r' * k" by (intro mult_le_mono1)
    then show ?thesis using assms by simp
  qed
qed

lemma loop_inv_write_frame:
  assumes inv: "loop_inv l d"
  shows "loop_inv ((a, f) # l) (write_frame a f d)"
proof -
  let ?k = "sampleStride d" and ?slot = "ring_frame a" and ?d = "write_frame a f d"
  let ?g = "\<lambda>c. if c < lb_outputs d then f c else fzero F32"
  have len: "length (lb_tags d) = kRingFrames" "length (lb_samples d) = kRingFrames * ?k"
    using inv by (simp_all add: loop_inv_def)
  have room: "?slot * ?k + ?k \<le> length (lb_samples d)" unfolding len by (rule slot_room) simp
  note st = store_frame_partial [OF order_refl room, of ?g]
  have d: "lb_tags ?d = (lb_tags d)[?slot := a + 1]" "sampleStride ?d = ?k" "lb_outputs ?d = lb_outputs d"
    "lb_samples ?d = foldl (\<lambda>s c. s[?slot * ?k + c := ?g c]) (lb_samples d) [0..<?k]"
    by (simp_all add: write_frame_def Let_def store_frame_def sampleStride_def)
  have "holds ?d r (last_in r ((a, f) # l))" if r: "r < kRingFrames" for r
  proof (cases "?slot = r")
    case True
    have "r * ?k + c < length (lb_samples d)" if "c < ?k" for c
      using that slot_room [OF r, of ?k] len by simp
    then show ?thesis using True st len r by (auto simp: d holds_def)
  next
    case False
    have "lb_samples ?d ! (r * ?k + c) = lb_samples d ! (r * ?k + c)" if c: "c < ?k" for c
    proof -
      have "r * ?k + c < length (lb_samples d)" using c slot_room [OF r, of ?k] len by simp
      moreover have "\<not> (?slot * ?k \<le> r * ?k + c \<and> r * ?k + c < ?slot * ?k + ?k)"
        using slots_disjoint [OF c] False by blast
      ultimately show ?thesis using st by (auto simp: d)
    qed
    moreover have "holds d r (last_in r l)" using inv r by (simp add: loop_inv_def)
    ultimately show ?thesis using r False by (auto simp: holds_def d split: option.splits)
  qed
  moreover have "length (lb_tags ?d) = kRingFrames" "length (lb_samples ?d) = kRingFrames * sampleStride ?d"
    using st len unfolding d by simp_all
  ultimately show ?thesis unfolding loop_inv_def by blast
qed

lemma write_frame_fields [simp]:
  "lb_inputs (write_frame a f d) = lb_inputs d" "lb_outputs (write_frame a f d) = lb_outputs d"
  "lb_input_active (write_frame a f d) = lb_input_active d"
  "lb_output_active (write_frame a f d) = lb_output_active d"
  "lb_underruns (write_frame a f d) = lb_underruns d"
  by (simp_all add: write_frame_def Let_def)

definition logged :: "u64 \<Rightarrow> nat \<Rightarrow> (nat \<Rightarrow> nat \<Rightarrow> f32) \<Rightarrow> frame_log \<Rightarrow> frame_log" where
  "logged time n frame l = rev (map (\<lambda>i. (time + of_nat i, frame i)) [0..<n]) @ l"

lemma write_frames_inv:
  assumes "loop_inv l d"
  shows "case foldl (\<lambda>d i. write_frame (time + of_nat i) (frame i) d) d [0..<n] of d' \<Rightarrow>
    loop_inv (logged time n frame l) d' \<and> lb_inputs d' = lb_inputs d \<and> lb_outputs d' = lb_outputs d
    \<and> lb_input_active d' = lb_input_active d \<and> lb_output_active d' = lb_output_active d"
proof (induction n)
  case (Suc n)
  then show ?case using loop_inv_write_frame by (simp add: logged_def)
qed (simp add: assms logged_def)

lemma sampleStride_underruns [simp]: "sampleStride (d\<lparr>lb_underruns := u\<rparr>) = sampleStride d"
  by (simp add: sampleStride_def)

lemma holds_underruns [simp]: "holds (d\<lparr>lb_underruns := u\<rparr>) r p = holds d r p"
  by (simp add: holds_def split: option.split)

lemma loop_inv_underruns [simp]: "loop_inv l (d\<lparr>lb_underruns := u\<rparr>) = loop_inv l d"
  by (simp add: loop_inv_def)

lemma same_underruns: "\<exists>u. d = d\<lparr>lb_underruns := u\<rparr>"
  by (rule exI [of _ "lb_underruns d"]) simp

lemma read_frame_delayed:
  assumes "loop_inv l d"
  shows "fst (read_frame time d) = delayed (lb_inputs d) (lb_outputs d) l time"
    "\<exists>u. snd (read_frame time d) = d\<lparr>lb_underruns := u\<rparr>"
proof -
  let ?s = "time - kLoopbackLatencyFrames" and ?silence = "replicate (lb_inputs d) (fzero F32)"
  let ?slot = "ring_frame ?s"
  have slot: "holds d ?slot (last_in ?slot l)" using assms by (simp add: loop_inv_def)
  have early: "time < kLoopbackLatencyFrames \<Longrightarrow> delayed (lb_inputs d) (lb_outputs d) l time = ?silence"
    by (auto simp: delayed_def Let_def split: option.splits)
  have nonzero: "?s + 1 \<noteq> 0" if "\<not> time < kLoopbackLatencyFrames"
  proof
    assume "?s + 1 = 0"
    then have "time = kLoopbackLatencyFrames - 1" by (simp add: algebra_simps)
    then show False using that by (simp add: kLoopbackLatencyFrames_def)
  qed
  have copied: "map (\<lambda>c. lb_samples d ! (?slot * sampleStride d + c)) [0..<min (lb_inputs d) (lb_outputs d)]
      @ drop (min (lb_inputs d) (lb_outputs d)) ?silence
      = map (\<lambda>c. if c < lb_outputs d then f c else fzero F32) [0..<lb_inputs d]"
    if "last_in ?slot l = Some (a, f)" for a f
    using slot that by (auto intro!: nth_equalityI simp: holds_def nth_append sampleStride_def)
  show "fst (read_frame time d) = delayed (lb_inputs d) (lb_outputs d) l time"
  proof (cases "time < kLoopbackLatencyFrames")
    case True
    then show ?thesis using early by (simp add: read_frame_def Let_def)
  next
    case False
    show ?thesis
    proof (cases "last_in ?slot l")
      case None
      then show ?thesis using slot nonzero [OF False] by (simp add: holds_def read_frame_def delayed_def Let_def False)
    next
      case (Some p)
      obtain a f where p: "p = (a, f)" by (cases p)
      have tag: "lb_tags d ! ?slot = a + 1" using slot Some p by (simp add: holds_def)
      moreover have "kLoopbackLatencyFrames \<le> time" using False by simp
      ultimately show ?thesis using Some p copied [of a f] False
        by (cases "a = ?s") (simp_all add: read_frame_def delayed_def Let_def)
    qed
  qed
  show "\<exists>u. snd (read_frame time d) = d\<lparr>lb_underruns := u\<rparr>"
    by (auto simp: read_frame_def Let_def intro: same_underruns)
qed

lemma read_frames_delayed:
  assumes "loop_inv l d"
  shows "fst (read_frames time n d)
      = concat (map (\<lambda>i. delayed (lb_inputs d) (lb_outputs d) l (time + of_nat i)) [0..<n])
    \<and> (\<exists>u. snd (read_frames time n d) = d\<lparr>lb_underruns := u\<rparr>)"
  using assms
proof (induction n arbitrary: time d)
  case (Suc n)
  obtain xs d1 where one: "read_frame time d = (xs, d1)" by fastforce
  then obtain u where d1: "d1 = d\<lparr>lb_underruns := u\<rparr>" "xs = delayed (lb_inputs d) (lb_outputs d) l time"
    using read_frame_delayed [OF Suc(2), of time] by auto
  have "map (\<lambda>i. delayed (lb_inputs d) (lb_outputs d) l (time + of_nat i)) [0..<Suc n]
      = delayed (lb_inputs d) (lb_outputs d) l time
        # map (\<lambda>i. delayed (lb_inputs d) (lb_outputs d) l (time + 1 + of_nat i)) [0..<n]"
    by (simp add: upt_conv_Cons map_Suc_upt [symmetric] algebra_simps del: upt_Suc)
  then show ?case
    using Suc(1) [of d1 "time + 1"] Suc(2) d1 one by (auto simp: case_prod_unfold Let_def)
qed (auto intro: same_underruns)

section \<open>A device as a delay line\<close>

text \<open>
  The operations that reach the memory: the I/O of the two streams, the start of the first client
  (which clears the tags) and the switches of the two streams. What an operation reads into the
  caller's buffer is its answer.
\<close>

datatype loop_call =
    WriteMix u64 nat "f32 list option"
  | ReadInput u64 nat "f32 list option"
  | FirstStart
  | InputActive bool
  | OutputActive bool

fun loop_op :: "loop_call \<Rightarrow> loopback \<Rightarrow> f32 list option \<times> loopback" where
  "loop_op (WriteMix time n input) d = (None, Write time n input d)"
| "loop_op (ReadInput time n buf) d = Read time n buf d"
| "loop_op FirstStart d = (None, ClearTags d)"
| "loop_op (InputActive b) d = (None, d\<lparr>lb_input_active := b\<rparr>)"
| "loop_op (OutputActive b) d = (None, d\<lparr>lb_output_active := b\<rparr>)"

fun loop_ops :: "loop_call list \<Rightarrow> loopback \<Rightarrow> f32 list option list" where
  "loop_ops [] d = []"
| "loop_ops (x # xs) d = (let (answer, d1) = loop_op x d in answer # loop_ops xs d1)"

text \<open>The specification: a log, and two switches.\<close>

record delay_line =
  line_log :: frame_log
  line_input :: bool
  line_output :: bool

fun line_op :: "nat \<Rightarrow> nat \<Rightarrow> loop_call \<Rightarrow> delay_line \<Rightarrow> f32 list option \<times> delay_line" where
  "line_op ins outs (WriteMix time n input) l =
     (None, case input of
        Some xs \<Rightarrow> if line_output l
          then l\<lparr>line_log := logged time n (\<lambda>i c. xs ! (i * outs + c)) (line_log l)\<rparr> else l
      | None \<Rightarrow> l)"
| "line_op ins outs (ReadInput time n buf) l =
     (map_option (\<lambda>out. (if line_input l
          then concat (map (\<lambda>i. delayed ins outs (line_log l) (time + of_nat i)) [0..<n])
          else replicate (n * ins) (fzero F32)) @ drop (n * ins) out) buf, l)"
| "line_op ins outs FirstStart l = (None, l\<lparr>line_log := []\<rparr>)"
| "line_op ins outs (InputActive b) l = (None, l\<lparr>line_input := b\<rparr>)"
| "line_op ins outs (OutputActive b) l = (None, l\<lparr>line_output := b\<rparr>)"

fun line_ops :: "nat \<Rightarrow> nat \<Rightarrow> loop_call list \<Rightarrow> delay_line \<Rightarrow> f32 list option list" where
  "line_ops ins outs [] l = []"
| "line_ops ins outs (x # xs) l = (let (answer, l1) = line_op ins outs x l in answer # line_ops ins outs xs l1)"

definition follows :: "nat \<Rightarrow> nat \<Rightarrow> delay_line \<Rightarrow> loopback \<Rightarrow> bool" where
  "follows ins outs l d \<longleftrightarrow> loop_inv (line_log l) d \<and> lb_inputs d = ins \<and> lb_outputs d = outs
     \<and> lb_input_active d = line_input l \<and> lb_output_active d = line_output l"

lemma holds_active [simp]:
  "holds (d\<lparr>lb_input_active := b\<rparr>) r p = holds d r p" "holds (d\<lparr>lb_output_active := b\<rparr>) r p = holds d r p"
  by (simp_all add: holds_def sampleStride_def split: option.split)

lemma loop_inv_active [simp]:
  "loop_inv l (d\<lparr>lb_input_active := b\<rparr>) = loop_inv l d" "loop_inv l (d\<lparr>lb_output_active := b\<rparr>) = loop_inv l d"
  by (simp_all add: loop_inv_def sampleStride_def)

lemma loop_op_follows:
  assumes "follows ins outs l d"
  shows "fst (loop_op x d) = fst (line_op ins outs x l)
    \<and> follows ins outs (snd (line_op ins outs x l)) (snd (loop_op x d))"
proof (cases x)
  case (WriteMix time n input)
  show ?thesis
  proof (cases input)
    case (Some xs)
    then show ?thesis
      using assms write_frames_inv [of "line_log l" d time n "\<lambda>i c. xs ! (i * outs + c)"] WriteMix
      by (auto simp: follows_def Write_def)
  qed (use assms WriteMix in \<open>simp add: Write_def\<close>)
next
  case (ReadInput time n buf)
  show ?thesis
  proof (cases buf)
    case (Some out)
    obtain ys d1 where r: "read_frames time n d = (ys, d1)" by fastforce
    have "loop_inv (line_log l) d" using assms by (simp add: follows_def)
    from read_frames_delayed [OF this, of time n] r obtain u where
      "ys = concat (map (\<lambda>i. delayed (lb_inputs d) (lb_outputs d) (line_log l) (time + of_nat i)) [0..<n])"
      "d1 = d\<lparr>lb_underruns := u\<rparr>" by auto
    then show ?thesis using assms ReadInput Some r by (simp add: follows_def Read_def Let_def)
  qed (use assms ReadInput in \<open>simp add: Read_def\<close>)
next
  case FirstStart
  then show ?thesis using assms loop_inv_clear [of "line_log l" d] by (simp add: follows_def ClearTags_def)
qed (use assms in \<open>auto simp: follows_def\<close>)

lemma loop_ops_follow:
  "follows ins outs l d \<Longrightarrow> loop_ops ops d = line_ops ins outs ops l"
proof (induction ops arbitrary: l d)
  case (Cons x ops)
  then show ?case using loop_op_follows [OF Cons(2), of x] by (simp add: case_prod_unfold Let_def)
qed simp

lemma new_follows:
  "follows ins outs \<lparr>line_log = [], line_input = True, line_output = True\<rparr> (loopback_new ins outs)"
  using loop_inv_new [of ins outs] by (simp add: follows_def loopback_new_def)

text \<open>The loopback memory of a device is a delay line: in any sequence of writes, reads, starts and
  switches of its streams, every read gives, frame for frame, what was written
  \<open>kLoopbackLatencyFrames\<close> earlier under exactly that frame number since the last start, with
  silence in the channels the output does not have, and silence where that frame was never written or
  a later one has taken its slot. It never gives another frame.\<close>

theorem loopback_refines_delay_line:
  "loop_ops ops (loopback_new ins outs)
    = line_ops ins outs ops \<lparr>line_log = [], line_input = True, line_output = True\<rparr>"
  by (rule loop_ops_follow [OF new_follows])

section \<open>What is written comes back\<close>
















end
