(* ===== verification/DriverDevices.thy ===== *)
theory DriverDevices
  imports DriverLoopback CoreAudioHal
begin

text \<open>
  \<open>native/VCableDriver/VCableDriver.cpp\<close>: the devices of the HAL driver plug-in. The driver keeps all
  devices it ever made (\<open>gAllDevices\<close>), the active ones in order (\<open>gActiveDevices\<close>) and a table of slots
  (\<open>gSlots\<close>) that gives each device its three object ids; the inventory of the active devices is stored
  with the host and read back when the driver is loaded.

  A \<open>Device*\<close> is its index in \<open>gAllDevices\<close>, which is never shortened. What the code holds under
  \<open>gStateMutex\<close> is one step. The host, the allocator, Core Foundation and the clock are the record
  \<open>driver_host\<close>, of which nothing is assumed. The nominal sample rate, a \<open>Float64\<close> made from a
  \<open>UInt32\<close> and only cast back to it here, is kept as the \<open>UInt32\<close>.
\<close>

section \<open>Constants, devices and the host\<close>

definition kFirstDeviceObjectID :: u32 where "kFirstDeviceObjectID = 100"
definition kObjectsPerDevice :: nat where "kObjectsPerDevice = 3"
definition kMaximumDevices :: nat where "kMaximumDevices = 4096"
definition kMaximumChannels :: u32 where "kMaximumChannels = 64"
definition kUIDPrefix :: string where "kUIDPrefix = ''dev.vcable.device.''"

definition IllegalOperation :: i32 where "IllegalOperation = fourcc ''nope''"
definition BadObject :: i32 where "BadObject = fourcc ''!obj''"
definition NotReady :: i32 where "NotReady = fourcc ''nrdy''"
definition Unspecified :: i32 where "Unspecified = fourcc ''what''"

record driver_device =
  dd_slot :: nat
  dd_id :: string
  dd_name :: string
  dd_uid :: string
  dd_inputs :: u32
  dd_outputs :: u32
  dd_rate :: u32
  dd_memory :: loopback
  dd_active :: bool
  dd_delete_pending :: bool
  dd_attached :: u32
  dd_running :: u32
  dd_anchor :: u64
  dd_clock_seed :: u64

definition Device_new :: "nat \<Rightarrow> string \<Rightarrow> string \<Rightarrow> u32 \<Rightarrow> u32 \<Rightarrow> u32 \<Rightarrow> driver_device" where
  "Device_new slot i name inputs outputs rate = \<lparr>dd_slot = slot, dd_id = i, dd_name = name,
     dd_uid = kUIDPrefix @ i, dd_inputs = inputs, dd_outputs = outputs, dd_rate = rate,
     dd_memory = loopback_new (unat inputs) (unat outputs), dd_active = True, dd_delete_pending = False,
     dd_attached = 0, dd_running = 0, dd_anchor = 0, dd_clock_seed = 1\<rparr>"

definition DeviceObjectID :: "driver_device \<Rightarrow> u32" where
  "DeviceObjectID v = kFirstDeviceObjectID + of_nat (dd_slot v * kObjectsPerDevice)"

definition InputStreamObjectID :: "driver_device \<Rightarrow> u32" where
  "InputStreamObjectID v = DeviceObjectID v + 1"

definition OutputStreamObjectID :: "driver_device \<Rightarrow> u32" where
  "OutputStreamObjectID v = DeviceObjectID v + 2"

datatype stored_value =
    NothingStored
  | NotAString
  | StoredText "string option"      \<comment> \<open>\<open>None\<close> when \<open>ToString\<close> fails\<close>

record 'h driver_host =
  make_device :: "string \<Rightarrow> string \<Rightarrow> 'h \<Rightarrow> bool \<times> 'h"       \<comment> \<open>allocation and the two strings of a device\<close>
  make_string :: "string \<Rightarrow> 'h \<Rightarrow> bool \<times> 'h"
  write_to_storage :: "string \<Rightarrow> 'h \<Rightarrow> i32 \<times> 'h"
  copy_from_storage :: "'h \<Rightarrow> (i32 \<times> stored_value) \<times> 'h"
  request_change :: "u32 \<Rightarrow> 'h \<Rightarrow> i32 \<times> 'h"
  properties_changed :: "u32 \<Rightarrow> 'h \<Rightarrow> 'h"
  absolute_time :: "'h \<Rightarrow> u64 \<times> 'h"

record 'h driver =
  gHost :: bool                     \<comment> \<open>set by \<open>Initialize\<close>\<close>
  gSlots :: "nat option list"
  gAllDevices :: "driver_device list"
  gActiveDevices :: "nat list"
  host_state :: 'h

definition driver_loaded :: "'h \<Rightarrow> 'h driver" where
  "driver_loaded s = \<lparr>gHost = False, gSlots = replicate kMaximumDevices None, gAllDevices = [],
     gActiveDevices = [], host_state = s\<rparr>"

abbreviation dev :: "'h driver \<Rightarrow> nat \<Rightarrow> driver_device" where
  "dev d a \<equiv> gAllDevices d ! a"

abbreviation with_dev :: "nat \<Rightarrow> (driver_device \<Rightarrow> driver_device) \<Rightarrow> 'h driver \<Rightarrow> 'h driver" where
  "with_dev a f d \<equiv> d\<lparr>gAllDevices := (gAllDevices d)[a := f (dev d a)]\<rparr>"

section \<open>Commands and the inventory\<close>

fun position_of :: "char \<Rightarrow> string \<Rightarrow> nat option" where
  "position_of c [] = None"
| "position_of c (x # xs) = (if x = c then Some 0 else map_option Suc (position_of c xs))"

lemma position_of_less: "position_of c s = Some n \<Longrightarrow> n < length s"
  by (induction s arbitrary: n) (auto split: if_splits)

function Split :: "string \<Rightarrow> char \<Rightarrow> string list" where
  "Split s c = (case position_of c s of None \<Rightarrow> [s] | Some n \<Rightarrow> take n s # Split (drop (Suc n) s) c)"
  by pat_completeness auto
termination
  by (relation "measure (length \<circ> fst)") (auto dest: position_of_less)

declare Split.simps [simp del]

definition id_char :: "char \<Rightarrow> bool" where
  "id_char c = (in_range 48 57 c \<or> in_range 65 90 c \<or> in_range 97 122 c
     \<or> c = CHR ''.'' \<or> c = CHR ''_'' \<or> c = CHR ''-'')"

definition ValidID :: "string \<Rightarrow> bool" where
  "ValidID v = (v \<noteq> [] \<and> length v \<le> 128 \<and> list_all id_char v)"

text \<open>The string literal of the code ends at its NUL, so only a tab and the line ends are searched for.\<close>

definition ValidName :: "string \<Rightarrow> bool" where
  "ValidName v = (v \<noteq> [] \<and> length v \<le> 255 \<and> \<not> list_ex (\<lambda>c. byte c \<in> {9, 13, 10}) v)"

fun parse_digits :: "nat \<Rightarrow> string \<Rightarrow> nat option" where
  \<comment> \<open>the accumulator stays below \<open>2 ^ 32\<close>, so the \<open>UInt64\<close> arithmetic does not wrap\<close>
  "parse_digits parsed [] = Some parsed"
| "parse_digits parsed (c # cs) =
     (if byte c < 48 \<or> 57 < byte c then None
      else let next = parsed * 10 + (byte c - 48) in
        if 2 ^ 32 - 1 < next then None else parse_digits next cs)"

definition ParseUInt32 :: "string \<Rightarrow> u32 option" where
  "ParseUInt32 v = (if v = [] then None else map_option of_nat (parse_digits 0 v))"

definition FindByIDLocked :: "string \<Rightarrow> 'h driver \<Rightarrow> nat option" where
  "FindByIDLocked i d = find (\<lambda>a. dd_id (dev d a) = i) (gActiveDevices d)"

definition FindByUIDLocked :: "string \<Rightarrow> 'h driver \<Rightarrow> nat option" where
  "FindByUIDLocked uid d = find (\<lambda>a. dd_uid (dev d a) = uid) (gActiveDevices d)"

definition inventory_line :: "driver_device \<Rightarrow> string" where
  "inventory_line v = ''create'' @ tab # dd_id v @ tab # dd_name v @ tab # show_u32 (dd_inputs v) @ tab
     # show_u32 (dd_outputs v) @ tab # show_u32 (dd_rate v) @ [CHR 0x0A]"

definition InventoryLocked :: "'h driver \<Rightarrow> string" where
  "InventoryLocked d = concat (map (\<lambda>a. inventory_line (dev d a)) (gActiveDevices d))"

definition PersistLocked :: "'h driver_host \<Rightarrow> 'h driver \<Rightarrow> i32 \<times> 'h driver" where
  "PersistLocked h d =
     (if \<not> gHost d then (NotReady, d)
      else let (made, s1) = make_string h (InventoryLocked d) (host_state d) in
        if \<not> made then (Unspecified, d\<lparr>host_state := s1\<rparr>)
        else let (status, s2) = write_to_storage h (InventoryLocked d) s1
          in (status, d\<lparr>host_state := s2\<rparr>))"

fun free_slot :: "nat option list \<Rightarrow> nat option" where
  "free_slot [] = None"
| "free_slot (s # ss) = (if s = None then Some 0 else map_option Suc (free_slot ss))"

definition device_fields :: "string list \<Rightarrow> (string \<times> string \<times> u32 \<times> u32 \<times> u32) option" where
  \<comment> \<open>the checks of \<open>AddDeviceLocked\<close> on its fields\<close>
  "device_fields parts =
     (if length parts \<noteq> 6 \<or> parts ! 0 \<noteq> ''create'' \<or> \<not> ValidID (parts ! 1) \<or> \<not> ValidName (parts ! 2)
      then None
      else case (ParseUInt32 (parts ! 3), ParseUInt32 (parts ! 4), ParseUInt32 (parts ! 5)) of
        (Some inputs, Some outputs, Some rate) \<Rightarrow>
          if inputs = 0 \<or> outputs = 0 \<or> inputs > kMaximumChannels \<or> outputs > kMaximumChannels
            \<or> rate < 8000 \<or> rate > 768000 then None
          else Some (parts ! 1, parts ! 2, inputs, outputs, rate)
      | _ \<Rightarrow> None)"

definition AddDeviceLocked ::
    "'h driver_host \<Rightarrow> string list \<Rightarrow> bool \<Rightarrow> 'h driver \<Rightarrow> i32 \<times> 'h driver" where
  "AddDeviceLocked h parts persist d =
     (case device_fields parts of
        None \<Rightarrow> (IllegalOperation, d)
      | Some (i, name, inputs, outputs, rate) \<Rightarrow>
        (case FindByIDLocked i d of
           Some a \<Rightarrow>
             let v = dev d a in
             (if dd_name v = name \<and> dd_inputs v = inputs \<and> dd_outputs v = outputs \<and> dd_rate v = rate
              then 0 else IllegalOperation, d)
         | None \<Rightarrow>
        (case free_slot (gSlots d) of
           None \<Rightarrow> (IllegalOperation, d)
         | Some slot \<Rightarrow>
             let (made, s1) = make_device h i name (host_state d) in
             if \<not> made then (Unspecified, d\<lparr>host_state := s1\<rparr>)
             else let a = length (gAllDevices d);
                 d1 = d\<lparr>gAllDevices := gAllDevices d @ [Device_new slot i name inputs outputs rate],
                        gActiveDevices := gActiveDevices d @ [a], gSlots := (gSlots d)[slot := Some a],
                        host_state := s1\<rparr>
               in if \<not> persist then (0, d1)
                 else let (status, d2) = PersistLocked h d1 in
                   if status \<noteq> 0
                   then (status, d2\<lparr>gSlots := (gSlots d2)[slot := None], gActiveDevices := butlast (gActiveDevices d2)\<rparr>)
                   else (0, d2))))"

definition RemoveDeviceLocked :: "'h driver_host \<Rightarrow> nat option \<Rightarrow> bool \<Rightarrow> 'h driver \<Rightarrow> i32 \<times> 'h driver" where
  "RemoveDeviceLocked h pointer persist d =
     (case pointer of
        None \<Rightarrow> (BadObject, d)
      | Some a \<Rightarrow>
        if dd_running (dev d a) \<noteq> 0 then (IllegalOperation, d)
        else if a \<notin> set (gActiveDevices d) then (BadObject, d)
        else
          let before = takeWhile (\<lambda>b. b \<noteq> a) (gActiveDevices d);
              behind = tl (dropWhile (\<lambda>b. b \<noteq> a) (gActiveDevices d));
              d1 = d\<lparr>gActiveDevices := before @ behind\<rparr>;
              (status, d2) = (if persist then PersistLocked h d1 else (0, d1))
          in if status \<noteq> 0
             then (status, d2\<lparr>gActiveDevices := take (length before) (gActiveDevices d2) @ a
                 # drop (length before) (gActiveDevices d2)\<rparr>)
             else (0, with_dev a (\<lambda>v. v\<lparr>dd_active := False\<rparr>) d2))"

definition ReleaseRetiredSlotLocked :: "nat \<Rightarrow> 'h driver \<Rightarrow> 'h driver" where
  "ReleaseRetiredSlotLocked a d =
     (if dd_active (dev d a) \<or> dd_attached (dev d a) \<noteq> 0 \<or> dd_running (dev d a) \<noteq> 0 then d
      else if gSlots d ! dd_slot (dev d a) = Some a then d\<lparr>gSlots := (gSlots d)[dd_slot (dev d a) := None]\<rparr>
      else d)"

section \<open>Objects\<close>

datatype ObjectKind = KindInvalid | KindPlugIn | KindDevice | KindInputStream | KindOutputStream

definition kAudioObjectPlugInObject :: u32 where "kAudioObjectPlugInObject = 1"

definition DeviceForObject :: "u32 \<Rightarrow> 'h driver \<Rightarrow> nat option" where
  "DeviceForObject object d =
     (if object < kFirstDeviceObjectID then None
      else let offset = object - kFirstDeviceObjectID; slot = unat offset div kObjectsPerDevice in
        if kMaximumDevices \<le> slot then None
        else case gSlots d ! slot of
          None \<Rightarrow> None
        | Some a \<Rightarrow> if OutputStreamObjectID (dev d a) < object then None else Some a)"

definition KindForObject :: "u32 \<Rightarrow> 'h driver \<Rightarrow> ObjectKind" where
  "KindForObject object d =
     (if object = kAudioObjectPlugInObject then KindPlugIn
      else case DeviceForObject object d of
        None \<Rightarrow> KindInvalid
      | Some a \<Rightarrow> if object = DeviceObjectID (dev d a) then KindDevice
          else if object = InputStreamObjectID (dev d a) then KindInputStream else KindOutputStream)"

definition notify_of :: "u32 \<Rightarrow> 'h driver_host \<Rightarrow> 'h driver \<Rightarrow> 'h driver" where
  "notify_of object h d =
     (if gHost d then d\<lparr>host_state := properties_changed h object (host_state d)\<rparr> else d)"

definition NotifyDeviceListChanged :: "'h driver_host \<Rightarrow> 'h driver \<Rightarrow> 'h driver" where
  "NotifyDeviceListChanged = notify_of kAudioObjectPlugInObject"

definition GetDeviceList :: "'h driver \<Rightarrow> u32 list" where
  "GetDeviceList d = map (\<lambda>a. DeviceObjectID (dev d a)) (gActiveDevices d)"

section \<open>The entry points\<close>

text \<open>A call for an object that must be a device, under its device id.\<close>

definition on_device :: "u32 \<Rightarrow> (nat \<Rightarrow> 'h driver \<Rightarrow> i32 \<times> 'h driver) \<Rightarrow> 'h driver \<Rightarrow> i32 \<times> 'h driver" where
  "on_device object f d =
     (case DeviceForObject object d of
        None \<Rightarrow> (BadObject, d)
      | Some a \<Rightarrow> if object \<noteq> DeviceObjectID (dev d a) then (BadObject, d) else f a d)"

fun load_inventory :: "'h driver_host \<Rightarrow> string list \<Rightarrow> 'h driver \<Rightarrow> i32 \<times> 'h driver" where
  "load_inventory h [] d = (0, d)"
| "load_inventory h (line # rest) d =
     (if line = [] then load_inventory h rest d
      else let (status, d1) = AddDeviceLocked h (Split line tab) False d in
        if status \<noteq> 0 then (status, d1) else load_inventory h rest d1)"

definition Initialize :: "'h driver_host \<Rightarrow> 'h driver \<Rightarrow> i32 \<times> 'h driver" where
  "Initialize h d =
     (let ((status, value), s1) = copy_from_storage h (host_state d); d1 = d\<lparr>gHost := True, host_state := s1\<rparr> in
      if status \<noteq> 0 then (status, d1)
      else case value of
        NothingStored \<Rightarrow> (0, d1)
      | NotAString \<Rightarrow> (IllegalOperation, d1)
      | StoredText None \<Rightarrow> (IllegalOperation, d1)
      | StoredText (Some inventory) \<Rightarrow> load_inventory h (Split inventory (CHR 0x0A)) d1)"

definition remove_and_release :: "'h driver_host \<Rightarrow> nat \<Rightarrow> 'h driver \<Rightarrow> i32 \<times> 'h driver" where
  "remove_and_release h a d =
     (let (status, d1) = RemoveDeviceLocked h (Some a) True d in
      if status \<noteq> 0 then (status, d1)
      else (0, ReleaseRetiredSlotLocked a (NotifyDeviceListChanged h d1)))"

definition DestroyDevice :: "'h driver_host \<Rightarrow> u32 \<Rightarrow> 'h driver \<Rightarrow> i32 \<times> 'h driver" where
  "DestroyDevice h object = on_device object (remove_and_release h)"

definition AddDeviceClient :: "u32 \<Rightarrow> 'h driver \<Rightarrow> i32 \<times> 'h driver" where
  "AddDeviceClient object = on_device object (\<lambda>a d.
     if gSlots d ! dd_slot (dev d a) \<noteq> Some a then (BadObject, d)
     else (0, with_dev a (\<lambda>v. v\<lparr>dd_attached := dd_attached v + 1\<rparr>) d))"

definition RemoveDeviceClient :: "u32 \<Rightarrow> 'h driver \<Rightarrow> i32 \<times> 'h driver" where
  "RemoveDeviceClient object = on_device object (\<lambda>a d.
     if gSlots d ! dd_slot (dev d a) \<noteq> Some a then (BadObject, d)
     else if dd_attached (dev d a) = 0 then (IllegalOperation, d)
     else (0, ReleaseRetiredSlotLocked a (with_dev a (\<lambda>v. v\<lparr>dd_attached := dd_attached v - 1\<rparr>) d)))"

definition kDeleteDeviceConfigurationAction :: u64 where "kDeleteDeviceConfigurationAction = 1"

definition PerformDeviceConfigurationChange ::
    "'h driver_host \<Rightarrow> u32 \<Rightarrow> u64 \<Rightarrow> nat option \<Rightarrow> 'h driver \<Rightarrow> i32 \<times> 'h driver" where
  "PerformDeviceConfigurationChange h object action info = on_device object (\<lambda>a d.
     if action \<noteq> kDeleteDeviceConfigurationAction \<or> info \<noteq> Some a then (BadObject, d)
     else let pending = dd_delete_pending (dev d a); d1 = with_dev a (\<lambda>v. v\<lparr>dd_delete_pending := False\<rparr>) d in
       if \<not> pending then (IllegalOperation, d1) else remove_and_release h a d1)"

definition AbortDeviceConfigurationChange ::
    "u32 \<Rightarrow> u64 \<Rightarrow> nat option \<Rightarrow> 'h driver \<Rightarrow> i32 \<times> 'h driver" where
  "AbortDeviceConfigurationChange object action info = on_device object (\<lambda>a d.
     if action \<noteq> kDeleteDeviceConfigurationAction \<or> info \<noteq> Some a then (BadObject, d)
     else (0, with_dev a (\<lambda>v. v\<lparr>dd_delete_pending := False\<rparr>) d))"

text \<open>
  \<open>SetPropertyData\<close> of the control property: the part under the mutex gives the status, whether a
  device was made, and the device to delete; the rest talks to the host without the mutex.
\<close>

definition control_locked ::
    "'h driver_host \<Rightarrow> string \<Rightarrow> 'h driver \<Rightarrow> (i32 \<times> bool \<times> nat option) \<times> 'h driver" where
  "control_locked h command d =
     (let parts = Split command tab in
      if parts \<noteq> [] \<and> parts ! 0 = ''create'' then
        let existing = (if 1 < length parts then FindByIDLocked (parts ! 1) d else None);
            (status, d1) = AddDeviceLocked h parts True d
        in ((status, status = 0 \<and> existing = None, None), d1)
      else if length parts = 2 \<and> parts ! 0 = ''delete'' then
        (case FindByIDLocked (parts ! 1) d of
           None \<Rightarrow> ((BadObject, False, None), d)
         | Some a \<Rightarrow>
             if dd_running (dev d a) \<noteq> 0 then ((IllegalOperation, False, Some a), d)
             else let pending = dd_delete_pending (dev d a);
                 d1 = with_dev a (\<lambda>v. v\<lparr>dd_delete_pending := True\<rparr>) d
               in if pending then ((IllegalOperation, False, Some a), d1) else ((0, False, Some a), d1))
      else ((IllegalOperation, False, None), d))"

definition control_unlocked ::
    "'h driver_host \<Rightarrow> i32 \<times> bool \<times> nat option \<Rightarrow> 'h driver \<Rightarrow> i32 \<times> 'h driver" where
  "control_unlocked h = (\<lambda>(status, created, doomed) d.
     if created then (status, NotifyDeviceListChanged h d)
     else case (if status = 0 then doomed else None) of
       None \<Rightarrow> (status, d)
     | Some a \<Rightarrow>
         if \<not> gHost d then (NotReady, with_dev a (\<lambda>v. v\<lparr>dd_delete_pending := False\<rparr>) d)
         else let (status1, s1) = request_change h (DeviceObjectID (dev d a)) (host_state d);
             d1 = d\<lparr>host_state := s1\<rparr>
           in (status1, if status1 \<noteq> 0 then with_dev a (\<lambda>v. v\<lparr>dd_delete_pending := False\<rparr>) d1 else d1))"

definition SetControl :: "'h driver_host \<Rightarrow> string option \<Rightarrow> 'h driver \<Rightarrow> i32 \<times> 'h driver" where
  "SetControl h msg d =
     (case msg of
        None \<Rightarrow> (IllegalOperation, d)
      | Some command \<Rightarrow> let (r, d1) = control_locked h command d in control_unlocked h r d1)"

definition SetStreamActive :: "'h driver_host \<Rightarrow> u32 \<Rightarrow> u32 \<Rightarrow> 'h driver \<Rightarrow> i32 \<times> 'h driver" where
  "SetStreamActive h object value d =
     (case (KindForObject object d, DeviceForObject object d) of
        (KindInputStream, Some a) \<Rightarrow>
          (0, notify_of object h (with_dev a (\<lambda>v. v\<lparr>dd_memory := (dd_memory v)\<lparr>lb_input_active := value \<noteq> 0\<rparr>\<rparr>) d))
      | (KindOutputStream, Some a) \<Rightarrow>
          (0, notify_of object h (with_dev a (\<lambda>v. v\<lparr>dd_memory := (dd_memory v)\<lparr>lb_output_active := value \<noteq> 0\<rparr>\<rparr>) d))
      | _ \<Rightarrow> (fourcc ''who?'', d))"

definition StartIO :: "'h driver_host \<Rightarrow> u32 \<Rightarrow> 'h driver \<Rightarrow> i32 \<times> 'h driver" where
  "StartIO h object = on_device object (\<lambda>a d.
     if \<not> dd_active (dev d a) then (BadObject, d)
     else let was = dd_running (dev d a); d1 = with_dev a (\<lambda>v. v\<lparr>dd_running := was + 1\<rparr>) d in
       if was \<noteq> 0 then (0, d1)
       else let (now, s1) = absolute_time h (host_state d1) in
         (0, with_dev a (\<lambda>v. v\<lparr>dd_memory := ClearTags (dd_memory v), dd_anchor := now,
                dd_clock_seed := dd_clock_seed v + 1\<rparr>) (d1\<lparr>host_state := s1\<rparr>)))"

definition StopIO :: "u32 \<Rightarrow> 'h driver \<Rightarrow> i32 \<times> 'h driver" where
  "StopIO object = on_device object (\<lambda>a d.
     if dd_running (dev d a) = 0 then (IllegalOperation, d)
     else (0, ReleaseRetiredSlotLocked a (with_dev a (\<lambda>v. v\<lparr>dd_running := dd_running v - 1\<rparr>) d)))"

datatype io_operation = WriteMixOperation | ReadInputOperation | OtherOperation

text \<open>\<open>DoIOOperation\<close>, given the cycle's sample time as the \<open>UInt64\<close> it is cast to.\<close>

definition DoIOOperation ::
    "u32 \<Rightarrow> u32 \<Rightarrow> io_operation \<Rightarrow> nat \<Rightarrow> u64 \<Rightarrow> f32 list option \<Rightarrow> 'h driver \<Rightarrow>
     (i32 \<times> f32 list option) \<times> 'h driver" where
  "DoIOOperation object stream operation n time buf d =
     (case (DeviceForObject object d, buf) of
        (Some a, Some _) \<Rightarrow>
          if operation = WriteMixOperation \<and> stream = OutputStreamObjectID (dev d a) then
            ((0, buf), with_dev a (\<lambda>v. v\<lparr>dd_memory := Write time n buf (dd_memory v)\<rparr>) d)
          else if operation = ReadInputOperation \<and> stream = InputStreamObjectID (dev d a) then
            let (out, m) = Read time n buf (dd_memory (dev d a))
            in ((0, out), with_dev a (\<lambda>v. v\<lparr>dd_memory := m\<rparr>) d)
          else ((fourcc ''unop'', buf), d)
      | _ \<Rightarrow> ((IllegalOperation, buf), d))"

end
