(* ===== verification/DeviceProperties.thy ===== *)
theory DeviceProperties
  imports StreamProperties
begin

text \<open>
  What the device functions of \<open>platform.rs\<close> give their callers: the shape of the devices that are
  listed, and the commands that reach the driver.
\<close>

section \<open>Results of calls\<close>

named_theorems ca_simps "inversion of the results of sequenced calls"

lemma ca_then_Ok [ca_simps]:
  "ca_then m f s = (Ok b, s') \<longleftrightarrow> (\<exists>a s1. m s = (Ok a, s1) \<and> f a s1 = (Ok b, s'))"
  by (auto simp: ca_then_def split: prod.splits res.splits)

lemma ca_res_eq [ca_simps]: "ca_res r s = (q, s') \<longleftrightarrow> r = q \<and> s' = s"
  by (auto simp: ca_res_def)

lemma ca_call_eq [ca_simps]:
  "ca_call f s = (q, s') \<longleftrightarrow> q = Ok (fst (f (hal_state s))) \<and> s' = s\<lparr>hal_state := snd (f (hal_state s))\<rparr>"
  by (auto simp: ca_call_def)

lemma ca_traverse_Ok:
  "ca_traverse f xs s = (Ok ys, s') \<Longrightarrow> list_all2 (\<lambda>x y. \<exists>t t'. f x t = (Ok y, t')) xs ys"
  by (induction xs arbitrary: s ys) (auto simp: ca_simps)

section \<open>Listed devices\<close>

definition text_ok :: "string \<Rightarrow> bool" where
  "text_ok t \<longleftrightarrow> utf8_valid t \<and> CHR 0x00 \<notin> set t"

lemma cf_string_text: "cf_string_to_rust h v s = (Ok t, s') \<Longrightarrow> text_ok t"
  by (auto simp: cf_string_to_rust_def ca_simps Let_def text_ok_def split: if_splits option.splits
      dest: set_takeWhileD)

lemma get_cf_string_text: "get_cf_string h i sel sc s = (Ok t, s') \<Longrightarrow> text_ok t"
proof -
  have "fst (cf_string_to_rust h v u) = Ok t \<Longrightarrow> text_ok t" for v u
    using cf_string_text by (metis prod.collapse)
  then show "get_cf_string h i sel sc s = (Ok t, s') \<Longrightarrow> text_ok t"
    by (auto simp: get_cf_string_def ca_simps ca_log_def Let_def case_prod_beta split: if_splits)
qed

lemma read_device_ok:
  assumes "read_device h i s = (Ok d, s')"
  shows "dev_object_id d = i" "text_ok (dev_uid d)" "text_ok (dev_name d)"
    "dev_is_vcable d \<longleftrightarrow> (\<exists>rest. dev_uid d = VCABLE_UID_PREFIX @ rest)"
proof -
  obtain uid name t1 t2 t3 t4 where r: "get_cf_string h i DEVICE_UID SCOPE_GLOBAL t1 = (Ok uid, t2)"
    "get_cf_string h i OBJECT_NAME SCOPE_GLOBAL t3 = (Ok name, t4)"
    and d: "dev_object_id d = i" "dev_uid d = uid" "dev_name d = name"
      "dev_is_vcable d = (take (length VCABLE_UID_PREFIX) uid = VCABLE_UID_PREFIX)"
    using assms by (auto simp: read_device_def ca_simps)
  show "dev_object_id d = i" "text_ok (dev_uid d)" "text_ok (dev_name d)"
    using d get_cf_string_text [OF r(1)] get_cf_string_text [OF r(2)] by simp_all
  show "dev_is_vcable d \<longleftrightarrow> (\<exists>rest. dev_uid d = VCABLE_UID_PREFIX @ rest)"
    using d by (auto) (metis append_take_drop_id)
qed

text \<open>C33: Listed devices are well formed, whatever Core Audio answers: there is one for every object of
  the system's list, in its order, and each has the object's id, an identifier and a name that are
  UTF-8 without a NUL (so that the routing graph, the protocol and a driver command can hold them),
  and the VCable mark exactly when its identifier starts with the driver's prefix.\<close>

theorem listed_devices_well_formed:
  assumes "list_devices h s = (Ok ds, s')"
  shows "(\<exists>ids t. get_u32_array h SYSTEM_OBJECT HARDWARE_DEVICES SCOPE_GLOBAL s = (Ok ids, t)
        \<and> map dev_object_id ds = ids)
    \<and> (\<forall>d \<in> set ds. utf8_valid (dev_uid d) \<and> CHR 0x00 \<notin> set (dev_uid d)
        \<and> utf8_valid (dev_name d) \<and> CHR 0x00 \<notin> set (dev_name d)
        \<and> (dev_is_vcable d \<longleftrightarrow> (\<exists>rest. dev_uid d = VCABLE_UID_PREFIX @ rest)))"
proof -
  obtain ids t where ids: "get_u32_array h SYSTEM_OBJECT HARDWARE_DEVICES SCOPE_GLOBAL s = (Ok ids, t)"
    "ca_traverse (read_device h) ids t = (Ok ds, s')"
    using assms by (auto simp: list_devices_def ca_simps)
  have all: "list_all2 (\<lambda>i d. dev_object_id d = i \<and> text_ok (dev_uid d) \<and> text_ok (dev_name d)
      \<and> (dev_is_vcable d \<longleftrightarrow> (\<exists>rest. dev_uid d = VCABLE_UID_PREFIX @ rest))) ids ds"
    using ca_traverse_Ok [OF ids(2)] by (rule list.rel_mono_strong) (auto dest: read_device_ok)
  then have "map dev_object_id ds = ids" by (induction rule: list_all2_induct) auto
  moreover have "\<exists>i \<in> set ids. dev_object_id d = i \<and> text_ok (dev_uid d) \<and> text_ok (dev_name d)
      \<and> (dev_is_vcable d \<longleftrightarrow> (\<exists>rest. dev_uid d = VCABLE_UID_PREFIX @ rest))" if "d \<in> set ds" for d
    using all that by (induction rule: list_all2_induct) auto
  ultimately show ?thesis using ids(1) by (auto simp: text_ok_def)
qed

theorem listed_devices_well_formed_witness:
  "\<exists>s'. list_devices demo_hal demo_start = (Ok [demo_one], s') \<and> utf8_valid (dev_uid demo_one)
     \<and> \<not> dev_is_vcable demo_one"
proof -
  obtain s' where l: "list_devices demo_hal demo_start = (Ok [demo_one], s')" by (simp add: demo_devices_list)
  have "utf8_valid (dev_uid demo_one)" using listed_devices_well_formed [OF l] by simp
  then show ?thesis using l by (auto simp: demo_one_def)
qed

section \<open>Driver commands\<close>

lemma validate_field_Ok: "validate_field v name = Ok () \<longleftrightarrow> v \<noteq> [] \<and> (\<forall>c \<in> set v. byte c \<notin> {9, 13, 10, 0})"
  by (auto simp: validate_field_def list_ex_iff)

definition create_valid :: "string \<Rightarrow> string \<Rightarrow> u32 \<Rightarrow> u32 \<Rightarrow> bool" where
  "create_valid i name ins outs \<longleftrightarrow> validate_field i ''device id'' = Ok ()
     \<and> validate_field name ''device name'' = Ok () \<and> ins \<noteq> 0 \<and> outs \<noteq> 0"

lemma validate_field_cases: "validate_field v name = Ok () \<or> validate_field v name = Err (CA_InvalidProperty name)"
  by (simp add: validate_field_def)

lemma create_sends:
  assumes "create_valid i name ins outs"
  shows "create_virtual_device h i name ins outs rate s
    = (case send_driver_command h (join_with tab [''create'', i, name, show_u32 ins, show_u32 outs, show_u32 rate]) s of
         (Ok _, s1) \<Rightarrow> wait_for_device_visibility h (VCABLE_UID_PREFIX @ i) True s1
       | (Err e, s1) \<Rightarrow> Some (Err e, s1) | (Panic, s1) \<Rightarrow> Some (Panic, s1))"
  using assms by (simp add: create_virtual_device_def create_valid_def ca_then_def ca_res_def)

lemma create_refuses:
  assumes "\<not> create_valid i name ins outs"
  shows "\<exists>e. create_virtual_device h i name ins outs rate s = Some (Err e, s)"
  using assms validate_field_cases [of i "''device id''"] validate_field_cases [of name "''device name''"]
  by (auto simp: create_virtual_device_def create_valid_def ca_then_def ca_res_def)

lemma delete_sends:
  "delete_virtual_device h i s = (if validate_field i ''device id'' = Ok ()
     then case send_driver_command h (join_with tab [''delete'', i]) s of
         (Ok _, s1) \<Rightarrow> wait_for_device_visibility h (VCABLE_UID_PREFIX @ i) False s1
       | (Err e, s1) \<Rightarrow> Some (Err e, s1) | (Panic, s1) \<Rightarrow> Some (Panic, s1)
     else Some (Err (CA_InvalidProperty ''device id''), s))"
  using validate_field_cases [of i "''device id''"]
  by (auto simp: delete_virtual_device_def ca_then_def ca_res_def)

lemma digit_text: "is_ascii_digit c \<Longrightarrow> 48 \<le> byte c"
  by (simp add: is_ascii_digit_def byte_def)

lemma number_text: "tab \<notin> set (show_u32 w)" "CHR 0x0A \<notin> set (show_u32 w)"
  using show_u32_chars [of _ w] digit_text by (fastforce simp: byte_def)+

text \<open>No field can forge a driver command. A device is created or deleted by one command line that
  the driver splits at its tabs into exactly the operation, the identifier, the name and the three
  numbers that were asked for; a field with a tab, a line end or a NUL, an empty one, or a channel count
  of zero is refused before anything is sent.\<close>

theorem driver_commands_exact:
  "(if create_valid i name ins outs
    then \<exists>cmd. split_at tab cmd = [''create'', i, name, show_u32 ins, show_u32 outs, show_u32 rate]
        \<and> CHR 0x0A \<notin> set cmd
        \<and> map parse_u32 (drop 3 (split_at tab cmd)) = [Some ins, Some outs, Some rate]
        \<and> create_virtual_device h i name ins outs rate s = (case send_driver_command h cmd s of
            (Ok _, s1) \<Rightarrow> wait_for_device_visibility h (VCABLE_UID_PREFIX @ i) True s1
          | (Err e, s1) \<Rightarrow> Some (Err e, s1) | (Panic, s1) \<Rightarrow> Some (Panic, s1))
    else \<exists>e. create_virtual_device h i name ins outs rate s = Some (Err e, s))
  \<and> (if validate_field i ''device id'' = Ok ()
    then \<exists>cmd. split_at tab cmd = [''delete'', i] \<and> CHR 0x0A \<notin> set cmd
        \<and> delete_virtual_device h i s = (case send_driver_command h cmd s of
            (Ok _, s1) \<Rightarrow> wait_for_device_visibility h (VCABLE_UID_PREFIX @ i) False s1
          | (Err e, s1) \<Rightarrow> Some (Err e, s1) | (Panic, s1) \<Rightarrow> Some (Panic, s1))
    else delete_virtual_device h i s = Some (Err (CA_InvalidProperty ''device id''), s))"
proof -
  have clean: "tab \<notin> set v \<and> CHR 0x0A \<notin> set v" if "validate_field v m = Ok ()" for v m
    using that by (auto simp: validate_field_Ok byte_def)
  have line: "split_at tab (join_with tab fs) = fs \<and> CHR 0x0A \<notin> set (join_with tab fs)"
    if "fs \<noteq> []" "\<forall>f \<in> set fs. tab \<notin> set f \<and> CHR 0x0A \<notin> set f" for fs
    using split_join [of fs tab] that set_join [of tab fs] by auto
  have c: "\<exists>cmd. split_at tab cmd = [''create'', i, name, show_u32 ins, show_u32 outs, show_u32 rate]
        \<and> CHR 0x0A \<notin> set cmd
        \<and> map parse_u32 (drop 3 (split_at tab cmd)) = [Some ins, Some outs, Some rate]
        \<and> create_virtual_device h i name ins outs rate s = (case send_driver_command h cmd s of
            (Ok _, s1) \<Rightarrow> wait_for_device_visibility h (VCABLE_UID_PREFIX @ i) True s1
          | (Err e, s1) \<Rightarrow> Some (Err e, s1) | (Panic, s1) \<Rightarrow> Some (Panic, s1))"
    if v: "create_valid i name ins outs"
  proof -
    let ?fs = "[''create'', i, name, show_u32 ins, show_u32 outs, show_u32 rate]"
    have "\<forall>f \<in> set ?fs. tab \<notin> set f \<and> CHR 0x0A \<notin> set f"
      using v clean number_text by (auto simp: create_valid_def)
    then show ?thesis using line [of ?fs] create_sends [OF v, of h rate s] parse_show_u32
      by (intro exI [of _ "join_with tab ?fs"]) (simp del: join_with.simps)
  qed
  have d: "\<exists>cmd. split_at tab cmd = [''delete'', i] \<and> CHR 0x0A \<notin> set cmd
        \<and> delete_virtual_device h i s = (case send_driver_command h cmd s of
            (Ok _, s1) \<Rightarrow> wait_for_device_visibility h (VCABLE_UID_PREFIX @ i) False s1
          | (Err e, s1) \<Rightarrow> Some (Err e, s1) | (Panic, s1) \<Rightarrow> Some (Panic, s1))"
    if v: "validate_field i ''device id'' = Ok ()"
    using line [of "[''delete'', i]"] clean [OF v] v delete_sends [of h i s]
    by (intro exI [of _ "join_with tab [''delete'', i]"]) (simp del: join_with.simps)
  show ?thesis using c d create_refuses [of i name ins outs h rate s] delete_sends [of h i s] by (auto simp del: not_ex)
qed

end
