(* ===== verification/DriverInventory.thy ===== *)
theory DriverInventory
  imports DriverDevices DeviceProperties
begin

text \<open>
  What the HAL driver plug-in promises: its devices keep their identity and their object ids over any
  history of calls, a refused command changes nothing, an acknowledged one is stored with the host,
  and the stored inventory reads back as the same devices. \<open>DriverCommands\<close> joins the driver to the
  functions of \<open>platform.rs\<close> that send it commands.
\<close>

section \<open>The invariant\<close>

definition device_ok :: "driver_device \<Rightarrow> bool" where
  "device_ok v \<longleftrightarrow> ValidID (dd_id v) \<and> ValidName (dd_name v) \<and> dd_uid v = kUIDPrefix @ dd_id v
     \<and> 0 < dd_inputs v \<and> dd_inputs v \<le> kMaximumChannels \<and> 0 < dd_outputs v \<and> dd_outputs v \<le> kMaximumChannels
     \<and> 8000 \<le> dd_rate v \<and> dd_rate v \<le> 768000"

definition in_slot :: "'h driver \<Rightarrow> nat \<Rightarrow> bool" where
  "in_slot d a \<longleftrightarrow> dd_slot (dev d a) < kMaximumDevices \<and> gSlots d ! dd_slot (dev d a) = Some a"

definition slots_ok :: "'h driver \<Rightarrow> bool" where
  "slots_ok d \<longleftrightarrow> length (gSlots d) = kMaximumDevices
     \<and> (\<forall>i < kMaximumDevices. \<forall>a. gSlots d ! i = Some a \<longrightarrow> a < length (gAllDevices d) \<and> dd_slot (dev d a) = i)"

definition active_ok :: "'h driver \<Rightarrow> bool" where
  "active_ok d \<longleftrightarrow> distinct (gActiveDevices d) \<and> inj_on (\<lambda>a. dd_id (dev d a)) (set (gActiveDevices d))
     \<and> (\<forall>a \<in> set (gActiveDevices d). a < length (gAllDevices d) \<and> in_slot d a \<and> dd_active (dev d a))"

definition clients_ok :: "'h driver \<Rightarrow> bool" where
  "clients_ok d \<longleftrightarrow> (\<forall>a < length (gAllDevices d).
     dd_attached (dev d a) \<noteq> 0 \<or> dd_running (dev d a) \<noteq> 0 \<longrightarrow> in_slot d a)"

definition driver_inv :: "'h driver \<Rightarrow> bool" where
  "driver_inv d \<longleftrightarrow> slots_ok d \<and> active_ok d \<and> clients_ok d \<and> list_all device_ok (gAllDevices d)"

lemmas driver_inv_defs = driver_inv_def slots_ok_def active_ok_def clients_ok_def in_slot_def

lemma driver_inv_loaded: "driver_inv (driver_loaded s)"
  by (simp add: driver_inv_defs driver_loaded_def)

lemma driver_inv_frame [simp]:
  "driver_inv (d\<lparr>host_state := s\<rparr>) = driver_inv d" "driver_inv (d\<lparr>gHost := b\<rparr>) = driver_inv d"
  by (simp_all add: driver_inv_defs)

text \<open>What an update of one device must leave alone.\<close>

definition same_device :: "driver_device \<Rightarrow> driver_device \<Rightarrow> bool" where
  "same_device v w \<longleftrightarrow> dd_slot w = dd_slot v \<and> dd_id w = dd_id v \<and> dd_name w = dd_name v \<and> dd_uid w = dd_uid v
     \<and> dd_inputs w = dd_inputs v \<and> dd_outputs w = dd_outputs v \<and> dd_rate w = dd_rate v"

lemma same_device_ok: "same_device v w \<Longrightarrow> device_ok w = device_ok v"
  by (simp add: same_device_def device_ok_def)

lemma dev_update: "(gAllDevices d)[a := v] ! b = (if b = a \<and> a < length (gAllDevices d) then v else dev d b)"
  by (cases "a < length (gAllDevices d)") (auto simp: nth_list_update list_update_beyond)

lemma driver_inv_with_dev:
  assumes inv: "driver_inv d" and same: "\<And>v. same_device v (f v)"
    and act: "a \<in> set (gActiveDevices d) \<Longrightarrow> dd_active (f (dev d a))"
    and cl: "a < length (gAllDevices d) \<Longrightarrow>
      dd_attached (f (dev d a)) \<noteq> 0 \<or> dd_running (f (dev d a)) \<noteq> 0 \<Longrightarrow> in_slot d a"
  shows "driver_inv (with_dev a f d)"
proof (cases "a < length (gAllDevices d)")
  case True
  let ?d = "with_dev a f d"
  have f: "dd_slot (dev ?d b) = dd_slot (dev d b)" "dd_id (dev ?d b) = dd_id (dev d b)" for b
    using same [of "dev d a"] by (simp_all add: dev_update same_device_def)
  have sl: "in_slot ?d b = in_slot d b" for b unfolding in_slot_def f by simp
  have "slots_ok ?d" using inv f by (simp add: driver_inv_def slots_ok_def)
  moreover have "active_ok ?d"
    unfolding active_ok_def sl f using inv act by (auto simp: driver_inv_def active_ok_def dev_update)
  moreover have "clients_ok ?d"
    unfolding clients_ok_def sl using inv cl by (auto simp: driver_inv_def clients_ok_def dev_update)
  moreover have "list_all device_ok (gAllDevices ?d)"
    using inv True same_device_ok [OF same [of "dev d a"]]
    by (auto simp: driver_inv_def list_all_length nth_list_update)
  ultimately show ?thesis by (simp add: driver_inv_def)
next
  case False
  then show ?thesis using inv by (simp add: list_update_beyond)
qed

section \<open>Every call keeps the invariant\<close>

lemma PersistLocked_frame:
  "PersistLocked h d = (st, d') \<Longrightarrow> \<exists>s. d' = d\<lparr>host_state := s\<rparr>"
  by (auto simp: PersistLocked_def Let_def split: if_splits prod.splits intro: exI [of _ "host_state d"])

lemma status_nonzero [simp]: "IllegalOperation \<noteq> 0" "BadObject \<noteq> 0" "NotReady \<noteq> 0" "Unspecified \<noteq> 0"
  by (simp_all add: IllegalOperation_def BadObject_def NotReady_def Unspecified_def fourcc_def from_be_bytes_def
      byte_def)

text \<open>
  What a call may ask of the host without anything new in the storage: strings and devices, times,
  notifications, configuration changes, and writes that fail.
\<close>

inductive host_quiet :: "'h driver_host \<Rightarrow> 'h \<Rightarrow> 'h \<Rightarrow> bool" for h s where
  same: "host_quiet h s s"
| device: "host_quiet h s t \<Longrightarrow> host_quiet h s (snd (make_device h i n t))"
| string: "host_quiet h s t \<Longrightarrow> host_quiet h s (snd (make_string h x t))"
| refused: "host_quiet h s t \<Longrightarrow> fst (write_to_storage h x t) \<noteq> 0 \<Longrightarrow> host_quiet h s (snd (write_to_storage h x t))"
| asked: "host_quiet h s t \<Longrightarrow> host_quiet h s (snd (request_change h object t))"
| told: "host_quiet h s t \<Longrightarrow> host_quiet h s (properties_changed h object t)"
| clock: "host_quiet h s t \<Longrightarrow> host_quiet h s (snd (absolute_time h t))"

lemma host_quiet_trans: "host_quiet h t u \<Longrightarrow> host_quiet h s t \<Longrightarrow> host_quiet h s u"
  by (induction rule: host_quiet.induct) (auto intro: host_quiet.intros)

definition host_stores :: "'h driver_host \<Rightarrow> string \<Rightarrow> 'h \<Rightarrow> 'h \<Rightarrow> bool" where
  "host_stores h x s u \<longleftrightarrow> (\<exists>t t'. host_quiet h s t \<and> write_to_storage h x t = (0, t') \<and> host_quiet h t' u)"

lemma PersistLocked_host:
  assumes "PersistLocked h d = (st, d')"
  shows "if st = 0 then host_stores h (InventoryLocked d) (host_state d) (host_state d')
    else host_quiet h (host_state d) (host_state d')"
proof -
  let ?x = "InventoryLocked d"
  obtain b s1 where m: "make_string h ?x (host_state d) = (b, s1)" by fastforce
  obtain w s2 where w: "write_to_storage h ?x s1 = (w, s2)" by fastforce
  have q: "host_quiet h (host_state d) s1" using host_quiet.string [OF host_quiet.same, of h "host_state d" ?x] m by simp
  have "w \<noteq> 0 \<Longrightarrow> host_quiet h (host_state d) s2" using host_quiet.refused [OF q, of ?x] w by simp
  moreover have "w = 0 \<Longrightarrow> host_stores h ?x (host_state d) s2"
    unfolding host_stores_def using q w host_quiet.same [of h s2] by blast
  ultimately show ?thesis using assms m w q host_quiet.same
    by (auto simp: PersistLocked_def split: if_splits)
qed

lemma free_slot_Some: "free_slot ss = Some i \<Longrightarrow> i < length ss \<and> ss ! i = None"
  by (induction ss arbitrary: i) (auto split: if_splits)

lemma find_SomeD: "find P xs = Some x \<Longrightarrow> x \<in> set xs \<and> P x"
  by (auto simp: find_Some_iff)

lemma device_fields_ok:
  "device_fields parts = Some (i, name, ins, outs, rate) \<Longrightarrow> device_ok (Device_new sl i name ins outs rate)"
  by (auto simp: device_fields_def device_ok_def Device_new_def word_neq_0_conv [symmetric] not_less
      split: if_splits option.splits)

text \<open>A new device in a free slot.\<close>

definition plugged :: "nat \<Rightarrow> driver_device \<Rightarrow> 'h driver \<Rightarrow> 'h driver" where
  "plugged sl v d = d\<lparr>gAllDevices := gAllDevices d @ [v], gActiveDevices := gActiveDevices d @ [length (gAllDevices d)],
     gSlots := (gSlots d)[sl := Some (length (gAllDevices d))]\<rparr>"

lemma driver_inv_plugged:
  assumes inv: "driver_inv d" and sl: "free_slot (gSlots d) = Some sl" and v: "device_ok v" "dd_slot v = sl"
    "dd_active v" "dd_attached v = 0" "dd_running v = 0"
    and new: "FindByIDLocked (dd_id v) d = None"
  shows "driver_inv (plugged sl v d)"
proof -
  let ?n = "length (gAllDevices d)" and ?d = "plugged sl v d"
  have s: "sl < kMaximumDevices" "gSlots d ! sl = None" "length (gSlots d) = kMaximumDevices"
    using free_slot_Some [OF sl] inv by (auto simp: driver_inv_def slots_ok_def)
  have old: "dev ?d b = dev d b" if "b < ?n" for b using that by (simp add: plugged_def nth_append)
  have n: "dev ?d ?n = v" by (simp add: plugged_def)
  have kept: "in_slot ?d b" if "in_slot d b" "b < ?n" for b
    using that s by (auto simp: in_slot_def old plugged_def nth_list_update nth_append)
  have "slots_ok ?d"
    using inv s v(2) by (auto simp: driver_inv_def slots_ok_def plugged_def nth_list_update nth_append
        split: if_splits)
  moreover have mem: "b < ?n \<and> in_slot d b \<and> dd_active (dev d b)" "dd_id (dev d b) \<noteq> dd_id v"
    if "b \<in> set (gActiveDevices d)" for b
    using that inv new by (auto simp: driver_inv_def active_ok_def FindByIDLocked_def find_None_iff)
  have "in_slot ?d ?n" using s v(2) n by (simp add: in_slot_def) (simp add: plugged_def)
  moreover have "inj_on (\<lambda>a. dd_id (dev ?d a)) (insert ?n (set (gActiveDevices d)))"
  proof -
    have "inj_on (\<lambda>a. dd_id (dev ?d a)) (set (gActiveDevices d))"
      using inv mem(1) old by (auto simp: driver_inv_def active_ok_def inj_on_def)
    moreover have "dd_id v \<noteq> dd_id (dev ?d b)" if "b \<in> set (gActiveDevices d)" for b
      using mem [OF that] old [of b] by simp
    ultimately show ?thesis using n by auto
  qed
  ultimately have "active_ok ?d"
    using inv mem kept old n v(3) unfolding active_ok_def
    by (auto simp: driver_inv_def active_ok_def plugged_def less_SucI)
  moreover have "clients_ok ?d"
    unfolding clients_ok_def
  proof (intro allI impI)
    fix b assume b: "b < length (gAllDevices ?d)" "dd_attached (dev ?d b) \<noteq> 0 \<or> dd_running (dev ?d b) \<noteq> 0"
    then have "b < ?n" using n v(4,5) by (cases "b = ?n") (auto simp: plugged_def)
    then show "in_slot ?d b" using b(2) inv kept old by (auto simp: driver_inv_def clients_ok_def)
  qed
  moreover have "list_all device_ok (gAllDevices ?d)" using inv v(1) by (simp add: driver_inv_def plugged_def)
  ultimately show ?thesis using \<open>slots_ok ?d\<close> by (simp add: driver_inv_def)
qed

lemma driver_inv_unplugged:
  assumes inv: "driver_inv d" and v: "device_ok v" "dd_attached v = 0" "dd_running v = 0"
    and sl: "gSlots d ! sl = None" "sl < kMaximumDevices"
  shows "driver_inv (d\<lparr>gAllDevices := gAllDevices d @ [v]\<rparr>)"
proof -
  let ?n = "length (gAllDevices d)" and ?d = "d\<lparr>gAllDevices := gAllDevices d @ [v]\<rparr>"
  have old: "dev ?d b = dev d b" if "b < ?n" for b using that by (simp add: nth_append)
  have kept: "in_slot ?d b = in_slot d b" if "b < ?n" for b unfolding in_slot_def old [OF that] by simp
  have "slots_ok ?d" using inv by (auto simp: driver_inv_def slots_ok_def nth_append)
  moreover have mem: "b < ?n" if "b \<in> set (gActiveDevices d)" for b
    using that inv by (auto simp: driver_inv_def active_ok_def)
  have "inj_on (\<lambda>a. dd_id (dev ?d a)) (set (gActiveDevices d))"
    using inv mem by (auto simp: driver_inv_def active_ok_def inj_on_def nth_append)
  then have "active_ok ?d"
    using inv mem kept unfolding active_ok_def
    by (auto simp: driver_inv_def active_ok_def nth_append less_SucI)
  moreover have "clients_ok ?d"
    unfolding clients_ok_def
  proof (intro allI impI)
    fix b assume b: "b < length (gAllDevices ?d)" "dd_attached (dev ?d b) \<noteq> 0 \<or> dd_running (dev ?d b) \<noteq> 0"
    then have "b < ?n" using v(2,3) by (cases "b = ?n") auto
    then show "in_slot ?d b" using b(2) inv kept [of b] by (auto simp: driver_inv_def clients_ok_def nth_append)
  qed
  ultimately show ?thesis using inv v(1) by (simp add: driver_inv_def)
qed

lemma AddDeviceLocked_inv:
  assumes inv: "driver_inv d" and call: "AddDeviceLocked h parts persist d = (st, d')"
  shows "driver_inv d'"
proof (cases "device_fields parts")
  case (Some p)
  then obtain i name ins outs rate where p: "device_fields parts = Some (i, name, ins, outs, rate)" by (cases p) auto
  show ?thesis
  proof (cases "FindByIDLocked i d")
    case None
    show ?thesis
    proof (cases "free_slot (gSlots d)")
      case (Some sl)
      let ?v = "Device_new sl i name ins outs rate"
      obtain made s1 where made: "make_device h i name (host_state d) = (made, s1)" by fastforce
      let ?d1 = "(plugged sl ?v d)\<lparr>host_state := s1\<rparr>"
      have v: "device_ok ?v" "dd_slot ?v = sl" "dd_active ?v" "dd_attached ?v = 0" "dd_running ?v = 0" "dd_id ?v = i"
        using device_fields_ok [OF p] by (simp_all add: Device_new_def)
      have inv1: "driver_inv ?d1"
        using driver_inv_plugged [OF inv Some v(1-5)] None v(6) by simp
      obtain st2 d2 where per: "PersistLocked h ?d1 = (st2, d2)" by fastforce
      then obtain s2 where d2: "d2 = ?d1\<lparr>host_state := s2\<rparr>" using PersistLocked_frame by blast
      have sl: "gSlots d ! sl = None" "sl < kMaximumDevices" "sl < length (gSlots d)"
        using free_slot_Some [OF Some] inv by (auto simp: driver_inv_def slots_ok_def)
      let ?undone = "d2\<lparr>gSlots := (gSlots d2)[sl := None], gActiveDevices := butlast (gActiveDevices d2)\<rparr>"
      have "?undone = (d\<lparr>gAllDevices := gAllDevices d @ [?v]\<rparr>)\<lparr>host_state := s2\<rparr>"
        using sl by (simp add: d2 plugged_def list_update_same_conv)
      then have backed: "driver_inv ?undone" using driver_inv_unplugged [OF inv v(1,4,5) sl(1,2)] by simp
      have "d' = (if \<not> made then d\<lparr>host_state := s1\<rparr> else if \<not> persist then ?d1
        else if st2 \<noteq> 0 then ?undone else d2)"
        using call p None Some made per
        by (simp add: AddDeviceLocked_def Let_def plugged_def split: if_splits prod.splits)
      then show ?thesis using inv inv1 backed d2 by (simp split: if_splits)
    qed (use inv call p None in \<open>simp add: AddDeviceLocked_def\<close>)
  qed (use inv call p in \<open>simp add: AddDeviceLocked_def Let_def\<close>)
qed (use inv call in \<open>simp add: AddDeviceLocked_def\<close>)

lemma erase_is_remove1: "takeWhile (\<lambda>b. b \<noteq> a) xs @ tl (dropWhile (\<lambda>b. b \<noteq> a) xs) = remove1 a xs"
  by (induction xs) auto

lemma insert_again: "a \<in> set xs \<Longrightarrow> takeWhile (\<lambda>b. b \<noteq> a) xs @ a # tl (dropWhile (\<lambda>b. b \<noteq> a) xs) = xs"
  by (induction xs) auto

lemma driver_inv_without:
  assumes "driver_inv d"
  shows "driver_inv (d\<lparr>gActiveDevices := remove1 a (gActiveDevices d)\<rparr>)"
proof -
  have sub: "set (remove1 a (gActiveDevices d)) \<subseteq> set (gActiveDevices d)" by (rule set_remove1_subset)
  have "active_ok (d\<lparr>gActiveDevices := remove1 a (gActiveDevices d)\<rparr>)"
    using assms sub by (auto simp: driver_inv_def active_ok_def in_slot_def intro: inj_on_subset)
  then show ?thesis using assms by (simp add: driver_inv_def slots_ok_def clients_ok_def in_slot_def)
qed

lemma RemoveDeviceLocked_cases:
  assumes call: "RemoveDeviceLocked h (Some a) persist d = (st, d')"
  obtains s where "st \<noteq> 0" "d' = d\<lparr>host_state := s\<rparr>" "host_quiet h (host_state d) s"
  | s where "st = 0" "a \<in> set (gActiveDevices d)" "dd_running (dev d a) = 0"
      "d' = with_dev a (\<lambda>v. v\<lparr>dd_active := False\<rparr>) (d\<lparr>gActiveDevices := remove1 a (gActiveDevices d), host_state := s\<rparr>)"
      "persist \<Longrightarrow> \<exists>s'. PersistLocked h (d\<lparr>gActiveDevices := remove1 a (gActiveDevices d)\<rparr>)
         = (0, d\<lparr>gActiveDevices := remove1 a (gActiveDevices d), host_state := s'\<rparr>)"
      "persist \<Longrightarrow> host_stores h (InventoryLocked (d\<lparr>gActiveDevices := remove1 a (gActiveDevices d)\<rparr>)) (host_state d) s"
proof (cases "dd_running (dev d a) \<noteq> 0 \<or> a \<notin> set (gActiveDevices d)")
  case True
  then have "st \<noteq> 0" "d' = d\<lparr>host_state := host_state d\<rparr>"
    using call by (auto simp: RemoveDeviceLocked_def split: if_splits)
  then show thesis using host_quiet.same by (intro that(1))
next
  case False
  let ?d1 = "d\<lparr>gActiveDevices := remove1 a (gActiveDevices d)\<rparr>"
  obtain st1 d1 where per: "(if persist then PersistLocked h ?d1 else (0, ?d1)) = (st1, d1)" by fastforce
  have "\<exists>s. d1 = ?d1\<lparr>host_state := s\<rparr>"
  proof (cases persist)
    case True
    then show ?thesis using per PersistLocked_frame [of h ?d1 st1 d1] by simp
  next
    case False
    then show ?thesis using per by (intro exI [of _ "host_state d"]) auto
  qed
  then obtain s where d1: "d1 = ?d1\<lparr>host_state := s\<rparr>" by blast
  have host: "if st1 = 0 then persist \<longrightarrow> host_stores h (InventoryLocked ?d1) (host_state d) s
      else host_quiet h (host_state d) s"
    using per d1 PersistLocked_host [of h ?d1 st1 d1] by (auto split: if_splits)
  let ?n = "length (takeWhile (\<lambda>b. b \<noteq> a) (gActiveDevices d))"
  have again: "take ?n (remove1 a (gActiveDevices d)) @ a # drop ?n (remove1 a (gActiveDevices d)) = gActiveDevices d"
    unfolding erase_is_remove1 [symmetric] using insert_again [of a "gActiveDevices d"] False by simp
  have r: "(st, d') = (if st1 \<noteq> 0 then (st1, d\<lparr>host_state := s\<rparr>)
      else (0, with_dev a (\<lambda>v. v\<lparr>dd_active := False\<rparr>) d1))"
    using call False again unfolding RemoveDeviceLocked_def Let_def option.case erase_is_remove1 per prod.case
    by (auto simp: d1 split: if_splits)
  show thesis
  proof (cases "st1 = 0")
    case True
    have "\<exists>s'. PersistLocked h ?d1 = (0, ?d1\<lparr>host_state := s'\<rparr>)" if persist
      using per that True d1 by (intro exI [of _ s]) simp
    then show thesis using True r d1 False host by (intro that(2) [of s]) simp_all
  next
    case False
    then show thesis using r host by (intro that(1) [of s]) simp_all
  qed
qed

lemma RemoveDeviceLocked_inv:
  assumes inv: "driver_inv d" and call: "RemoveDeviceLocked h (Some a) persist d = (st, d')"
  shows "driver_inv d'"
  using call
proof (cases rule: RemoveDeviceLocked_cases)
  case (2 s)
  have "a \<notin> set (remove1 a (gActiveDevices d))"
    using inv by (simp add: driver_inv_def active_ok_def set_remove1_eq)
  moreover have "driver_inv (d\<lparr>gActiveDevices := remove1 a (gActiveDevices d), host_state := s\<rparr>)"
    using driver_inv_without [OF inv, of a] driver_inv_frame(1) by simp
  moreover have "in_slot (d\<lparr>gActiveDevices := remove1 a (gActiveDevices d), host_state := s\<rparr>) a = in_slot d a"
    by (simp add: in_slot_def)
  moreover have "in_slot d a" using inv 2(2) by (simp add: driver_inv_def active_ok_def)
  ultimately show ?thesis
    unfolding 2(4) by (intro driver_inv_with_dev) (simp_all add: same_device_def)
qed (use inv in simp)

lemma ReleaseRetiredSlotLocked_inv:
  assumes inv: "driver_inv d"
  shows "driver_inv (ReleaseRetiredSlotLocked a d)"
proof (cases "ReleaseRetiredSlotLocked a d = d")
  case False
  let ?sl = "dd_slot (dev d a)"
  have a: "\<not> dd_active (dev d a)" "dd_attached (dev d a) = 0" "dd_running (dev d a) = 0" "gSlots d ! ?sl = Some a"
    and d: "ReleaseRetiredSlotLocked a d = d\<lparr>gSlots := (gSlots d)[?sl := None]\<rparr>" (is "_ = ?d")
    using False by (auto simp: ReleaseRetiredSlotLocked_def split: if_splits)
  have kept: "in_slot ?d b" if "in_slot d b" "b \<noteq> a" for b
    using that a(4) by (cases "dd_slot (dev d b) = ?sl") (auto simp: in_slot_def)
  have "slots_ok ?d" using inv
    by (cases "?sl < kMaximumDevices") (auto simp: driver_inv_def slots_ok_def nth_list_update list_update_beyond
        split: if_splits)
  moreover have "active_ok ?d" using inv kept a(1) by (auto simp: driver_inv_def active_ok_def)
  moreover have "clients_ok ?d" using inv kept a(2,3) by (auto simp: driver_inv_def clients_ok_def)
  ultimately show ?thesis using inv unfolding d by (simp add: driver_inv_def)
qed (use inv in simp)

section \<open>Histories\<close>

datatype driver_call =
    InitializeCall
  | DestroyCall u32
  | AddClientCall u32
  | RemoveClientCall u32
  | PerformCall u32 u64 "nat option"
  | AbortCall u32 u64 "nat option"
  | ControlCall "string option"
  | StreamActiveCall u32 u32
  | StartCall u32
  | StopCall u32
  | IoCall u32 u32 io_operation nat u64 "f32 list option"

fun run_call :: "'h driver_host \<Rightarrow> driver_call \<Rightarrow> 'h driver \<Rightarrow> i32 \<times> 'h driver" where
  "run_call h InitializeCall d = Initialize h d"
| "run_call h (DestroyCall object) d = DestroyDevice h object d"
| "run_call h (AddClientCall object) d = AddDeviceClient object d"
| "run_call h (RemoveClientCall object) d = RemoveDeviceClient object d"
| "run_call h (PerformCall object action info) d = PerformDeviceConfigurationChange h object action info d"
| "run_call h (AbortCall object action info) d = AbortDeviceConfigurationChange object action info d"
| "run_call h (ControlCall msg) d = SetControl h msg d"
| "run_call h (StreamActiveCall object value) d = SetStreamActive h object value d"
| "run_call h (StartCall object) d = StartIO h object d"
| "run_call h (StopCall object) d = StopIO object d"
| "run_call h (IoCall object stream operation n time buf) d =
     (let ((st, out), d1) = DoIOOperation object stream operation n time buf d in (st, d1))"

text \<open>The state after a history of calls; between two calls the host may do anything to its own state.\<close>

inductive driver_reachable :: "'h driver_host \<Rightarrow> 'h driver \<Rightarrow> bool" for h where
  loaded: "driver_reachable h (driver_loaded s)"
| call: "driver_reachable h d \<Longrightarrow> driver_reachable h (snd (run_call h c d))"
| host: "driver_reachable h d \<Longrightarrow> driver_reachable h (d\<lparr>host_state := s\<rparr>)"

lemma DeviceForObject_Some:
  assumes "driver_inv d" "DeviceForObject object d = Some a"
  shows "a < length (gAllDevices d)" "in_slot d a"
proof -
  let ?sl = "unat (object - kFirstDeviceObjectID) div kObjectsPerDevice"
  have "?sl < kMaximumDevices" "gSlots d ! ?sl = Some a"
    using assms(2) by (auto simp: DeviceForObject_def Let_def split: if_splits option.splits)
  then show "a < length (gAllDevices d)" "in_slot d a"
    using assms(1) by (auto simp: driver_inv_def slots_ok_def in_slot_def)
qed

lemma on_device_inv:
  assumes inv: "driver_inv d"
    and f: "\<And>a. a < length (gAllDevices d) \<Longrightarrow> in_slot d a \<Longrightarrow> driver_inv (snd (f a d))"
  shows "driver_inv (snd (on_device object f d))"
  using inv f DeviceForObject_Some [OF inv, of object] by (auto simp: on_device_def split: option.splits)

lemma notify_of_frame: "\<exists>s. notify_of object h d = d\<lparr>host_state := s\<rparr>"
  by (auto simp: notify_of_def intro: exI [of _ "host_state d"])

lemma driver_inv_notify [simp]:
  "driver_inv (notify_of object h d) = driver_inv d" "driver_inv (NotifyDeviceListChanged h d) = driver_inv d"
  by (simp_all add: notify_of_def NotifyDeviceListChanged_def)

lemma load_inventory_inv: "driver_inv d \<Longrightarrow> driver_inv (snd (load_inventory h ls d))"
  by (induction ls arbitrary: d) (auto split: prod.splits dest: AddDeviceLocked_inv)

lemma Initialize_inv: "driver_inv d \<Longrightarrow> driver_inv (snd (Initialize h d))"
  by (auto simp: Initialize_def Let_def load_inventory_inv split: prod.splits stored_value.splits option.splits)

lemma remove_and_release_inv: "driver_inv d \<Longrightarrow> driver_inv (snd (remove_and_release h a d))"
  by (auto simp: remove_and_release_def ReleaseRetiredSlotLocked_inv split: prod.splits dest: RemoveDeviceLocked_inv)

lemma driver_inv_clients:
  assumes "driver_inv d" "in_slot d a" "\<And>v. same_device v (f v)" "\<And>v. dd_active (f v) = dd_active v"
  shows "driver_inv (with_dev a f d)"
  using assms by (intro driver_inv_with_dev) (auto simp: driver_inv_def active_ok_def)

lemma SetControl_inv:
  assumes inv: "driver_inv d"
  shows "driver_inv (snd (SetControl h msg d))"
proof (cases msg)
  case (Some cmd)
  obtain r d1 where r: "control_locked h cmd d = (r, d1)" by fastforce
  have pend: "driver_inv (with_dev a (\<lambda>v. v\<lparr>dd_delete_pending := b\<rparr>) d)" if "driver_inv d" for a b d
    using that by (intro driver_inv_with_dev) (auto simp: same_device_def driver_inv_def active_ok_def clients_ok_def)
  have pend': "driver_inv (d\<lparr>host_state := s, gAllDevices := (gAllDevices d)[a := (dev d a)\<lparr>dd_delete_pending := b\<rparr>]\<rparr>)"
    if "driver_inv d" for a b d s
    using pend [of "d\<lparr>host_state := s\<rparr>" a b] that by simp
  have "driver_inv d1"
    using r inv pend AddDeviceLocked_inv [OF inv]
    by (auto simp: control_locked_def Let_def split: if_splits prod.splits option.splits)
  then have "driver_inv (snd (control_unlocked h r d1))"
    using pend pend' by (auto simp: control_unlocked_def Let_def split: if_splits prod.splits option.splits)
  then show ?thesis using Some r by (simp add: SetControl_def)
qed (use inv in \<open>simp add: SetControl_def\<close>)

lemma run_call_inv:
  assumes inv: "driver_inv d"
  shows "driver_inv (snd (run_call h c d))"
proof (cases c)
  case (AddClientCall object)
  then show ?thesis using inv
    by (auto simp: AddDeviceClient_def same_device_def intro!: on_device_inv driver_inv_clients)
next
  case (RemoveClientCall object)
  then show ?thesis using inv
    by (auto simp: RemoveDeviceClient_def same_device_def
        intro!: on_device_inv ReleaseRetiredSlotLocked_inv driver_inv_clients)
next
  case (PerformCall object action info)
  then show ?thesis using inv
    by (auto simp: PerformDeviceConfigurationChange_def Let_def same_device_def
        intro!: on_device_inv remove_and_release_inv driver_inv_clients)
next
  case (AbortCall object action info)
  then show ?thesis using inv
    by (auto simp: AbortDeviceConfigurationChange_def same_device_def intro!: on_device_inv driver_inv_clients)
next
  case (StartCall object)
  have start: "driver_inv (with_dev a f (d\<lparr>host_state := s\<rparr>))"
    if "in_slot d a" "\<And>v. same_device v (f v)" "\<And>v. dd_active (f v) = dd_active v" for a f s
    using that inv by (intro driver_inv_clients) (auto simp: in_slot_def)
  have "driver_inv (snd (if \<not> dd_active (dev d a) then (BadObject, d)
      else let was = dd_running (dev d a); d1 = with_dev a (\<lambda>v. v\<lparr>dd_running := was + 1\<rparr>) d in
       if was \<noteq> 0 then (0, d1)
       else let (now, s1) = absolute_time h (host_state d1) in
         (0, with_dev a (\<lambda>v. v\<lparr>dd_memory := ClearTags (dd_memory v), dd_anchor := now,
                dd_clock_seed := dd_clock_seed v + 1\<rparr>) (d1\<lparr>host_state := s1\<rparr>))))"
    if a: "a < length (gAllDevices d)" "in_slot d a" for a
  proof -
    obtain now s1 where t: "absolute_time h (host_state d) = (now, s1)" by fastforce
    let ?f = "\<lambda>v. v\<lparr>dd_running := dd_running (dev d a) + 1, dd_memory := ClearTags (dd_memory v), dd_anchor := now,
      dd_clock_seed := dd_clock_seed v + 1\<rparr>"
    have "driver_inv (with_dev a ?f (d\<lparr>host_state := s1\<rparr>))"
      using start [OF a(2), of ?f s1] by (simp add: same_device_def)
    moreover have "driver_inv (with_dev a (\<lambda>v. v\<lparr>dd_running := dd_running (dev d a) + 1\<rparr>) d)"
      using a(2) inv by (intro driver_inv_clients) (auto simp: same_device_def)
    ultimately show ?thesis using inv a(1) t by (cases "dd_running (dev d a) = 0") (simp_all add: Let_def)
  qed
  then show ?thesis using inv StartCall by (simp add: StartIO_def on_device_inv)
next
  case (StopCall object)
  then show ?thesis using inv
    by (auto simp: StopIO_def same_device_def
        intro!: on_device_inv ReleaseRetiredSlotLocked_inv driver_inv_clients)
next
  case (DestroyCall object)
  then show ?thesis using inv by (auto simp: DestroyDevice_def intro!: on_device_inv remove_and_release_inv)
next
  case (StreamActiveCall object v)
  then show ?thesis using inv DeviceForObject_Some [OF inv, of object]
    by (auto simp: SetStreamActive_def same_device_def split: ObjectKind.splits option.splits intro!: driver_inv_clients)
next
  case (IoCall object stream operation n time buf)
  then show ?thesis using inv DeviceForObject_Some [OF inv, of object]
    by (auto simp: DoIOOperation_def Let_def same_device_def split: option.splits prod.splits if_splits intro!: driver_inv_clients)
qed (use inv Initialize_inv SetControl_inv in auto)

lemma driver_reachable_inv: "driver_reachable h d \<Longrightarrow> driver_inv d"
  by (induction rule: driver_reachable.induct) (simp_all add: driver_inv_loaded run_call_inv)

section \<open>Object ids\<close>

lemma object_id_numbers:
  assumes "dd_slot v < kMaximumDevices"
  shows "unat (DeviceObjectID v) = 100 + 3 * dd_slot v" "unat (InputStreamObjectID v) = 101 + 3 * dd_slot v"
    "unat (OutputStreamObjectID v) = 102 + 3 * dd_slot v"
proof -
  have small: "dd_slot v < 4096" using assms by (simp add: kMaximumDevices_def)
  have "DeviceObjectID v = of_nat (100 + 3 * dd_slot v)" "InputStreamObjectID v = of_nat (101 + 3 * dd_slot v)"
    "OutputStreamObjectID v = of_nat (102 + 3 * dd_slot v)"
    by (simp_all add: DeviceObjectID_def InputStreamObjectID_def OutputStreamObjectID_def
        kFirstDeviceObjectID_def kObjectsPerDevice_def algebra_simps)
  moreover have "unat (of_nat n :: u32) = n" if "n < 2 ^ 32" for n
    using that by (simp add: unat_of_nat)
  moreover have "100 + 3 * dd_slot v < 2 ^ 32" "101 + 3 * dd_slot v < 2 ^ 32" "102 + 3 * dd_slot v < 2 ^ 32"
    using small by simp_all
  ultimately show "unat (DeviceObjectID v) = 100 + 3 * dd_slot v" "unat (InputStreamObjectID v) = 101 + 3 * dd_slot v"
    "unat (OutputStreamObjectID v) = 102 + 3 * dd_slot v"
    by (metis (no_types))+
qed

lemma DeviceForObject_number:
  assumes "unat object = 100 + 3 * dd_slot (dev d a) + j" "j < 3" "in_slot d a"
  shows "DeviceForObject object d = Some a"
proof -
  have "\<not> object < kFirstDeviceObjectID"
    using assms(1) by (simp add: word_less_nat_alt kFirstDeviceObjectID_def)
  moreover have "unat (object - kFirstDeviceObjectID) = 3 * dd_slot (dev d a) + j"
    using assms(1) by (subst unat_sub) (simp_all add: word_le_nat_alt kFirstDeviceObjectID_def)
  then have "unat (object - kFirstDeviceObjectID) div kObjectsPerDevice = dd_slot (dev d a)"
    using assms(2) by (simp add: kObjectsPerDevice_def)
  moreover have "dd_slot (dev d a) < kMaximumDevices" "gSlots d ! dd_slot (dev d a) = Some a"
    using assms(3) by (simp_all add: in_slot_def)
  moreover from this(1) have "\<not> OutputStreamObjectID (dev d a) < object"
    using object_id_numbers(3) assms(1,2) by (simp add: word_less_nat_alt)
  ultimately show ?thesis by (simp add: DeviceForObject_def Let_def)
qed

lemma object_lookup:
  assumes "in_slot d a"
  shows "DeviceForObject (DeviceObjectID (dev d a)) d = Some a" "DeviceForObject (InputStreamObjectID (dev d a)) d = Some a"
    "DeviceForObject (OutputStreamObjectID (dev d a)) d = Some a"
    "KindForObject (DeviceObjectID (dev d a)) d = KindDevice" "KindForObject (InputStreamObjectID (dev d a)) d = KindInputStream"
    "KindForObject (OutputStreamObjectID (dev d a)) d = KindOutputStream"
proof -
  have "dd_slot (dev d a) < kMaximumDevices" using assms by (simp add: in_slot_def)
  note n = object_id_numbers [OF this]
  show f: "DeviceForObject (DeviceObjectID (dev d a)) d = Some a" "DeviceForObject (InputStreamObjectID (dev d a)) d = Some a"
    "DeviceForObject (OutputStreamObjectID (dev d a)) d = Some a"
    using n assms by (auto intro: DeviceForObject_number [where j = 0] DeviceForObject_number [where j = 1]
        DeviceForObject_number [where j = 2])
  have "DeviceObjectID (dev d a) \<noteq> kAudioObjectPlugInObject" "InputStreamObjectID (dev d a) \<noteq> kAudioObjectPlugInObject"
    "OutputStreamObjectID (dev d a) \<noteq> kAudioObjectPlugInObject" "InputStreamObjectID (dev d a) \<noteq> DeviceObjectID (dev d a)"
    "OutputStreamObjectID (dev d a) \<noteq> DeviceObjectID (dev d a)" "OutputStreamObjectID (dev d a) \<noteq> InputStreamObjectID (dev d a)"
    using n by (auto simp: word_unat_eq_iff kAudioObjectPlugInObject_def)
  with f show "KindForObject (DeviceObjectID (dev d a)) d = KindDevice"
    "KindForObject (InputStreamObjectID (dev d a)) d = KindInputStream"
    "KindForObject (OutputStreamObjectID (dev d a)) d = KindOutputStream"
    by (simp_all add: KindForObject_def)
qed

lemma active_device:
  assumes "driver_inv d" "a \<in> set (gActiveDevices d)"
  shows "a < length (gAllDevices d)" "in_slot d a" "device_ok (dev d a)"
  using assms by (auto simp: driver_inv_def active_ok_def list_all_length)

lemma client_in_slot:
  assumes "driver_inv d" "a < length (gAllDevices d)"
    "a \<in> set (gActiveDevices d) \<or> dd_attached (dev d a) \<noteq> 0 \<or> dd_running (dev d a) \<noteq> 0"
  shows "in_slot d a"
  using assms active_device(2) [OF assms(1)] by (auto simp: driver_inv_def clients_ok_def)

lemma distinct_devices:
  assumes inv: "driver_inv d"
  shows "distinct (map (\<lambda>a. dd_id (dev d a)) (gActiveDevices d))"
    "distinct (map (\<lambda>a. dd_uid (dev d a)) (gActiveDevices d))" "distinct (GetDeviceList d)"
proof -
  have dist: "distinct (gActiveDevices d)" and ids: "inj_on (\<lambda>a. dd_id (dev d a)) (set (gActiveDevices d))"
    using inv by (simp_all add: driver_inv_def active_ok_def)
  have "inj_on (\<lambda>a. dd_uid (dev d a)) (set (gActiveDevices d))"
  proof (rule inj_onI)
    fix a b assume m: "a \<in> set (gActiveDevices d)" "b \<in> set (gActiveDevices d)" "dd_uid (dev d a) = dd_uid (dev d b)"
    have "dd_uid (dev d a) = kUIDPrefix @ dd_id (dev d a)" "dd_uid (dev d b) = kUIDPrefix @ dd_id (dev d b)"
      using active_device(3) [OF inv m(1)] active_device(3) [OF inv m(2)] unfolding device_ok_def by blast+
    with m(3) have "dd_id (dev d a) = dd_id (dev d b)" by (metis same_append_eq)
    from inj_onD [OF ids this m(1,2)] show "a = b" .
  qed
  moreover have "inj_on (\<lambda>a. DeviceObjectID (dev d a)) (set (gActiveDevices d))"
  proof (rule inj_onI)
    fix a b assume m: "a \<in> set (gActiveDevices d)" "b \<in> set (gActiveDevices d)"
      "DeviceObjectID (dev d a) = DeviceObjectID (dev d b)"
    have "Some a = Some b"
      using object_lookup(1) [OF active_device(2) [OF inv m(1)]] object_lookup(1) [OF active_device(2) [OF inv m(2)]]
      by (simp only: m(3))
    then show "a = b" by (rule option.inject [THEN iffD1])
  qed
  ultimately show "distinct (map (\<lambda>a. dd_id (dev d a)) (gActiveDevices d))"
    "distinct (map (\<lambda>a. dd_uid (dev d a)) (gActiveDevices d))" "distinct (GetDeviceList d)"
    unfolding GetDeviceList_def distinct_map using dist ids by blast+
qed

text \<open>C29: In every state the driver can reach, whatever the host, Core Foundation and the allocator
  answer, the active devices have different identifiers, UIDs and object ids, parameters inside the
  limits, and their three object ids lead to them and to nothing else; and a device with an attached or
  a running client, deleted or not, still answers under its ids, which no other device gets.\<close>

theorem driver_devices_keep_their_ids:
  assumes "driver_reachable h d"
  shows "distinct (map (\<lambda>a. dd_id (dev d a)) (gActiveDevices d)) \<and> distinct (map (\<lambda>a. dd_uid (dev d a)) (gActiveDevices d))
    \<and> distinct (GetDeviceList d)
    \<and> (\<forall>a \<in> set (gActiveDevices d).
         ValidID (dd_id (dev d a)) \<and> ValidName (dd_name (dev d a)) \<and> dd_uid (dev d a) = kUIDPrefix @ dd_id (dev d a)
         \<and> 0 < dd_inputs (dev d a) \<and> dd_inputs (dev d a) \<le> 64 \<and> 0 < dd_outputs (dev d a) \<and> dd_outputs (dev d a) \<le> 64
         \<and> 8000 \<le> dd_rate (dev d a) \<and> dd_rate (dev d a) \<le> 768000
         \<and> KindForObject (DeviceObjectID (dev d a)) d = KindDevice
         \<and> KindForObject (InputStreamObjectID (dev d a)) d = KindInputStream
         \<and> KindForObject (OutputStreamObjectID (dev d a)) d = KindOutputStream)
    \<and> (\<forall>a < length (gAllDevices d).
         a \<in> set (gActiveDevices d) \<or> dd_attached (dev d a) \<noteq> 0 \<or> dd_running (dev d a) \<noteq> 0 \<longrightarrow>
         DeviceForObject (DeviceObjectID (dev d a)) d = Some a
         \<and> DeviceForObject (InputStreamObjectID (dev d a)) d = Some a
         \<and> DeviceForObject (OutputStreamObjectID (dev d a)) d = Some a)"
proof -
  have inv: "driver_inv d" by (rule driver_reachable_inv [OF assms])
  have "\<forall>a \<in> set (gActiveDevices d). ValidID (dd_id (dev d a)) \<and> ValidName (dd_name (dev d a)) \<and> dd_uid (dev d a) = kUIDPrefix @ dd_id (dev d a)
         \<and> 0 < dd_inputs (dev d a) \<and> dd_inputs (dev d a) \<le> 64 \<and> 0 < dd_outputs (dev d a) \<and> dd_outputs (dev d a) \<le> 64
         \<and> 8000 \<le> dd_rate (dev d a) \<and> dd_rate (dev d a) \<le> 768000
         \<and> KindForObject (DeviceObjectID (dev d a)) d = KindDevice
         \<and> KindForObject (InputStreamObjectID (dev d a)) d = KindInputStream
         \<and> KindForObject (OutputStreamObjectID (dev d a)) d = KindOutputStream"
  proof
    fix a assume a: "a \<in> set (gActiveDevices d)"
    note s = active_device(3) [OF inv a, unfolded device_ok_def kMaximumChannels_def]
      object_lookup(4-6) [OF active_device(2) [OF inv a]]
    show "ValidID (dd_id (dev d a)) \<and> ValidName (dd_name (dev d a)) \<and> dd_uid (dev d a) = kUIDPrefix @ dd_id (dev d a)
         \<and> 0 < dd_inputs (dev d a) \<and> dd_inputs (dev d a) \<le> 64 \<and> 0 < dd_outputs (dev d a) \<and> dd_outputs (dev d a) \<le> 64
         \<and> 8000 \<le> dd_rate (dev d a) \<and> dd_rate (dev d a) \<le> 768000
         \<and> KindForObject (DeviceObjectID (dev d a)) d = KindDevice
         \<and> KindForObject (InputStreamObjectID (dev d a)) d = KindInputStream
         \<and> KindForObject (OutputStreamObjectID (dev d a)) d = KindOutputStream"
      using s by (intro conjI) simp_all
  qed
  moreover have "\<forall>a < length (gAllDevices d).
         a \<in> set (gActiveDevices d) \<or> dd_attached (dev d a) \<noteq> 0 \<or> dd_running (dev d a) \<noteq> 0 \<longrightarrow>
         DeviceForObject (DeviceObjectID (dev d a)) d = Some a
         \<and> DeviceForObject (InputStreamObjectID (dev d a)) d = Some a
         \<and> DeviceForObject (OutputStreamObjectID (dev d a)) d = Some a"
    by (intro allI impI conjI object_lookup(1-3) client_in_slot [OF inv])
  ultimately show ?thesis using distinct_devices [OF inv] by (intro conjI)
qed

section \<open>Command lines\<close>

lemma position_of_None: "position_of c s = None \<longleftrightarrow> c \<notin> set s"
  by (induction s) auto

lemma position_of_Some:
  "position_of c s = Some n \<Longrightarrow> c \<notin> set (take n s) \<and> s = take n s @ c # drop (Suc n) s"
  by (induction s arbitrary: n) (auto split: if_splits)

lemma Split_split_at: "Split s c = split_at c s"
proof (induction s c rule: Split.induct)
  case (1 s c)
  show ?case
  proof (cases "position_of c s")
    case None
    then have "Split s c = [s]" by (simp add: Split.simps)
    moreover have "c \<notin> set s" using None position_of_None by blast
    ultimately show ?thesis by (simp add: split_at_none)
  next
    case (Some n)
    note q = position_of_Some [OF Some]
    have "Split s c = take n s # split_at c (drop (Suc n) s)" using Some 1 by (simp add: Split.simps)
    also have "\<dots> = split_at c s" using q split_at_append by metis
    finally show ?thesis .
  qed
qed

lemma parse_digits_append:
  "parse_digits p (xs @ ys) = Option.bind (parse_digits p xs) (\<lambda>q. parse_digits q ys)"
  by (induction xs arbitrary: p) (auto simp: Let_def)

lemma parse_digits_show: "n \<le> 2 ^ 32 - 1 \<Longrightarrow> parse_digits 0 (show_nat n) = Some n"
proof (induction n rule: show_nat.induct)
  case (1 n)
  show ?case
  proof (cases "n < 10")
    case True
    then show ?thesis by (subst show_nat.simps) (simp add: byte_digit_char Let_def)
  next
    case False
    then have "parse_digits 0 (show_nat (n div 10)) = Some (n div 10)" using 1 by simp
    moreover have "n div 10 * 10 + n mod 10 = n" by simp
    ultimately show ?thesis
      using False 1(2) by (subst show_nat.simps) (simp add: parse_digits_append byte_digit_char Let_def)
  qed
qed

lemma ParseUInt32_show: "ParseUInt32 (show_u32 w) = Some w"
proof -
  have "unat w \<le> 2 ^ 32 - 1" using unsigned_less [of w, where 'a = nat] by simp
  moreover have "show_u32 w \<noteq> []" by (simp add: show_u32_def)
  ultimately show ?thesis by (simp add: ParseUInt32_def show_u32_def parse_digits_show)
qed

definition creatable :: "string \<Rightarrow> string \<Rightarrow> u32 \<Rightarrow> u32 \<Rightarrow> u32 \<Rightarrow> bool" where
  "creatable i name ins outs rate \<longleftrightarrow> ValidID i \<and> ValidName name \<and> 0 < ins \<and> ins \<le> 64
     \<and> 0 < outs \<and> outs \<le> 64 \<and> 8000 \<le> rate \<and> rate \<le> 768000"

definition create_words :: "string \<Rightarrow> string \<Rightarrow> u32 \<Rightarrow> u32 \<Rightarrow> u32 \<Rightarrow> string list" where
  "create_words i name ins outs rate = [''create'', i, name, show_u32 ins, show_u32 outs, show_u32 rate]"

lemma device_fields_create:
  "device_fields (create_words i name ins outs rate)
    = (if creatable i name ins outs rate then Some (i, name, ins, outs, rate) else None)"
  by (auto simp: device_fields_def create_words_def ParseUInt32_show creatable_def kMaximumChannels_def
      word_neq_0_conv not_less)

lemma creatable_device: "device_ok v \<longleftrightarrow>
  creatable (dd_id v) (dd_name v) (dd_inputs v) (dd_outputs v) (dd_rate v) \<and> dd_uid v = kUIDPrefix @ dd_id v"
  by (auto simp: device_ok_def creatable_def kMaximumChannels_def)

lemma id_char_clean: "id_char c \<Longrightarrow> c \<noteq> tab \<and> c \<noteq> CHR 0x0A"
  by (auto simp: id_char_def in_range_def byte_def)

lemma valid_clean:
  "ValidID i \<Longrightarrow> tab \<notin> set i \<and> CHR 0x0A \<notin> set i" "ValidName n \<Longrightarrow> tab \<notin> set n \<and> CHR 0x0A \<notin> set n"
  using id_char_clean by (auto simp: ValidID_def ValidName_def list_all_iff list_ex_iff byte_def)

lemma words_clean:
  assumes "creatable i name ins outs rate" "w \<in> set (create_words i name ins outs rate)"
  shows "tab \<notin> set w" "CHR 0x0A \<notin> set w"
  using assms valid_clean number_text by (auto simp: creatable_def create_words_def)

lemma inventory_line_words:
  "inventory_line v = join_with tab (create_words (dd_id v) (dd_name v) (dd_inputs v) (dd_outputs v) (dd_rate v)) @ [CHR 0x0A]"
  by (simp add: inventory_line_def create_words_def)

lemma split_words:
  assumes "creatable i name ins outs rate"
  shows "Split (join_with tab (create_words i name ins outs rate)) tab = create_words i name ins outs rate"
  unfolding Split_split_at
proof (rule split_join)
  fix f assume "f \<in> set (create_words i name ins outs rate)"
  then show "tab \<notin> set f" by (rule words_clean(1) [OF assms])
qed (simp add: create_words_def)

lemma line_clean:
  assumes "creatable i name ins outs rate"
  shows "CHR 0x0A \<notin> set (join_with tab (create_words i name ins outs rate))"
  using set_join [of tab "create_words i name ins outs rate"] words_clean(2) [OF assms] by auto

lemma split_inventory:
  assumes "\<forall>v \<in> set vs. device_ok v"
  shows "Split (concat (map inventory_line vs)) (CHR 0x0A)
    = map (\<lambda>v. join_with tab (create_words (dd_id v) (dd_name v) (dd_inputs v) (dd_outputs v) (dd_rate v))) vs @ [[]]"
  using assms
proof (induction vs)
  case (Cons v vs)
  have "creatable (dd_id v) (dd_name v) (dd_inputs v) (dd_outputs v) (dd_rate v)"
    using Cons(2) creatable_device by simp
  from split_at_append [OF line_clean [OF this]] Cons show ?case
    by (simp add: Split_split_at inventory_line_words del: join_with.simps)
qed (simp add: Split_split_at)

section \<open>Reading the inventory back\<close>

definition identity :: "driver_device \<Rightarrow> string \<times> string \<times> string \<times> u32 \<times> u32 \<times> u32" where
  "identity v = (dd_id v, dd_name v, dd_uid v, dd_inputs v, dd_outputs v, dd_rate v)"

definition devices :: "'h driver \<Rightarrow> driver_device list" where
  "devices d = map (\<lambda>a. dev d a) (gActiveDevices d)"

lemma InventoryLocked_devices: "InventoryLocked d = concat (map inventory_line (devices d))"
  by (simp add: InventoryLocked_def devices_def comp_def)

lemma inventory_line_identity: "identity v = identity w \<Longrightarrow> inventory_line v = inventory_line w"
  by (simp add: identity_def inventory_line_def)

lemma free_slot_packed: "free_slot (map Some [0..<k] @ replicate m None) = (if m = 0 then None else Some k)"
proof -
  have "free_slot (map Some xs @ replicate m None) = (if m = 0 then None else Some (length xs))" for xs :: "nat list"
    by (induction xs) (cases m, simp_all)
  from this [of "[0..<k]"] show ?thesis by simp
qed

definition packed :: "nat \<Rightarrow> 'h driver \<Rightarrow> bool" where
  "packed k d \<longleftrightarrow> gSlots d = map Some [0..<k] @ replicate (kMaximumDevices - k) None
     \<and> gActiveDevices d = [0..<k] \<and> length (gAllDevices d) = k \<and> k \<le> kMaximumDevices"

lemma load_line:
  assumes p: "packed k d" "k < kMaximumDevices" and ok: "\<And>i n s. fst (make_device h i n s)"
    and c: "creatable i name ins outs rate" and new: "i \<notin> dd_id ` set (gAllDevices d)"
  shows "\<exists>s. AddDeviceLocked h (create_words i name ins outs rate) False d
    = (0, d\<lparr>gAllDevices := gAllDevices d @ [Device_new k i name ins outs rate],
        gActiveDevices := gActiveDevices d @ [k], gSlots := (gSlots d)[k := Some k], host_state := s\<rparr>)"
proof -
  obtain s where s: "make_device h i name (host_state d) = (True, s)"
    using ok [of i name "host_state d"] by (cases "make_device h i name (host_state d)") auto
  have "FindByIDLocked i d = None"
  proof -
    have "dd_id (dev d x) \<noteq> i" if "x < k" for x
      using p(1) new that nth_mem [of x "gAllDevices d"] by (auto simp: packed_def)
    then show ?thesis using p(1) by (auto simp: FindByIDLocked_def find_None_iff packed_def)
  qed
  moreover have "free_slot (gSlots d) = Some k" using p by (simp add: packed_def free_slot_packed)
  ultimately show ?thesis
    using s c p(1) by (auto simp: AddDeviceLocked_def device_fields_create packed_def Let_def)
qed

lemma packed_step:
  assumes "packed k d" "k < kMaximumDevices"
  shows "packed (Suc k) (d\<lparr>gAllDevices := gAllDevices d @ [v], gActiveDevices := gActiveDevices d @ [k],
    gSlots := (gSlots d)[k := Some k], host_state := s\<rparr>)"
proof -
  obtain m where m: "kMaximumDevices - k = Suc m" "kMaximumDevices - Suc k = m"
    using assms(2) by (metis Suc_diff_Suc)
  have "gSlots d = map Some [0..<k] @ None # replicate m None" using assms(1) m by (simp add: packed_def)
  then have "(gSlots d)[k := Some k] = (map Some [0..<k] @ [Some k]) @ replicate m None"
    by (simp add: list_update_append)
  then show ?thesis using assms m(2) by (simp add: packed_def)
qed

lemma load_devices:
  assumes "packed k d" "k + length vs \<le> kMaximumDevices" "\<And>i n s. fst (make_device h i n s)"
    and "\<forall>v \<in> set vs. device_ok v" "distinct (map dd_id vs)" "dd_id ` set vs \<inter> dd_id ` set (gAllDevices d) = {}"
  shows "\<exists>d'. load_inventory h
      (map (\<lambda>v. join_with tab (create_words (dd_id v) (dd_name v) (dd_inputs v) (dd_outputs v) (dd_rate v))) vs @ [[]]) d
    = (0, d') \<and> packed (k + length vs) d'
    \<and> map identity (gAllDevices d') = map identity (gAllDevices d) @ map identity vs"
  using assms
proof (induction vs arbitrary: k d)
  case (Cons v vs)
  let ?line = "join_with tab (create_words (dd_id v) (dd_name v) (dd_inputs v) (dd_outputs v) (dd_rate v))"
  let ?v = "Device_new k (dd_id v) (dd_name v) (dd_inputs v) (dd_outputs v) (dd_rate v)"
  have c: "creatable (dd_id v) (dd_name v) (dd_inputs v) (dd_outputs v) (dd_rate v)" and uid: "dd_uid v = kUIDPrefix @ dd_id v"
    using Cons.prems(4) creatable_device by auto
  have k: "k < kMaximumDevices" using Cons.prems(2) by simp
  have "dd_id v \<notin> dd_id ` set (gAllDevices d)" using Cons.prems(6) by auto
  from load_line [OF Cons.prems(1) k Cons.prems(3) c this] obtain s where
    add: "AddDeviceLocked h (create_words (dd_id v) (dd_name v) (dd_inputs v) (dd_outputs v) (dd_rate v)) False d
      = (0, d\<lparr>gAllDevices := gAllDevices d @ [?v], gActiveDevices := gActiveDevices d @ [k],
          gSlots := (gSlots d)[k := Some k], host_state := s\<rparr>)" (is "_ = (0, ?d)") by blast
  have line: "?line \<noteq> []" by (simp add: create_words_def)
  have same: "dd_id ?v = dd_id v" "identity ?v = identity v" using uid by (simp_all add: Device_new_def identity_def)
  have "\<exists>d'. load_inventory h (map (\<lambda>v. join_with tab (create_words (dd_id v) (dd_name v) (dd_inputs v) (dd_outputs v)
        (dd_rate v))) vs @ [[]]) ?d = (0, d') \<and> packed (Suc k + length vs) d'
      \<and> map identity (gAllDevices d') = map identity (gAllDevices ?d) @ map identity vs"
    using packed_step [OF Cons.prems(1) k] Cons.prems same(1) by (intro Cons.IH) auto
  then show ?case using add line same(2) split_words [OF c] by (simp del: join_with.simps)
qed simp

lemma slots_bound:
  assumes inv: "driver_inv d"
  shows "length (gActiveDevices d) \<le> kMaximumDevices"
proof -
  have m: "in_slot d a" if "a \<in> set (gActiveDevices d)" for a using active_device(2) [OF inv that] .
  have "inj_on (\<lambda>a. dd_slot (dev d a)) (set (gActiveDevices d))"
  proof (rule inj_onI)
    fix a b assume "a \<in> set (gActiveDevices d)" "b \<in> set (gActiveDevices d)" "dd_slot (dev d a) = dd_slot (dev d b)"
    then have "Some a = Some b" using m [of a] m [of b] by (metis in_slot_def)
    then show "a = b" by (rule option.inject [THEN iffD1])
  qed
  moreover have "(\<lambda>a. dd_slot (dev d a)) ` set (gActiveDevices d) \<subseteq> {..<kMaximumDevices}"
    using m by (auto simp: in_slot_def)
  ultimately have "card (set (gActiveDevices d)) \<le> kMaximumDevices"
    by (metis card_image card_lessThan card_mono finite_lessThan)
  then show ?thesis using inv distinct_card by (metis driver_inv_def active_ok_def)
qed

lemma AddDeviceLocked_host: "AddDeviceLocked h parts persist d = (st, d') \<Longrightarrow> gHost d' = gHost d"
  by (auto simp: AddDeviceLocked_def Let_def dest!: PersistLocked_frame split: option.splits prod.splits if_splits)

lemma load_inventory_host: "load_inventory h ls d = (st, d') \<Longrightarrow> gHost d' = gHost d"
  by (induction ls arbitrary: d) (auto dest: AddDeviceLocked_host split: if_splits prod.splits)

section \<open>A concrete history\<close>

text \<open>A host that never fails and stores nothing, and the driver after one \<open>create\<close> command.\<close>

definition easy_host :: "unit driver_host" where
  "easy_host = \<lparr>make_device = (\<lambda>i n s. (True, s)), make_string = (\<lambda>t s. (True, s)), write_to_storage = (\<lambda>t s. (0, s)),
     copy_from_storage = (\<lambda>s. ((0, NothingStored), s)), request_change = (\<lambda>object s. (0, s)),
     properties_changed = (\<lambda>object s. s), absolute_time = (\<lambda>s. (0, s))\<rparr>"

definition first_device :: "unit driver" where
  "first_device = \<lparr>gHost = True, gSlots = (replicate kMaximumDevices None)[0 := Some 0],
     gAllDevices = [Device_new 0 ''a'' ''b'' 2 2 48000], gActiveDevices = [0], host_state = ()\<rparr>"

definition ready_driver :: "unit driver" where
  "ready_driver = (driver_loaded ())\<lparr>gHost := True\<rparr>"

lemma ready_reachable: "driver_reachable easy_host ready_driver"
  using driver_reachable.call [OF driver_reachable.loaded [of easy_host "()"], of InitializeCall]
  by (simp add: Initialize_def easy_host_def ready_driver_def driver_loaded_def)

lemma creatable_first: "creatable ''a'' ''b'' 2 2 48000"
  by (simp add: creatable_def ValidID_def ValidName_def id_char_def in_range_def byte_def)

lemma free_slot_empty: "free_slot (replicate kMaximumDevices None) = Some 0"
  using free_slot_packed [of 0 kMaximumDevices] by (simp add: kMaximumDevices_def)

lemma first_created:
  "SetControl easy_host (Some (join_with tab (create_words ''a'' ''b'' 2 2 48000))) ready_driver = (0, first_device)"
proof -
  have "FindByIDLocked ''a'' ready_driver = None"
    by (simp add: FindByIDLocked_def ready_driver_def driver_loaded_def)
  moreover have "AddDeviceLocked easy_host (create_words ''a'' ''b'' 2 2 48000) True ready_driver = (0, first_device)"
    using calculation creatable_first free_slot_empty
    by (simp add: AddDeviceLocked_def device_fields_create PersistLocked_def easy_host_def ready_driver_def
        driver_loaded_def first_device_def)
  ultimately show ?thesis using split_words [OF creatable_first]
    by (simp add: SetControl_def control_locked_def control_unlocked_def create_words_def NotifyDeviceListChanged_def
        notify_of_def first_device_def easy_host_def del: join_with.simps)
qed

lemma first_reachable: "driver_reachable easy_host first_device"
  using driver_reachable.call [OF ready_reachable, of "ControlCall (Some (join_with tab (create_words ''a'' ''b'' 2 2 48000)))"]
  by (simp add: first_created del: join_with.simps)

theorem driver_devices_keep_their_ids_witness:
  "DeviceForObject 102 first_device = Some 0 \<and> KindForObject 102 first_device = KindOutputStream"
  using driver_devices_keep_their_ids [OF first_reachable]
  by (simp add: first_device_def Device_new_def OutputStreamObjectID_def DeviceObjectID_def
      kFirstDeviceObjectID_def)

text \<open>C28: The devices survive a restart of the driver: from the inventory it stored in any reachable state, a
  driver that is loaded anew makes exactly the same devices, in the same order, with the same
  identifiers, names, UIDs, channels and rates, and its inventory is the same text.\<close>

theorem inventory_survives_restart:
  assumes "driver_reachable h0 d"
    and "copy_from_storage h s = ((0, StoredText (Some (InventoryLocked d))), s1)"
    and "\<And>i n s. fst (make_device h i n s)"
  shows "case Initialize h (driver_loaded s) of (st, d') \<Rightarrow>
    st = 0 \<and> gHost d' \<and> map identity (devices d') = map identity (devices d) \<and> InventoryLocked d' = InventoryLocked d"
proof -
  have inv: "driver_inv d" by (rule driver_reachable_inv [OF assms(1)])
  let ?d = "(driver_loaded s)\<lparr>gHost := True, host_state := s1\<rparr>"
  have ok: "\<forall>v \<in> set (devices d). device_ok v" using active_device(3) [OF inv] by (auto simp: devices_def)
  have "packed 0 ?d" by (simp add: packed_def driver_loaded_def)
  moreover have "distinct (map dd_id (devices d))" using distinct_devices(1) [OF inv] by (simp add: devices_def comp_def)
  moreover have "0 + length (devices d) \<le> kMaximumDevices" using slots_bound [OF inv] by (simp add: devices_def)
  ultimately obtain d' where d': "load_inventory h (Split (InventoryLocked d) (CHR 0x0A)) ?d = (0, d')"
    "packed (length (devices d)) d'" "map identity (gAllDevices d') = map identity (devices d)"
    using load_devices [of 0 ?d "devices d" h] ok assms(3) split_inventory [OF ok]
    by (auto simp: InventoryLocked_devices driver_loaded_def)
  have "devices d' = gAllDevices d'"
    using d'(2) map_nth [of "gAllDevices d'"] by (simp add: devices_def packed_def)
  then have same: "map identity (devices d') = map identity (devices d)" using d'(3) by simp
  have "map inventory_line (devices d') = map inventory_line (devices d)"
  proof (rule nth_equalityI)
    show len: "length (map inventory_line (devices d')) = length (map inventory_line (devices d))"
      using same by (metis length_map)
    fix j assume "j < length (map inventory_line (devices d'))"
    then show "map inventory_line (devices d') ! j = map inventory_line (devices d) ! j"
      using same len inventory_line_identity by (metis length_map nth_map)
  qed
  moreover have "gHost d'" using load_inventory_host [OF d'(1)] by simp
  ultimately show ?thesis using d'(1) same assms(2)
    by (simp add: Initialize_def InventoryLocked_devices [of d'] InventoryLocked_devices [of d] driver_loaded_def)
qed

theorem inventory_survives_restart_witness:
  "map identity (devices (snd (Initialize (easy_host\<lparr>copy_from_storage :=
       \<lambda>s. ((0, StoredText (Some (InventoryLocked first_device))), s)\<rparr>) (driver_loaded ()))))
    = [(''a'', ''b'', ''dev.vcable.device.a'', 2, 2, 48000)]"
  using inventory_survives_restart [OF first_reachable, of "easy_host\<lparr>copy_from_storage :=
       \<lambda>s. ((0, StoredText (Some (InventoryLocked first_device))), s)\<rparr>" "()" "()"]
  by (simp add: easy_host_def split_beta devices_def first_device_def Device_new_def identity_def kUIDPrefix_def)

section \<open>Commands take effect or change nothing\<close>

definition same_view :: "'h driver \<Rightarrow> 'h driver \<Rightarrow> bool" where
  "same_view d d' \<longleftrightarrow> gActiveDevices d' = gActiveDevices d
     \<and> (\<forall>a \<in> set (gActiveDevices d). same_device (dev d a) (dev d' a))"

lemma same_device_refl [simp]: "same_device v v"
  by (simp add: same_device_def)

lemma same_view_refl: "same_view d d" "same_view d (d\<lparr>host_state := s\<rparr>)" "same_view d (d\<lparr>gSlots := ss\<rparr>)"
  by (simp_all add: same_view_def)

lemma same_view_trans: "same_view d d' \<Longrightarrow> same_view d' d'' \<Longrightarrow> same_view d d''"
  by (auto simp: same_view_def same_device_def)

lemma same_view_with_dev: "(\<And>v. same_device v (f v)) \<Longrightarrow> same_view d (with_dev a f d)"
  by (simp add: same_view_def dev_update)

lemma same_view_shows:
  assumes "same_view d d'"
  shows "InventoryLocked d' = InventoryLocked d" "GetDeviceList d' = GetDeviceList d"
proof -
  have "map (\<lambda>a. inventory_line (dev d' a)) (gActiveDevices d) = map (\<lambda>a. inventory_line (dev d a)) (gActiveDevices d)"
    "map (\<lambda>a. DeviceObjectID (dev d' a)) (gActiveDevices d) = map (\<lambda>a. DeviceObjectID (dev d a)) (gActiveDevices d)"
    using assms by (auto simp: same_view_def same_device_def inventory_line_def DeviceObjectID_def)
  moreover have "gActiveDevices d' = gActiveDevices d" using assms by (simp add: same_view_def)
  ultimately show "InventoryLocked d' = InventoryLocked d" "GetDeviceList d' = GetDeviceList d"
    unfolding InventoryLocked_def GetDeviceList_def by (simp_all only:)
qed

text \<open>The two outcomes of a call: nothing is changed or stored, or the inventory of the new state is.\<close>

definition unchanged :: "'h driver_host \<Rightarrow> 'h driver \<Rightarrow> 'h driver \<Rightarrow> bool" where
  "unchanged h d d' \<longleftrightarrow> same_view d d' \<and> host_quiet h (host_state d) (host_state d')"

definition stored :: "'h driver_host \<Rightarrow> 'h driver \<Rightarrow> 'h driver \<Rightarrow> bool" where
  "stored h d d' \<longleftrightarrow> host_stores h (InventoryLocked d') (host_state d) (host_state d')"

lemma unchanged_refl: "unchanged h d d"
  by (simp add: unchanged_def same_view_refl host_quiet.same)

lemma unchanged_trans:
  assumes "unchanged h d d'" "unchanged h d' d''"
  shows "unchanged h d d''"
  using assms same_view_trans [of d d' d''] host_quiet_trans [of h "host_state d'" "host_state d''" "host_state d"]
  by (simp add: unchanged_def)

lemma unchanged_view: "same_view d d' \<Longrightarrow> host_state d' = host_state d \<Longrightarrow> unchanged h d d'"
  by (simp add: unchanged_def host_quiet.same)

lemma unchanged_with_dev: "(\<And>v. same_device v (f v)) \<Longrightarrow> unchanged h d (with_dev a f d)"
  by (intro unchanged_view same_view_with_dev) simp_all

lemma stored_unchanged:
  assumes "stored h d d'" "unchanged h d' d''"
  shows "stored h d d''"
proof -
  obtain t t' where t: "host_quiet h (host_state d) t" "write_to_storage h (InventoryLocked d') t = (0, t')"
    "host_quiet h t' (host_state d')" using assms(1) by (auto simp: stored_def host_stores_def)
  have "host_quiet h t' (host_state d'')"
    using host_quiet_trans [OF _ t(3)] assms(2) by (simp add: unchanged_def)
  moreover have "InventoryLocked d'' = InventoryLocked d'"
    by (rule same_view_shows(1)) (use assms(2) in \<open>simp add: unchanged_def\<close>)
  ultimately show ?thesis unfolding stored_def host_stores_def using t(1,2) by metis
qed

lemma unchanged_same_view: "unchanged h d d' \<Longrightarrow> same_view d d'"
  by (simp add: unchanged_def)

lemma AddDeviceLocked_outcome:
  assumes inv: "driver_inv d" and call: "AddDeviceLocked h parts True d = (st, d')"
  obtains (refused) "st \<noteq> 0" "unchanged h d d'"
  | (there) a where "st = 0" "d' = d" "a \<in> set (gActiveDevices d)"
      "device_fields parts = Some (dd_id (dev d a), dd_name (dev d a), dd_inputs (dev d a), dd_outputs (dev d a), dd_rate (dev d a))"
  | (made) i name ins outs rate sl s where "st = 0" "device_fields parts = Some (i, name, ins, outs, rate)"
      "FindByIDLocked i d = None" "free_slot (gSlots d) = Some sl" "stored h d d'"
      "d' = (plugged sl (Device_new sl i name ins outs rate) d)\<lparr>host_state := s\<rparr>"
proof (cases "device_fields parts")
  case None
  then show thesis using call unchanged_refl by (intro refused) (auto simp: AddDeviceLocked_def)
next
  case (Some p)
  then obtain i name ins outs rate where p: "device_fields parts = Some (i, name, ins, outs, rate)" by (cases p) auto
  show thesis
  proof (cases "FindByIDLocked i d")
    case (Some a)
    have a: "a \<in> set (gActiveDevices d)" "dd_id (dev d a) = i"
      using find_SomeD [of _ "gActiveDevices d" a] Some by (auto simp: FindByIDLocked_def)
    show thesis
    proof (cases "st = 0")
      case True
      then show thesis using call p Some a by (intro there [of a]) (auto simp: AddDeviceLocked_def Let_def split: if_splits)
    next
      case False
      then show thesis using call p Some unchanged_refl
        by (intro refused) (auto simp: AddDeviceLocked_def Let_def split: if_splits)
    qed
  next
    case None
    show thesis
    proof (cases "free_slot (gSlots d)")
      case None
      then show thesis using call p \<open>FindByIDLocked i d = None\<close> unchanged_refl
        by (intro refused) (auto simp: AddDeviceLocked_def)
    next
      case (Some sl)
      let ?v = "Device_new sl i name ins outs rate"
      obtain m s1 where m: "make_device h i name (host_state d) = (m, s1)" by fastforce
      let ?d1 = "(plugged sl ?v d)\<lparr>host_state := s1\<rparr>"
      obtain st2 d2 where per: "PersistLocked h ?d1 = (st2, d2)" by fastforce
      then obtain s2 where d2: "d2 = ?d1\<lparr>host_state := s2\<rparr>" using PersistLocked_frame by blast
      let ?undone = "d2\<lparr>gSlots := (gSlots d2)[sl := None], gActiveDevices := butlast (gActiveDevices d2)\<rparr>"
      have r: "(st, d') = (if \<not> m then (Unspecified, d\<lparr>host_state := s1\<rparr>)
        else if st2 \<noteq> 0 then (st2, ?undone) else (0, d2))"
        using call p None Some m per by (simp add: AddDeviceLocked_def Let_def plugged_def split: if_splits prod.splits)
      have "a < length (gAllDevices d)" if "a \<in> set (gActiveDevices d)" for a
        using active_device(1) [OF inv that] .
      then have undone: "same_view d ?undone" by (auto simp: same_view_def d2 plugged_def nth_append)
      have q: "host_quiet h (host_state d) s1"
        using host_quiet.device [OF host_quiet.same, of h "host_state d" i name] m by simp
      have host: "if st2 = 0 then stored h d d2 else host_quiet h (host_state d) (host_state d2)"
        using PersistLocked_host [OF per] host_quiet_trans [OF _ q]
        by (auto simp: stored_def host_stores_def d2 InventoryLocked_def split: if_splits)
      show thesis
      proof (cases "m \<and> st2 = 0")
        case True
        then show thesis using r p None Some d2 host
          by (intro made [of i name ins outs rate sl s2]) simp_all
      next
        case False
        then show thesis using r undone same_view_refl(2) [of d s1] q host
          by (intro refused) (auto simp: unchanged_def split: if_splits)
      qed
    qed
  qed
qed

lemma release_unchanged: "unchanged h d (ReleaseRetiredSlotLocked a d)"
  by (rule unchanged_view) (simp_all add: ReleaseRetiredSlotLocked_def same_view_def)

lemma notify_unchanged: "unchanged h d (notify_of object h d)" "unchanged h d (NotifyDeviceListChanged h d)"
  by (simp_all add: notify_of_def NotifyDeviceListChanged_def unchanged_def same_view_def host_quiet.told
      host_quiet.same)

lemma remove_and_release_outcome:
  assumes call: "remove_and_release h a d = (st, d')"
  obtains (refused) "st \<noteq> 0" "unchanged h d d'"
  | (removed) "st = 0" "a \<in> set (gActiveDevices d)" "stored h d d'"
      "same_view (d\<lparr>gActiveDevices := remove1 a (gActiveDevices d)\<rparr>) d'"
proof -
  obtain st1 d1 where r: "RemoveDeviceLocked h (Some a) True d = (st1, d1)" by fastforce
  show thesis
    using r
  proof (cases rule: RemoveDeviceLocked_cases)
    case (1 s)
    then show thesis using call r
      by (intro refused) (auto simp: remove_and_release_def unchanged_def same_view_def)
  next
    case (2 s)
    let ?d = "d\<lparr>gActiveDevices := remove1 a (gActiveDevices d)\<rparr>"
    have d': "st = 0" "d' = ReleaseRetiredSlotLocked a (NotifyDeviceListChanged h d1)"
      using call r 2(1) by (simp_all add: remove_and_release_def)
    have after: "unchanged h d1 d'"
      unfolding d'(2) by (rule unchanged_trans [OF notify_unchanged(2) release_unchanged])
    have view: "same_view ?d d1"
      unfolding 2(4) using same_view_with_dev [of "\<lambda>v. v\<lparr>dd_active := False\<rparr>" "?d\<lparr>host_state := s\<rparr>" a]
        same_view_trans [OF same_view_refl(2) [of ?d s]] by (simp add: same_device_def)
    have "host_state d1 = s" by (simp add: 2(4))
    then have "stored h d d1" using 2(6) same_view_shows(1) [OF view] by (simp add: stored_def)
    then show thesis
      using d'(1) 2(2) stored_unchanged [OF _ after] same_view_trans [OF view unchanged_same_view [OF after]]
      by (intro removed) blast+
  qed
qed

lemma on_device_outcome:
  assumes "on_device object f d = (st, d')"
  obtains "st \<noteq> 0" "d' = d" | a where "DeviceForObject object d = Some a" "f a d = (st, d')"
  using assms by (auto simp: on_device_def split: option.splits if_splits)

lemma on_device_unchanged:
  "(\<And>a. unchanged h d (snd (f a d))) \<Longrightarrow> unchanged h d (snd (on_device object f d))"
  by (simp add: on_device_def unchanged_refl split: option.split)

lemma control_delete_view: "same_view d (with_dev a (\<lambda>v. v\<lparr>dd_delete_pending := b\<rparr>) d)"
  by (rule same_view_with_dev) (simp add: same_device_def)

lemma control_delete_unchanged: "unchanged h d (with_dev a (\<lambda>v. v\<lparr>dd_delete_pending := b\<rparr>) d)"
  by (rule unchanged_with_dev) (simp add: same_device_def)

lemma control_unlocked_unchanged: "unchanged h d (snd (control_unlocked h r d))"
proof -
  have asked: "unchanged h d (d\<lparr>host_state := s\<rparr>)"
    "unchanged h d (with_dev a (\<lambda>v. v\<lparr>dd_delete_pending := False\<rparr>) (d\<lparr>host_state := s\<rparr>))"
    if "request_change h object (host_state d) = (st, s)" for object st s a
  proof -
    show u: "unchanged h d (d\<lparr>host_state := s\<rparr>)"
      using host_quiet.asked [OF host_quiet.same, of h "host_state d" object] that same_view_refl(2)
      by (simp add: unchanged_def)
    show "unchanged h d (with_dev a (\<lambda>v. v\<lparr>dd_delete_pending := False\<rparr>) (d\<lparr>host_state := s\<rparr>))"
      by (rule unchanged_trans [OF u control_delete_unchanged])
  qed
  then show ?thesis
    using unchanged_refl notify_unchanged(2) control_delete_unchanged
    by (auto simp: control_unlocked_def Let_def split: prod.splits option.splits if_splits)
qed

lemmas control_unlocked_view = control_unlocked_unchanged [THEN unchanged_same_view]

lemma SetControl_outcome:
  assumes inv: "driver_inv d" and call: "SetControl h msg d = (st, d')"
  shows "unchanged h d d' \<or> st = 0 \<and> stored h d d'"
proof (cases msg)
  case (Some cmd)
  obtain r d1 where r: "control_locked h cmd d = (r, d1)" by fastforce
  have un: "control_unlocked h r d1 = (st, d')" using call Some r by (simp add: SetControl_def)
  then have after: "unchanged h d1 d'" using control_unlocked_unchanged by (metis snd_conv)
  show ?thesis
  proof (cases "Split cmd tab \<noteq> [] \<and> Split cmd tab ! 0 = ''create''")
    case True
    obtain st1 d2 where add: "AddDeviceLocked h (Split cmd tab) True d = (st1, d2)" by fastforce
    then obtain made where d2: "d1 = d2" "r = (st1, made, None)"
      using r True by (auto simp: control_locked_def Let_def)
    have st: "st = st1" using un d2 by (auto simp: control_unlocked_def split: if_splits)
    show ?thesis
      using inv add
    proof (cases rule: AddDeviceLocked_outcome)
      case refused
      then show ?thesis using after d2 unchanged_trans by blast
    next
      case (made i name ins outs rate sl s)
      then show ?thesis using after d2 st stored_unchanged by blast
    qed (use after d2 in auto)
  next
    case False
    then have "unchanged h d d1"
      using r control_delete_unchanged unchanged_refl
      by (auto simp: control_locked_def Let_def split: option.splits if_splits)
    then show ?thesis using after unchanged_trans by blast
  qed
qed (use call unchanged_refl in \<open>simp add: SetControl_def\<close>)

lemma quiet_handlers:
  "unchanged h d (snd (AddDeviceClient object d))" "unchanged h d (snd (RemoveDeviceClient object d))"
  "unchanged h d (snd (AbortDeviceConfigurationChange object action info d))" "unchanged h d (snd (StopIO object d))"
  "unchanged h d (snd (SetStreamActive h object value d))"
proof -
  have w: "unchanged h d (ReleaseRetiredSlotLocked a (with_dev a f d))" if "\<And>v. same_device v (f v)" for a f
    by (rule unchanged_trans [OF unchanged_with_dev [OF that] release_unchanged])
  have n: "unchanged h d (notify_of object h (with_dev a f d))" if "\<And>v. same_device v (f v)" for a f
    by (rule unchanged_trans [OF unchanged_with_dev [OF that] notify_unchanged(1)])
  show "unchanged h d (snd (AddDeviceClient object d))"
    "unchanged h d (snd (AbortDeviceConfigurationChange object action info d))"
    unfolding AddDeviceClient_def AbortDeviceConfigurationChange_def
    by (auto simp: unchanged_refl same_device_def intro!: on_device_unchanged unchanged_with_dev)
  show "unchanged h d (snd (RemoveDeviceClient object d))" "unchanged h d (snd (StopIO object d))"
    unfolding RemoveDeviceClient_def StopIO_def
    by (auto simp: unchanged_refl same_device_def intro!: on_device_unchanged w)
  show "unchanged h d (snd (SetStreamActive h object value d))"
    by (auto simp: SetStreamActive_def unchanged_refl same_device_def intro!: n split: ObjectKind.splits option.splits)
qed

lemma StartIO_unchanged: "unchanged h d (snd (StartIO h object d))"
  unfolding StartIO_def
proof (rule on_device_unchanged)
  fix a
  have clock: "absolute_time h (host_state d) = (now, s1) \<Longrightarrow> host_quiet h (host_state d) s1" for now s1
    using host_quiet.clock [OF host_quiet.same, of h "host_state d"] by simp
  show "unchanged h d (snd (if \<not> dd_active (dev d a) then (BadObject, d)
      else let was = dd_running (dev d a); d1 = with_dev a (\<lambda>v. v\<lparr>dd_running := was + 1\<rparr>) d in
       if was \<noteq> 0 then (0, d1)
       else let (now, s1) = absolute_time h (host_state d1) in
         (0, with_dev a (\<lambda>v. v\<lparr>dd_memory := ClearTags (dd_memory v), dd_anchor := now,
                dd_clock_seed := dd_clock_seed v + 1\<rparr>) (d1\<lparr>host_state := s1\<rparr>))))"
    using clock host_quiet.same
    by (auto simp: Let_def unchanged_def same_view_def dev_update same_device_def split: prod.splits)
qed

lemma DoIOOperation_unchanged: "unchanged h d (snd (DoIOOperation object stream operation n time buf d))"
  by (auto simp: DoIOOperation_def Let_def unchanged_refl same_device_def intro!: unchanged_with_dev
      split: option.splits prod.splits)

lemma destroy_outcome: "DestroyDevice h object d = (st, d') \<Longrightarrow> unchanged h d d' \<or> st = 0 \<and> stored h d d'"
  unfolding DestroyDevice_def
  by (erule on_device_outcome) (auto simp: unchanged_refl elim: remove_and_release_outcome)

lemma stored_after:
  assumes "unchanged h d d1" "stored h d1 d2"
  shows "stored h d d2"
proof -
  obtain t t' where t: "host_quiet h (host_state d1) t" "write_to_storage h (InventoryLocked d2) t = (0, t')"
    "host_quiet h t' (host_state d2)" using assms(2) by (auto simp: stored_def host_stores_def)
  have "host_quiet h (host_state d) t" using host_quiet_trans [OF t(1)] assms(1) by (simp add: unchanged_def)
  then show ?thesis unfolding stored_def host_stores_def using t(2,3) by blast
qed

lemma perform_outcome:
  assumes "PerformDeviceConfigurationChange h object action info d = (st, d')"
  shows "unchanged h d d' \<or> st = 0 \<and> stored h d d'"
  using assms unfolding PerformDeviceConfigurationChange_def
proof (rule on_device_outcome)
  fix a assume f: "(if action \<noteq> kDeleteDeviceConfigurationAction \<or> info \<noteq> Some a then (BadObject, d)
     else let pending = dd_delete_pending (dev d a); d1 = with_dev a (\<lambda>v. v\<lparr>dd_delete_pending := False\<rparr>) d in
       if \<not> pending then (IllegalOperation, d1) else remove_and_release h a d1) = (st, d')"
  let ?d1 = "with_dev a (\<lambda>v. v\<lparr>dd_delete_pending := False\<rparr>) d"
  have first: "unchanged h d ?d1" by (rule control_delete_unchanged)
  from f consider "d' = d" | "d' = ?d1" | "remove_and_release h a ?d1 = (st, d')"
    by (auto simp: Let_def split: if_splits)
  then show ?thesis
  proof cases
    case 3
    then show ?thesis
    proof (cases rule: remove_and_release_outcome)
      case refused
      then show ?thesis using first unchanged_trans by blast
    next
      case removed
      then show ?thesis using first stored_after by blast
    qed
  qed (use first unchanged_refl in auto)
qed (simp add: unchanged_refl)

text \<open>C27: A call of the driver is all or nothing for its devices. Whatever the host answers, either the list of
  devices and the inventory are as they were and nothing was stored, or the call was acknowledged, its
  one successful write stored exactly the new inventory, and nothing was stored after it.
  (\<open>Initialize\<close>, which reads the inventory, is the exception.)\<close>

theorem device_changes_are_stored:
  assumes "driver_reachable h d" "c \<noteq> InitializeCall" "run_call h c d = (st, d')"
  shows "GetDeviceList d' = GetDeviceList d \<and> InventoryLocked d' = InventoryLocked d
      \<and> host_quiet h (host_state d) (host_state d')
    \<or> st = 0 \<and> (\<exists>t t'. host_quiet h (host_state d) t \<and> write_to_storage h (InventoryLocked d') t = (0, t')
        \<and> host_quiet h t' (host_state d'))"
proof -
  have inv: "driver_inv d" by (rule driver_reachable_inv [OF assms(1)])
  have quiet: "unchanged h d d' \<or> st = 0 \<and> stored h d d'" if "unchanged h d (snd (run_call h c d))"
    using that assms(3) by simp
  have "unchanged h d d' \<or> st = 0 \<and> stored h d d'"
  proof (cases c)
    case (IoCall object stream operation n time buf)
    then show ?thesis using DoIOOperation_unchanged [of h d object stream operation n time buf]
      by (intro quiet) (simp add: case_prod_unfold Let_def)
  next
    case (DestroyCall object)
    then show ?thesis using assms(3) destroy_outcome by simp
  next
    case (PerformCall object action info)
    then show ?thesis using assms(3) perform_outcome by simp
  next
    case (ControlCall msg)
    then show ?thesis using assms(3) SetControl_outcome [OF inv] by simp
  qed (use assms(2) in simp, (rule quiet, simp add: quiet_handlers StartIO_unchanged)+)
  then show ?thesis using same_view_shows unfolding stored_def unchanged_def host_stores_def by blast
qed

text \<open>
  A host with a storage, and what the theorem says of it: the storage holds the inventory of the
  driver before a call and after it.
\<close>

definition storing_host :: "string driver_host" where
  "storing_host = \<lparr>make_device = (\<lambda>i n s. (True, s)), make_string = (\<lambda>t s. (True, s)),
     write_to_storage = (\<lambda>t s. (0, t)), copy_from_storage = (\<lambda>s. ((0, StoredText (Some s)), s)),
     request_change = (\<lambda>object s. (0, s)), properties_changed = (\<lambda>object s. s), absolute_time = (\<lambda>s. (0, s))\<rparr>"

lemma storing_host_quiet: "host_quiet storing_host s t \<Longrightarrow> t = s"
  by (induction rule: host_quiet.induct) (simp_all add: storing_host_def)

lemma ready_storing: "driver_reachable storing_host ((driver_loaded [])\<lparr>gHost := True\<rparr>)"
proof -
  have "Split [] (CHR 0x0A) = [[]]" by (simp add: Split.simps)
  then show ?thesis
    using driver_reachable.call [OF driver_reachable.loaded [of storing_host "[]"], of InitializeCall]
    by (simp add: Initialize_def storing_host_def driver_loaded_def)
qed

theorem device_changes_are_stored_witness:
  "case SetControl storing_host (Some (join_with tab (create_words ''a'' ''b'' 2 2 48000)))
       ((driver_loaded [])\<lparr>gHost := True\<rparr>) of (st, d) \<Rightarrow>
     GetDeviceList d = [100] \<and> host_state d = InventoryLocked d \<and> InventoryLocked d \<noteq> []"
proof -
  let ?d0 = "(driver_loaded [])\<lparr>gHost := True\<rparr> :: string driver"
  let ?cmd = "join_with tab (create_words ''a'' ''b'' 2 2 48000)"
  have "FindByIDLocked ''a'' ?d0 = None" by (simp add: FindByIDLocked_def driver_loaded_def)
  then obtain d where add: "AddDeviceLocked storing_host (create_words ''a'' ''b'' 2 2 48000) True ?d0 = (0, d)"
    and d: "gActiveDevices d = [0]" "gAllDevices d = [Device_new 0 ''a'' ''b'' 2 2 48000]"
    using creatable_first free_slot_empty
    by (simp add: AddDeviceLocked_def device_fields_create PersistLocked_def storing_host_def driver_loaded_def)
  obtain e where e: "SetControl storing_host (Some ?cmd) ?d0 = (0, e)" "gActiveDevices e = [0]"
    "gAllDevices e = [Device_new 0 ''a'' ''b'' 2 2 48000]"
    using add d split_words [OF creatable_first] \<open>FindByIDLocked ''a'' ?d0 = None\<close>
    by (simp add: SetControl_def control_locked_def control_unlocked_def create_words_def NotifyDeviceListChanged_def
        notify_of_def del: join_with.simps)
  have list: "GetDeviceList e = [100]" "GetDeviceList ?d0 = []" "InventoryLocked e \<noteq> []"
    using e(2,3) by (simp_all add: GetDeviceList_def InventoryLocked_def inventory_line_def Device_new_def
        DeviceObjectID_def kFirstDeviceObjectID_def driver_loaded_def)
  have "run_call storing_host (ControlCall (Some ?cmd)) ?d0 = (0, e)" using e(1) by (simp del: join_with.simps)
  from device_changes_are_stored [OF ready_storing _ this] list(1,2)
  obtain t t' where t: "write_to_storage storing_host (InventoryLocked e) t = (0, t')" "host_quiet storing_host t' (host_state e)"
    by auto
  have "t' = InventoryLocked e" using t(1) by (simp add: storing_host_def)
  then show ?thesis using e(1) list storing_host_quiet [OF t(2)] by simp
qed

end
