(* ===== verification/DriverCommands.thy ===== *)
theory DriverCommands
  imports DriverInventory
begin

text \<open>
  The HAL driver plug-in and the functions of \<open>platform.rs\<close> that send it commands
  (\<open>create_virtual_device\<close>, \<open>delete_virtual_device\<close>): what each side takes the text of a command to mean.
\<close>

section \<open>Commands from \<open>platform.rs\<close>\<close>

lemma kUIDPrefix_VCABLE: "kUIDPrefix = VCABLE_UID_PREFIX"
  by (simp add: kUIDPrefix_def VCABLE_UID_PREFIX_def)

lemma find_unique: "distinct (map f xs) \<Longrightarrow> x \<in> set xs \<Longrightarrow> find (\<lambda>y. f y = f x) xs = Some x"
  by (induction xs) auto

lemma FindByUID_active:
  assumes "driver_inv d" "a \<in> set (gActiveDevices d)"
  shows "FindByUIDLocked (dd_uid (dev d a)) d = Some a"
  unfolding FindByUIDLocked_def by (rule find_unique [OF distinct_devices(2) [OF assms(1)] assms(2)])



lemma identity_active:
  assumes "driver_inv d" "a \<in> set (gActiveDevices d)"
  shows "dd_uid (dev d a) = VCABLE_UID_PREFIX @ dd_id (dev d a)"
  using active_device(3) [OF assms] by (simp add: device_ok_def kUIDPrefix_VCABLE)

definition created_as :: "'h driver \<Rightarrow> string \<Rightarrow> string \<Rightarrow> u32 \<Rightarrow> u32 \<Rightarrow> u32 \<Rightarrow> bool" where
  "created_as d i name ins outs rate \<longleftrightarrow> (\<exists>a \<in> set (gActiveDevices d).
     FindByUIDLocked (VCABLE_UID_PREFIX @ i) d = Some a
     \<and> identity (dev d a) = (i, name, VCABLE_UID_PREFIX @ i, ins, outs, rate))"

lemma if_both: "(P \<Longrightarrow> A) \<Longrightarrow> (\<not> P \<Longrightarrow> B) \<Longrightarrow> if P then A else B"
  by simp

lemma SetControl_create:
  assumes inv: "driver_inv d" and c: "creatable i name ins outs rate"
    and call: "SetControl h (Some (join_with tab (create_words i name ins outs rate))) d = (st, d')"
  shows "if st = 0 then created_as d' i name ins outs rate \<and> set (GetDeviceList d) \<subseteq> set (GetDeviceList d')
    else same_view d d'"
proof -
  let ?words = "create_words i name ins outs rate"
  obtain st1 d1 where add: "AddDeviceLocked h ?words True d = (st1, d1)" by fastforce
  have inv': "driver_inv d'" using SetControl_inv [OF inv, of h "Some (join_with tab ?words)"] call by simp
  have un: "control_unlocked h (st1, st1 = 0 \<and> FindByIDLocked i d = None, None) d1 = (st, d')"
    using call add split_words [OF c]
    by (simp add: SetControl_def control_locked_def create_words_def Let_def del: join_with.simps)
  then have st: "st = st1" and view: "same_view d1 d'"
    using control_unlocked_view [of d1 h "(st1, st1 = 0 \<and> FindByIDLocked i d = None, None)"]
    by (auto simp: control_unlocked_def split: if_splits)
  have id: "dd_id (dev d' a) = i \<Longrightarrow> dd_name (dev d' a) = name \<Longrightarrow> dd_inputs (dev d' a) = ins \<Longrightarrow>
      dd_outputs (dev d' a) = outs \<Longrightarrow> dd_rate (dev d' a) = rate \<Longrightarrow> created_as d' i name ins outs rate"
    if "a \<in> set (gActiveDevices d')" for a
    using FindByUID_active [OF inv' that] identity_active [OF inv' that] that
    by (auto simp: created_as_def identity_def)
  show ?thesis
    using inv add
  proof (cases rule: AddDeviceLocked_outcome)
    case refused
    then show ?thesis using st same_view_trans [OF unchanged_same_view view] by auto
  next
    case (there a)
    then have "a \<in> set (gActiveDevices d')" "same_device (dev d a) (dev d' a)"
      using view by (auto simp: same_view_def)
    then show ?thesis
      using there device_fields_create [of i name ins outs rate] c st id [of a] same_view_shows(2) [OF view]
      by (auto simp: same_device_def)
  next
    case (made j name' ins' outs' rate' sl s)
    let ?n = "length (gAllDevices d)"
    have j: "j = i" "name' = name" "ins' = ins" "outs' = outs" "rate' = rate"
      using made(2) c device_fields_create [of i name ins outs rate] by auto
    have n: "?n \<in> set (gActiveDevices d')" "same_device (Device_new sl i name ins outs rate) (dev d' ?n)"
      using view made(6) j by (auto simp: same_view_def plugged_def)
    have "DeviceObjectID (dev d1 a) = DeviceObjectID (dev d a)" if "a \<in> set (gActiveDevices d)" for a
      using active_device(1) [OF inv that] made(6) by (simp add: plugged_def nth_append)
    then have "set (GetDeviceList d) \<subseteq> set (GetDeviceList d1)"
      using made(6) by (auto simp: GetDeviceList_def plugged_def)
    then show ?thesis using made(1) st n id [of ?n] same_view_shows(2) [OF view]
      by (simp add: same_device_def Device_new_def)
  qed
qed

lemma create_line: "[''create'', i, name, show_u32 ins, show_u32 outs, show_u32 rate] = create_words i name ins outs rate"
  by (simp add: create_words_def)

lemma split_valid:
  assumes "create_valid i name ins outs"
  shows "Split (join_with tab (create_words i name ins outs rate)) tab = create_words i name ins outs rate"
  unfolding Split_split_at
proof (rule split_join)
  fix f assume "f \<in> set (create_words i name ins outs rate)"
  then show "tab \<notin> set f" using assms number_text
    by (auto simp: create_words_def create_valid_def validate_field_Ok byte_def)
qed (simp add: create_words_def)

lemma created_device:
  assumes "driver_reachable h d" and "create_valid i name ins outs"
  shows "create_virtual_device ca i name ins outs rate s
        = (case send_driver_command ca (join_with tab (create_words i name ins outs rate)) s of
        (Ok _, s1) \<Rightarrow> wait_for_device_visibility ca (VCABLE_UID_PREFIX @ i) True s1
      | (Err e, s1) \<Rightarrow> Some (Err e, s1) | (Panic, s1) \<Rightarrow> Some (Panic, s1))
    \<and> (case SetControl h (Some (join_with tab (create_words i name ins outs rate))) d of (st, d') \<Rightarrow>
        (if st = 0 then (\<exists>a \<in> set (gActiveDevices d'). FindByUIDLocked (VCABLE_UID_PREFIX @ i) d' = Some a
              \<and> identity (dev d' a) = (i, name, VCABLE_UID_PREFIX @ i, ins, outs, rate))
            \<and> set (GetDeviceList d) \<subseteq> set (GetDeviceList d')
         else GetDeviceList d' = GetDeviceList d \<and> InventoryLocked d' = InventoryLocked d)
        \<and> (\<not> creatable i name ins outs rate \<longrightarrow> st = IllegalOperation))"
proof -
  have inv: "driver_inv d" by (rule driver_reachable_inv [OF assms(1)])
  let ?cmd = "join_with tab (create_words i name ins outs rate)"
  note sends = create_sends [OF assms(2), of ca rate s, unfolded create_line]
  obtain st d' where call: "SetControl h (Some ?cmd) d = (st, d')" by fastforce
  show ?thesis
  proof (cases "creatable i name ins outs rate")
    case True
    then show ?thesis
      using SetControl_create [OF inv True call] sends call same_view_shows [of d d']
      by (auto simp: created_as_def split: if_splits)
  next
    case False
    have "AddDeviceLocked h (create_words i name ins outs rate) True d = (IllegalOperation, d)"
      using False device_fields_create [of i name ins outs rate] by (simp add: AddDeviceLocked_def)
    then have "(st, d') = (IllegalOperation, d)"
      using call split_valid [OF assms(2), of rate]
      by (simp add: SetControl_def control_locked_def control_unlocked_def create_words_def Let_def del: join_with.simps)
    then show ?thesis using sends call by simp
  qed
qed

text \<open>C25: \<open>create_virtual_device\<close> and the driver understand each other: the command that is sent makes, when the
  driver acknowledges it, exactly the device that was asked for, active and with the UID for which the
  caller then waits, and keeps every other device; a command the driver does not acknowledge
  changes none of its devices, and one with an identifier, a name or a number outside its limits
  is refused. No field can forge a command: an empty one, one with a tab, a line end or a NUL, or a
  channel count of zero is an error before anything is sent.\<close>

theorem created_device_is_what_was_asked:
  assumes "driver_reachable h d"
  shows "if create_valid i name ins outs then
      create_virtual_device ca i name ins outs rate s
            = (case send_driver_command ca (join_with tab (create_words i name ins outs rate)) s of
            (Ok _, s1) \<Rightarrow> wait_for_device_visibility ca (VCABLE_UID_PREFIX @ i) True s1
          | (Err e, s1) \<Rightarrow> Some (Err e, s1) | (Panic, s1) \<Rightarrow> Some (Panic, s1))
        \<and> (case SetControl h (Some (join_with tab (create_words i name ins outs rate))) d of (st, d') \<Rightarrow>
            (if st = 0 then (\<exists>a \<in> set (gActiveDevices d'). FindByUIDLocked (VCABLE_UID_PREFIX @ i) d' = Some a
                  \<and> identity (dev d' a) = (i, name, VCABLE_UID_PREFIX @ i, ins, outs, rate))
                \<and> set (GetDeviceList d) \<subseteq> set (GetDeviceList d')
             else GetDeviceList d' = GetDeviceList d \<and> InventoryLocked d' = InventoryLocked d)
            \<and> (\<not> creatable i name ins outs rate \<longrightarrow> st = IllegalOperation))
    else \<exists>e. create_virtual_device ca i name ins outs rate s = Some (Err e, s)"
  by (rule if_both [OF created_device [OF assms] create_refuses])

theorem created_device_is_what_was_asked_witness:
  "case SetControl easy_host (Some (join_with tab (create_words ''a'' ''b'' 2 2 48000))) ready_driver of (st, d') \<Rightarrow>
     st = 0 \<and> FindByUIDLocked ''dev.vcable.device.a'' d' = Some 0"
proof -
  have "create_valid ''a'' ''b'' 2 2" by (simp add: create_valid_def validate_field_Ok byte_def)
  from this created_device_is_what_was_asked [OF ready_reachable, of "''a''" "''b''" 2 2 "undefined :: unit hal" 48000 undefined]
  show ?thesis
    by (simp add: first_created VCABLE_UID_PREFIX_def del: join_with.simps) (simp add: first_device_def)
qed

lemma free_slot_exists: "None \<in> set ss \<Longrightarrow> \<exists>i. free_slot ss = Some i"
  by (induction ss) auto

lemma PersistLocked_succeeds:
  assumes "gHost d" and "\<And>t s. fst (make_string h t s)" and "\<And>t s. fst (write_to_storage h t s) = 0"
  shows "\<exists>s. PersistLocked h d = (0, d\<lparr>host_state := s\<rparr>)"
  using assms by (auto simp: PersistLocked_def Let_def split_beta)

text \<open>C32: Creating a device works whenever it can: with an initialised driver, a host that makes and stores
  its strings, a free slot and parameters inside the limits, a \<open>create\<close> command for a new identifier is
  acknowledged and puts the device behind the others; for an identifier that is in use it is
  acknowledged exactly when the existing device is the one asked for, and changes nothing.\<close>

theorem create_succeeds:
  assumes "driver_reachable h d" and "gHost d" and "None \<in> set (gSlots d)" and "creatable i name ins outs rate"
    and "\<And>i n s. fst (make_device h i n s)" and "\<And>t s. fst (make_string h t s)"
    and "\<And>t s. fst (write_to_storage h t s) = 0"
  shows "case SetControl h (Some (join_with tab (create_words i name ins outs rate))) d of (st, d') \<Rightarrow>
    (case FindByIDLocked i d of
       None \<Rightarrow> st = 0 \<and> (\<exists>a. gActiveDevices d' = gActiveDevices d @ [a]
         \<and> identity (dev d' a) = (i, name, VCABLE_UID_PREFIX @ i, ins, outs, rate))
         \<and> (\<exists>object. GetDeviceList d' = GetDeviceList d @ [object])
     | Some a \<Rightarrow> (st = 0 \<longleftrightarrow> identity (dev d a) = (i, name, VCABLE_UID_PREFIX @ i, ins, outs, rate))
         \<and> GetDeviceList d' = GetDeviceList d)"
proof -
  have inv: "driver_inv d" by (rule driver_reachable_inv [OF assms(1)])
  let ?words = "create_words i name ins outs rate"
  have run: "SetControl h (Some (join_with tab ?words)) d = (case AddDeviceLocked h ?words True d of (st, d1) \<Rightarrow>
      if st = 0 \<and> FindByIDLocked i d = None then (st, NotifyDeviceListChanged h d1) else (st, d1))"
    using split_words [OF assms(4)]
    by (simp add: SetControl_def control_locked_def control_unlocked_def create_words_def split_beta Let_def del: join_with.simps)
  show ?thesis
  proof (cases "FindByIDLocked i d")
    case None
    obtain sl where sl: "free_slot (gSlots d) = Some sl" using free_slot_exists [OF assms(3)] by blast
    obtain s1 where made: "make_device h i name (host_state d) = (True, s1)"
      using assms(5) [of i name "host_state d"] by (cases "make_device h i name (host_state d)") auto
    let ?d1 = "d\<lparr>gAllDevices := gAllDevices d @ [Device_new sl i name ins outs rate],
      gActiveDevices := gActiveDevices d @ [length (gAllDevices d)], gSlots := (gSlots d)[sl := Some (length (gAllDevices d))],
      host_state := s1\<rparr>"
    obtain s2 where "PersistLocked h ?d1 = (0, ?d1\<lparr>host_state := s2\<rparr>)"
      using PersistLocked_succeeds [of ?d1 h] assms(2,6,7) by auto
    then have add: "AddDeviceLocked h ?words True d = (0, ?d1\<lparr>host_state := s2\<rparr>)"
      using None sl made assms(4) by (simp add: AddDeviceLocked_def device_fields_create Let_def)
    obtain s3 where told: "NotifyDeviceListChanged h (?d1\<lparr>host_state := s2\<rparr>) = ?d1\<lparr>host_state := s3\<rparr>"
      using notify_of_frame [of kAudioObjectPlugInObject h "?d1\<lparr>host_state := s2\<rparr>"]
      by (auto simp: NotifyDeviceListChanged_def)
    have call: "SetControl h (Some (join_with tab ?words)) d = (0, ?d1\<lparr>host_state := s3\<rparr>)"
      unfolding run add using None told by simp
    have "GetDeviceList (?d1\<lparr>host_state := s3\<rparr>) = GetDeviceList d
        @ [DeviceObjectID (Device_new sl i name ins outs rate)]"
      using active_device(1) [OF inv] by (simp add: GetDeviceList_def nth_append)
    moreover have "identity (Device_new sl i name ins outs rate) = (i, name, VCABLE_UID_PREFIX @ i, ins, outs, rate)"
      by (simp add: identity_def Device_new_def kUIDPrefix_VCABLE)
    ultimately show ?thesis unfolding call None by simp
  next
    case (Some a)
    then have a: "a \<in> set (gActiveDevices d)" "dd_id (dev d a) = i"
      using find_SomeD [of _ "gActiveDevices d" a] by (auto simp: FindByIDLocked_def)
    have "AddDeviceLocked h ?words True d =
        (if identity (dev d a) = (i, name, VCABLE_UID_PREFIX @ i, ins, outs, rate) then 0 else IllegalOperation, d)"
      using Some a(2) assms(4) identity_active [OF inv a(1)]
      by (simp add: AddDeviceLocked_def device_fields_create identity_def Let_def)
    then show ?thesis unfolding run using Some by simp
  qed
qed

theorem create_succeeds_witness:
  "case SetControl easy_host (Some (join_with tab (create_words ''a'' ''b'' 2 2 48000))) ready_driver of (st, d') \<Rightarrow>
     st = 0 \<and> length (GetDeviceList d') = 1"
proof -
  have "FindByIDLocked ''a'' ready_driver = None" "GetDeviceList ready_driver = []" "gHost ready_driver"
    "None \<in> set (gSlots ready_driver)"
    by (simp_all add: ready_driver_def driver_loaded_def FindByIDLocked_def GetDeviceList_def kMaximumDevices_def)
  then show ?thesis
    using create_succeeds [OF ready_reachable _ _ creatable_first]
    by (auto simp: easy_host_def split_beta simp del: join_with.simps)
qed








section \<open>The first device, deleted\<close>

definition pending_device :: "unit driver" where
  "pending_device = first_device\<lparr>gAllDevices := [(Device_new 0 ''a'' ''b'' 2 2 48000)\<lparr>dd_delete_pending := True\<rparr>]\<rparr>"

definition deleted_device :: "unit driver" where
  "deleted_device = first_device\<lparr>gSlots := replicate kMaximumDevices None, gActiveDevices := [],
     gAllDevices := [(Device_new 0 ''a'' ''b'' 2 2 48000)\<lparr>dd_active := False\<rparr>]\<rparr>"

lemmas first_defs = pending_device_def deleted_device_def first_device_def Device_new_def easy_host_def

lemma replicate_update: "(replicate n x)[k := x] = replicate n x"
  by (induction n arbitrary: k) (auto split: nat.splits)

lemma delete_first:
  "SetControl easy_host (Some (join_with tab [''delete'', ''a''])) first_device = (0, pending_device)"
proof -
  have "Split (join_with tab [''delete'', ''a'']) tab = [''delete'', ''a'']"
    unfolding Split_split_at by (intro split_join) auto
  then show ?thesis
    by (simp add: SetControl_def control_locked_def control_unlocked_def FindByIDLocked_def first_defs Let_def
        del: join_with.simps)
qed

lemma perform_first:
  "PerformDeviceConfigurationChange easy_host 100 kDeleteDeviceConfigurationAction (Some 0) pending_device
    = (0, deleted_device)"
  by (simp add: PerformDeviceConfigurationChange_def on_device_def DeviceForObject_def DeviceObjectID_def
      OutputStreamObjectID_def kFirstDeviceObjectID_def kObjectsPerDevice_def kMaximumDevices_def remove_and_release_def
      RemoveDeviceLocked_def PersistLocked_def ReleaseRetiredSlotLocked_def NotifyDeviceListChanged_def notify_of_def
      first_defs Let_def replicate_update)


text \<open>
  A \<open>create\<close> command for a device whose deletion is pending is acknowledged, because the device is still
  there, and the pending deletion then removes it.
\<close>

lemma create_during_pending_delete:
  "case SetControl easy_host (Some (join_with tab [''delete'', ''a''])) first_device of (st1, d1) \<Rightarrow>
   case SetControl easy_host (Some (join_with tab (create_words ''a'' ''b'' 2 2 48000))) d1 of (st2, d2) \<Rightarrow>
   case PerformDeviceConfigurationChange easy_host 100 kDeleteDeviceConfigurationAction (Some 0) d2 of (st3, d3) \<Rightarrow>
     st1 = 0 \<and> st2 = 0 \<and> st3 = 0 \<and> GetDeviceList d2 = [100] \<and> GetDeviceList d3 = []"
proof -
  have "AddDeviceLocked easy_host (create_words ''a'' ''b'' 2 2 48000) True pending_device = (0, pending_device)"
    by (simp add: AddDeviceLocked_def device_fields_create creatable_first FindByIDLocked_def first_defs)
  then have "SetControl easy_host (Some (join_with tab (create_words ''a'' ''b'' 2 2 48000))) pending_device = (0, pending_device)"
    using split_words [OF creatable_first]
    by (simp add: SetControl_def control_locked_def control_unlocked_def create_words_def FindByIDLocked_def
        first_defs Let_def del: join_with.simps)
  then show ?thesis unfolding delete_first prod.case
    by (simp add: perform_first del: join_with.simps)
      (simp add: GetDeviceList_def first_defs DeviceObjectID_def kFirstDeviceObjectID_def)
qed

end
