(* ===== verification/DriverAudio.thy ===== *)
theory DriverAudio
  imports DriverCommands
begin

text \<open>
  The devices of the HAL driver plug-in and their loopback memories together: which calls of the driver
  reach the memory of a device, and what a client reads from a device after any history of calls.
\<close>

section \<open>Calls that reach a memory\<close>

definition memory_op :: "driver_call \<Rightarrow> nat \<Rightarrow> 'h driver \<Rightarrow> loop_call option" where
  "memory_op c a d = (case c of
     StartCall object \<Rightarrow>
       if DeviceForObject object d = Some a \<and> object = DeviceObjectID (dev d a) \<and> dd_active (dev d a)
         \<and> dd_running (dev d a) = 0 then Some FirstStart else None
   | StreamActiveCall object value \<Rightarrow>
       if DeviceForObject object d \<noteq> Some a then None
       else if KindForObject object d = KindInputStream then Some (InputActive (value \<noteq> 0))
       else if KindForObject object d = KindOutputStream then Some (OutputActive (value \<noteq> 0)) else None
   | IoCall object stream operation n time buf \<Rightarrow>
       if DeviceForObject object d \<noteq> Some a \<or> buf = None then None
       else if operation = WriteMixOperation \<and> stream = OutputStreamObjectID (dev d a) then Some (WriteMix time n buf)
       else if operation = ReadInputOperation \<and> stream = InputStreamObjectID (dev d a) then Some (ReadInput time n buf)
       else None
   | _ \<Rightarrow> None)"

fun memory_ops :: "'h driver_host \<Rightarrow> nat \<Rightarrow> driver_call list \<Rightarrow> 'h driver \<Rightarrow> loop_call list" where
  "memory_ops h a [] d = []"
| "memory_ops h a (c # cs) d = (case memory_op c a d of None \<Rightarrow> [] | Some x \<Rightarrow> [x])
     @ memory_ops h a cs (snd (run_call h c d))"

fun run_calls :: "'h driver_host \<Rightarrow> driver_call list \<Rightarrow> 'h driver \<Rightarrow> 'h driver" where
  "run_calls h [] d = d"
| "run_calls h (c # cs) d = run_calls h cs (snd (run_call h c d))"

definition same_memories :: "'h driver \<Rightarrow> 'h driver \<Rightarrow> bool" where
  "same_memories d d' \<longleftrightarrow> length (gAllDevices d) \<le> length (gAllDevices d')
     \<and> (\<forall>a < length (gAllDevices d). dd_memory (dev d' a) = dd_memory (dev d a))"

lemma same_memories_refl: "same_memories d d"
  by (simp add: same_memories_def)

lemma same_memories_trans: "same_memories d d' \<Longrightarrow> same_memories d' d'' \<Longrightarrow> same_memories d d''"
  by (fastforce simp: same_memories_def)

lemma same_memories_frame:
  "same_memories d (d\<lparr>host_state := s\<rparr>)" "same_memories d (d\<lparr>gSlots := ss\<rparr>)"
  "same_memories d (d\<lparr>gActiveDevices := l\<rparr>)" "same_memories d (d\<lparr>gHost := b\<rparr>)"
  by (simp_all add: same_memories_def)

lemma same_memories_with_dev: "(\<And>v. dd_memory (f v) = dd_memory v) \<Longrightarrow> same_memories d (with_dev a f d)"
  by (simp add: same_memories_def dev_update)

lemma AddDeviceLocked_memories: "AddDeviceLocked h parts persist d = (st, d') \<Longrightarrow> same_memories d d'"
  by (auto simp: AddDeviceLocked_def Let_def same_memories_def nth_append split: option.splits if_splits prod.splits
      dest!: PersistLocked_frame)

lemma load_inventory_memories: "load_inventory h ls d = (st, d') \<Longrightarrow> same_memories d d'"
  by (induction ls arbitrary: d)
    (auto split: if_splits prod.splits intro: same_memories_refl same_memories_trans AddDeviceLocked_memories)

lemma RemoveDeviceLocked_memories:
  assumes "RemoveDeviceLocked h (Some a) persist d = (st, d')"
  shows "same_memories d d'"
  using assms by (cases rule: RemoveDeviceLocked_cases) (auto simp: same_memories_def dev_update)

lemma release_memories: "same_memories d (ReleaseRetiredSlotLocked a d)"
  by (simp add: ReleaseRetiredSlotLocked_def same_memories_frame same_memories_refl)

lemma notify_memories: "same_memories d (notify_of object h d)" "same_memories d (NotifyDeviceListChanged h d)"
  by (simp_all add: notify_of_def NotifyDeviceListChanged_def same_memories_frame same_memories_refl)

lemma remove_and_release_memories:
  assumes "remove_and_release h a d = (st, d')"
  shows "same_memories d d'"
proof -
  obtain st1 d1 where r: "RemoveDeviceLocked h (Some a) True d = (st1, d1)" by fastforce
  have "same_memories d1 d'" using assms r same_memories_refl
      same_memories_trans [OF notify_memories(2) release_memories]
    by (auto simp: remove_and_release_def split: if_splits)
  then show ?thesis using RemoveDeviceLocked_memories [OF r] same_memories_trans by blast
qed

lemma pending_memories:
  "same_memories d (with_dev a (\<lambda>v. v\<lparr>dd_delete_pending := b\<rparr>) d)"
  "same_memories d (d\<lparr>host_state := s, gAllDevices := (gAllDevices d)[a := (dev d a)\<lparr>dd_delete_pending := b\<rparr>]\<rparr>)"
  by (simp_all add: same_memories_def dev_update)

lemma SetControl_memories: "same_memories d (snd (SetControl h msg d))"
proof (cases msg)
  case (Some cmd)
  obtain r d1 where r: "control_locked h cmd d = (r, d1)" by fastforce
  have "same_memories d d1"
    using r by (auto simp: control_locked_def Let_def pending_memories same_memories_refl
        split: if_splits option.splits prod.splits dest: AddDeviceLocked_memories)
  moreover have "same_memories d1 (snd (control_unlocked h r d1))"
    by (auto simp: control_unlocked_def Let_def pending_memories notify_memories same_memories_refl same_memories_frame
        split: prod.splits option.splits)
  ultimately show ?thesis using Some r same_memories_trans by (fastforce simp: SetControl_def)
qed (simp add: SetControl_def same_memories_refl)

lemma on_device_memories:
  "(\<And>a. same_memories d (snd (f a d))) \<Longrightarrow> same_memories d (snd (on_device object f d))"
  by (simp add: on_device_def same_memories_refl split: option.split)

lemma counted_memories:
  "same_memories d (with_dev a (\<lambda>v. v\<lparr>dd_attached := n\<rparr>) d)" "same_memories d (with_dev a (\<lambda>v. v\<lparr>dd_running := n\<rparr>) d)"
  by (rule same_memories_with_dev, simp)+

lemma Initialize_memories: "same_memories d (snd (Initialize h d))"
proof -
  have load: "same_memories d (snd (load_inventory h ls (d\<lparr>gHost := True, host_state := s\<rparr>)))" for ls s
    using load_inventory_memories [of h ls "d\<lparr>gHost := True, host_state := s\<rparr>"]
    by (cases "load_inventory h ls (d\<lparr>gHost := True, host_state := s\<rparr>)") (simp add: same_memories_def)
  show ?thesis using load
    by (auto simp: Initialize_def Let_def same_memories_def split: prod.splits stored_value.splits option.splits)
qed

lemma quiet_memories:
  "same_memories d (snd (Initialize h d))"
  "same_memories d (snd (SetControl h msg d))"
  "same_memories d (snd (DestroyDevice h object d))"
  "same_memories d (snd (AddDeviceClient object d))"
  "same_memories d (snd (RemoveDeviceClient object d))"
  "same_memories d (snd (PerformDeviceConfigurationChange h object action info d))"
  "same_memories d (snd (AbortDeviceConfigurationChange object action info d))"
  "same_memories d (snd (StopIO object d))"
proof -
  have remove: "same_memories d (snd (remove_and_release h a d))" for a d
    using remove_and_release_memories [of h a d] by (cases "remove_and_release h a d") simp
  show "same_memories d (snd (Initialize h d))" by (rule Initialize_memories)
  show "same_memories d (snd (SetControl h msg d))" by (rule SetControl_memories)
  show "same_memories d (snd (DestroyDevice h object d))"
    unfolding DestroyDevice_def by (rule on_device_memories) (rule remove)
  show "same_memories d (snd (AddDeviceClient object d))"
    unfolding AddDeviceClient_def by (rule on_device_memories) (simp add: same_memories_refl counted_memories)
  show "same_memories d (snd (RemoveDeviceClient object d))"
    unfolding RemoveDeviceClient_def
    by (rule on_device_memories)
      (simp add: same_memories_refl same_memories_trans [OF counted_memories(1) release_memories])
  show "same_memories d (snd (PerformDeviceConfigurationChange h object action info d))"
    unfolding PerformDeviceConfigurationChange_def
    by (rule on_device_memories)
      (simp add: Let_def same_memories_refl pending_memories same_memories_trans [OF pending_memories(1) remove])
  show "same_memories d (snd (AbortDeviceConfigurationChange object action info d))"
    unfolding AbortDeviceConfigurationChange_def
    by (rule on_device_memories) (simp add: same_memories_refl pending_memories)
  show "same_memories d (snd (StopIO object d))"
    unfolding StopIO_def
    by (rule on_device_memories)
      (simp add: same_memories_refl same_memories_trans [OF counted_memories(2) release_memories])
qed

section \<open>One call, and a history\<close>

definition after_op :: "loop_call option \<Rightarrow> loopback \<Rightarrow> loopback" where
  "after_op x m = (case x of None \<Rightarrow> m | Some y \<Rightarrow> snd (loop_op y m))"

lemma after_op_simps [simp]: "after_op None m = m" "after_op (Some x) m = snd (loop_op x m)"
  by (simp_all add: after_op_def)

definition memory_follows :: "nat \<Rightarrow> loop_call option \<Rightarrow> 'h driver \<Rightarrow> 'h driver \<Rightarrow> bool" where
  "memory_follows a x d d' \<longleftrightarrow> length (gAllDevices d) \<le> length (gAllDevices d')
     \<and> (a < length (gAllDevices d) \<longrightarrow> dd_memory (dev d' a) = after_op x (dd_memory (dev d a)))"

lemma memory_follows_quiet: "same_memories d d' \<Longrightarrow> memory_follows a None d d'"
  by (simp add: memory_follows_def same_memories_def)

lemma notify_devices [simp]: "gAllDevices (notify_of object h d) = gAllDevices d"
  by (simp add: notify_of_def)

lemma memory_step: "memory_follows a (memory_op c a d) d (snd (run_call h c d))"
proof (cases c)
  case (StreamActiveCall object v)
  have kind: "KindForObject object d \<in> {KindInputStream, KindOutputStream} \<Longrightarrow> \<exists>b. DeviceForObject object d = Some b"
    by (auto simp: KindForObject_def split: option.splits if_splits)
  show ?thesis using StreamActiveCall kind
    by (cases "KindForObject object d")
      (auto simp: SetStreamActive_def memory_op_def memory_follows_quiet [OF same_memories_refl]
        memory_follows_def dev_update)
next
  case (StartCall object)
  then show ?thesis
    by (auto simp: StartIO_def on_device_def memory_op_def memory_follows_def dev_update Let_def split_beta
        split: option.split)
next
  case (IoCall object stream operation n time buf)
  then show ?thesis
    by (auto simp: DoIOOperation_def memory_op_def memory_follows_def dev_update split_beta Let_def
        split: option.split)
qed (simp_all add: memory_op_def memory_follows_quiet quiet_memories)

lemma memory_history:
  "a < length (gAllDevices d) \<Longrightarrow>
   dd_memory (dev (run_calls h cs d) a) = foldl (\<lambda>m x. snd (loop_op x m)) (dd_memory (dev d a)) (memory_ops h a cs d)"
proof (induction cs arbitrary: d)
  case (Cons c cs)
  note step = memory_step [of a c d h, unfolded memory_follows_def]
  have "a < length (gAllDevices (snd (run_call h c d)))" using step Cons.prems by linarith
  from Cons.IH [OF this] step Cons.prems show ?case by (simp add: after_op_def split: option.split)
qed simp

lemma loop_ops_snoc: "last (loop_ops (xs @ [x]) m) = fst (loop_op x (foldl (\<lambda>m x. snd (loop_op x m)) m xs))"
proof (induction xs arbitrary: m)
  case (Cons y ys)
  have "loop_ops (ys @ [x]) m' \<noteq> []" for m' by (cases ys) (simp_all add: split_beta Let_def)
  then show ?case using Cons by (simp add: split_beta Let_def)
qed (simp add: split_beta)

text \<open>C30: Every device of the driver is a delay line of its own: whatever calls the driver has had since the
  device was made, a client that reads from its input stream gets what the delay line gives that has seen
  the device's own writes, first starts and switches, and only those. Calls for other devices, commands,
  refused calls and second starts do not touch it.\<close>

theorem devices_are_delay_lines:
  assumes "a < length (gAllDevices d)" and "dd_memory (dev d a) = loopback_new ins outs"
    and "d' = run_calls h cs d" and "DeviceForObject object d' = Some a" and "stream = InputStreamObjectID (dev d' a)"
  shows "fst (DoIOOperation object stream ReadInputOperation n time (Some buf) d')
    = (0, last (line_ops ins outs (memory_ops h a cs d @ [ReadInput time n (Some buf)])
        \<lparr>line_log = [], line_input = True, line_output = True\<rparr>))"
proof -
  have "dd_memory (dev d' a) = foldl (\<lambda>m x. snd (loop_op x m)) (loopback_new ins outs) (memory_ops h a cs d)"
    using memory_history [OF assms(1), of h cs] assms(2,3) by simp
  then have "fst (Read time n (Some buf) (dd_memory (dev d' a)))
      = last (loop_ops (memory_ops h a cs d @ [ReadInput time n (Some buf)]) (loopback_new ins outs))"
    by (simp add: loop_ops_snoc)
  then show ?thesis
    using assms(4,5) by (simp add: DoIOOperation_def split_beta Let_def loop_ops_follow [OF new_follows])
qed

theorem devices_are_delay_lines_witness:
  "fst (DoIOOperation 100 101 ReadInputOperation 1 (1024 + kLoopbackLatencyFrames) (Some [NaN, NaN])
     (run_calls easy_host [StartCall 100, IoCall 100 102 WriteMixOperation 1 1024 (Some [Inf True, NaN])] first_device))
    = (0, Some [Inf True, NaN])"
proof -
  let ?cs = "[StartCall 100, IoCall 100 102 WriteMixOperation 1 1024 (Some [Inf True, NaN])]"
  note calls = StartIO_def DoIOOperation_def on_device_def DeviceForObject_def DeviceObjectID_def InputStreamObjectID_def
    OutputStreamObjectID_def kFirstDeviceObjectID_def kObjectsPerDevice_def kMaximumDevices_def first_defs Let_def split_beta
  have ops: "memory_ops easy_host 0 ?cs first_device = [FirstStart, WriteMix 1024 1 (Some [Inf True, NaN])]"
    by (simp add: memory_op_def calls)
  have at: "DeviceForObject 100 (run_calls easy_host ?cs first_device) = Some 0"
    "101 = InputStreamObjectID (dev (run_calls easy_host ?cs first_device) 0)"
    by (simp_all add: calls)
  have new: "0 < length (gAllDevices first_device)" "dd_memory (dev first_device 0) = loopback_new 2 2"
    by (simp_all add: first_defs)
  note read = devices_are_delay_lines [OF new refl at, of 1 "1024 + kLoopbackLatencyFrames" "[NaN, NaN]", unfolded ops]
  show ?thesis unfolding read by (simp add: delayed_def logged_def kLoopbackLatencyFrames_def upt_conv_Cons)
qed

end
