(* ===== verification/Daemon.thy ===== *)
theory Daemon
  imports CoreAudioApi
begin

text \<open>
  \<open>crates/vcabled/src/main.rs\<close>: the daemon. Its state (the validated graph, the saved routes, the
  devices behind the endpoints, the running router) and the files it keeps are one record, and
  every method is a function from the record to a result and a record, so that what a failed
  method has already changed is part of the model.

  What lies outside the daemon is explicit. File operations act on a map from paths to contents
  and consult a schedule of faults, one entry per operation, so the theorems hold for every way in
  which they can fail. Core Audio is the record \<open>host\<close> of the functions the daemon imports from
  \<open>vcable_coreaudio\<close>, over a state of any type, together with \<open>powf\<close> and the rendering of a gain in
  the status text.
\<close>

section \<open>State\<close>

record SavedRoute =
  sr_id :: string
  sr_source :: string
  sr_sink :: string
  sr_gain_millidb :: i32
  sr_matrix_millionths :: "i32 list"

datatype DaemonError =
    DaemonCoreAudio CoreAudioError
  | DaemonGraph GraphError
  | DaemonMatrix MatrixError
  | DaemonIo io_error
  | InvalidDeviceId string
  | DeviceInUse string
  | DaemonRouteExists string
  | DaemonRouteNotFound string
  | DaemonEndpointNotFound string
  | MatrixRequired usize usize      \<comment> \<open>inputs, outputs\<close>
  | StateError string

text \<open>A fault makes an operation fail; a failing write has written the first \<open>n\<close> bytes.\<close>

type_synonym fault = "(io_error \<times> nat) option"

record 'c system =
  graph :: RoutingGraph
  saved_routes :: "(string, SavedRoute) btree"
  endpoint_devices :: "(string, AudioDevice) btree"
  router :: "AudioRoute list option"
  state_path :: string
  files :: "string \<Rightarrow> string option"
  faults :: "fault list"
  audio :: 'c

record 'c host =
  h_list_devices :: "'c \<Rightarrow> (AudioDevice list, CoreAudioError) res \<times> 'c"
  h_create_virtual_device ::
    "string \<Rightarrow> string \<Rightarrow> u32 \<Rightarrow> u32 \<Rightarrow> u32 \<Rightarrow> 'c \<Rightarrow> (unit, CoreAudioError) res \<times> 'c"
  h_delete_virtual_device :: "string \<Rightarrow> 'c \<Rightarrow> (unit, CoreAudioError) res \<times> 'c"
  h_start_router :: "AudioRoute list \<Rightarrow> 'c \<Rightarrow> (unit, CoreAudioError) res \<times> 'c"
  h_stop_router :: "'c \<Rightarrow> 'c"
  h_router_metrics :: "'c \<Rightarrow> u64 \<times> u64 \<times> u64"   \<comment> \<open>underruns, overruns, format errors\<close>
  h_powf :: "f32 \<Rightarrow> f32 \<Rightarrow> f32"
  h_show_gain :: "f32 \<Rightarrow> string"                    \<comment> \<open>\<open>{:.6}\<close>\<close>

type_synonym ('c, 'a) act = "'c system \<Rightarrow> ('a, DaemonError) res \<times> 'c system"

text \<open>\<open>?\<close> and \<open>;\<close>: an error leaves with the state reached so far.\<close>

definition andthen :: "('c, 'a) act \<Rightarrow> ('a \<Rightarrow> ('c, 'b) act) \<Rightarrow> ('c, 'b) act" where
  "andthen m f s = (case m s of
      (Ok a, s') \<Rightarrow> f a s'
    | (Err e, s') \<Rightarrow> (Err e, s')
    | (Panic, s') \<Rightarrow> (Panic, s'))"

definition done_with :: "'a \<Rightarrow> ('c, 'a) act" where
  "done_with a s = (Ok a, s)"

definition fail :: "DaemonError \<Rightarrow> ('c, 'a) act" where
  "fail e s = (Err e, s)"

definition lift_res :: "('a, DaemonError) res \<Rightarrow> ('c, 'a) act" where
  "lift_res r s = (r, s)"

definition with_state :: "('c system \<Rightarrow> ('c, 'a) act) \<Rightarrow> ('c, 'a) act" where
  "with_state f s = f s s"

definition update :: "('c system \<Rightarrow> 'c system) \<Rightarrow> ('c, unit) act" where
  "update f s = (Ok (), f s)"

section \<open>Files\<close>

definition next_fault :: "'c system \<Rightarrow> fault \<times> 'c system" where
  "next_fault s = (case faults s of [] \<Rightarrow> (None, s) | f # fs \<Rightarrow> (f, s\<lparr>faults := fs\<rparr>))"

definition file_op :: "('c system \<Rightarrow> 'c system) \<Rightarrow> (nat \<Rightarrow> 'c system \<Rightarrow> 'c system) \<Rightarrow> ('c, unit) act" where
  "file_op effect partial s =
     (case next_fault s of
        (None, s1) \<Rightarrow> (Ok (), effect s1)
      | (Some (e, n), s1) \<Rightarrow> (Err (DaemonIo e), partial n s1))"

definition create_dir_all :: "string \<Rightarrow> ('c, unit) act" where
  "create_dir_all path = file_op (\<lambda>s. s) (\<lambda>n s. s)"

definition open_truncated :: "string \<Rightarrow> ('c, unit) act" where
  "open_truncated path =
     file_op (\<lambda>s. s\<lparr>files := (files s)(path := Some [])\<rparr>) (\<lambda>n s. s)"

definition append_to :: "string \<Rightarrow> string \<Rightarrow> 'c system \<Rightarrow> 'c system" where
  "append_to path text s =
     s\<lparr>files := (files s)(path := Some ((case files s path of None \<Rightarrow> [] | Some t \<Rightarrow> t) @ text))\<rparr>"

definition write_text :: "string \<Rightarrow> string \<Rightarrow> ('c, unit) act" where
  "write_text path text = file_op (append_to path text) (\<lambda>n. append_to path (take n text))"

definition sync_all :: "string \<Rightarrow> ('c, unit) act" where
  "sync_all path = file_op (\<lambda>s. s) (\<lambda>n s. s)"

definition rename_file :: "string \<Rightarrow> string \<Rightarrow> ('c, unit) act" where
  "rename_file a b = file_op
     (\<lambda>s. if a = b then s else s\<lparr>files := (files s)(b := files s a, a := None)\<rparr>) (\<lambda>n s. s)"

section \<open>Saving and loading the routes\<close>

definition connect_request :: "SavedRoute \<Rightarrow> Request" where
  "connect_request r =
     Connect (sr_id r) (sr_source r) (sr_sink r) (sr_gain_millidb r) (sr_matrix_millionths r)"

fun write_lines :: "string \<Rightarrow> SavedRoute list \<Rightarrow> ('c, unit) act" where
  "write_lines path [] = done_with ()"
| "write_lines path (r # rs) =
     andthen (write_text path (request_encode (connect_request r) @ [CHR 0x0A])) (\<lambda>_. write_lines path rs)"

text \<open>
  \<open>Path::parent\<close> and \<open>Path::with_extension("tmp")\<close> of the standard library, on the components of a path:
  empty ones and \<open>.\<close> do not count, except a \<open>.\<close> at the start; a file stem ends before the last dot that is
  not the first character.
\<close>

definition no_component :: "string \<Rightarrow> bool" where
  "no_component c \<longleftrightarrow> c = [] \<or> c = ''.''"

definition path_back :: "string \<Rightarrow> string list" where
  \<comment> \<open>the components from the last one that counts\<close>
  "path_back path = dropWhile no_component (rev (split_at CHR ''/'' path))"

definition path_parent :: "string \<Rightarrow> string option" where
  "path_parent path =
     (let first = hd (split_at CHR ''/'' path); absolute = (path \<noteq> [] \<and> first = []) in
      case path_back path of
        [] \<Rightarrow> if first = ''.'' then Some [] else None
      | name # before \<Rightarrow> Some (case dropWhile no_component before of
            [] \<Rightarrow> if absolute then ''/'' else if before \<noteq> [] then ''.'' else []
          | rest \<Rightarrow> join_with CHR ''/'' (rev rest)))"

definition file_stem :: "string \<Rightarrow> string" where
  "file_stem name =
     (let extension = takeWhile (\<lambda>c. c \<noteq> CHR ''.'') (rev name); stem = rev (drop (length extension + 1) (rev name))
      in if CHR ''.'' \<notin> set name \<or> stem = [] then name else stem)"

definition with_extension_tmp :: "string \<Rightarrow> string" where
  "with_extension_tmp path =
     (case path_back path of
        [] \<Rightarrow> path
      | name # before \<Rightarrow> if name = ''..'' then path
          else join_with CHR ''/'' (rev before @ [file_stem name @ ''.tmp'']))"

definition save_routes :: "('c, unit) act" where
  "save_routes = with_state (\<lambda>s.
     case path_parent (state_path s) of
       None \<Rightarrow> fail (StateError ''state path has no parent directory'')
     | Some parent \<Rightarrow>
         let parent = (if parent = [] then ''.'' else parent);
             temp = with_extension_tmp (state_path s) in
         andthen (create_dir_all parent) (\<lambda>_.
         andthen (open_truncated temp) (\<lambda>_.
         andthen (write_lines temp (bt_values (saved_routes s))) (\<lambda>_.
         andthen (sync_all temp) (\<lambda>_.
         rename_file temp (state_path s))))))"

text \<open>\<open>BufRead::lines\<close>: a final newline ends the last line, and one \<open>\r\<close> before a newline goes too.\<close>

definition strip_cr :: "string \<Rightarrow> string" where
  "strip_cr l = (if l \<noteq> [] \<and> last l = CHR 0x0D then butlast l else l)"

definition text_lines :: "string \<Rightarrow> string list" where
  "text_lines t =
     (let ls = split_at CHR 0x0A t in map strip_cr (butlast ls) @ (if last ls = [] then [] else [last ls]))"

text \<open>The errors of \<open>load\<close> are boxed: an I/O error, or a text.\<close>

datatype load_error = LoadIo io_error | LoadText string

definition at_line :: "string \<Rightarrow> nat \<Rightarrow> string \<Rightarrow> load_error" where
  "at_line path n text = LoadText (path @ '':'' @ show_nat (n + 1) @ '': '' @ text)"

fun load_lines :: "string \<Rightarrow> nat \<Rightarrow> string list \<Rightarrow> (string, SavedRoute) btree \<Rightarrow>
    ((string, SavedRoute) btree, load_error) res" where
  "load_lines path n [] m = Ok m"
| "load_lines path n (line # ls) m =
     (if \<not> utf8_valid line then Err (LoadIo (OtherIo ''stream did not contain valid UTF-8''))
      else if line = [] then load_lines path (n + 1) ls m
      else case request_decode line of
        Err e \<Rightarrow> Err (at_line path n (show_protocol_error e))
      | Panic \<Rightarrow> Panic
      | Ok (Connect i src snk gain_mdb mtx) \<Rightarrow>
          if bt_contains m i then Err (at_line path n (''duplicate route '' @ i))
          else load_lines path (n + 1) ls (bt_insert i
            \<lparr>sr_id = i, sr_source = src, sr_sink = snk, sr_gain_millidb = gain_mdb,
             sr_matrix_millionths = mtx\<rparr> m)
      | Ok _ \<Rightarrow> Err (at_line path n ''state contains a non-route command''))"

definition load_routes ::
    "string \<Rightarrow> (string \<Rightarrow> string option) \<Rightarrow> ((string, SavedRoute) btree, load_error) res" where
  "load_routes path fs =
     (case fs path of
        None \<Rightarrow> Ok bt_empty
      | Some text \<Rightarrow> load_lines path 0 (text_lines text) bt_empty)"

text \<open>\<open>File::open\<close> may fail; a failing read is a text cut short by the error, taken as a whole here.\<close>

definition daemon_load ::
    "string \<Rightarrow> (string \<Rightarrow> string option) \<Rightarrow> fault list \<Rightarrow> 'c \<Rightarrow> ('c system, load_error) res" where
  "daemon_load path fs flts c =
     and_then (case fs path of
        None \<Rightarrow> Ok (bt_empty, flts)
      | Some _ \<Rightarrow>
          (case flts of
             Some (e, _) # _ \<Rightarrow> Err (LoadIo e)
           | _ \<Rightarrow> and_then (load_routes path fs) (\<lambda>rs. Ok (rs, tl flts)))) (\<lambda>(rs, flts').
     Ok \<lparr>graph = graph_default, saved_routes = rs, endpoint_devices = bt_empty, router = None,
         state_path = path, files = fs, faults = flts', audio = c\<rparr>)"

section \<open>Endpoints\<close>

definition hex_lower :: "nat \<Rightarrow> char" where
  "hex_lower d = char_of (if d < 10 then 48 + d else 87 + d)"

fun encode_uid :: "string \<Rightarrow> string" where
  "encode_uid [] = []"
| "encode_uid (c # cs) =
     (if id_byte c then [c] else [CHR ''_'', hex_lower (byte c div 16), hex_lower (byte c mod 16)])
     @ encode_uid cs"

definition endpoint_id :: "string \<Rightarrow> string \<Rightarrow> string" where
  "endpoint_id uid suffix = ''audio:'' @ encode_uid uid @ '':'' @ suffix"

type_synonym endpoint_maps = "RoutingGraph \<times> (string, AudioDevice) btree"

definition device_endpoint ::
    "AudioDevice \<Rightarrow> ClockDomain \<Rightarrow> EndpointDirection \<Rightarrow> string \<Rightarrow> u32 \<Rightarrow> endpoint_maps \<Rightarrow>
     (endpoint_maps, DaemonError) res" where
  "device_endpoint d clock dir suffix chans = (\<lambda>(g, devs).
     if 0 < chans then
       let i = endpoint_id (dev_uid d) suffix in
       and_then (map_err DaemonGraph (EndpointId_new i)) (\<lambda>eid.
       and_then (map_err DaemonGraph (add_endpoint
         \<lparr>ep_id = eid, node = dev_uid d, direction = dir, channels = unat chans,
          sample_rate = dev_sample_rate d, clock_domain = clock, is_loopback = dev_is_virtual d\<rparr> g)) (\<lambda>g'.
       Ok (g', bt_insert i d devs)))
     else Ok (g, devs))"

definition device_endpoints :: "AudioDevice \<Rightarrow> endpoint_maps \<Rightarrow> (endpoint_maps, DaemonError) res" where
  "device_endpoints d maps =
     and_then (map_err DaemonGraph (ClockDomain_new (''coreaudio:'' @ show_u32 (dev_object_id d)))) (\<lambda>clock.
     and_then (device_endpoint d clock Source ''input'' (dev_input_channels d) maps) (\<lambda>maps1.
     device_endpoint d clock Sink ''output'' (dev_output_channels d) maps1))"

fun all_endpoints :: "AudioDevice list \<Rightarrow> endpoint_maps \<Rightarrow> (endpoint_maps, DaemonError) res" where
  "all_endpoints [] maps = Ok maps"
| "all_endpoints (d # ds) maps = and_then (device_endpoints d maps) (all_endpoints ds)"

definition with_audio :: "('c \<Rightarrow> ('a, CoreAudioError) res \<times> 'c) \<Rightarrow> ('c, 'a) act" where
  "with_audio f s = (let (r, a) = f (audio s) in (map_err DaemonCoreAudio r, s\<lparr>audio := a\<rparr>))"

definition refresh_endpoints :: "'c host \<Rightarrow> ('c, unit) act" where
  "refresh_endpoints h =
     andthen (with_audio (h_list_devices h)) (\<lambda>devices.
     andthen (lift_res (all_endpoints devices (graph_default, bt_empty))) (\<lambda>(g, devs).
     update (\<lambda>s. s\<lparr>graph := g, endpoint_devices := devs\<rparr>)))"

section \<open>Routes\<close>

definition gain_of :: "'c host \<Rightarrow> i32 \<Rightarrow> f32" where
  "gain_of h millidb =
     (let db = fdiv F32 (of_integer F32 (sint millidb)) (of_natural F32 1000)
      in h_powf h (of_natural F32 10) (fdiv F32 db (of_natural F32 20)))"

definition millionth :: "i32 \<Rightarrow> f32" where
  "millionth v = fdiv F32 (of_integer F32 (sint v)) (of_natural F32 1000000)"

definition build_route :: "'c host \<Rightarrow> RoutingGraph \<Rightarrow> SavedRoute \<Rightarrow> (Route, DaemonError) res" where
  "build_route h g saved =
     and_then (map_err DaemonGraph (EndpointId_new (sr_source saved))) (\<lambda>source_id.
     and_then (map_err DaemonGraph (EndpointId_new (sr_sink saved))) (\<lambda>sink_id.
     and_then (ok_or (DaemonEndpointNotFound (sr_source saved)) (endpoint g source_id)) (\<lambda>source.
     and_then (ok_or (DaemonEndpointNotFound (sr_sink saved)) (endpoint g sink_id)) (\<lambda>sink.
     and_then
       (if sr_matrix_millionths saved = [] then
          if channels source \<noteq> channels sink then Err (MatrixRequired (channels source) (channels sink))
          else map_err DaemonMatrix (matrix_identity (channels source))
        else map_err DaemonMatrix
          (matrix_new (channels sink) (channels source) (map millionth (sr_matrix_millionths saved)))) (\<lambda>coefficients.
     and_then (map_err DaemonGraph (RouteId_new (sr_id saved))) (\<lambda>rid.
     Ok \<lparr>Route.route_id = rid, route_source = source_id, route_sink = sink_id,
         gain = gain_of h (sr_gain_millidb saved), matrix = coefficients\<rparr>))))))"

definition graph_add_route :: "Route \<Rightarrow> ('c, unit) act" where
  "graph_add_route r = with_state (\<lambda>s.
     andthen (lift_res (map_err DaemonGraph (add_route r (graph s)))) (\<lambda>g. update (\<lambda>s. s\<lparr>graph := g\<rparr>)))"

definition add_saved :: "'c host \<Rightarrow> SavedRoute \<Rightarrow> ('c, unit) act" where
  "add_saved h saved = with_state (\<lambda>s.
     andthen (lift_res (build_route h (graph s) saved)) graph_add_route)"

fun add_all_saved :: "'c host \<Rightarrow> SavedRoute list \<Rightarrow> ('c, unit) act" where
  "add_all_saved h [] = done_with ()"
| "add_all_saved h (r # rs) = andthen (add_saved h r) (\<lambda>_. add_all_saved h rs)"

definition restore_routes :: "'c host \<Rightarrow> ('c, unit) act" where
  "restore_routes h = with_state (\<lambda>s. add_all_saved h (bt_values (saved_routes s)))"

definition audio_route :: "(string, AudioDevice) btree \<Rightarrow> Route \<Rightarrow> (AudioRoute, DaemonError) res" where
  "audio_route devs r =
     and_then (ok_or (DaemonEndpointNotFound (endpoint_str (route_source r)))
       (bt_get devs (endpoint_str (route_source r)))) (\<lambda>source.
     and_then (ok_or (DaemonEndpointNotFound (endpoint_str (route_sink r)))
       (bt_get devs (endpoint_str (route_sink r)))) (\<lambda>sink.
     Ok \<lparr>source_device_id = dev_object_id source, sink_device_id = dev_object_id sink,
         source_channels = dev_input_channels source, sink_channels = dev_output_channels sink,
         source_sample_rate = dev_sample_rate source, sink_sample_rate = dev_sample_rate sink,
         route_matrix = coefficients (matrix r), route_gain = gain r\<rparr>))"

definition drop_router :: "'c host \<Rightarrow> ('c, unit) act" where
  "drop_router h = update (\<lambda>s.
     if router s = None then s else s\<lparr>router := None, audio := h_stop_router h (audio s)\<rparr>)"

definition restart_router :: "'c host \<Rightarrow> ('c, unit) act" where
  "restart_router h =
     andthen (drop_router h) (\<lambda>_. with_state (\<lambda>s.
     andthen (lift_res (traverse (audio_route (endpoint_devices s)) (bt_values (routes (graph s))))) (\<lambda>rs.
       if rs = [] then done_with ()
       else andthen (with_audio (h_start_router h rs)) (\<lambda>_. update (\<lambda>s. s\<lparr>router := Some rs\<rparr>)))))"

section \<open>Status\<close>

fun show_direction :: "EndpointDirection \<Rightarrow> string" where
  "show_direction Source = ''Source''"
| "show_direction Sink = ''Sink''"

definition endpoint_line :: "EndpointDescriptor \<Rightarrow> string" where
  "endpoint_line e = ''endpoint'' @ tab # endpoint_str (ep_id e) @ tab # show_direction (direction e)
     @ tab # show_nat (channels e) @ ''ch'' @ tab # show_u32 (sample_rate e) @ ''Hz''
     @ tab # clock_str (clock_domain e)"

definition route_line :: "'c host \<Rightarrow> Route \<Rightarrow> string" where
  "route_line h r = ''route'' @ tab # route_str (Route.route_id r) @ tab # endpoint_str (route_source r)
     @ tab # endpoint_str (route_sink r) @ tab # h_show_gain h (gain r)"

definition show_u64 :: "u64 \<Rightarrow> string" where
  "show_u64 w = show_nat (unat w)"

definition metrics_line :: "u64 \<times> u64 \<times> u64 \<Rightarrow> string" where
  "metrics_line = (\<lambda>(underruns, overruns, errors).
     ''metrics'' @ tab # ''underruns='' @ show_u64 underruns @ tab # ''overruns='' @ show_u64 overruns
     @ tab # ''format_errors='' @ show_u64 errors)"

definition status_text :: "'c host \<Rightarrow> 'c system \<Rightarrow> string" where
  "status_text h s = join_with CHR 0x0A
     (map endpoint_line (bt_values (endpoints (graph s)))
      @ map (route_line h) (bt_values (routes (graph s)))
      @ (case router s of None \<Rightarrow> [] | Some _ \<Rightarrow> [metrics_line (h_router_metrics h (audio s))]))"

section \<open>Requests\<close>

definition device_id_byte :: "char \<Rightarrow> bool" where
  "device_id_byte c = (is_ascii_alphanumeric c \<or> c \<in> set ''._-'')"

definition validate_device_id :: "string \<Rightarrow> (unit, DaemonError) res" where
  "validate_device_id i =
     (if i = [] \<or> 128 < length i \<or> \<not> list_all device_id_byte i then Err (InvalidDeviceId i) else Ok ())"

definition create_device :: "'c host \<Rightarrow> string \<Rightarrow> string \<Rightarrow> u32 \<Rightarrow> u32 \<Rightarrow> u32 \<Rightarrow> ('c, string) act" where
  "create_device h i name inputs outputs rate =
     andthen (lift_res (validate_device_id i)) (\<lambda>_.
     andthen (with_audio (h_create_virtual_device h i name inputs outputs rate)) (\<lambda>_.
     andthen (refresh_endpoints h) (\<lambda>_.
     andthen (restore_routes h) (\<lambda>_.
     done_with (''created '' @ i)))))"

definition is_referenced :: "string \<Rightarrow> 'c system \<Rightarrow> bool" where
  "is_referenced uid s = list_ex (\<lambda>r. list_ex (\<lambda>e.
     case bt_get (endpoint_devices s) e of None \<Rightarrow> False | Some d \<Rightarrow> dev_uid d = uid)
     [sr_source r, sr_sink r]) (bt_values (saved_routes s))"

definition delete_device :: "'c host \<Rightarrow> string \<Rightarrow> ('c, string) act" where
  "delete_device h i =
     andthen (lift_res (validate_device_id i)) (\<lambda>_. with_state (\<lambda>s.
     if is_referenced (''dev.vcable.device.'' @ i) s then fail (DeviceInUse i)
     else andthen (with_audio (h_delete_virtual_device h i)) (\<lambda>_.
       andthen (refresh_endpoints h) (\<lambda>_.
       andthen (restore_routes h) (\<lambda>_.
       done_with (''deleted '' @ i))))))"

definition insert_saved :: "string \<Rightarrow> SavedRoute \<Rightarrow> ('c, unit) act" where
  "insert_saved i r = update (\<lambda>s. s\<lparr>saved_routes := bt_insert i r (saved_routes s)\<rparr>)"

definition remove_saved :: "string \<Rightarrow> ('c, unit) act" where
  "remove_saved i = update (\<lambda>s. s\<lparr>saved_routes := bt_remove i (saved_routes s)\<rparr>)"

text \<open>\<open>if let Err(error) = m { recovery; return Err(error) }\<close>\<close>

definition or_recover :: "('c, 'a) act \<Rightarrow> ('c, unit) act \<Rightarrow> ('c, 'a) act" where
  "or_recover m recovery s = (case m s of
      (Ok a, s') \<Rightarrow> (Ok a, s')
    | (Err e, s') \<Rightarrow> andthen recovery (\<lambda>_. fail e) s'
    | (Panic, s') \<Rightarrow> (Panic, s'))"

text \<open>Both handlers rebuild everything from the saved routes when the router does not start.\<close>

definition rebuild :: "'c host \<Rightarrow> ('c, unit) act" where
  "rebuild h =
     andthen (save_routes) (\<lambda>_.
     andthen (refresh_endpoints h) (\<lambda>_.
     andthen (restore_routes h) (\<lambda>_. restart_router h)))"

definition connect_route :: "'c host \<Rightarrow> SavedRoute \<Rightarrow> ('c, string) act" where
  "connect_route h saved =
     andthen (add_saved h saved) (\<lambda>_. with_state (\<lambda>s.
     andthen (insert_saved (sr_id saved) saved) (\<lambda>_.
     if bt_contains (saved_routes s) (sr_id saved)
     then andthen (restore_routes h) (\<lambda>_. fail (DaemonRouteExists (sr_id saved)))
     else
       andthen (or_recover (save_routes)
         (andthen (remove_saved (sr_id saved)) (\<lambda>_. restore_routes h))) (\<lambda>_.
       andthen (or_recover (restart_router h)
         (andthen (remove_saved (sr_id saved)) (\<lambda>_. rebuild h))) (\<lambda>_.
       done_with (''connected '' @ sr_id saved))))))"

definition disconnect_route :: "'c host \<Rightarrow> string \<Rightarrow> ('c, string) act" where
  "disconnect_route h i = with_state (\<lambda>s.
     case bt_get (saved_routes s) i of
       None \<Rightarrow> fail (DaemonRouteNotFound i)
     | Some previous \<Rightarrow>
         andthen (remove_saved i) (\<lambda>_.
         andthen (or_recover (save_routes) (insert_saved i previous)) (\<lambda>_.
         andthen (refresh_endpoints h) (\<lambda>_.
         andthen (restore_routes h) (\<lambda>_.
         andthen (or_recover (restart_router h)
           (andthen (insert_saved i previous) (\<lambda>_. rebuild h))) (\<lambda>_.
         done_with (''disconnected '' @ i)))))))"

fun handle :: "'c host \<Rightarrow> Request \<Rightarrow> ('c, string) act" where
  "handle h Ping = done_with ''pong''"
| "handle h Status = with_state (\<lambda>s. done_with (status_text h s))"
| "handle h Shutdown = andthen (drop_router h) (\<lambda>_. done_with ''shutting down'')"
| "handle h (CreateDevice i name inputs outputs rate) = create_device h i name inputs outputs rate"
| "handle h (DeleteDevice i) = delete_device h i"
| "handle h (Connect i src snk gain_mdb mtx) =
     connect_route h \<lparr>sr_id = i, sr_source = src, sr_sink = snk, sr_gain_millidb = gain_mdb,
       sr_matrix_millionths = mtx\<rparr>"
| "handle h (Disconnect i) = disconnect_route h i"

fun error_code :: "DaemonError \<Rightarrow> string" where
  "error_code (DaemonCoreAudio e) = ''core_audio''"
| "error_code (DaemonGraph e) = ''invalid_graph''"
| "error_code (DaemonMatrix e) = ''invalid_matrix''"
| "error_code (MatrixRequired a b) = ''invalid_matrix''"
| "error_code (DaemonIo e) = ''state_io''"
| "error_code (StateError m) = ''state_io''"
| "error_code (InvalidDeviceId i) = ''invalid_device_id''"
| "error_code (DeviceInUse i) = ''device_in_use''"
| "error_code (DaemonRouteExists i) = ''route_exists''"
| "error_code (DaemonRouteNotFound i) = ''route_not_found''"
| "error_code (DaemonEndpointNotFound i) = ''endpoint_not_found''"

fun show_daemon_error :: "DaemonError \<Rightarrow> string" where
  "show_daemon_error (DaemonCoreAudio e) = show_core_audio_error e"
| "show_daemon_error (DaemonGraph e) = show_graph_error e"
| "show_daemon_error (DaemonMatrix e) = show_matrix_error e"
| "show_daemon_error (DaemonIo e) = show_io_error e"
| "show_daemon_error (InvalidDeviceId i) = ''invalid device id: '' @ i"
| "show_daemon_error (DeviceInUse i) = ''device is referenced by a route: '' @ i"
| "show_daemon_error (DaemonRouteExists i) = ''route already exists: '' @ i"
| "show_daemon_error (DaemonRouteNotFound i) = ''route not found: '' @ i"
| "show_daemon_error (DaemonEndpointNotFound i) = ''endpoint not found: '' @ i"
| "show_daemon_error (MatrixRequired inputs outputs) =
     ''an explicit '' @ show_nat outputs @ ''x'' @ show_nat inputs @ '' channel matrix is required''"
| "show_daemon_error (StateError m) = m"

definition response_of :: "(string, DaemonError) res \<Rightarrow> (Response, ProtocolError) res" where
  "response_of r = (case r of
      Ok m \<Rightarrow> Ok (Response_Ok m)
    | Err e \<Rightarrow> Ok (Response_Error (error_code e) (show_daemon_error e))
    | Panic \<Rightarrow> Panic)"

text \<open>One connection: the result is whether to stop, the bytes written back, and the new state.\<close>

definition serve_connection ::
    "'c host \<Rightarrow> byte_source \<Rightarrow> byte_sink \<Rightarrow> 'c system \<Rightarrow> (bool, ProtocolError) res \<times> byte_sink \<times> 'c system" where
  "serve_connection h input output s =
     (case fst (read_message request_decode input) of
        Err e \<Rightarrow> (Err e, output, s)
      | Panic \<Rightarrow> (Panic, output, s)
      | Ok request \<Rightarrow>
          let (r, s1) = handle h request s in
          case response_of r of
            Err e \<Rightarrow> (Err e, output, s1)
          | Panic \<Rightarrow> (Panic, output, s1)
          | Ok response \<Rightarrow>
              let (w, output1) = write_message response_encode response output in
              (and_then w (\<lambda>_. Ok (request = Shutdown)), output1, s1))"

section \<open>Starting up\<close>

datatype parsed_options = Options string string | HelpShown | OptionError string

fun parse_options :: "string option \<Rightarrow> string option \<Rightarrow> string list \<Rightarrow> parsed_options" where
  "parse_options socket st [] =
     (case socket of
        None \<Rightarrow> OptionError ''--socket is required''
      | Some p \<Rightarrow> (case st of None \<Rightarrow> OptionError ''--state is required'' | Some q \<Rightarrow> Options p q))"
| "parse_options socket st (a # args) =
     (if a = ''--socket'' then
        (case args of [] \<Rightarrow> OptionError (a @ '' requires a path'')
         | p # rest \<Rightarrow> parse_options (Some p) st rest)
      else if a = ''--state'' then
        (case args of [] \<Rightarrow> OptionError (a @ '' requires a path'')
         | p # rest \<Rightarrow> parse_options socket (Some p) rest)
      else if a = ''--help'' \<or> a = ''-h'' then HelpShown
      else OptionError (''unknown argument: '' @ a))"

definition start_up :: "'c host \<Rightarrow> ('c, unit) act" where
  "start_up h =
     andthen (refresh_endpoints h) (\<lambda>_. andthen (restore_routes h) (\<lambda>_. restart_router h))"

end
