(* ===== verification/DaemonState.thy ===== *)
theory DaemonState
  imports Daemon
begin

text \<open>
  The parts of the daemon's state one by one: inversion and preservation rules for its actions,
  what every request keeps when its parts do (locale \<open>daemon_parts\<close>, and its instance \<open>graph_only\<close> for
  properties of the graph and the devices), and the state file, which a save replaces as a whole and
  a load reads back exactly.
\<close>

section \<open>Sequencing\<close>

named_theorems act_simps "inversion of the results of sequenced actions"

lemma andthen_Ok [act_simps]:
  "andthen m f s = (Ok b, s') \<longleftrightarrow> (\<exists>a s1. m s = (Ok a, s1) \<and> f a s1 = (Ok b, s'))"
  by (auto simp: andthen_def split: prod.splits res.splits)

lemma done_with_Ok [act_simps]: "done_with a s = (r, s') \<longleftrightarrow> r = Ok a \<and> s' = s"
  by (auto simp: done_with_def)

lemma fail_Ok [act_simps]: "fail e s = (r, s') \<longleftrightarrow> r = Err e \<and> s' = s"
  by (auto simp: fail_def)

lemma lift_res_Ok [act_simps]: "lift_res x s = (r, s') \<longleftrightarrow> x = r \<and> s' = s"
  by (auto simp: lift_res_def)

lemma or_recover_Ok [act_simps]: "or_recover m c s = (Ok a, s') \<longleftrightarrow> m s = (Ok a, s')"
  by (auto simp: or_recover_def andthen_def fail_def split: prod.splits res.splits)

lemma with_audio_Ok [act_simps]:
  "with_audio f s = (Ok a, s') \<longleftrightarrow> fst (f (audio s)) = Ok a \<and> s' = s\<lparr>audio := snd (f (audio s))\<rparr>"
  by (auto simp: with_audio_def split: prod.splits)

text \<open>What an action keeps, whatever its result.\<close>

definition preserves :: "('c system \<Rightarrow> bool) \<Rightarrow> ('c, 'a) act \<Rightarrow> bool" where
  "preserves P m \<longleftrightarrow> (\<forall>s. P s \<longrightarrow> P (snd (m s)))"

named_theorems kept "actions that preserve a property"

lemma preservesI: "(\<And>s. P s \<Longrightarrow> P (snd (m s))) \<Longrightarrow> preserves P m"
  by (simp add: preserves_def)

lemma preservesD: "preserves P m \<Longrightarrow> P s \<Longrightarrow> m s = (r, s') \<Longrightarrow> P s'"
  by (metis preserves_def snd_conv)

lemma preserves_andthen [kept]:
  assumes "preserves P m" "\<And>a. preserves P (f a)"
  shows "preserves P (andthen m f)"
proof (rule preservesI)
  fix s assume "P s"
  then have "P (snd (m s))" using assms(1) by (simp add: preserves_def)
  then show "P (snd (andthen m f s))"
    using assms(2) by (cases "m s"; cases "fst (m s)") (auto simp: andthen_def preserves_def)
qed

lemma preserves_or_recover [kept]:
  assumes "preserves P m" "preserves P c"
  shows "preserves P (or_recover m c)"
proof (rule preservesI)
  fix s assume "P s"
  then have p: "P (snd (m s))" using assms(1) by (simp add: preserves_def)
  have "preserves P (andthen c (\<lambda>_. fail e :: ('a, 'b) act))" for e
    by (rule preserves_andthen [OF assms(2)]) (simp add: preserves_def fail_def)
  then show "P (snd (or_recover m c s))"
    using p by (cases "m s"; cases "fst (m s)") (auto simp: or_recover_def preserves_def)
qed

lemma preserves_pure [kept]:
  "preserves P (done_with a)" "preserves P (fail e)" "preserves P (lift_res r)"
  by (simp_all add: preserves_def done_with_def fail_def lift_res_def)

lemma preserves_with_state [kept]: "(\<And>t. P t \<Longrightarrow> preserves P (f t)) \<Longrightarrow> preserves P (with_state f)"
  by (simp add: preserves_def with_state_def)

lemma preserves_andthen_lift [kept]:
  "(\<And>a. r = Ok a \<Longrightarrow> preserves P (f a)) \<Longrightarrow> preserves P (andthen (lift_res r) f)"
  by (cases r) (simp_all add: preserves_def andthen_def lift_res_def)

lemma preserves_update: "(\<And>s. P s \<Longrightarrow> P (f s)) \<Longrightarrow> preserves P (update f)"
  by (simp add: preserves_def update_def)

lemma preserves_if [kept]:
  "(b \<Longrightarrow> preserves P m) \<Longrightarrow> (\<not> b \<Longrightarrow> preserves P n) \<Longrightarrow> preserves P (if b then m else n)"
  by simp

section \<open>Every request from its parts\<close>

lemma preserves_file_op:
  "(\<And>s. P s \<Longrightarrow> P (effect s)) \<Longrightarrow> (\<And>n s. P s \<Longrightarrow> P (partial n s)) \<Longrightarrow>
     (\<And>s fs. P s \<Longrightarrow> P (s\<lparr>faults := fs\<rparr>)) \<Longrightarrow> preserves P (file_op effect partial)"
  by (auto simp: preserves_def file_op_def next_fault_def split: list.splits option.splits prod.splits)

text \<open>A property that says nothing of the files and the saved routes is kept by what changes only these.\<close>

lemma preserves_stored:
  assumes "\<And>s m f fs. P (s\<lparr>saved_routes := m, files := f, faults := fs\<rparr>) = P s"
  shows "preserves P (save_routes)" "preserves P (insert_saved i r)" "preserves P (remove_saved i)"
proof -
  have each: "P (s\<lparr>saved_routes := m\<rparr>) = P s" "P (s\<lparr>files := f\<rparr>) = P s" "P (s\<lparr>faults := fs\<rparr>) = P s" for s m f fs
    using assms [where s = s and m = m and f = "files s" and fs = "faults s"]
      assms [where s = s and m = "saved_routes s" and f = f and fs = "faults s"]
      assms [where s = s and m = "saved_routes s" and f = "files s" and fs = fs]
    by simp_all
  have ops: "preserves P (create_dir_all p)" "preserves P (open_truncated p)" "preserves P (write_text p t)"
    "preserves P (sync_all p)" "preserves P (rename_file p q)" for p q t
    unfolding create_dir_all_def open_truncated_def write_text_def sync_all_def rename_file_def
    by (rule preserves_file_op; simp add: append_to_def each)+
  have lines: "preserves P (write_lines p rs)" for p rs
    by (induction rs) (auto intro: kept ops)
  show "preserves P (save_routes)"
    unfolding save_routes_def Let_def by (auto intro!: kept ops lines split: option.split)
  show "preserves P (insert_saved i r)" "preserves P (remove_saved i)"
    unfolding insert_saved_def remove_saved_def by (rule preserves_update; simp add: each)+
qed

text \<open>What the parts of the requests keep is kept by every request, whatever its result.\<close>

locale daemon_parts =
  fixes P :: "'c system \<Rightarrow> bool" and h :: "'c host"
  assumes save: "preserves P (save_routes)"
    and insert: "preserves P (insert_saved i r)"
    and remove: "preserves P (remove_saved i)"
    and refresh: "preserves P (refresh_endpoints h)"
    and add_saved: "preserves P (add_saved h sv)"
    and drop: "preserves P (drop_router h)"
    and restart: "preserves P (restart_router h)"
    and create: "preserves P (with_audio (h_create_virtual_device h i n a b rate))"
    and delete: "preserves P (with_audio (h_delete_virtual_device h i))"
begin

lemma keeps_restore: "preserves P (restore_routes h)"
proof -
  have "preserves P (add_all_saved h rs)" for rs by (induction rs) (auto intro: kept add_saved)
  then show ?thesis unfolding restore_routes_def by (intro kept)
qed

lemmas keeps = kept save insert remove keeps_restore refresh add_saved drop restart create delete

lemma keeps_rebuild: "preserves P (rebuild h)"
  unfolding rebuild_def by (intro keeps)

lemma keeps_connect: "preserves P (connect_route h sv)"
  unfolding connect_route_def by (intro keeps keeps_rebuild)

lemma keeps_disconnect: "preserves P (disconnect_route h i)"
  unfolding disconnect_route_def by (auto intro!: keeps keeps_rebuild split: option.split)

lemma keeps_handle: "preserves P (handle h q)"
  by (cases q) (auto simp: create_device_def delete_device_def
      intro!: keeps keeps_connect keeps_disconnect)

lemma keeps_start_up: "preserves P (start_up h)"
  unfolding start_up_def by (intro keeps)

lemma keeps_requests: "P s \<Longrightarrow> P (fold (\<lambda>q s. snd (handle h q s)) qs s)"
  by (induction qs arbitrary: s) (use keeps_handle in \<open>auto simp: preserves_def\<close>)

end

section \<open>Properties of the graph and its devices\<close>

text \<open>For a property of the graph and the endpoint devices alone, listing the devices and adding one
  saved route are the parts to look at.\<close>

locale graph_only =
  fixes P :: "'c system \<Rightarrow> bool" and h :: "'c host"
  assumes outside: "P (s\<lparr>saved_routes := m, router := rt, files := f, faults := fs, audio := a\<rparr>) = P s"
    and listing: "preserves P (refresh_endpoints h)"
    and adding: "preserves P (add_saved h sv)"
begin

lemma outside_each: "P (s\<lparr>router := rt\<rparr>) = P s" "P (s\<lparr>audio := a\<rparr>) = P s"
  using outside [where s = s and m = "saved_routes s" and rt = rt and f = "files s" and fs = "faults s" and a = "audio s"]
    outside [where s = s and m = "saved_routes s" and rt = "router s" and f = "files s" and fs = "faults s" and a = a]
  by simp_all

lemma keeps_audio: "preserves P (with_audio f)"
  by (auto simp: preserves_def with_audio_def outside_each split: prod.splits)

lemma keeps_router: "preserves P (drop_router h)" "preserves P (update (\<lambda>s. s\<lparr>router := x\<rparr>))"
  unfolding drop_router_def by (rule preserves_update; simp add: outside_each)+

lemma keeps_restart: "preserves P (restart_router h)"
  unfolding restart_router_def by (intro kept keeps_audio keeps_router)

end

sublocale graph_only \<subseteq> daemon_parts P h
proof -
  have "P (s\<lparr>saved_routes := m, files := f, faults := fs\<rparr>) = P s" for s m f fs
    using outside [where s = s and m = m and rt = "router s" and f = f and fs = fs and a = "audio s"] by simp
  then show "daemon_parts P h"
    by unfold_locales (intro preserves_stored listing adding keeps_audio keeps_router keeps_restart; assumption)+
qed

section \<open>The graph of the daemon never feeds back\<close>

abbreviation history :: "'c system \<Rightarrow> bool" where
  "history s \<equiv> graph_history (graph s)"

lemma device_endpoint_history:
  assumes "device_endpoint d clock dir suffix chans (g, devs) = Ok (g', devs')"
    and "graph_history g" "routes g = bt_empty"
  shows "graph_history g' \<and> routes g' = bt_empty"
proof (cases "0 < chans")
  case True
  then obtain e where "add_endpoint e g = Ok g'"
    using assms(1) by (auto simp: device_endpoint_def res_simps Let_def)
  then show ?thesis
    using assms(2,3) endpoint_added add_endpoint_routes by metis
qed (use assms in \<open>auto simp: device_endpoint_def\<close>)

lemma device_endpoints_history:
  assumes "device_endpoints d (g, devs) = Ok (g', devs')" "graph_history g" "routes g = bt_empty"
  shows "graph_history g' \<and> routes g' = bt_empty"
proof -
  obtain clock g1 devs1 where
    "device_endpoint d clock Source ''input'' (dev_input_channels d) (g, devs) = Ok (g1, devs1)"
    "device_endpoint d clock Sink ''output'' (dev_output_channels d) (g1, devs1) = Ok (g', devs')"
    using assms(1) by (auto simp: device_endpoints_def res_simps)
  then show ?thesis using device_endpoint_history assms(2,3) by metis
qed

lemma all_endpoints_history:
  "all_endpoints ds (g, devs) = Ok (g', devs') \<Longrightarrow> graph_history g \<Longrightarrow> routes g = bt_empty \<Longrightarrow>
     graph_history g' \<and> routes g' = bt_empty"
proof (induction ds arbitrary: g devs)
  case (Cons d ds)
  then obtain g1 devs1 where d: "device_endpoints d (g, devs) = Ok (g1, devs1)"
    and "all_endpoints ds (g1, devs1) = Ok (g', devs')"
    by (auto simp: res_simps)
  then show ?case using Cons.IH device_endpoints_history [OF d] Cons.prems(2,3) by blast
qed simp

lemma fresh_endpoints:
  assumes "all_endpoints ds (graph_default, bt_empty) = Ok (g, devs)"
  shows "graph_history g" "routes g = bt_empty"
  using all_endpoints_history [OF assms graph_history.start] by (simp_all add: graph_default_def)

lemma matrix_identity_wf: "matrix_identity n = Ok m \<Longrightarrow> matrix_wf m"
  by (auto simp: matrix_identity_def matrix_new_Ok res_simps split: if_splits)

lemma build_route_matrix_wf: "build_route h g sv = Ok r \<Longrightarrow> matrix_wf (matrix r)"
  by (auto simp: build_route_def res_simps matrix_new_Ok dest: matrix_identity_wf split: if_splits)

text \<open>How the two actions that change the graph end.\<close>

lemma refresh_endpoints_cases:
  "snd (refresh_endpoints h s) = s\<lparr>audio := snd (h_list_devices h (audio s))\<rparr>
   \<or> (\<exists>ds g devs. all_endpoints ds (graph_default, bt_empty) = Ok (g, devs)
       \<and> snd (refresh_endpoints h s)
         = s\<lparr>audio := snd (h_list_devices h (audio s)), graph := g, endpoint_devices := devs\<rparr>)"
  by (auto simp: refresh_endpoints_def andthen_def with_audio_def lift_res_def update_def
      split: prod.splits res.splits)

lemma add_saved_cases:
  "snd (add_saved h sv s) = s
   \<or> (\<exists>r g. build_route h (graph s) sv = Ok r \<and> add_route r (graph s) = Ok g
       \<and> snd (add_saved h sv s) = s\<lparr>graph := g\<rparr>)"
proof (cases "build_route h (graph s) sv")
  case (Ok r)
  then show ?thesis
    by (cases "add_route r (graph s)")
      (auto simp: add_saved_def graph_add_route_def with_state_def andthen_def lift_res_def update_def)
qed (auto simp: add_saved_def with_state_def andthen_def lift_res_def)

interpretation history: graph_only history h for h
proof
  show "preserves history (refresh_endpoints h)"
  proof (rule preservesI)
    fix s :: "'a system" assume "history s"
    then show "history (snd (refresh_endpoints h s))"
      using refresh_endpoints_cases [of h s] fresh_endpoints(1) by fastforce
  qed
  show "preserves history (add_saved h sv)" for sv
  proof (rule preservesI)
    fix s :: "'a system" assume "history s"
    then show "history (snd (add_saved h sv s))"
      using add_saved_cases [of h sv s] build_route_matrix_wf [of h "graph s" sv]
        graph_history.route_added by fastforce
  qed
qed simp

section \<open>Every endpoint has its device\<close>

text \<open>
  The two maps of the daemon agree: each endpoint of the graph has a device with its node, rate,
  loopback flag and channel count.
\<close>

definition endpoint_of :: "AudioDevice \<Rightarrow> EndpointDescriptor \<Rightarrow> bool" where
  "endpoint_of d e \<longleftrightarrow> node e = dev_uid d \<and> sample_rate e = dev_sample_rate d
     \<and> is_loopback e = dev_is_virtual d
     \<and> channels e = unat (case direction e of Source \<Rightarrow> dev_input_channels d | Sink \<Rightarrow> dev_output_channels d)"

definition maps_paired :: "AudioDevice list \<Rightarrow> endpoint_maps \<Rightarrow> bool" where
  "maps_paired ds = (\<lambda>(g, devs). bt_sorted (endpoints g) \<and> bt_sorted devs
     \<and> (\<forall>i. case endpoint g (EndpointId i) of
          None \<Rightarrow> bt_get devs i = None
        | Some e \<Rightarrow> \<exists>d \<in> set ds. bt_get devs i = Some d \<and> endpoint_of d e))"

lemma device_endpoint_paired:
  assumes "device_endpoint d clock dir suffix chans maps = Ok maps'" "maps_paired ds maps" "d \<in> set ds"
    and "chans = (case dir of Source \<Rightarrow> dev_input_channels d | Sink \<Rightarrow> dev_output_channels d)"
  shows "maps_paired ds maps'"
proof (cases "0 < chans")
  case False
  then show ?thesis using assms by (auto simp: device_endpoint_def split: prod.splits)
next
  case True
  obtain g devs where maps: "maps = (g, devs)" by (cases maps)
  let ?i = "endpoint_id (dev_uid d) suffix"
  let ?e = "\<lparr>ep_id = EndpointId ?i, node = dev_uid d, direction = dir, channels = unat chans,
    sample_rate = dev_sample_rate d, clock_domain = clock, is_loopback = dev_is_virtual d\<rparr>"
  from assms(1) True obtain g' where g': "add_endpoint ?e g = Ok g'" and maps': "maps' = (g', bt_insert ?i d devs)"
    by (auto simp: device_endpoint_def maps res_simps Let_def EndpointId_new_def split: if_splits)
  have g'_def: "g' = g\<lparr>endpoints := bt_insert (EndpointId ?i) ?e (endpoints g)\<rparr>"
    using g' by (simp add: add_endpoint_Ok)
  have "endpoint_of d ?e" using assms(4) by (simp add: endpoint_of_def)
  then show ?thesis
    using assms(2,3) unfolding maps maps' maps_paired_def g'_def
    by (auto simp: endpoint_def bm.get_insert bm.invar_insert cong: option.case_cong)
qed

lemma device_endpoints_paired:
  assumes "device_endpoints d maps = Ok maps'" "maps_paired ds maps" "d \<in> set ds"
  shows "maps_paired ds maps'"
proof -
  obtain clock m1 where
    m1: "device_endpoint d clock Source ''input'' (dev_input_channels d) maps = Ok m1" and
    m2: "device_endpoint d clock Sink ''output'' (dev_output_channels d) m1 = Ok maps'"
    using assms(1) by (auto simp: res_simps device_endpoints_def simp del: map_err_eq_Ok)
  have "maps_paired ds m1" using device_endpoint_paired [OF m1 assms(2,3)] by simp
  from device_endpoint_paired [OF m2 this assms(3)] show ?thesis by simp
qed

lemma all_endpoints_paired:
  "all_endpoints ds' maps = Ok maps' \<Longrightarrow> maps_paired ds maps \<Longrightarrow> set ds' \<subseteq> set ds \<Longrightarrow> maps_paired ds maps'"
proof (induction ds' arbitrary: maps)
  case (Cons d ds')
  then obtain m where "device_endpoints d maps = Ok m" "all_endpoints ds' m = Ok maps'"
    by (auto simp: res_simps)
  then show ?case
    using Cons.IH [of m] device_endpoints_paired [of d maps m ds] Cons.prems(2,3) by simp
qed simp

lemma maps_paired_start: "maps_paired ds (graph_default, bt_empty)"
  by (simp add: maps_paired_def graph_default_def endpoint_def bm.get_empty bm.invar_empty)

definition paired :: "'c system \<Rightarrow> bool" where
  "paired s \<longleftrightarrow> (\<exists>ds. maps_paired ds (graph s, endpoint_devices s))"

lemma paired_endpoint:
  assumes "paired s" "endpoint (graph s) (EndpointId i) = Some e"
  obtains d where "bt_get (endpoint_devices s) i = Some d" "endpoint_of d e"
proof -
  from assms(1) obtain ds where "case endpoint (graph s) (EndpointId i) of
      None \<Rightarrow> bt_get (endpoint_devices s) i = None
    | Some e \<Rightarrow> \<exists>d \<in> set ds. bt_get (endpoint_devices s) i = Some d \<and> endpoint_of d e"
    unfolding paired_def maps_paired_def by blast
  then show ?thesis using assms(2) that by auto
qed

interpretation paired: graph_only paired h for h
proof
  show "preserves paired (refresh_endpoints h)"
  proof (rule preservesI)
    fix s :: "'a system" assume "paired s"
    moreover have "maps_paired ds (g, devs)"
      if "all_endpoints ds (graph_default, bt_empty) = Ok (g, devs)" for ds g devs
      using all_endpoints_paired [OF that maps_paired_start] by simp
    ultimately show "paired (snd (refresh_endpoints h s))"
      using refresh_endpoints_cases [of h s] by (fastforce simp: paired_def)
  qed
  show "preserves paired (add_saved h sv)" for sv
  proof (rule preservesI)
    fix s :: "'a system" assume "paired s"
    moreover have "maps_paired ds (g', devs)"
      if "maps_paired ds (g, devs)" "add_route r g = Ok g'" for ds devs g g' r
      using that by (auto simp: maps_paired_def add_route_Ok insert_route_def endpoint_def)
    ultimately show "paired (snd (add_saved h sv s))"
      using add_saved_cases [of h sv s] by (fastforce simp: paired_def)
  qed
qed (simp add: paired_def)

section \<open>The state file\<close>

definition state_text :: "(string, SavedRoute) btree \<Rightarrow> string" where
  "state_text m = concat (map (\<lambda>r. request_encode (connect_request r) @ [CHR 0x0A]) (bt_values m))"

text \<open>What file operations leave alone: everything but the files at \<open>ps\<close> and the fault schedule.\<close>

definition only_files :: "string set \<Rightarrow> 'c system \<Rightarrow> 'c system \<Rightarrow> bool" where
  "only_files ps s s' \<longleftrightarrow>
     s' = s\<lparr>files := files s', faults := faults s'\<rparr> \<and> (\<forall>p. p \<notin> ps \<longrightarrow> files s' p = files s p)"

lemma only_files_trans: "only_files ps s s1 \<Longrightarrow> only_files ps s1 s2 \<Longrightarrow> only_files ps s s2"
  by (cases s; cases s1; cases s2) (simp add: only_files_def)

lemma only_files_mono: "only_files ps s s1 \<Longrightarrow> ps \<subseteq> qs \<Longrightarrow> only_files qs s s1"
  by (auto simp: only_files_def)

lemma only_files_refl [simp]: "only_files ps s s"
  by (simp add: only_files_def)

text \<open>Outcomes of the file operations: done, or failed with what was written so far.\<close>

lemma file_op_cases:
  assumes "file_op effect partial s = (r, s')"
  obtains (completed) fs where "r = Ok ()" "s' = effect (s\<lparr>faults := fs\<rparr>)"
    | (failed) e n fs where "r = Err (DaemonIo e)" "s' = partial n (s\<lparr>faults := fs\<rparr>)"
proof -
  obtain f s1 where f: "next_fault s = (f, s1)" by (cases "next_fault s")
  then have s1: "s1 = s\<lparr>faults := faults s1\<rparr>"
    by (auto simp: next_fault_def split: list.splits)
  show thesis
  proof (cases f)
    case None
    then show thesis using assms f s1 completed [of "faults s1"] by (auto simp: file_op_def)
  next
    case (Some en)
    then show thesis
      using assms f s1 failed [of "fst en" "snd en" "faults s1"] by (cases en) (auto simp: file_op_def)
  qed
qed

lemma create_dir_all_spec:
  assumes "create_dir_all p s = (r, s')"
  shows "r \<noteq> Panic \<and> only_files {} s s'"
  using assms unfolding create_dir_all_def
  by (elim file_op_cases) (auto simp: only_files_def)

lemma sync_all_spec:
  assumes "sync_all p s = (r, s')"
  shows "r \<noteq> Panic \<and> only_files {} s s'"
  using assms unfolding sync_all_def
  by (elim file_op_cases) (auto simp: only_files_def)

lemma open_truncated_spec:
  assumes "open_truncated p s = (r, s')"
  shows "r \<noteq> Panic \<and> only_files {p} s s' \<and> (r = Ok () \<longrightarrow> files s' p = Some [])"
  using assms unfolding open_truncated_def
  by (elim file_op_cases) (auto simp: only_files_def)

lemma write_text_spec:
  assumes "write_text p t s = (r, s')"
  shows "r \<noteq> Panic \<and> only_files {p} s s' \<and>
    (r = Ok () \<longrightarrow> files s p = Some u \<longrightarrow> files s' p = Some (u @ t))"
  using assms unfolding write_text_def
  by (elim file_op_cases) (auto simp: only_files_def append_to_def)

lemma rename_file_spec:
  assumes "rename_file a b s = (r, s')"
  shows "r \<noteq> Panic \<and> only_files {a, b} s s' \<and>
    (if r = Ok () then files s' b = files s a else files s' b = files s b)"
  using assms unfolding rename_file_def
  by (elim file_op_cases) (auto simp: only_files_def)

lemma andthen_cases:
  assumes "andthen m f s = (r, s')"
  obtains (ok) a s1 where "m s = (Ok a, s1)" "f a s1 = (r, s')"
    | (err) e where "m s = (Err e, s')" "r = Err e"
    | (panic) "m s = (Panic, s')" "r = Panic"
  using assms by (auto simp: andthen_def split: prod.splits res.splits)

lemma write_lines_spec:
  "write_lines p rs s = (r, s') \<Longrightarrow> r \<noteq> Panic \<and> only_files {p} s s' \<and>
     (r = Ok () \<longrightarrow> files s p = Some u \<longrightarrow> files s' p =
        Some (u @ concat (map (\<lambda>r. request_encode (connect_request r) @ [CHR 0x0A]) rs)))"
proof (induction rs arbitrary: s u)
  case Nil
  then show ?case by (simp add: done_with_Ok)
next
  case (Cons q rs)
  let ?t = "request_encode (connect_request q) @ [CHR 0x0A]"
  from Cons.prems show ?case unfolding write_lines.simps
  proof (elim andthen_cases)
    fix a s1 assume 1: "write_text p ?t s = (Ok a, s1)" and 2: "write_lines p rs s1 = (r, s')"
    show ?thesis
      using write_text_spec [OF 1, of u] Cons.IH [OF 2, of "u @ ?t"] only_files_trans
      by (auto; blast)
  qed (auto dest!: write_text_spec)
qed

text \<open>Up to the renaming only the temporary file is written, which may be the state file itself.\<close>

definition only_temp :: "string \<Rightarrow> string \<Rightarrow> 'c system \<Rightarrow> 'c system \<Rightarrow> bool" where
  "only_temp t p s u \<longleftrightarrow> only_files {t, p} s u \<and> (t \<noteq> p \<longrightarrow> files u p = files s p)"

definition replaced :: "string \<Rightarrow> string \<Rightarrow> string \<Rightarrow> 'c system \<Rightarrow> (unit, DaemonError) res \<times> 'c system \<Rightarrow> bool" where
  "replaced t p text s = (\<lambda>(r, s'). r \<noteq> Panic \<and> only_files {t, p} s s'
     \<and> (r = Ok () \<longrightarrow> files s' p = Some text) \<and> (r \<noteq> Ok () \<longrightarrow> t \<noteq> p \<longrightarrow> files s' p = files s p))"

lemma replaced_andthen:
  assumes "only_temp t p s u"
    and "\<And>r u1. m u = (r, u1) \<Longrightarrow> r \<noteq> Panic \<and> only_files {t} u u1"
    and "\<And>a u1. m u = (Ok a, u1) \<Longrightarrow> only_temp t p s u1 \<Longrightarrow> replaced t p text s (f a u1)"
  shows "replaced t p text s (andthen m f u)"
proof -
  obtain r u1 where m: "m u = (r, u1)" by (cases "m u")
  have r: "r \<noteq> Panic" and u1: "only_files {t} u u1" using assms(2) [OF m] by auto
  have "t \<noteq> p \<Longrightarrow> files u1 p = files u p" using u1 by (simp add: only_files_def)
  then have temp: "only_temp t p s u1"
    using assms(1) only_files_trans [OF _ only_files_mono [OF u1]] by (simp add: only_temp_def)
  show ?thesis
    using r m temp assms(3) [of _ u1] by (cases r) (auto simp: andthen_def replaced_def only_temp_def)
qed

lemma save_routes_spec:
  "replaced (with_extension_tmp (state_path s)) (state_path s) (state_text (saved_routes s)) s (save_routes s)"
proof (cases "path_parent (state_path s)")
  case None
  then show ?thesis by (auto simp: save_routes_def with_state_def fail_def replaced_def)
next
  case (Some parent)
  define p where "p = state_path s"
  define t where "t = with_extension_tmp p"
  have parent: "path_parent p = Some parent" using Some by (simp add: p_def)
  have small: "only_files {} u v \<Longrightarrow> only_files {x} u v" for x and u v :: "'a system"
    by (auto simp: only_files_def)
  have "replaced t p (state_text (saved_routes s)) s (save_routes s)"
    unfolding save_routes_def with_state_def Let_def p_def [symmetric] t_def [symmetric] parent option.case
  proof (intro replaced_andthen, goal_cases)
    case (9 a s1 b s2 c s3 d s4)
    have "files s4 t = Some (state_text (saved_routes s))"
      using open_truncated_spec [OF 9(3)] write_lines_spec [OF 9(5), of "[]"] sync_all_spec [OF 9(7)]
      by (simp add: state_text_def only_files_def)
    then show ?case
      using 9(8) rename_file_spec [of t p s4] only_files_trans
      by (fastforce simp: replaced_def only_temp_def)
  qed (auto simp: only_temp_def
      dest: create_dir_all_spec open_truncated_spec write_lines_spec sync_all_spec intro: small)
  then show ?thesis by (simp add: p_def t_def)
qed

text \<open>Without faults a save succeeds.\<close>

definition fault_free :: "'c system \<Rightarrow> bool" where
  "fault_free s \<longleftrightarrow> set (faults s) \<subseteq> {None}"

definition succeeds :: "('c, unit) act \<Rightarrow> bool" where
  "succeeds m \<longleftrightarrow> (\<forall>s. fault_free s \<longrightarrow> (\<exists>s'. m s = (Ok (), s') \<and> fault_free s'))"

lemma succeeds_andthen: "succeeds m \<Longrightarrow> succeeds (f ()) \<Longrightarrow> succeeds (andthen m f)"
  by (fastforce simp: succeeds_def andthen_def)

lemma succeeds_file_op: "(\<And>s. faults (effect s) = faults s) \<Longrightarrow> succeeds (file_op effect partial)"
  by (auto simp: succeeds_def file_op_def next_fault_def fault_free_def split: list.split)

lemma succeeds_files:
  "succeeds (create_dir_all p)" "succeeds (open_truncated p)" "succeeds (write_text p t)"
  "succeeds (sync_all p)" "succeeds (rename_file p q)"
  unfolding create_dir_all_def open_truncated_def write_text_def sync_all_def rename_file_def
  by (rule succeeds_file_op; simp add: append_to_def)+

lemma succeeds_write_lines: "succeeds (write_lines p rs)"
proof (induction rs)
  case (Cons r rs)
  then show ?case unfolding write_lines.simps by (intro succeeds_andthen succeeds_files)
qed (simp add: succeeds_def done_with_def)

lemma succeeds_replacing:
  "succeeds (andthen (create_dir_all p) (\<lambda>_. andthen (open_truncated t) (\<lambda>_.
     andthen (write_lines t rs) (\<lambda>_. andthen (sync_all t) (\<lambda>_. rename_file t q)))))"
  by (intro succeeds_andthen succeeds_files succeeds_write_lines)

lemma save_routes_succeeds:
  assumes "fault_free s" "path_parent (state_path s) \<noteq> None"
  obtains s' where "save_routes s = (Ok (), s')" "fault_free s'"
proof -
  obtain parent where "path_parent (state_path s) = Some parent" using assms(2) by blast
  then have "\<exists>s'. save_routes s = (Ok (), s') \<and> fault_free s'"
    using assms(1) succeeds_replacing [unfolded succeeds_def, rule_format, of s]
    unfolding save_routes_def with_state_def Let_def option.case by simp
  then show ?thesis using that by blast
qed

text \<open>The temporary file is another file, unless the path names none or ends in \<open>.tmp\<close>.\<close>

lemma state_paths [simp]:
  "path_parent ''/var/routes'' = Some ''/var''" "with_extension_tmp ''/var/routes'' = ''/var/routes.tmp''"
  "path_parent ''/var/routes.tmp'' = Some ''/var''" "with_extension_tmp ''/var/routes.tmp'' = ''/var/routes.tmp''"
  by code_simp+

lemma join_last: "\<exists>q. join_with c (xs @ [y]) = q @ y"
  by (induction xs rule: induct_list012) auto

lemma own_temporary_file:
  assumes "with_extension_tmp p = p"
  shows "path_back p = [] \<or> hd (path_back p) = ''..'' \<or> (\<exists>q. p = q @ ''.tmp'')"
proof (cases "path_back p")
  case (Cons name before)
  obtain q where "join_with CHR ''/'' (rev before @ [file_stem name @ ''.tmp'']) = q @ file_stem name @ ''.tmp''"
    using join_last by blast
  then have "name \<noteq> ''..'' \<Longrightarrow> p = (q @ file_stem name) @ ''.tmp''"
    using assms Cons by (simp add: with_extension_tmp_def)
  then show ?thesis using Cons by auto
qed simp

section \<open>Loading what was saved\<close>

definition saved_ok :: "(string, SavedRoute) btree \<Rightarrow> bool" where
  "saved_ok m \<longleftrightarrow> bt_sorted m
     \<and> (\<forall>i r. bt_get m i = Some r \<longrightarrow> sr_id r = i \<and> request_wf (connect_request r))"

lemma saved_ok_empty [simp]: "saved_ok bt_empty"
  by (simp add: saved_ok_def bm.get_empty bm.invar_empty)

lemma saved_ok_insert:
  "saved_ok m \<Longrightarrow> sr_id r = i \<Longrightarrow> request_wf (connect_request r) \<Longrightarrow> saved_ok (bt_insert i r m)"
  by (simp add: saved_ok_def bm.get_insert bm.invar_insert)

lemma saved_ok_remove: "saved_ok m \<Longrightarrow> saved_ok (bt_remove i m)"
  by (simp add: saved_ok_def bm.get_remove bm.invar_remove)

lemma saved_ok_value:
  "saved_ok m \<Longrightarrow> r \<in> set (bt_values m) \<Longrightarrow>
     bt_get m (sr_id r) = Some r \<and> request_wf (connect_request r)"
  by (auto simp: saved_ok_def bt_values_iff)

lemma saved_ok_distinct: "saved_ok m \<Longrightarrow> distinct (map sr_id (bt_values m))"
proof -
  assume m: "saved_ok m"
  then have "map sr_id (bt_values m) = map fst m"
    by (auto simp: bt_values_def saved_ok_def bt_entries_get)
  then show ?thesis using m bm.distinct_keys [of m] by (simp add: saved_ok_def)
qed

lemma split_lines:
  "list_all (\<lambda>l. CHR 0x0A \<notin> set l) ls \<Longrightarrow>
     split_at CHR 0x0A (concat (map (\<lambda>l. l @ [CHR 0x0A]) ls)) = ls @ [[]]"
  by (induction ls) (simp_all add: split_at_append)

lemma field_char_not_cr: "\<not> field_char CHR 0x0D"
  by (simp add: field_char_def line_char_def matrix_char_def escape_allowed_def
      is_ascii_alphanumeric_def is_ascii_digit_def byte_def)

lemma encoded_line:
  "CHR 0x0A \<notin> set (request_encode q)" "CHR 0x0D \<notin> set (request_encode q)"
  using request_encode_chars [of "CHR 0x0A" q] request_encode_chars [of "CHR 0x0D" q]
    field_char_not(2) field_char_not_cr by auto

lemma strip_encoded: "strip_cr (request_encode q) = request_encode q"
  using encoded_line(2) [of q] by (auto simp: strip_cr_def dest: last_in_set)

lemma lines_state_text:
  "text_lines (state_text m) = map (\<lambda>r. request_encode (connect_request r)) (bt_values m)"
proof -
  have "split_at CHR 0x0A (state_text m)
      = map (\<lambda>r. request_encode (connect_request r)) (bt_values m) @ [[]]"
    using split_lines [of "map (\<lambda>r. request_encode (connect_request r)) (bt_values m)"]
    by (simp add: state_text_def list_all_iff encoded_line comp_def)
  then show ?thesis by (simp add: text_lines_def strip_encoded)
qed

lemma load_encoded:
  "list_all (\<lambda>r. request_wf (connect_request r)) rs \<Longrightarrow> distinct (map sr_id rs) \<Longrightarrow> bt_sorted m \<Longrightarrow>
     (\<forall>r \<in> set rs. bt_get m (sr_id r) = None) \<Longrightarrow>
     load_lines path n (map (\<lambda>r. request_encode (connect_request r)) rs) m
       = Ok (fold (\<lambda>r. bt_insert (sr_id r) r) rs m)"
proof (induction rs arbitrary: n m)
  case (Cons r rs)
  have eta: "\<lparr>sr_id = sr_id r, sr_source = sr_source r, sr_sink = sr_sink r,
      sr_gain_millidb = sr_gain_millidb r, sr_matrix_millionths = sr_matrix_millionths r\<rparr> = r"
    by simp
  have "request_encode (connect_request r) \<noteq> []" by (simp add: connect_request_def)
  moreover have "load_lines path (n + 1) (map (\<lambda>r. request_encode (connect_request r)) rs)
        (bt_insert (sr_id r) r m) = Ok (fold (\<lambda>r. bt_insert (sr_id r) r) (r # rs) m)"
    using Cons.prems by (subst Cons.IH) (auto simp: bm.get_insert bm.invar_insert image_iff)
  moreover have "request_decode (request_encode (connect_request r)) = Ok (connect_request r)"
    using Cons.prems(1) by (intro request_decode_encode) simp
  ultimately show ?case
    using Cons.prems(4)
    by (simp add: request_encode_utf8 bt_contains_def connect_request_def eta
        del: request_encode.simps)
qed simp

lemma fold_insert:
  "bt_sorted m \<Longrightarrow> distinct (map sr_id rs) \<Longrightarrow> bt_sorted (fold (\<lambda>r. bt_insert (sr_id r) r) rs m)
    \<and> (\<forall>k v. bt_get (fold (\<lambda>r. bt_insert (sr_id r) r) rs m) k = Some v \<longleftrightarrow>
        (v \<in> set rs \<and> sr_id v = k) \<or> (k \<notin> sr_id ` set rs \<and> bt_get m k = Some v))"
proof (induction rs arbitrary: m)
  case (Cons r rs)
  then show ?case
    using Cons.IH [of "bt_insert (sr_id r) r m"]
    by (auto simp: bm.get_insert bm.invar_insert)
qed simp

lemma fold_insert_values:
  assumes "saved_ok m"
  shows "fold (\<lambda>r. bt_insert (sr_id r) r) (bt_values m) bt_empty = m"
proof (rule bt_ext)
  note f = fold_insert [OF bm.invar_empty saved_ok_distinct [OF assms]]
  show "bt_sorted (fold (\<lambda>r. bt_insert (sr_id r) r) (bt_values m) bt_empty)" using f by blast
  show "bt_sorted m" using assms by (simp add: saved_ok_def)
  fix k
  have "bt_get (fold (\<lambda>r. bt_insert (sr_id r) r) (bt_values m) bt_empty) k = Some v
      \<longleftrightarrow> bt_get m k = Some v" for v
    using f saved_ok_value [OF assms, of v] assms
    by (auto simp: bm.get_empty saved_ok_def dest: bt_get_value)
  then show "bt_get (fold (\<lambda>r. bt_insert (sr_id r) r) (bt_values m) bt_empty) k = bt_get m k"
    by (metis option.exhaust)
qed

lemma load_state_text:
  assumes "saved_ok m" "fs path = Some (state_text m)"
  shows "load_routes path fs = Ok m"
proof -
  have "list_all (\<lambda>r. request_wf (connect_request r)) (bt_values m)"
    using saved_ok_value [OF assms(1)] by (auto simp: list_all_iff)
  from load_encoded [OF this saved_ok_distinct [OF assms(1)] bm.invar_empty, of path 0]
  show ?thesis
    using assms by (simp add: load_routes_def lines_state_text fold_insert_values bm.get_empty)
qed

lemma load_lines_ok:
  "load_lines path n ls m = Ok m' \<Longrightarrow> saved_ok m \<Longrightarrow> saved_ok m'"
proof (induction path n ls m rule: load_lines.induct)
  case (2 path n l ls m)
  consider "l = []" | i src snk g mtx where "l \<noteq> []" "utf8_valid l"
      "request_decode l = Ok (Connect i src snk g mtx)" "\<not> bt_contains m i"
    using "2.prems"(1) by (cases "request_decode l") (auto split: if_splits Request.splits)
  then show ?case
  proof cases
    case 1
    then show ?thesis using 2 by (auto split: if_splits)
  next
    case (2 i src snk g mtx)
    let ?r = "\<lparr>sr_id = i, sr_source = src, sr_sink = snk, sr_gain_millidb = g,
      sr_matrix_millionths = mtx\<rparr>"
    have "request_wf (connect_request ?r)"
      using request_decode_wf [OF 2(3)] by (simp add: connect_request_def)
    then have "saved_ok (bt_insert i ?r m)" using "2.prems"(2) by (intro saved_ok_insert) simp_all
    then show ?thesis using 2 "2.prems"(1) "2.IH"(2) [OF _ 2(1,3) _ 2(4)] by simp
  qed
qed simp

lemma load_routes_ok: "load_routes path fs = Ok m \<Longrightarrow> saved_ok m"
  using load_lines_ok [OF _ saved_ok_empty] by (auto simp: load_routes_def split: option.splits)

end
