(* ===== verification/DaemonProperties.thy ===== *)
theory DaemonProperties
  imports DaemonState
begin

text \<open>
  How the parts of the daemon's state stay together: what is acknowledged is in the state file, the
  graph mirrors the saved routes after every successful request, and a connection enters the graph,
  the file and the router.
\<close>

section \<open>Actions that do not touch the saved routes\<close>

text \<open>
  A property that does not look at the graph, the devices, the router and the audio system is kept
  by everything except saving and changing the saved routes.
\<close>

locale service_blind =
  fixes P :: "'c system \<Rightarrow> bool"
  assumes blind: "P (s\<lparr>graph := g, endpoint_devices := d, router := rt, audio := a\<rparr>) = P s"
begin

lemma blind_each:
  "P (s\<lparr>graph := g\<rparr>) = P s" "P (s\<lparr>audio := a\<rparr>) = P s" "P (s\<lparr>router := rt\<rparr>) = P s"
  "P (s\<lparr>graph := g, endpoint_devices := d\<rparr>) = P s" "P (s\<lparr>router := rt, audio := a\<rparr>) = P s"
  using blind [where s = s and g = g and d = "endpoint_devices s" and rt = "router s" and a = "audio s"]
    blind [where s = s and g = "graph s" and d = "endpoint_devices s" and rt = "router s" and a = a]
    blind [where s = s and g = "graph s" and d = "endpoint_devices s" and rt = rt and a = "audio s"]
    blind [where s = s and g = g and d = d and rt = "router s" and a = "audio s"]
    blind [where s = s and g = "graph s" and d = "endpoint_devices s" and rt = rt and a = a]
  by simp_all

lemma keeps_audio: "preserves P (with_audio f)"
  by (auto simp: preserves_def with_audio_def blind_each split: prod.splits)

lemma keeps_refresh: "preserves P (refresh_endpoints h)"
  unfolding refresh_endpoints_def
  by (auto intro!: kept keeps_audio preserves_update simp: blind_each split: prod.split)

lemma keeps_add_saved: "preserves P (add_saved h r)"
  unfolding add_saved_def graph_add_route_def
  by (auto intro!: kept preserves_update simp: blind_each)

lemma keeps_add_all: "preserves P (add_all_saved h rs)"
  by (induction rs) (auto intro: kept keeps_add_saved)

lemma keeps_restore: "preserves P (restore_routes h)"
  unfolding restore_routes_def by (intro kept keeps_add_all)

lemma keeps_drop: "preserves P (drop_router h)"
  unfolding drop_router_def by (rule preserves_update) (simp add: blind_each)

lemma keeps_restart: "preserves P (restart_router h)"
  unfolding restart_router_def
  by (auto intro!: kept keeps_drop keeps_audio preserves_update simp: blind_each)

lemmas keeps = keeps_audio keeps_refresh keeps_add_saved keeps_restore keeps_drop keeps_restart

lemma keeps_start_up: "preserves P (start_up h)"
  unfolding start_up_def by (intro kept keeps)

text \<open>All requests but the two that change the routes.\<close>

lemma keeps_handle:
  assumes "\<forall>i a b g m. q \<noteq> Connect i a b g m" "\<forall>i. q \<noteq> Disconnect i"
  shows "preserves P (handle h q)"
  using assms by (cases q) (auto simp: create_device_def delete_device_def intro!: kept keeps)

end

definition stored_part :: "'c system \<Rightarrow> (string \<Rightarrow> string option) \<times> (string, SavedRoute) btree \<times> string" where
  "stored_part s = (files s, saved_routes s, state_path s)"

abbreviation saved_inv :: "'c system \<Rightarrow> bool" where
  "saved_inv s \<equiv> saved_ok (saved_routes s)"

interpretation stored: service_blind "\<lambda>s. stored_part s = x" for x
  by unfold_locales (simp add: stored_part_def)

interpretation saved: service_blind saved_inv
  by unfold_locales simp

text \<open>No action moves the state file.\<close>

interpretation path_blind: service_blind "\<lambda>s. state_path s = p" for p
  by unfold_locales simp

interpretation at_path: daemon_parts "\<lambda>s. state_path s = p" h for p h
proof
  show "preserves (\<lambda>s. state_path s = p) save_routes"
    "preserves (\<lambda>s. state_path s = p) (insert_saved i r)" "preserves (\<lambda>s. state_path s = p) (remove_saved i)"
    for i r by (rule preserves_stored; simp)+
qed (intro path_blind.keeps)+

lemma saved_file_ops:
  "preserves saved_inv (create_dir_all p)" "preserves saved_inv (open_truncated p)"
  "preserves saved_inv (write_text p t)" "preserves saved_inv (sync_all p)"
  "preserves saved_inv (rename_file p q)"
  unfolding create_dir_all_def open_truncated_def write_text_def sync_all_def rename_file_def
  by (rule preserves_file_op; simp add: append_to_def)+

lemma saved_write_lines: "preserves saved_inv (write_lines p rs)"
  by (induction rs) (auto intro: kept saved_file_ops)

lemma saved_save: "preserves saved_inv (save_routes)"
  unfolding save_routes_def Let_def
  by (auto intro!: kept saved_file_ops saved_write_lines split: option.split)

lemma saved_insert: "request_wf (connect_request r) \<Longrightarrow> preserves saved_inv (insert_saved (sr_id r) r)"
  unfolding insert_saved_def by (rule preserves_update) (simp add: saved_ok_insert)

lemma saved_remove: "preserves saved_inv (remove_saved i)"
  unfolding remove_saved_def by (rule preserves_update) (simp add: saved_ok_remove)

lemmas saved_keeps = kept saved.keeps saved_save saved_insert saved_remove

lemma saved_rebuild: "preserves saved_inv (rebuild h)"
  unfolding rebuild_def by (intro saved_keeps)

lemma saved_connect: "request_wf (connect_request r) \<Longrightarrow> preserves saved_inv (connect_route h r)"
  unfolding connect_route_def by (intro saved_keeps saved_rebuild)

lemma saved_disconnect: "preserves saved_inv (disconnect_route h i)"
  unfolding disconnect_route_def
proof (rule preserves_with_state)
  fix t :: "'a system" assume t: "saved_inv t"
  show "preserves saved_inv (case bt_get (saved_routes t) i of None \<Rightarrow> fail (DaemonRouteNotFound i)
     | Some previous \<Rightarrow>
         andthen (remove_saved i) (\<lambda>_.
         andthen (or_recover (save_routes) (insert_saved i previous)) (\<lambda>_.
         andthen (refresh_endpoints h) (\<lambda>_.
         andthen (restore_routes h) (\<lambda>_.
         andthen (or_recover (restart_router h)
           (andthen (insert_saved i previous) (\<lambda>_. rebuild h))) (\<lambda>_.
         done_with (''disconnected '' @ i)))))))"
  proof (cases "bt_get (saved_routes t) i")
    case (Some previous)
    then have "sr_id previous = i" "request_wf (connect_request previous)"
      using t by (auto simp: saved_ok_def)
    then have "preserves saved_inv (insert_saved i previous)" using saved_insert by blast
    then show ?thesis unfolding Some option.case by (intro saved_keeps saved_rebuild)
  qed (simp add: kept)
qed

lemma saved_handle: "request_wf q \<Longrightarrow> preserves saved_inv (handle h q)"
proof (cases q)
  case (Connect i a b g m)
  moreover assume "request_wf q"
  ultimately show ?thesis by (simp add: saved_connect connect_request_def)
next
  case (Disconnect i)
  then show ?thesis by (simp add: saved_disconnect)
qed (simp_all add: saved.keeps_handle del: handle.simps)

lemma saved_requests:
  "list_all request_wf qs \<Longrightarrow> saved_inv s \<Longrightarrow> saved_inv (fold (\<lambda>q s. snd (handle h q s)) qs s)"
  by (induction qs arbitrary: s) (use saved_handle in \<open>auto simp: preserves_def simp del: request_wf.simps\<close>)

section \<open>What is acknowledged is stored\<close>

lemma insert_saved_Ok [act_simps]:
  "insert_saved i r s = (x, s') \<longleftrightarrow> x = Ok () \<and> s' = s\<lparr>saved_routes := bt_insert i r (saved_routes s)\<rparr>"
  by (auto simp: insert_saved_def update_def)

lemma remove_saved_Ok [act_simps]:
  "remove_saved i s = (x, s') \<longleftrightarrow> x = Ok () \<and> s' = s\<lparr>saved_routes := bt_remove i (saved_routes s)\<rparr>"
  by (auto simp: remove_saved_def update_def)

lemma connect_route_Ok:
  assumes "connect_route h r s = (Ok m, s')"
  obtains s1 s2 where "add_saved h r s = (Ok (), s1)" "bt_get (saved_routes s1) (sr_id r) = None"
    "save_routes (s1\<lparr>saved_routes := bt_insert (sr_id r) r (saved_routes s1)\<rparr>) = (Ok (), s2)"
    "restart_router h s2 = (Ok (), s')" "m = ''connected '' @ sr_id r"
  using assms that
  by (auto simp: connect_route_def with_state_def act_simps bt_contains_def split: if_splits)

lemma disconnect_route_Ok:
  assumes "disconnect_route h i s = (Ok m, s')"
  obtains previous s1 s2 s3 where "bt_get (saved_routes s) i = Some previous"
    "save_routes (s\<lparr>saved_routes := bt_remove i (saved_routes s)\<rparr>) = (Ok (), s1)"
    "refresh_endpoints h s1 = (Ok (), s2)" "restore_routes h s2 = (Ok (), s3)"
    "restart_router h s3 = (Ok (), s')" "m = ''disconnected '' @ i"
  using assms that
  by (auto simp: disconnect_route_def with_state_def act_simps split: option.splits)

lemma stored_by:
  assumes "\<And>x. preserves (\<lambda>s. stored_part s = x) m" "m s = (r, s')"
  shows "files s' = files s" "saved_routes s' = saved_routes s" "state_path s' = state_path s"
  using preservesD [OF assms(1) refl assms(2)] by (simp_all add: stored_part_def)

lemmas stored_add_saved = stored_by [OF stored.keeps_add_saved]
lemmas stored_restart = stored_by [OF stored.keeps_restart]
lemmas stored_refresh = stored_by [OF stored.keeps_refresh]
lemmas stored_restore = stored_by [OF stored.keeps_restore]

lemma save_routes_Ok:
  assumes "save_routes s = (Ok (), s')"
  shows "files s' (state_path s) = Some (state_text (saved_routes s))"
    and "s' = s\<lparr>files := files s', faults := faults s'\<rparr>"
  using save_routes_spec [of s] assms by (simp_all add: replaced_def only_files_def)

lemma only_files_stored:
  assumes "s' = s\<lparr>files := files s', faults := faults s'\<rparr>"
  shows "saved_routes s' = saved_routes s" "state_path s' = state_path s" "graph s' = graph s"
    "endpoint_devices s' = endpoint_devices s"
  by (subst assms, simp)+

text \<open>After a successful change of the routes the file holds exactly the saved routes.\<close>

lemma connect_writes:
  assumes "connect_route h r s = (Ok m, s')"
  shows "files s' (state_path s) = Some (state_text (saved_routes s'))"
    and "saved_routes s' = bt_insert (sr_id r) r (saved_routes s)" "state_path s' = state_path s"
proof -
  from assms obtain s1 s2 where steps: "add_saved h r s = (Ok (), s1)"
    "save_routes (s1\<lparr>saved_routes := bt_insert (sr_id r) r (saved_routes s1)\<rparr>) = (Ok (), s2)"
    "restart_router h s2 = (Ok (), s')" by (rule connect_route_Ok)
  note s1 = stored_add_saved [OF steps(1)] and s' = stored_restart [OF steps(3)]
  from save_routes_Ok [OF steps(2)]
  have stored: "files s2 (state_path s1) = Some (state_text (bt_insert (sr_id r) r (saved_routes s1)))"
    and s2: "s2 = s1\<lparr>saved_routes := bt_insert (sr_id r) r (saved_routes s1), files := files s2,
      faults := faults s2\<rparr>" by simp_all
  note s2 = only_files_stored [OF s2 [simplified]]
  show "files s' (state_path s) = Some (state_text (saved_routes s'))"
    "saved_routes s' = bt_insert (sr_id r) r (saved_routes s)" "state_path s' = state_path s"
    using stored s1 s2 s' by simp_all
qed

lemma disconnect_writes:
  assumes "disconnect_route h i s = (Ok m, s')"
  shows "files s' (state_path s) = Some (state_text (saved_routes s'))"
    and "saved_routes s' = bt_remove i (saved_routes s)" "state_path s' = state_path s"
proof -
  from assms obtain s1 s2 s3 where steps:
    "save_routes (s\<lparr>saved_routes := bt_remove i (saved_routes s)\<rparr>) = (Ok (), s1)"
    "refresh_endpoints h s1 = (Ok (), s2)" "restore_routes h s2 = (Ok (), s3)"
    "restart_router h s3 = (Ok (), s')" by (rule disconnect_route_Ok)
  note keep = stored_refresh [OF steps(2)] stored_restore [OF steps(3)] stored_restart [OF steps(4)]
  from save_routes_Ok [OF steps(1)]
  have stored: "files s1 (state_path s) = Some (state_text (bt_remove i (saved_routes s)))"
    and s1: "s1 = s\<lparr>saved_routes := bt_remove i (saved_routes s), files := files s1,
      faults := faults s1\<rparr>" by simp_all
  note s1 = only_files_stored [OF s1 [simplified]]
  show "files s' (state_path s) = Some (state_text (saved_routes s'))"
    "saved_routes s' = bt_remove i (saved_routes s)" "state_path s' = state_path s"
    using stored s1 keep by simp_all
qed

definition durable :: "'c system \<Rightarrow> bool" where
  "durable s \<longleftrightarrow> load_routes (state_path s) (files s) = Ok (saved_routes s)"

lemma handle_durable:
  assumes "saved_inv s" "request_wf q" "durable s" "handle h q s = (Ok m, s')"
  shows "durable s' \<and> saved_inv s' \<and> state_path s' = state_path s"
proof -
  have inv: "saved_inv s'" using preservesD [OF saved_handle [OF assms(2)] assms(1,4)] .
  consider i a b g mtx where "q = Connect i a b g mtx" | i where "q = Disconnect i"
    | "\<forall>i a b g m. q \<noteq> Connect i a b g m" "\<forall>i. q \<noteq> Disconnect i" by blast
  then show ?thesis
  proof cases
    case 1
    then show ?thesis
      using connect_writes [OF assms(4) [unfolded 1 handle.simps]] load_state_text [OF inv] inv
      by (simp add: durable_def)
  next
    case 2
    then show ?thesis
      using disconnect_writes [OF assms(4) [unfolded 2 handle.simps]] load_state_text [OF inv] inv
      by (simp add: durable_def)
  next
    case 3
    from stored_by [OF stored.keeps_handle [OF this] assms(4)]
    show ?thesis using assms(1,3) by (simp add: durable_def)
  qed
qed

lemma load_Ok:
  assumes "load_routes path fs = Ok m" "flts = []"
  shows "daemon_load path fs flts c = Ok \<lparr>graph = graph_default, saved_routes = m,
    endpoint_devices = bt_empty, router = None, state_path = path, files = fs, faults = [], audio = c\<rparr>"
  using assms by (auto simp: daemon_load_def load_routes_def split: option.splits)

section \<open>The graph mirrors the saved routes\<close>

definition mirrors :: "'c host \<Rightarrow> 'c system \<Rightarrow> bool" where
  "mirrors h s \<longleftrightarrow> (\<forall>i. case bt_get (saved_routes s) i of
      None \<Rightarrow> bt_get (routes (graph s)) (RouteId i) = None
    | Some sv \<Rightarrow> \<exists>r. build_route h (graph s) sv = Ok r \<and> bt_get (routes (graph s)) (RouteId i) = Some r)"

lemma build_route_endpoints:
  "endpoints g' = endpoints g \<Longrightarrow> build_route h g' sv = build_route h g sv"
  by (simp add: build_route_def endpoint_def)

lemma build_route_id: "build_route h g sv = Ok r \<Longrightarrow> Route.route_id r = RouteId (sr_id sv)"
  by (auto simp: build_route_def res_simps RouteId_new_def split: if_splits)

lemma insert_route_simps [simp]:
  "endpoints (insert_route r g) = endpoints g"
  "routes (insert_route r g) = bt_insert (Route.route_id r) r (routes g)"
  by (simp_all add: insert_route_def)

lemma add_saved_Ok:
  "add_saved h sv s = (Ok u, s') \<longleftrightarrow> (\<exists>r. build_route h (graph s) sv = Ok r
     \<and> add_route r (graph s) = Ok (insert_route r (graph s))
     \<and> s' = s\<lparr>graph := insert_route r (graph s)\<rparr>)"
  by (auto simp: add_saved_def graph_add_route_def with_state_def act_simps update_def add_route_Ok)

lemma add_all_saved_Ok:
  "add_all_saved h rs s = (Ok (), s') \<Longrightarrow> bt_sorted (routes (graph s)) \<Longrightarrow> distinct (map sr_id rs) \<Longrightarrow>
     s' = s\<lparr>graph := graph s'\<rparr> \<and> endpoints (graph s') = endpoints (graph s)
     \<and> (\<forall>sv \<in> set rs. \<exists>r. build_route h (graph s) sv = Ok r
          \<and> bt_get (routes (graph s')) (RouteId (sr_id sv)) = Some r)
     \<and> (\<forall>i. i \<notin> sr_id ` set rs \<longrightarrow>
          bt_get (routes (graph s')) (RouteId i) = bt_get (routes (graph s)) (RouteId i))"
proof (induction rs arbitrary: s)
  case Nil
  then show ?case by (simp add: done_with_Ok)
next
  case (Cons sv rs)
  then obtain r where r: "build_route h (graph s) sv = Ok r"
    and rest: "add_all_saved h rs (s\<lparr>graph := insert_route r (graph s)\<rparr>) = (Ok (), s')"
    by (auto simp: act_simps add_saved_Ok)
  let ?g = "insert_route r (graph s)"
  have "s' = s\<lparr>graph := ?g\<rparr>\<lparr>graph := graph s'\<rparr> \<and> endpoints (graph s') = endpoints ?g
     \<and> (\<forall>sv \<in> set rs. \<exists>r. build_route h ?g sv = Ok r
          \<and> bt_get (routes (graph s')) (RouteId (sr_id sv)) = Some r)
     \<and> (\<forall>i. i \<notin> sr_id ` set rs \<longrightarrow>
          bt_get (routes (graph s')) (RouteId i) = bt_get (routes ?g) (RouteId i))"
    using Cons.IH [OF rest] Cons.prems(2,3) by (simp add: bm.invar_insert)
  moreover have "build_route h ?g sv' = build_route h (graph s) sv'" for sv'
    by (rule build_route_endpoints) simp
  moreover have "bt_get (routes ?g) (RouteId i) = (if i = sr_id sv then Some r
      else bt_get (routes (graph s)) (RouteId i))" for i
    using Cons.prems(2) by (simp add: bm.get_insert build_route_id [OF r])
  ultimately show ?case using r Cons.prems(3) by auto
qed

lemma refresh_endpoints_Ok:
  assumes "refresh_endpoints h s = (Ok (), s')"
  shows "routes (graph s') = bt_empty"
  using assms fresh_endpoints(2)
  by (auto simp: refresh_endpoints_def act_simps update_def split: prod.splits)

text \<open>Restoring onto freshly listed endpoints makes the graph a mirror.\<close>

lemma restored_mirrors:
  assumes "refresh_endpoints h s = (Ok (), s1)" "restore_routes h s1 = (Ok (), s')" "saved_inv s"
  shows "mirrors h s'"
proof -
  have empty: "routes (graph s1) = bt_empty" using refresh_endpoints_Ok [OF assms(1)] .
  have m: "saved_routes s1 = saved_routes s" "saved_routes s' = saved_routes s"
    using stored_refresh [OF assms(1)] stored_restore [OF assms(2)] by simp_all
  have all: "add_all_saved h (bt_values (saved_routes s)) s1 = (Ok (), s')"
    using assms(2) m by (simp add: restore_routes_def with_state_def)
  note r = add_all_saved_Ok [OF all _ saved_ok_distinct [OF assms(3)]]
  show ?thesis unfolding mirrors_def
  proof
    fix i
    have ids: "i \<in> sr_id ` set (bt_values (saved_routes s)) \<longleftrightarrow> bt_get (saved_routes s) i \<noteq> None"
      using assms(3) saved_ok_value [OF assms(3)] bt_get_value [of "saved_routes s" i]
      by (force simp: saved_ok_def)
    show "case bt_get (saved_routes s') i of
        None \<Rightarrow> bt_get (routes (graph s')) (RouteId i) = None
      | Some sv \<Rightarrow> \<exists>r. build_route h (graph s') sv = Ok r
          \<and> bt_get (routes (graph s')) (RouteId i) = Some r"
    proof (cases "bt_get (saved_routes s) i")
      case None
      then show ?thesis using r ids empty by (simp add: m bm.get_empty bm.invar_empty)
    next
      case (Some sv)
      then have "sr_id sv = i" "sv \<in> set (bt_values (saved_routes s))"
        using assms(3) by (auto simp: saved_ok_def dest: bt_get_value)
      then show ?thesis
        using r empty build_route_endpoints [of "graph s'" "graph s1" h sv] Some
        by (auto simp: m bm.invar_empty)
    qed
  qed
qed

lemma mirrors_cong:
  "saved_routes s' = saved_routes s \<Longrightarrow> graph s' = graph s \<Longrightarrow> mirrors h s' = mirrors h s"
  by (simp add: mirrors_def cong: option.case_cong)

text \<open>Starting the router leaves the graph; when it succeeds, the router plays exactly the graph.\<close>

definition playing :: "'c system \<Rightarrow> bool" where
  "playing s \<longleftrightarrow> (\<exists>rs. traverse (audio_route (endpoint_devices s)) (bt_values (routes (graph s))) = Ok rs
     \<and> router s = (if rs = [] then None else Some rs))"

lemma drop_router_Ok [act_simps]:
  "drop_router h s = (x, s') \<longleftrightarrow> x = Ok ()
     \<and> s' = (if router s = None then s else s\<lparr>router := None, audio := h_stop_router h (audio s)\<rparr>)"
  by (auto simp: drop_router_def update_def)

lemma restart_router_Ok:
  assumes "restart_router h s = (Ok (), s')"
  shows "graph s' = graph s" "endpoint_devices s' = endpoint_devices s" "playing s'"
proof -
  obtain s1 where d: "drop_router h s = (Ok (), s1)"
    and r: "andthen (lift_res (traverse (audio_route (endpoint_devices s1)) (bt_values (routes (graph s1)))))
      (\<lambda>rs. if rs = [] then done_with ()
        else andthen (with_audio (h_start_router h rs)) (\<lambda>_. update (\<lambda>s. s\<lparr>router := Some rs\<rparr>))) s1
      = (Ok (), s')"
    using assms by (auto simp: restart_router_def with_state_def andthen_Ok)
  have s1: "graph s1 = graph s" "endpoint_devices s1 = endpoint_devices s" "router s1 = None"
    using d by (auto simp: drop_router_Ok)
  from r obtain rs where
    rs: "traverse (audio_route (endpoint_devices s1)) (bt_values (routes (graph s1))) = Ok rs"
    and s': "if rs = [] then s' = s1 else \<exists>a. s' = s1\<lparr>audio := a, router := Some rs\<rparr>"
    by (auto simp: act_simps update_def split: if_splits) blast
  from s' have "graph s' = graph s1 \<and> endpoint_devices s' = endpoint_devices s1
      \<and> router s' = (if rs = [] then None else Some rs)"
    using s1(3) by (auto split: if_splits)
  then show "graph s' = graph s" "endpoint_devices s' = endpoint_devices s" "playing s'"
    using rs s1 by (simp_all add: playing_def)
qed

section \<open>Connecting\<close>

lemma connect_effect:
  assumes "connect_route h sv s = (Ok m, s')"
  obtains r where "build_route h (graph s) sv = Ok r" "add_route r (graph s) = Ok (graph s')"
    "graph s' = insert_route r (graph s)" "bt_get (saved_routes s) (sr_id sv) = None"
    "endpoint_devices s' = endpoint_devices s" "playing s'" "m = ''connected '' @ sr_id sv"
proof -
  from assms obtain s1 s2 where steps: "add_saved h sv s = (Ok (), s1)"
    "bt_get (saved_routes s1) (sr_id sv) = None"
    "save_routes (s1\<lparr>saved_routes := bt_insert (sr_id sv) sv (saved_routes s1)\<rparr>) = (Ok (), s2)"
    "restart_router h s2 = (Ok (), s')" "m = ''connected '' @ sr_id sv" by (rule connect_route_Ok)
  from steps(1) obtain r where r: "build_route h (graph s) sv = Ok r"
    "add_route r (graph s) = Ok (insert_route r (graph s))" "s1 = s\<lparr>graph := insert_route r (graph s)\<rparr>"
    by (auto simp: add_saved_Ok)
  have "s2 = s1\<lparr>saved_routes := bt_insert (sr_id sv) sv (saved_routes s1), files := files s2,
      faults := faults s2\<rparr>"
    using save_routes_Ok(2) [OF steps(3)] r(3) by simp
  note s2 = only_files_stored [OF this [simplified]]
  show thesis
    using that [OF r(1)] r s2 restart_router_Ok [OF steps(4)] steps(2,5) by simp
qed

lemma connect_mirrors:
  assumes "connect_route h sv s = (Ok m, s')" "saved_inv s" "mirrors h s" "bt_sorted (routes (graph s))"
  shows "mirrors h s'"
proof -
  from assms(1) obtain r where r: "build_route h (graph s) sv = Ok r"
    "graph s' = insert_route r (graph s)" by (rule connect_effect)
  have saved: "saved_routes s' = bt_insert (sr_id sv) sv (saved_routes s)"
    using connect_writes(2) [OF assms(1)] .
  have b: "build_route h (graph s') sv' = build_route h (graph s) sv'" for sv'
    by (rule build_route_endpoints) (simp add: r(2))
  have "bt_sorted (saved_routes s)" using assms(2) by (simp add: saved_ok_def)
  then show ?thesis
    using assms(3,4) r(1) unfolding mirrors_def saved r(2)
    by (auto simp: bm.get_insert build_route_id b [unfolded r(2)] cong: option.case_cong)
qed

lemma disconnect_mirrors:
  assumes "disconnect_route h i s = (Ok m, s')" "saved_inv s"
  shows "mirrors h s' \<and> playing s'"
proof -
  from assms(1) obtain s1 s2 s3 where steps:
    "save_routes (s\<lparr>saved_routes := bt_remove i (saved_routes s)\<rparr>) = (Ok (), s1)"
    "refresh_endpoints h s1 = (Ok (), s2)" "restore_routes h s2 = (Ok (), s3)"
    "restart_router h s3 = (Ok (), s')" by (rule disconnect_route_Ok)
  have "saved_inv (s\<lparr>saved_routes := bt_remove i (saved_routes s)\<rparr>)"
    using assms(2) by (simp add: saved_ok_remove)
  then have "saved_inv s1" using preservesD [OF saved_save _ steps(1)] by blast
  from restored_mirrors [OF steps(2,3) this] have "mirrors h s3" .
  then show ?thesis
    using mirrors_cong stored_restart(2) [OF steps(4)] restart_router_Ok [OF steps(4)] by metis
qed

lemma handle_mirrors:
  assumes "handle h q s = (Ok m, s')" "saved_inv s" "mirrors h s" "history s"
  shows "mirrors h s'"
proof -
  have sorted: "bt_sorted (routes (graph s))"
    using graph_history_inv [OF assms(4)] by (simp add: graph_inv_def)
  have rebuilt: "mirrors h s'"
    if "saved_inv s0" "refresh_endpoints h s0 = (Ok (), s1)" "restore_routes h s1 = (Ok (), s')" for s0 s1
    using restored_mirrors [OF that(2,3,1)] .
  show ?thesis
  proof (cases q)
    case (CreateDevice i n inp outp rate)
    with assms(1) show ?thesis
      using assms(2) by (auto simp: create_device_def act_simps elim!: rebuilt [rotated])
  next
    case (DeleteDevice i)
    with assms(1) show ?thesis
      using assms(2)
      by (auto simp: delete_device_def with_state_def act_simps elim!: rebuilt [rotated] split: if_splits)
  next
    case (Connect i a b g mtx)
    with assms(1) show ?thesis using connect_mirrors [OF _ assms(2,3) sorted] by simp
  next
    case (Disconnect i)
    with assms(1) show ?thesis using disconnect_mirrors [OF _ assms(2)] by simp
  next
    case Shutdown
    with assms(1) show ?thesis
      using assms(3) mirrors_cong [of s' s h] by (auto simp: act_simps split: if_splits)
  qed (use assms(1,3) in \<open>auto simp: act_simps with_state_def\<close>)
qed

lemma start_up_mirrors:
  assumes "start_up h s = (Ok (), s')" "saved_inv s"
  shows "mirrors h s' \<and> playing s'"
proof -
  obtain s1 s2 where steps: "refresh_endpoints h s = (Ok (), s1)" "restore_routes h s1 = (Ok (), s2)"
    "restart_router h s2 = (Ok (), s')"
    using assms(1) by (auto simp: start_up_def act_simps)
  show ?thesis
    using restored_mirrors [OF steps(1,2) assms(2)] mirrors_cong stored_restart(2) [OF steps(3)]
      restart_router_Ok [OF steps(3)] by metis
qed

end
