(* ===== verification/RouterSafety.thy ===== *)
theory RouterSafety
  imports StreamProperties
begin

text \<open>
  The router on any buffer lists. A device may change its format while the router runs, and then its
  lists have other channels than the routes expect. What holds even then is stated here: a callback on lists
  whose memory is valid returns without a panic, and everything but the alignment of the frames in
  the rings is kept, so that this is so for ever.
\<close>

section \<open>A route without whole frames\<close>

lemma some_bool [simp]: "\<exists>b :: bool. \<not> b" "\<exists>b :: bool. b"
  by blast+

definition route_ready :: "IncomingRoute \<Rightarrow> bool" where
  "route_ready r \<longleftrightarrow> 0 < in_channels r \<and> length (in_current r) = in_channels r
     \<and> length (in_next r) = in_channels r \<and> length (in_interpolated r) = in_channels r
     \<and> length (in_matrix r) = in_sink_channels r * in_channels r \<and> length (in_matrix r) < usize_bound"

lemma route_inv_ready: "route_inv r q \<longleftrightarrow> route_ready r \<and> ring_framed (in_channels r) q"
  by (auto simp: route_inv_def route_ready_def ring_framed_def)

lemma read_source_frame_returns:
  assumes "route_ready r" "ring_inv q"
  obtains r' q' where "read_source_frame b r q = (in_channels r \<le> consumer_available q, r', q')"
    "route_ready r'" "same_config r r'" "ring_inv q'" "in_phase r' = in_phase r" "in_primed r' = in_primed r"
    "consumer_available q' = consumer_available q
       - (if in_channels r \<le> consumer_available q then in_channels r else 0)"
proof (cases "in_channels r \<le> consumer_available q")
  case False
  then have "read_source_frame b r q = (False, r, q)" by (simp add: read_source_frame_def)
  then show ?thesis using that [of r q] False assms by simp
next
  case True
  define xs where "xs = (if b then in_next r else in_current r)"
  have l: "length xs = in_channels r" using assms(1) by (simp add: xs_def route_ready_def)
  have c: "consumer_available u = length (contents u)" if "ring_inv u" for u using that by simp
  obtain q' where q': "pop_each xs q = (True, take (in_channels r) (contents q), q')" "ring_inv q'"
    "contents q' = drop (in_channels r) (contents q)"
    using pop_each_ok [OF assms(2), of xs] True l by auto
  define f where "f = take (in_channels r) (contents q)"
  have "read_source_frame b r q = (True, (if b then r\<lparr>in_next := f\<rparr> else r\<lparr>in_current := f\<rparr>), q')"
    using q'(1) True by (cases b) (simp_all add: read_source_frame_def xs_def f_def)
  moreover have "length f = in_channels r" using True by (simp add: f_def)
  moreover have "consumer_available q' = consumer_available q - in_channels r"
    using arg_cong [OF q'(3), of length] by simp
  ultimately show ?thesis
    using that [of "if b then r\<lparr>in_next := f\<rparr> else r\<lparr>in_current := f\<rparr>" q'] True q'(2) assms(1)
    by (auto simp: route_ready_def same_config_def)
qed

lemma route_prime_returns:
  assumes "route_ready r" "ring_inv q"
  shows "\<exists>ok r' q' m'. route_prime (r, q, m) = Ok (ok, (r', q', m')) \<and> route_ready r' \<and> same_config r r'
    \<and> ring_inv q'"
proof -
  have n: "(usize_div (consumer_available q) (in_channels r) :: usize access) = Ok (consumer_available q div in_channels r)"
    using assms(1) by (simp add: route_ready_def)
  obtain r1 q1 where a: "read_source_frame False r q = (in_channels r \<le> consumer_available q, r1, q1)"
    "route_ready r1" "same_config r r1" "ring_inv q1"
    by (rule read_source_frame_returns [OF assms, of False])
  obtain r2 q2 where b: "read_source_frame True r1 q1 = (in_channels r1 \<le> consumer_available q1, r2, q2)"
    "route_ready r2" "same_config r1 r2" "ring_inv q2"
    by (rule read_source_frame_returns [OF a(2,4), of True])
  have c: "same_config r r2" by (rule same_config_trans [OF a(3) b(3)])
  have "route_ready (r2\<lparr>in_phase := p, in_primed := True\<rparr>)" "same_config r (r2\<lparr>in_phase := p, in_primed := True\<rparr>)"
    for p using b(2) c by (simp_all add: route_ready_def same_config_def)
  then show ?thesis using assms a b c n by (auto simp: route_prime_def)
qed

lemma route_loop_returns:
  assumes "route_ready r" "ring_inv q"
  shows "\<exists>b r' q' m'. route_loop (False, (r, q, m)) = ret (b, (r', q', m')) \<and> route_ready r' \<and> same_config r r'
    \<and> ring_inv q'"
  using assms
proof (induction "consumer_available q" arbitrary: r q rule: less_induct)
  case less
  show ?case
  proof (cases "fle (fone F64) (in_phase r)")
    case False
    then have "route_loop (False, (r, q, m)) = ret (False, (r, q, m))"
      unfolding route_loop_def by (subst while_res_unfold) simp
    then show ?thesis using less.prems by auto
  next
    case True
    define r0 where "r0 = r\<lparr>in_current := in_next r\<rparr>"
    have l: "length (in_current r) = length (in_next r)" "0 < in_channels r" and r0: "route_ready r0"
      using less.prems(1) by (simp_all add: route_ready_def r0_def)
    have ch: "in_channels r0 = in_channels r" by (simp add: r0_def)
    obtain r1 q1 where a: "read_source_frame True r0 q = (in_channels r0 \<le> consumer_available q, r1, q1)"
      "route_ready r1" "same_config r0 r1" "ring_inv q1"
      "consumer_available q1 = consumer_available q - (if in_channels r0 \<le> consumer_available q then in_channels r0 else 0)"
      by (rule read_source_frame_returns [OF r0 less.prems(2), of True])
    note a = a [unfolded ch]
    have c: "same_config r r1" using a(3) by (simp add: same_config_def r0_def)
    show ?thesis
    proof (cases "in_channels r \<le> consumer_available q")
      case False
      then have "route_loop (False, (r, q, m)) = ret (True, (r1\<lparr>in_primed := False\<rparr>, q1, count_underrun m))"
        unfolding route_loop_def using True l(1) a(1) [unfolded r0_def]
        by (subst while_res_unfold, simp add: route_advance_body_def) (subst while_res_unfold, simp)
      then show ?thesis using a(2,4) c by (auto simp: route_ready_def same_config_def)
    next
      case enough: True
      let ?r1 = "r1\<lparr>in_phase := fsub F64 (in_phase r1) (fone F64)\<rparr>"
      have "route_loop (False, (r, q, m)) = route_loop (False, (?r1, q1, m))"
        unfolding route_loop_def using True l(1) a(1) [unfolded r0_def] enough
        by (subst while_res_unfold) (simp add: route_advance_body_def)
      moreover have "consumer_available q1 < consumer_available q" using a(5) enough l(2) by simp
      moreover have "route_ready ?r1" using a(2) by (simp add: route_ready_def)
      ultimately obtain b r' q' m' where "route_loop (False, (r, q, m)) = ret (b, (r', q', m'))"
        "route_ready r'" "same_config ?r1 r'" "ring_inv q'"
        using less.hyps [of q1 ?r1] a(4) by metis
      moreover have "same_config r r'" using \<open>same_config ?r1 r'\<close> c by (simp add: same_config_def)
      ultimately show ?thesis by blast
    qed
  qed
qed

lemma prepare_returns:
  assumes "route_ready r" "ring_inv q"
  shows "\<exists>ok r' q' m'. prepare_output_frame (r, q, m) = ret (ok, (r', q', m')) \<and> route_ready r' \<and> same_config r r'
    \<and> ring_inv q'"
proof -
  obtain ok r1 q1 m1 where p: "route_prime (r, q, m) = Ok (ok, (r1, q1, m1))" "route_ready r1" "same_config r r1"
    "ring_inv q1" using route_prime_returns [OF assms] by blast
  show ?thesis
  proof (cases ok)
    case False
    then show ?thesis using p by (auto simp: prepare_output_frame_def)
  next
    case True
    obtain xs where i: "route_interpolate r1 = Ok (r1\<lparr>in_interpolated := xs\<rparr>)" "length xs = in_channels r1"
      using p(2) by (simp add: route_interpolate_def route_ready_def Let_def)
    have n: "(usize_div (consumer_available q1) (in_channels r1) :: usize access) = Ok (consumer_available q1 div in_channels r1)"
      using p(2) by (simp add: route_ready_def)
    define r2 where "r2 = r1\<lparr>in_interpolated := xs, in_phase := fadd F64 (in_phase r1) (fmul F64 (in_step r1)
        (fadd F64 (fone F64) (route_drift (consumer_available q1 div in_channels r1))))\<rparr>"
    have r2: "route_ready r2" "same_config r1 r2" using p(2) i(2) by (simp_all add: r2_def route_ready_def same_config_def)
    have run: "prepare_output_frame (r, q, m) = and_run (route_loop (False, (r2, q1, m1))) (\<lambda>(broken, s1). ret (True, s1))"
      using p(1) True n i(1) by (simp add: prepare_output_frame_def route_correction_ok Let_def r2_def)
    obtain b r' q' m' where "route_loop (False, (r2, q1, m1)) = ret (b, (r', q', m'))" "route_ready r'"
      "same_config r2 r'" "ring_inv q'" using route_loop_returns [OF r2(1) p(4)] by blast
    then show ?thesis using run same_config_trans [OF p(3) same_config_trans [OF r2(2)]] by auto
  qed
qed

lemma mixed_sample_returns:
  assumes "route_ready r" "ch < in_sink_channels r"
  shows "\<exists>v. mixed_sample r ch = Ok v"
proof -
  have b: "ch * in_channels r + in_channels r \<le> length (in_matrix r)"
    using assms frame_slice_bound [OF assms(2), of "in_channels r"] by (simp add: route_ready_def)
  then have "ch * in_channels r < usize_bound" using assms(1) by (simp add: route_ready_def)
  then show ?thesis using b by (simp add: mixed_sample_def checked_mul_def)
qed

section \<open>The callback on any lists\<close>

text \<open>All rings are rings, and all routes of a context have theirs.\<close>

definition rings_safe :: "nat \<Rightarrow> router_store \<Rightarrow> bool" where
  "rings_safe n s \<longleftrightarrow> length (rings s) = n \<and> (\<forall>q \<in> set (rings s). ring_inv q)"

definition context_safe :: "nat \<Rightarrow> DeviceIoContext \<Rightarrow> bool" where
  "context_safe n x \<longleftrightarrow> (\<forall>w \<in> set (outgoing x). out_ring w < n)
     \<and> (\<forall>r \<in> set (incoming x). in_ring r < n \<and> route_ready r)"

text \<open>Core Audio's only duty: the memory of every buffer has the announced size.\<close>

definition valid_list :: "AudioBufferList option \<Rightarrow> bool" where
  "valid_list list \<longleftrightarrow> (\<forall>bs. list = Some bs \<longrightarrow> list_all buffer_wf bs)"

lemma rings_safe_at: "rings_safe n s \<Longrightarrow> i < n \<Longrightarrow> ring_of i s = Ok (rings s ! i) \<and> ring_inv (rings s ! i)"
  by (simp add: rings_safe_def ring_of_def)

lemma rings_safe_set: "rings_safe n s \<Longrightarrow> ring_inv q \<Longrightarrow> rings_safe n (set_ring i q s)"
  using set_update_subset_insert [of "rings s" i q] by (auto simp: rings_safe_def set_ring_def)

lemma rings_safe_meter [simp]:
  "rings_safe n (router_meter f s) = rings_safe n s" "rings_safe n (s\<lparr>router_metrics := m\<rparr>) = rings_safe n s"
  by (simp_all add: rings_safe_def router_meter_def)

lemma read_audio_sample_returns:
  assumes "holds_frames n bs"
  obtains v where "read_audio_sample bs f ch = Ok v"
proof (cases "f < n \<and> ch < total_channels bs")
  case True
  then show ?thesis using read_audio_sample_ok [OF assms] that by blast
next
  case False
  then show ?thesis using read_sample_none [OF assms, of 0 ch f] that by (auto simp: read_audio_sample_def)
qed

lemma push_channels_returns:
  "ring_inv q \<Longrightarrow> holds_frames n bs \<Longrightarrow> length chs \<le> producer_available q \<Longrightarrow>
     \<exists>ok q'. push_channels bs f chs q = Ok (ok, q') \<and> ring_inv q'"
proof (induction chs arbitrary: q)
  case (Cons ch chs)
  obtain v where v: "read_audio_sample bs f ch = Ok v" by (rule read_audio_sample_returns [OF Cons.prems(2)])
  show ?case
  proof (cases v)
    case None
    then show ?thesis using v Cons.prems(1) by simp
  next
    case (Some w)
    obtain b q1 where p: "push w q = (b, q1)" by (cases "push w q")
    note r = push_refines [OF Cons.prems(1) p]
    have b: "b" using r(1) Cons.prems(3) rq.free [OF Cons.prems(1)] by simp
    have "length chs \<le> producer_available q1"
      using Cons.prems(3) r b by (simp add: rq.free Cons.prems(1) del: length_contents)
    then show ?thesis using Cons.IH [OF r(2) Cons.prems(2)] v Some p b by simp
  qed
qed simp

lemma outgoing_routes_return:
  "rings_safe n s \<Longrightarrow> holds_frames k bs \<Longrightarrow> \<forall>w \<in> set outs. out_ring w < n \<Longrightarrow>
     \<exists>ok s'. outgoing_routes bs f outs s = Ok (ok, s') \<and> rings_safe n s'"
proof (induction outs arbitrary: s)
  case (Cons w outs)
  have q: "ring_of (out_ring w) s = Ok (rings s ! out_ring w)" "ring_inv (rings s ! out_ring w)"
    using rings_safe_at [OF Cons.prems(1)] Cons.prems(3) by simp_all
  show ?case
  proof (cases "producer_available (rings s ! out_ring w) < out_channels w")
    case True
    then show ?thesis using q(1) Cons.IH [of "router_meter count_overrun s"] Cons.prems by simp
  next
    case False
    then obtain ok q' where p: "push_channels bs f [0..<out_channels w] (rings s ! out_ring w) = Ok (ok, q')" "ring_inv q'"
      using push_channels_returns [OF q(2) Cons.prems(2), of "[0..<out_channels w]" f] by auto
    have "rings_safe n (set_ring (out_ring w) q' s)" by (rule rings_safe_set [OF Cons.prems(1) p(2)])
    then show ?thesis using q(1) False p(1) Cons.IH [of "set_ring (out_ring w) q' s"] Cons.prems(2,3) by (cases ok) simp_all
  qed
qed simp

lemma outgoing_frames_return:
  "rings_safe n s \<Longrightarrow> holds_frames k bs \<Longrightarrow> \<forall>w \<in> set outs. out_ring w < n \<Longrightarrow>
     \<exists>ok s'. outgoing_frames bs fs outs s = Ok (ok, s') \<and> rings_safe n s'"
proof (induction fs arbitrary: s)
  case (Cons f fs)
  obtain ok s1 where r: "outgoing_routes bs f outs s = Ok (ok, s1)" "rings_safe n s1"
    using outgoing_routes_return [OF Cons.prems] by blast
  then show ?case using Cons.IH [OF r(2) Cons.prems(2,3)] by (cases ok) simp_all
qed simp

lemma incoming_frames_return:
  "route_ready r \<Longrightarrow> ring_inv q \<Longrightarrow> audio_grid n c out \<Longrightarrow>
     \<exists>ok out' r' q' m'. incoming_frames fs out (r, q, m) = ret (ok, out', (r', q', m')) \<and> route_ready r'
       \<and> same_config r r' \<and> ring_inv q' \<and> audio_grid n c out'"
proof (induction fs arbitrary: out r q m)
  case (Cons f fs)
  obtain go r1 q1 m1 where p: "prepare_output_frame (r, q, m) = ret (go, (r1, q1, m1))" "route_ready r1"
    "same_config r r1" "ring_inv q1" using prepare_returns [OF Cons.prems(1,2)] by blast
  have rest: "\<exists>ok out' r' q' m'. incoming_frames fs out1 (r1, q1, m1) = ret (ok, out', (r', q', m')) \<and> route_ready r'
       \<and> same_config r r' \<and> ring_inv q' \<and> audio_grid n c out'" if "audio_grid n c out1" for out1
    using Cons.IH [OF p(2,4) that, of m1] same_config_trans [OF p(3)] by blast
  show ?case
  proof (cases go)
    case False
    then show ?thesis using rest [OF Cons.prems(3)] p(1) by simp
  next
    case True
    have "\<exists>v. mixed_sample r1 ch = Ok v" if "ch \<in> set [0..<in_sink_channels r1]" for ch
      using mixed_sample_returns [OF p(2)] that by simp
    then obtain valid out1 where a: "add_channels add_audio_sample (mixed_sample r1) f [0..<in_sink_channels r1] out = Ok (valid, out1)"
      "audio_grid n c out1"
      using abl.add_channels_returns [OF Cons.prems(3), of "[0..<in_sink_channels r1]" "mixed_sample r1" f] by blast
    then show ?thesis using rest [OF a(2)] p True by (cases valid) auto
  qed
qed simp

lemma incoming_routes_return:
  "rings_safe n s \<Longrightarrow> \<forall>r \<in> set ins. in_ring r < n \<and> route_ready r \<Longrightarrow> audio_grid k c out \<Longrightarrow>
     \<exists>ok ins' out' s'. incoming_routes l ins out s = ret (ok, ins', out', s') \<and> rings_safe n s'
       \<and> list_all2 same_config ins ins' \<and> (\<forall>r \<in> set ins'. route_ready r)"
proof (induction ins arbitrary: out s)
  case (Cons r ins)
  have q: "ring_of (in_ring r) s = Ok (rings s ! in_ring r)" "ring_inv (rings s ! in_ring r)" "route_ready r"
    using rings_safe_at [OF Cons.prems(1)] Cons.prems(2) by simp_all
  obtain ok out1 r1 q1 m1 where f: "incoming_frames [0..<l] out (r, rings s ! in_ring r, router_metrics s) = ret (ok, out1, (r1, q1, m1))"
    "route_ready r1" "same_config r r1" "ring_inv q1" "audio_grid k c out1"
    using incoming_frames_return [OF q(3,2) Cons.prems(3)] by blast
  have s: "rings_safe n ((set_ring (in_ring r) q1 s)\<lparr>router_metrics := m1\<rparr>)"
    using rings_safe_set [OF Cons.prems(1) f(4)] by simp
  show ?case
  proof (cases ok)
    case False
    have "list_all2 same_config (r # ins) (r1 # ins)" using f(3) by (simp add: list_all2_refl)
    then show ?thesis using False q(1) f(1,2) s Cons.prems(2) by (simp add: Let_def)
  next
    case True
    then show ?thesis using Cons.IH [OF s _ f(5)] Cons.prems(2) q(1) f(1-3) by (fastforce simp: Let_def)
  qed
qed simp

lemma capture_returns:
  assumes "rings_safe n s" "\<forall>w \<in> set outs. out_ring w < n" "valid_list inp"
  shows "\<exists>ok s'. router_capture outs inp s = Ok (ok, s') \<and> rings_safe n s'"
proof (cases inp)
  case (Some bs)
  then have wf: "list_all buffer_wf bs" using assms(3) by (simp add: valid_list_def)
  show ?thesis
  proof (cases "audio_buffer_list_frames bs")
    case (Some k)
    have h: "holds_frames k bs" by (rule audio_buffer_list_frames_holds [OF Some wf])
    show ?thesis using outgoing_frames_return [OF assms(1) h assms(2)] assms(1) Some \<open>inp = Some bs\<close>
      by (simp add: router_capture_def)
  qed (use assms(1) Some in \<open>simp add: router_capture_def\<close>)
qed (use assms(1) in \<open>simp add: router_capture_def\<close>)

lemma playback_returns:
  assumes "rings_safe n s" "\<forall>r \<in> set ins. in_ring r < n \<and> route_ready r" "valid_list outp"
  shows "\<exists>ins' outp' s'. router_playback ins outp s = ret (ins', outp', s') \<and> rings_safe n s'
    \<and> list_all2 same_config ins ins' \<and> (\<forall>r \<in> set ins'. route_ready r)"
proof -
  have same: "list_all2 same_config ins ins" by (simp add: list_all2_refl)
  show ?thesis
  proof (cases outp)
    case (Some bs)
    then have wf: "list_all buffer_wf bs" using assms(3) by (simp add: valid_list_def)
    show ?thesis
    proof (cases "audio_buffer_list_frames bs")
      case (Some k)
      have h: "holds_frames k bs" by (rule audio_buffer_list_frames_holds [OF Some wf])
      have g: "audio_grid k (total_channels bs) (map cleared bs)" using cleared_holds [OF h] by (simp add: audio_grid_def)
      obtain ok ins' out' s' where "incoming_routes k ins (map cleared bs) s = ret (ok, ins', out', s')"
        "rings_safe n s'" "list_all2 same_config ins ins'" "\<forall>r \<in> set ins'. route_ready r"
        using incoming_routes_return [OF assms(1,2) g] by blast
      then show ?thesis using clear_ok [OF wf] assms(1,2) same Some \<open>outp = Some bs\<close>
        by (simp add: router_playback_def)
    qed (use assms(1,2) same Some in \<open>simp add: router_playback_def\<close>)
  qed (use assms(1,2) same in \<open>simp add: router_playback_def\<close>)
qed

lemma io_proc_returns:
  assumes "rings_safe n s" "context_safe n x" "valid_list inp" "valid_list outp"
  shows "\<exists>ins' s' outp'. audio_device_io_proc (Some x) s inp outp = ret (0, Some (x\<lparr>incoming := ins'\<rparr>), s', outp')
    \<and> rings_safe n s' \<and> context_safe n (x\<lparr>incoming := ins'\<rparr>) \<and> list_all2 same_config (incoming x) ins'"
proof -
  have c: "\<forall>w \<in> set (outgoing x). out_ring w < n" "\<forall>r \<in> set (incoming x). in_ring r < n \<and> route_ready r"
    using assms(2) by (auto simp: context_safe_def)
  obtain ok s1 where cap: "router_capture (outgoing x) inp s = Ok (ok, s1)" "rings_safe n s1"
    using capture_returns [OF assms(1) c(1) assms(3)] by blast
  show ?thesis
  proof (cases ok)
    case False
    have "x\<lparr>incoming := incoming x\<rparr> = x" by simp
    then show ?thesis using cap False assms(2)
      by (intro exI [of _ "incoming x"] exI [of _ s1] exI [of _ outp]) (simp add: audio_device_io_proc_def list_all2_refl)
  next
    case True
    obtain ins' outp' s' where p: "router_playback (incoming x) outp s1 = ret (ins', outp', s')" "rings_safe n s'"
      "list_all2 same_config (incoming x) ins'" "\<forall>r \<in> set ins'. route_ready r"
      using playback_returns [OF cap(2) c(2) assms(4)] by blast
    have "\<forall>r \<in> set ins'. in_ring r < n"
      using p(3) c(2) by (induction rule: list_all2_induct) (auto simp: same_config_def)
    then have "context_safe n (x\<lparr>incoming := ins'\<rparr>)" using p(4) c(1) by (simp add: context_safe_def)
    then show ?thesis using cap True p
      by (intro exI [of _ ins'] exI [of _ s'] exI [of _ outp']) (simp add: audio_device_io_proc_def)
  qed
qed

section \<open>The router on any lists\<close>

definition router_callback ::
    "nat \<Rightarrow> AudioBufferList option \<Rightarrow> AudioBufferList option \<Rightarrow> AudioRouter \<Rightarrow>
     (AudioBufferList option \<times> AudioRouter, PcmStreamError) comp" where
  "router_callback k inp outp router =
     and_run (audio_device_io_proc (Some (contexts router ! k)) (store router) inp outp) (\<lambda>(st, client, s, outp1).
     ret (outp1, router\<lparr>contexts := (case client of None \<Rightarrow> contexts router | Some x \<Rightarrow> (contexts router)[k := x]),
       store := s\<rparr>))"

text \<open>The router of the routes \<open>rs\<close>, whatever its rings hold.\<close>

definition router_safe :: "AudioRoute list \<Rightarrow> AudioRouter \<Rightarrow> bool" where
  "router_safe rs router \<longleftrightarrow> distinct (map ctx_device (contexts router)) \<and> rings_safe (length rs) (store router)
     \<and> (\<forall>x \<in> set (contexts router). ctx_running x \<and> context_safe (length rs) x
          \<and> outgoing x = outs_of (ctx_device x) (numbered 0 rs)
          \<and> list_all2 same_config (ins_of (ctx_device x) (numbered 0 rs)) (incoming x))
     \<and> ctx_device ` set (contexts router) = (\<Union>r \<in> set rs. {source_device_id r, sink_device_id r})"

lemma router_callback_returns:
  assumes "router_safe rs router" "k < length (contexts router)" "valid_list inp" "valid_list outp"
  obtains outp' ins' s' router' where "router_callback k inp outp router = ret (outp', router')" "router_safe rs router'"
    "router' = \<lparr>contexts = (contexts router)[k := (contexts router ! k)\<lparr>incoming := ins'\<rparr>], store = s'\<rparr>"
proof -
  define x where "x = contexts router ! k"
  have x: "x \<in> set (contexts router)" using assms(2) by (simp add: x_def)
  then have s: "rings_safe (length rs) (store router)" "context_safe (length rs) x"
    and cfg: "ctx_running x" "outgoing x = outs_of (ctx_device x) (numbered 0 rs)"
      "list_all2 same_config (ins_of (ctx_device x) (numbered 0 rs)) (incoming x)"
    using assms(1) by (simp_all add: router_safe_def)
  obtain ins' s' outp' where p: "audio_device_io_proc (Some x) (store router) inp outp = ret (0, Some (x\<lparr>incoming := ins'\<rparr>), s', outp')"
    "rings_safe (length rs) s'" "context_safe (length rs) (x\<lparr>incoming := ins'\<rparr>)" "list_all2 same_config (incoming x) ins'"
    using io_proc_returns [OF s assms(3,4)] by blast
  let ?x = "x\<lparr>incoming := ins'\<rparr>" let ?xs = "(contexts router)[k := ?x]"
  have dev: "map ctx_device ?xs = map ctx_device (contexts router)"
    by (simp add: map_update x_def assms(2) list_update_same_conv)
  have devs: "distinct (map ctx_device ?xs)" "ctx_device ` set ?xs = (\<Union>r \<in> set rs. {source_device_id r, sink_device_id r})"
    using assms(1) unfolding router_safe_def image_set dev by blast+
  have same: "list_all2 same_config (ins_of (ctx_device x) (numbered 0 rs)) ins'"
    by (rule list_all2_trans [OF _ cfg(3) p(4)]) (rule same_config_trans)
  have "ctx_running y \<and> context_safe (length rs) y \<and> outgoing y = outs_of (ctx_device y) (numbered 0 rs)
      \<and> list_all2 same_config (ins_of (ctx_device y) (numbered 0 rs)) (incoming y)" if y: "y \<in> set ?xs" for y
  proof (cases "y = ?x")
    case True
    then show ?thesis using p(3) cfg same by simp
  next
    case False
    then have "y \<in> set (contexts router)" using y set_update_subset_insert [of "contexts router" k ?x] by blast
    then show ?thesis using assms(1) by (simp add: router_safe_def)
  qed
  then have "router_safe rs \<lparr>contexts = ?xs, store = s'\<rparr>" using devs p(2) by (simp add: router_safe_def)
  moreover have "router_callback k inp outp router = ret (outp', \<lparr>contexts = ?xs, store = s'\<rparr>)"
    using p(1) by (simp add: router_callback_def x_def)
  ultimately show thesis using that unfolding x_def by blast
qed

text \<open>Any calls of the devices, in any order and on any valid lists.\<close>

inductive router_calls :: "AudioRouter \<Rightarrow> AudioRouter \<Rightarrow> bool" for r0 where
  started: "router_calls r0 r0"
| called: "router_calls r0 r \<Longrightarrow> k < length (contexts r) \<Longrightarrow> valid_list inp \<Longrightarrow> valid_list outp \<Longrightarrow>
    router_callback k inp outp r = ret (outp', r') \<Longrightarrow> router_calls r0 r'"

lemma router_calls_safe: "router_calls r0 r \<Longrightarrow> router_safe rs r0 \<Longrightarrow> router_safe rs r"
proof (induction rule: router_calls.induct)
  case (called r k inp outp outp' r')
  then have "router_safe rs r" by simp
  then obtain outp1 ins1 s1 r1 where "router_callback k inp outp r = ret (outp1, r1)" "router_safe rs r1"
    by (rule router_callback_returns [OF _ called(2-4)])
  then show ?case using called(5) by simp
qed simp

end
