(* ===== verification/RouterCycles.thy ===== *)
theory RouterCycles
  imports RouterSafety AudioOrder
begin

text \<open>
  A running router: Core Audio calls back its devices in any order, each call on one context and
  on the rings the contexts share. The relation \<open>router_runs\<close> is the calls so far on lists with the
  channels of the routes, with what every route took in and put out; its invariant says that every route
  carries its audio from one device to the other in order. (Other lists are the subject of \<open>RouterSafety\<close>.) A call is one step; \<open>RingConcurrency\<close> is the theory
  of the two ends of a ring running at the same time.
\<close>

section \<open>One call\<close>

text \<open>What Core Audio owes a context: valid lists with the channels of its routes.\<close>

definition fits :: "usize list \<Rightarrow> AudioBufferList option \<Rightarrow> bool" where
  "fits cs list \<longleftrightarrow> (\<forall>bs. list = Some bs \<longrightarrow> list_all buffer_wf bs \<and> audio_buffer_list_frames bs \<noteq> None
     \<and> list_all (\<lambda>c. c \<le> total_channels bs) cs)"

definition lists_fit :: "DeviceIoContext \<Rightarrow> AudioBufferList option \<Rightarrow> AudioBufferList option \<Rightarrow> bool" where
  "lists_fit x inp outp \<longleftrightarrow> fits (map out_channels (outgoing x)) inp \<and> fits (map in_sink_channels (incoming x)) outp"

definition frames_of :: "AudioBufferList option \<Rightarrow> nat" where
  "frames_of list = (case list of None \<Rightarrow> 0 | Some bs \<Rightarrow> (case audio_buffer_list_frames bs of None \<Rightarrow> 0 | Some n \<Rightarrow> n))"

definition buffers_of :: "AudioBufferList option \<Rightarrow> AudioBufferList" where
  "buffers_of list = (case list of None \<Rightarrow> [] | Some bs \<Rightarrow> bs)"

text \<open>The frames that the call takes into the ring \<open>i\<close>, and those that it puts out from it.\<close>

definition taken_in :: "DeviceIoContext \<Rightarrow> AudioBufferList option \<Rightarrow> router_store \<Rightarrow> nat \<Rightarrow> f32 list list" where
  "taken_in x inp s i = concat (map (\<lambda>w. if out_ring w = i
     then map (route_frame w (buffers_of inp)) (take (room w s) [0..<frames_of inp]) else []) (outgoing x))"

definition given_out :: "DeviceIoContext \<Rightarrow> AudioBufferList option \<Rightarrow> router_store \<Rightarrow> nat \<Rightarrow> f32 list list" where
  "given_out x outp s i = concat (map (\<lambda>r. if in_ring r = i
     then concat (map (case_option [] (\<lambda>f. [f])) (fst (route_outs (frames_of outp) s r))) else []) (incoming x))"

definition output_mixed ::
    "DeviceIoContext \<Rightarrow> AudioBufferList option \<Rightarrow> router_store \<Rightarrow> AudioBufferList option \<Rightarrow> bool" where
  "output_mixed x outp s1 outp' \<longleftrightarrow> (if outp = None \<or> incoming x = [] then outp' = outp
     else \<exists>ob'. outp' = Some ob' \<and> (\<forall>f < frames_of outp. \<forall>ch < total_channels (buffers_of outp).
       sample_at ob' f ch = mixed_output (frames_of outp) s1 (incoming x) f ch (fzero F32)))"

lemma router_call:
  assumes inv: "context_inv x s" and fit: "lists_fit x inp outp"
    and agree: "\<And>w r. w \<in> set (outgoing x) \<Longrightarrow> r \<in> set (incoming x) \<Longrightarrow> out_ring w = in_ring r \<Longrightarrow>
       out_channels w = in_channels r"
  shows "\<exists>ins' s1 s' outp'. audio_device_io_proc (Some x) s inp outp
      = ret (0, Some (x\<lparr>incoming := ins'\<rparr>), s', outp')
    \<and> router_capture (outgoing x) inp s = Ok (True, s1)
    \<and> captured (buffers_of inp) [0..<frames_of inp] (outgoing x) s s1
    \<and> played (frames_of outp) (incoming x) s1 ins' s'
    \<and> output_mixed x outp s1 outp'"
proof -
  have i: "outgoing_inv (outgoing x) s" "incoming_inv (incoming x) s" using inv by (simp_all add: context_inv_def)
  obtain s1 where c: "router_capture (outgoing x) inp s = Ok (True, s1)"
    "captured (buffers_of inp) [0..<frames_of inp] (outgoing x) s s1"
  proof (cases inp)
    case None
    then show ?thesis using i(1)
      by (intro that [of s]) (auto simp: router_capture_def captured_def frames_of_def outgoing_inv_def)
  next
    case (Some bs)
    then obtain n where "list_all buffer_wf bs" "audio_buffer_list_frames bs = Some n"
      "\<And>w. w \<in> set (outgoing x) \<Longrightarrow> out_channels w \<le> total_channels bs"
      using fit by (auto simp: lists_fit_def fits_def list_all_iff)
    then show ?thesis
      using router_capture_ok [OF i(1) Some] that Some by (fastforce simp: buffers_of_def frames_of_def)
  qed
  have i1: "incoming_inv (incoming x) s1" using captured_keeps_incoming [OF c(2) i(2,1)] agree by blast
  obtain ins' s' outp' where p: "router_playback (incoming x) outp s1 = ret (ins', outp', s')"
    "played (frames_of outp) (incoming x) s1 ins' s'"
    "output_mixed x outp s1 outp'"
  proof (cases "outp = None \<or> incoming x = []")
    case True
    have "list_all2 (\<lambda>r r'. same_config r r' \<and> route_inv r' (rings s1 ! in_ring r)
        \<and> capacity (rings s1 ! in_ring r) = capacity (rings s1 ! in_ring r)
        \<and> head_of r' (rings s1 ! in_ring r) = snd (snd (route_outs (frames_of outp) s1 r))) (incoming x) (incoming x)"
      if "outp = None"
      using i1 that by (intro list_all2_all_nthI) (auto simp: incoming_inv_def route_outs_def frames_of_def)
    moreover have m: "(router_metrics s1)\<lparr>underruns := underruns (router_metrics s1)
        + of_nat (\<Sum>r\<leftarrow>incoming x. fst (snd (route_outs (frames_of outp) s1 r)))\<rparr> = router_metrics s1"
    proof -
      have "(\<Sum>r\<leftarrow>incoming x. fst (snd (route_outs (frames_of outp) s1 r))) = 0"
        using True by (auto simp: route_outs_def frames_of_def)
      then show ?thesis by (simp only: of_nat_0) simp
    qed
    ultimately have "played (frames_of outp) (incoming x) s1 (incoming x) s1"
      using True unfolding played_def m by auto
    moreover have "router_playback (incoming x) outp s1 = ret (incoming x, outp, s1)"
      using True by (auto simp: router_playback_def split: option.split)
    ultimately show ?thesis using True that by (auto simp: output_mixed_def)
  next
    case False
    then obtain bs where bs: "outp = Some bs" by auto
    then obtain n where n: "list_all buffer_wf bs" "audio_buffer_list_frames bs = Some n"
      "\<And>r. r \<in> set (incoming x) \<Longrightarrow> in_sink_channels r \<le> total_channels bs"
      using fit by (auto simp: lists_fit_def fits_def list_all_iff)
    have f: "frames_of outp = n" "buffers_of outp = bs" using bs n(2) by (simp_all add: frames_of_def buffers_of_def)
    show ?thesis using router_playback_ok [OF i1 bs n] False that unfolding f output_mixed_def by metis
  qed
  have "audio_device_io_proc (Some x) s inp outp = ret (0, Some (x\<lparr>incoming := ins'\<rparr>), s', outp')"
    using c(1) p(1) by (simp add: audio_device_io_proc_def)
  then show ?thesis using c p(2,3) by blast
qed

section \<open>A route over time\<close>

text \<open>
  \<open>fed\<close> is what went in since the start, \<open>out\<close> what came out, \<open>h\<close> the head and the frames still to
  come: these are the end of \<open>fed\<close>, and \<open>out\<close> are mixes of neighbouring frames of \<open>fed\<close> at positions
  that never go back.
\<close>

abbreviation carries :: "f32 list list \<Rightarrow> f32 list list \<Rightarrow> route_head \<Rightarrow> bool" where
  "carries fed out h \<equiv> in_transit fed out (rh_frames h)"

lemma carries_start: "rh_frames h = [] \<Longrightarrow> carries [] [] h"
  by (simp add: transit_start)

lemma carries_feed: "carries fed out h \<Longrightarrow> rh_frames h' = rh_frames h @ fs \<Longrightarrow> carries (fed @ fs) out h'"
  by (simp add: transit_feed)

lemma route_skip_drop: "\<exists>m \<le> length fs. snd (route_skip p fs) = drop m fs"
proof (induction p fs rule: route_skip.induct)
  case (1 p x y z fs)
  show ?case
  proof (cases "fle (fone F64) p")
    case True
    then obtain m where "m \<le> length (y # z # fs)" "snd (route_skip p (x # y # z # fs)) = drop m (y # z # fs)"
      using 1 by auto
    then show ?thesis by (intro exI [of _ "Suc m"]) simp
  qed (auto intro: exI [of _ 0])
qed (auto intro: exI [of _ 0] exI [of _ 2])

lemma route_step_frames:
  assumes "route_step step h = (out, h')"
  shows "frames_step out (rh_frames h) (rh_frames h')"
proof (cases "\<not> rh_primed h \<and> length (rh_frames h) < startup_frames \<or> length (rh_frames h) < 2")
  case True
  then have "out = None \<and> h' = h"
    using assms by (cases "rh_frames h"; cases "tl (rh_frames h)") (auto simp: route_step_def split: if_splits)
  then show ?thesis by (auto simp: frames_step_def intro: exI [of _ 0])
next
  case False
  then obtain x y fs where fr: "rh_frames h = x # y # fs"
    by (cases "rh_frames h"; cases "tl (rh_frames h)") auto
  define p where "p = (if rh_primed h then rh_phase h else fzero F64)"
  define z where "z = fadd F64 p (fmul F64 step (fadd F64 (fone F64) (route_drift (length fs))))"
  have "out = Some (mix p x y)" "rh_frames h' = snd (route_skip z (x # y # fs))"
    using assms False fr by (auto simp: route_step_def p_def z_def Let_def split: prod.splits)
  then show ?thesis using route_skip_drop [of "x # y # fs" z] fr by (auto simp: frames_step_def)
qed

lemma carries_step:
  "carries fed out h \<Longrightarrow> route_step step h = (o', h') \<Longrightarrow> carries fed (out @ case_option [] (\<lambda>f. [f]) o') h'"
  by (rule transit_step [OF _ route_step_frames])

lemma carries_run:
  "carries fed out h \<Longrightarrow> route_run n step h = (outs, dry, h') \<Longrightarrow>
     carries fed (out @ concat (map (case_option [] (\<lambda>f. [f])) outs)) h'"
proof (induction n arbitrary: out h outs dry)
  case (Suc n)
  obtain o1 h1 outs1 dry1 where o: "route_step step h = (o1, h1)" "route_run n step h1 = (outs1, dry1, h')"
    "outs = o1 # outs1" using Suc.prems(2) by (auto split: prod.splits)
  show ?case using Suc.IH [OF carries_step [OF Suc.prems(1) o(1)] o(2)] o(3) by simp
qed simp

section \<open>The invariant of a running router\<close>

definition ring_width :: "AudioRoute list \<Rightarrow> nat \<Rightarrow> usize" where
  "ring_width rs i = unat (source_channels (rs ! i))"

text \<open>\<open>rs\<close> are the routes the router was started with.\<close>

definition router_inv :: "AudioRoute list \<Rightarrow> AudioRouter \<Rightarrow> bool" where
  "router_inv rs router \<longleftrightarrow> distinct (map ctx_device (contexts router))
     \<and> length (rings (store router)) = length rs
     \<and> (\<forall>i < length rs. ring_framed (ring_width rs i) (rings (store router) ! i))
     \<and> (\<forall>x \<in> set (contexts router). ctx_running x \<and> context_inv x (store router)
          \<and> outgoing x = outs_of (ctx_device x) (numbered 0 rs)
          \<and> list_all2 same_config (ins_of (ctx_device x) (numbered 0 rs)) (incoming x))
     \<and> ctx_device ` set (contexts router) = (\<Union>r \<in> set rs. {source_device_id r, sink_device_id r})"

lemma inv_outgoing:
  assumes "outgoing x = outs_of (ctx_device x) (numbered 0 rs)" "w \<in> set (outgoing x)"
  shows "out_ring w < length rs" "out_channels w = ring_width rs (out_ring w)"
    "source_device_id (rs ! out_ring w) = ctx_device x"
  using assms by (auto simp: in_outs_of set_numbered ring_width_def)

lemma inv_incoming:
  assumes "list_all2 same_config (ins_of (ctx_device x) (numbered 0 rs)) (incoming x)" "r \<in> set (incoming x)"
  shows "in_ring r < length rs" "in_channels r = ring_width rs (in_ring r)"
    "sink_device_id (rs ! in_ring r) = ctx_device x"
proof -
  obtain r0 where "r0 \<in> set (ins_of (ctx_device x) (numbered 0 rs))" "same_config r0 r"
    using assms by (metis in_set_conv_nth list_all2_conv_all_nth)
  then show "in_ring r < length rs" "in_channels r = ring_width rs (in_ring r)"
    "sink_device_id (rs ! in_ring r) = ctx_device x"
    by (auto simp: in_ins_of set_numbered ring_width_def same_config_def)
qed

lemma router_inv_agree:
  assumes "router_inv rs router" "x \<in> set (contexts router)" "w \<in> set (outgoing x)" "r \<in> set (incoming x)"
    "out_ring w = in_ring r"
  shows "out_channels w = in_channels r"
  using assms inv_outgoing(2) [of x rs w] inv_incoming(2) [of x rs r] by (simp add: router_inv_def)

lemma captured_framed:
  assumes "captured bs fs outs s s1" "\<And>w. w \<in> set outs \<Longrightarrow> out_channels w = W (out_ring w)"
    "ring_framed (W i) (rings s ! i)"
  shows "ring_framed (W i) (rings s1 ! i)"
  using assms by (cases "i \<in> out_ring ` set outs") (auto simp: captured_def)

lemma played_each:
  assumes "played n ins s ins' s1" "r \<in> set ins"
  shows "\<exists>r' \<in> set ins'. same_config r r' \<and> route_inv r' (rings s1 ! in_ring r)
    \<and> head_of r' (rings s1 ! in_ring r) = snd (snd (route_outs n s r))"
proof -
  have "list_all2 (\<lambda>r r'. same_config r r' \<and> route_inv r' (rings s1 ! in_ring r)
      \<and> head_of r' (rings s1 ! in_ring r) = snd (snd (route_outs n s r))) ins ins'"
    using assms(1) by (auto simp: played_def elim: list.rel_mono_strong)
  then show ?thesis using assms(2) by (induction rule: list_all2_induct) auto
qed

lemma played_framed:
  assumes "played n ins s ins' s1" "\<And>r. r \<in> set ins \<Longrightarrow> in_channels r = W (in_ring r)"
    "ring_framed (W i) (rings s ! i)"
  shows "ring_framed (W i) (rings s1 ! i)"
proof (cases "i \<in> in_ring ` set ins")
  case True
  then obtain r where r: "r \<in> set ins" "in_ring r = i" by auto
  then obtain r' where "same_config r r'" "route_inv r' (rings s1 ! in_ring r)"
    using played_each [OF assms(1) r(1)] by blast
  then have "ring_framed (in_channels r) (rings s1 ! in_ring r)" unfolding route_inv_def same_config_def by metis
  then show ?thesis using assms(2) [OF r(1)] r(2) by simp
next
  case False
  then have "rings s1 ! i = rings s ! i" using assms(1) unfolding played_def by blast
  then show ?thesis using assms(3) by simp
qed

lemma played_config: "played n ins s ins' s1 \<Longrightarrow> list_all2 same_config ins ins'"
  by (auto simp: played_def elim: list.rel_mono_strong)

lemma router_inv_call:
  assumes inv: "router_inv rs router" and k: "k < length (contexts router)"
    and x: "x = contexts router ! k"
    and c: "captured bs fs (outgoing x) (store router) s1" and p: "played n (incoming x) s1 ins' s'"
    and ctx: "context_inv (x\<lparr>incoming := ins'\<rparr>) s'"
  shows "router_inv rs \<lparr>contexts = (contexts router)[k := x\<lparr>incoming := ins'\<rparr>], store = s'\<rparr>"
proof -
  let ?x = "x\<lparr>incoming := ins'\<rparr>" let ?xs = "(contexts router)[k := ?x]"
  have mem: "x \<in> set (contexts router)" using k x by simp
  have st: "outgoing y = outs_of (ctx_device y) (numbered 0 rs)"
    "list_all2 same_config (ins_of (ctx_device y) (numbered 0 rs)) (incoming y)"
    "ctx_running y" "context_inv y (store router)" if "y \<in> set (contexts router)" for y
    using inv that unfolding router_inv_def by blast+
  have dev: "map ctx_device ?xs = map ctx_device (contexts router)"
    by (simp add: map_update x k list_update_same_conv)
  have devs: "distinct (map ctx_device ?xs)" "ctx_device ` set ?xs = (\<Union>r \<in> set rs. {source_device_id r, sink_device_id r})"
    using inv unfolding router_inv_def image_set dev by blast+
  have fr: "ring_framed (ring_width rs i) (rings s' ! i)" if "i < length rs" for i
  proof -
    have f0: "ring_framed (ring_width rs i) (rings (store router) ! i)"
      using inv that unfolding router_inv_def by blast
    have "ring_framed (ring_width rs i) (rings s1 ! i)"
      by (rule captured_framed [where W = "ring_width rs" and i = i, OF c _ f0]) (rule inv_outgoing(2) [OF st(1) [OF mem]])
    then show ?thesis
      by (rule played_framed [where W = "ring_width rs" and i = i, OF p, rotated]) (rule inv_incoming(2) [OF st(2) [OF mem]])
  qed
  have len: "length (rings s') = length rs" using inv c p by (simp add: router_inv_def captured_def played_def)
  have "ctx_running y \<and> context_inv y s' \<and> outgoing y = outs_of (ctx_device y) (numbered 0 rs)
      \<and> list_all2 same_config (ins_of (ctx_device y) (numbered 0 rs)) (incoming y)" if y: "y \<in> set ?xs" for y
  proof (cases "y = ?x")
    case True
    have "list_all2 same_config (ins_of (ctx_device x) (numbered 0 rs)) ins'"
      by (rule list_all2_trans [OF _ st(2) [OF mem] played_config [OF p]]) (rule same_config_trans)
    then show ?thesis using True ctx st [OF mem] by simp
  next
    case False
    then have m: "y \<in> set (contexts router)" using y set_update_subset_insert [of "contexts router" k ?x] by blast
    note o = inv_outgoing [OF st(1) [OF m]] and i = inv_incoming [OF st(2) [OF m]]
    have "outgoing_inv (outgoing y) s'"
      using st(4) [OF m] o fr len unfolding context_inv_def outgoing_inv_def by metis
    moreover have "route_inv r (rings s' ! in_ring r)" if r: "r \<in> set (incoming y)" for r
    proof -
      have "ring_framed (in_channels r) (rings s' ! in_ring r)" using fr [OF i(1) [OF r]] unfolding i(2) [OF r] .
      then show ?thesis
        using st(4) [OF m] r unfolding context_inv_def incoming_inv_def route_inv_def by blast
    qed
    then have "incoming_inv (incoming y) s'"
      using st(4) [OF m] i(1) len unfolding context_inv_def incoming_inv_def by metis
    ultimately show ?thesis using st [OF m] unfolding context_inv_def by blast
  qed
  then show ?thesis
    using fr len devs by (simp add: router_inv_def)
qed

lemma router_callback_ok:
  assumes inv: "router_inv rs router" and k: "k < length (contexts router)"
    and fit: "lists_fit (contexts router ! k) inp outp"
  shows "\<exists>ins' s1 s' outp' router'. let x = contexts router ! k in
     router_callback k inp outp router = ret (outp', router')
     \<and> router' = \<lparr>contexts = (contexts router)[k := x\<lparr>incoming := ins'\<rparr>], store = s'\<rparr>
     \<and> router_inv rs router'
     \<and> router_capture (outgoing x) inp (store router) = Ok (True, s1)
     \<and> captured (buffers_of inp) [0..<frames_of inp] (outgoing x) (store router) s1
     \<and> played (frames_of outp) (incoming x) s1 ins' s' \<and> incoming_inv (incoming x) s1
     \<and> output_mixed x outp s1 outp'"
proof -
  define x where "x = contexts router ! k"
  have mem: "x \<in> set (contexts router)" using k by (simp add: x_def)
  have ctx: "context_inv x (store router)" using inv mem by (simp add: router_inv_def)
  have agree: "out_channels w = in_channels r"
    if "w \<in> set (outgoing x)" "r \<in> set (incoming x)" "out_ring w = in_ring r" for w r
    using router_inv_agree [OF inv mem] that by blast
  obtain ins' s1 s' outp' where a:
    "audio_device_io_proc (Some x) (store router) inp outp = ret (0, Some (x\<lparr>incoming := ins'\<rparr>), s', outp')"
    "captured (buffers_of inp) [0..<frames_of inp] (outgoing x) (store router) s1"
    "played (frames_of outp) (incoming x) s1 ins' s'" "output_mixed x outp s1 outp'"
    "router_capture (outgoing x) inp (store router) = Ok (True, s1)"
    using router_call [OF ctx fit [folded x_def] agree] by blast
  have i1: "incoming_inv (incoming x) s1"
    using captured_keeps_incoming [OF a(2)] ctx agree by (simp add: context_inv_def)
  have "outgoing_inv (outgoing x) s1" using ctx a(2) by (auto simp: context_inv_def outgoing_inv_def captured_def)
  from played_keeps_context [OF a(3) i1 this] agree
  have "context_inv (x\<lparr>incoming := ins'\<rparr>) s'" by (simp add: context_inv_def)
  note router_inv_call [OF inv k x_def a(2,3) this]
  moreover have "router_callback k inp outp router
      = ret (outp', \<lparr>contexts = (contexts router)[k := x\<lparr>incoming := ins'\<rparr>], store = s'\<rparr>)"
    using a(1) by (simp add: router_callback_def x_def)
  ultimately show ?thesis using a(2-5) i1 unfolding x_def [symmetric] Let_def by blast
qed

lemma started_inv:
  assumes "router_start h rs s = (Ok router, s')" "resources_of s = Some m"
  shows "router_inv rs router"
proof -
  obtain ds where v: "validate_each (devices_by_id ds) rs = Ok ()" using validated_at_start [OF assms(1)] by blast
  note ctx = started_context [OF assms v]
  obtain b qs where b: "build_routes rs (bt_empty, []) = Ok (b, qs)" "list_all2 same_routes (build_contexts b) (contexts router)"
    "store router = \<lparr>rings = qs, router_metrics = router_metrics_new\<rparr>" and run: "list_all ctx_running (contexts router)"
    using router_start_owns [OF assms] by auto
  have e: "bt_sorted b" "list_all2 (\<lambda>r q. route_ring r = Ok q) rs qs"
    using build_routes_entries [OF b(1)] by (auto simp: bt_sorted_def bt_empty_def)
  have dev: "map ctx_device (contexts router) = map fst b"
  proof -
    have "map ctx_device (contexts router) = map ctx_device (build_contexts b)"
      using b(2) by (induction rule: list_all2_induct) (auto simp: same_routes_def)
    then show ?thesis by (simp add: build_contexts_def comp_def case_prod_beta)
  qed
  have "distinct (map ctx_device (contexts router))"
    unfolding dev using e(1) by (simp add: bt_sorted_def strict_sorted_iff)
  moreover have "ring_framed (ring_width rs i) (rings (store router) ! i)" if "i < length rs" for i
  proof -
    have "route_ring (rs ! i) = Ok (qs ! i)" using e(2) that by (auto simp: list_all2_conv_all_nth)
    from incoming_new_inv(2) [OF validate_each_Ok [OF v] this] that show ?thesis
      by (simp add: b(3) ring_width_def)
  qed
  moreover have "ctx_running x \<and> context_inv x (store router) \<and> outgoing x = outs_of (ctx_device x) (numbered 0 rs)
      \<and> list_all2 same_config (ins_of (ctx_device x) (numbered 0 rs)) (incoming x)" if "x \<in> set (contexts router)" for x
    using ctx [OF that] run that by (simp add: list_all_iff list_all2_refl)
  moreover have "ctx_device ` set (contexts router) = (\<Union>r \<in> set rs. {source_device_id r, sink_device_id r})"
  proof (intro set_eqI)
    fix d
    have "d \<in> ctx_device ` set (contexts router) \<longleftrightarrow> d \<in> fst ` set b" using dev by (metis set_map)
    also have "\<dots> \<longleftrightarrow> (\<exists>x \<in> set (build_contexts b). ctx_device x = d)" by (force simp: build_contexts_def)
    also have "\<dots> \<longleftrightarrow> d \<in> (\<Union>r \<in> set rs. {source_device_id r, sink_device_id r})"
      unfolding built_devices [OF b(1)] by blast
    finally show "d \<in> ctx_device ` set (contexts router) \<longleftrightarrow> d \<in> (\<Union>r \<in> set rs. {source_device_id r, sink_device_id r})" .
  qed
  moreover have "length (rings (store router)) = length rs" using list_all2_lengthD [OF e(2)] by (simp add: b(3))
  ultimately show ?thesis unfolding router_inv_def by blast
qed

text \<open>Without the whole frames this is the invariant of any calls.\<close>

lemma router_inv_safe:
  assumes "router_inv rs router"
  shows "router_safe rs router"
proof -
  have "ring_inv q" if "q \<in> set (rings (store router))" for q
    using assms that unfolding router_inv_def ring_framed_def in_set_conv_nth by metis
  moreover have "context_safe (length rs) x" if "x \<in> set (contexts router)" for x
    using assms that unfolding router_inv_def context_inv_def outgoing_inv_def incoming_inv_def context_safe_def
      route_inv_ready by metis
  ultimately show ?thesis using assms by (simp add: router_inv_def router_safe_def rings_safe_def)
qed

lemma lists_fit_valid: "lists_fit x inp outp \<Longrightarrow> valid_list inp \<and> valid_list outp"
  by (auto simp: lists_fit_def fits_def valid_list_def)

lemma running_returns:
  assumes "router_inv rs r0" "router_calls r0 r" "k < length (contexts r)" "valid_list inp" "valid_list outp"
  shows "\<exists>outp' r'. router_callback k inp outp r = ret (outp', r')"
  using router_callback_returns [OF router_calls_safe [OF assms(2) router_inv_safe [OF assms(1)]] assms(3-5)] by blast

section \<open>All calls so far\<close>

text \<open>
  The calls on lists with the channels of the routes. These are not all calls that can occur: on other lists
  the code stops in the middle of a frame, and the order is lost (\<open>format_change_splits_a_frame\<close>).
\<close>

inductive router_runs ::
    "AudioRouter \<Rightarrow> (nat \<Rightarrow> f32 list list) \<Rightarrow> (nat \<Rightarrow> f32 list list) \<Rightarrow> AudioRouter \<Rightarrow> bool" for r0 where
  start: "router_runs r0 (\<lambda>_. []) (\<lambda>_. []) r0"
| call: "router_runs r0 fed out r \<Longrightarrow> k < length (contexts r) \<Longrightarrow> x = contexts r ! k \<Longrightarrow> lists_fit x inp outp \<Longrightarrow>
    router_capture (outgoing x) inp (store r) = Ok (True, s1) \<Longrightarrow>
    router_callback k inp outp r = ret (outp', r') \<Longrightarrow>
    router_runs r0 (\<lambda>i. fed i @ taken_in x inp (store r) i) (\<lambda>i. out i @ given_out x outp s1 i) r'"

lemma absent_concat: "i \<notin> key ` set xs \<Longrightarrow> concat (map (\<lambda>y. if key y = i then g y else []) xs) = []"
  by auto

lemma unique_concat:
  "distinct (map key xs) \<Longrightarrow> x \<in> set xs \<Longrightarrow> concat (map (\<lambda>y. if key y = key x then g y else []) xs) = g x"
proof (induction xs)
  case (Cons a xs)
  show ?case
  proof (cases "a = x")
    case True
    then show ?thesis using Cons.prems(1) absent_concat [of "key x" key xs g] by simp
  next
    case False
    then have "x \<in> set xs" using Cons.prems(2) by simp
    moreover from this have "key a \<noteq> key x" using Cons.prems(1) by (metis distinct.simps(2) image_eqI list.simps(9) set_map)
    ultimately show ?thesis using Cons by simp
  qed
qed simp

lemma list_all2_source: "list_all2 P xs ys \<Longrightarrow> y \<in> set ys \<Longrightarrow> \<exists>x \<in> set xs. P x y"
  by (induction rule: list_all2_induct) auto

text \<open>What a call takes in is what it adds to the ring.\<close>

lemma taken_in_frames:
  assumes c: "captured (buffers_of inp) [0..<frames_of inp] (outgoing x) s s1"
    and o: "outgoing_inv (outgoing x) s" and W: "\<And>w. w \<in> set (outgoing x) \<Longrightarrow> out_channels w = W (out_ring w)"
    and f: "ring_framed (W i) (rings s ! i)"
  shows "frames_in (W i) (rings s1 ! i) = frames_in (W i) (rings s ! i) @ taken_in x inp s i"
proof (cases "i \<in> out_ring ` set (outgoing x)")
  case True
  then obtain w where w: "w \<in> set (outgoing x)" "out_ring w = i" by auto
  define fs where "fs = map (route_frame w (buffers_of inp)) (take (room w s) [0..<frames_of inp])"
  have t: "taken_in x inp s i = fs"
    using unique_concat [OF _ w(1), of out_ring] o w(2) unfolding taken_in_def fs_def outgoing_inv_def by auto
  have "contents (rings s1 ! i) = contents (rings s ! i) @ concat fs"
    using c w unfolding captured_def fs_def by blast
  moreover have "\<forall>g \<in> set fs. length g = W i" using W [OF w(1)] w(2) by (auto simp: fs_def route_frame_def)
  moreover obtain n where n: "length (contents (rings s ! i)) = n * W i"
    using f unfolding ring_framed_def by (metis dvd_div_mult_self)
  moreover have "chunks_exact (W i) (concat fs) = fs" if "\<forall>g \<in> set fs. length g = W i" for fs :: "f32 list list"
    using that f by (induction fs) (auto simp: chunks_exact_Cons ring_framed_def)
  ultimately show ?thesis
    using chunks_exact_append [OF _ n, of "concat fs"] f unfolding frames_in_def t ring_framed_def by simp
next
  case False
  then have "taken_in x inp s i = []" unfolding taken_in_def by (rule absent_concat)
  moreover have "rings s1 ! i = rings s ! i" using c False unfolding captured_def by blast
  ultimately show ?thesis by simp
qed

text \<open>The readers of the router, and that each carries its route.\<close>

definition routes_carried ::
    "AudioRouter \<Rightarrow> (nat \<Rightarrow> f32 list list) \<Rightarrow> (nat \<Rightarrow> f32 list list) \<Rightarrow> bool" where
  "routes_carried router fed out \<longleftrightarrow> (\<forall>x \<in> set (contexts router). \<forall>r \<in> set (incoming x).
     carries (fed (in_ring r)) (out (in_ring r)) (head_of r (rings (store router) ! in_ring r)))"

lemma head_of_fed:
  "frames_in (in_channels r) q1 = frames_in (in_channels r) q @ fs \<Longrightarrow>
     rh_frames (head_of r q1) = rh_frames (head_of r q) @ fs"
  by (simp add: head_of_def)

lemma carried_call:
  assumes inv: "router_inv rs router" and carried: "routes_carried router fed out"
    and k: "k < length (contexts router)" and x: "x = contexts router ! k"
    and c: "captured (buffers_of inp) [0..<frames_of inp] (outgoing x) (store router) s1"
    and p: "played (frames_of outp) (incoming x) s1 ins' s'" and i1: "incoming_inv (incoming x) s1"
  shows "routes_carried \<lparr>contexts = (contexts router)[k := x\<lparr>incoming := ins'\<rparr>], store = s'\<rparr>
    (\<lambda>i. fed i @ taken_in x inp (store router) i) (\<lambda>i. out i @ given_out x outp s1 i)"
proof -
  have mem: "x \<in> set (contexts router)" using k x by simp
  have st: "outgoing y = outs_of (ctx_device y) (numbered 0 rs)"
    "list_all2 same_config (ins_of (ctx_device y) (numbered 0 rs)) (incoming y)" "context_inv y (store router)"
    if "y \<in> set (contexts router)" for y using inv that unfolding router_inv_def by blast+
  note o = inv_outgoing [OF st(1) [OF mem]]
  have after: "carries (fed (in_ring r) @ taken_in x inp (store router) (in_ring r)) (out (in_ring r))
      (head_of r (rings s1 ! in_ring r))" if "y \<in> set (contexts router)" "r \<in> set (incoming y)" for y r
  proof -
    note i = inv_incoming [OF st(2) [OF that(1)] that(2)]
    have f: "ring_framed (ring_width rs (in_ring r)) (rings (store router) ! in_ring r)"
      using inv i(1) unfolding router_inv_def by blast
    have oi: "outgoing_inv (outgoing x) (store router)" using st(3) [OF mem] by (simp add: context_inv_def)
    from taken_in_frames [where W = "ring_width rs", OF c oi o(2) f] show ?thesis
      using carried that carries_feed head_of_fed unfolding routes_carried_def i(2) [symmetric] by metis
  qed
  show ?thesis unfolding routes_carried_def
  proof (intro ballI, goal_cases)
    case (1 y r)
    show ?case
    proof (cases "y = x\<lparr>incoming := ins'\<rparr>")
      case True
      have "list_all2 (\<lambda>r r'. same_config r r' \<and> head_of r' (rings s' ! in_ring r) = snd (snd (route_outs (frames_of outp) s1 r)))
          (incoming x) ins'" using p by (auto simp: played_def elim: list.rel_mono_strong)
      then obtain r0 where r0: "r0 \<in> set (incoming x)" "same_config r0 r"
        "head_of r (rings s' ! in_ring r0) = snd (snd (route_outs (frames_of outp) s1 r0))"
        using list_all2_source [of _ "incoming x" ins' r] 1(2) True by auto
      have ring: "in_ring r = in_ring r0" using r0(2) by (simp add: same_config_def)
      obtain outs dry h where run: "route_outs (frames_of outp) s1 r0 = (outs, dry, h)" by (metis surj_pair)
      have "given_out x outp s1 (in_ring r0) = concat (map (case_option [] (\<lambda>f. [f])) outs)"
        using unique_concat [where key = in_ring, OF _ r0(1),
            of "\<lambda>r. concat (map (case_option [] (\<lambda>f. [f])) (fst (route_outs (frames_of outp) s1 r)))"] i1
        unfolding given_out_def incoming_inv_def run by (simp only: run fst_conv)
      then show ?thesis
        using carries_run [OF after [OF mem r0(1)]] run r0(3) by (simp add: ring route_outs_def)
    next
      case False
      then obtain l where l: "l < length (contexts router)" "l \<noteq> k" "y = contexts router ! l"
        using 1(1) in_set_conv_nth [of y] by simp (metis nth_list_update_eq nth_list_update_neq)
      then have m: "y \<in> set (contexts router)" by simp
      have "distinct (map ctx_device (contexts router))" using inv unfolding router_inv_def by blast
      then have dev: "ctx_device y \<noteq> ctx_device x"
        using l k x unfolding distinct_conv_nth by (metis length_map nth_map)
      have "in_ring r \<notin> in_ring ` set (incoming x)"
        using inv_incoming(3) [OF st(2) [OF mem]] inv_incoming(3) [OF st(2) [OF m] 1(2)] dev by fastforce
      then have "rings s' ! in_ring r = rings s1 ! in_ring r" "given_out x outp s1 (in_ring r) = []"
        using p by (auto simp: played_def given_out_def absent_concat)
      then show ?thesis using after [OF m 1(2)] by simp
    qed
  qed
qed

lemma started_carries:
  assumes "router_start h rs s = (Ok router, s')" "resources_of s = Some m"
  shows "routes_carried router (\<lambda>_. []) (\<lambda>_. [])"
proof -
  obtain ds where v: "validate_each (devices_by_id ds) rs = Ok ()" using validated_at_start [OF assms(1)] by blast
  obtain b qs where b: "build_routes rs (bt_empty, []) = Ok (b, qs)"
    "store router = \<lparr>rings = qs, router_metrics = router_metrics_new\<rparr>"
    using router_start_owns [OF assms] by auto
  have q: "list_all2 (\<lambda>r q. route_ring r = Ok q) rs qs"
    using build_routes_entries [OF b(1)] by (auto simp: bt_sorted_def bt_empty_def)
  have "rh_frames (head_of r (rings (store router) ! in_ring r)) = []"
    if x: "x \<in> set (contexts router)" and r: "r \<in> set (incoming x)" for x r
  proof -
    obtain i where i: "i < length rs" "r = incoming_new i (rs ! i)"
      using r unfolding started_context(3) [OF assms v x] in_ins_of set_numbered by auto
    then have "route_ring (rs ! i) = Ok (qs ! i)" using q by (simp add: list_all2_conv_all_nth)
    then have "contents (qs ! i) = []" by (rule route_ring_fresh(2))
    moreover have "0 < unat (source_channels (rs ! i))"
      using validate_route_shape(1) [OF validate_each_Ok [OF v]] i(1) by (simp add: unat_gt_0)
    ultimately show ?thesis unfolding head_of_def frames_in_def i(2) b(2)
      by (simp add: incoming_new_def Let_def)
  qed
  then show ?thesis unfolding routes_carried_def using carries_start by blast
qed

lemma router_runs_inv:
  "router_runs r0 fed out r \<Longrightarrow> router_inv rs r0 \<Longrightarrow> routes_carried r0 (\<lambda>_. []) (\<lambda>_. []) \<Longrightarrow>
     router_inv rs r \<and> routes_carried r fed out"
proof (induction rule: router_runs.induct)
  case (call fed out r k x inp outp s1 outp' r')
  then have inv: "router_inv rs r" "routes_carried r fed out" by simp_all
  have "lists_fit (contexts r ! k) inp outp" using call by simp
  from router_callback_ok [OF inv(1) call.hyps(2) this]
  obtain ins' s2 s' outp2 r2 where o: "router_callback k inp outp r = ret (outp2, r2)"
    "r2 = \<lparr>contexts = (contexts r)[k := x\<lparr>incoming := ins'\<rparr>], store = s'\<rparr>" "router_inv rs r2"
    "router_capture (outgoing x) inp (store r) = Ok (True, s2)"
    "captured (buffers_of inp) [0..<frames_of inp] (outgoing x) (store r) s2"
    "played (frames_of outp) (incoming x) s2 ins' s'" "incoming_inv (incoming x) s2"
    unfolding Let_def call.hyps(3) [symmetric] by blast
  have "s2 = s1" "r2 = r'" using call.hyps(5,6) o(1,4) by simp_all
  then show ?case
    using carried_call [OF inv call.hyps(2,3) o(5-7)] o(2,3) by simp
qed simp

text \<open>What holds of every route and of the next call of every device, after any calls.\<close>

lemma running_router:
  assumes "router_inv rs r0" "routes_carried r0 (\<lambda>_. []) (\<lambda>_. [])" "router_runs r0 fed out r"
  shows "i < length rs \<Longrightarrow> \<exists>x \<in> set (contexts r). \<exists>q \<in> set (incoming x).
      ctx_device x = sink_device_id (rs ! i) \<and> in_ring q = i
      \<and> carries (fed i) (out i) (head_of q (rings (store r) ! i))"
    and "i < length rs \<Longrightarrow> \<exists>x \<in> set (contexts r). ctx_device x = source_device_id (rs ! i)
      \<and> route_out i (rs ! i) \<in> set (outgoing x)"
    and "k < length (contexts r) \<Longrightarrow> lists_fit (contexts r ! k) inp outp \<Longrightarrow>
      \<exists>s1 outp' r'. router_capture (outgoing (contexts r ! k)) inp (store r) = Ok (True, s1)
        \<and> router_callback k inp outp r = ret (outp', r') \<and> output_mixed (contexts r ! k) outp s1 outp'"
proof -
  note inv = router_runs_inv [OF assms(3,1,2)]
  have ctx: "source_device_id (rs ! i) \<in> ctx_device ` set (contexts r)"
    "sink_device_id (rs ! i) \<in> ctx_device ` set (contexts r)" if "i < length rs"
    using inv that nth_mem unfolding router_inv_def by blast+
  show "\<exists>x \<in> set (contexts r). \<exists>q \<in> set (incoming x). ctx_device x = sink_device_id (rs ! i) \<and> in_ring q = i
      \<and> carries (fed i) (out i) (head_of q (rings (store r) ! i))" if il: "i < length rs"
  proof -
    obtain x where x: "x \<in> set (contexts r)" "ctx_device x = sink_device_id (rs ! i)" using ctx(2) [OF il] by auto
    have "list_all2 same_config (ins_of (ctx_device x) (numbered 0 rs)) (incoming x)"
      using inv x(1) unfolding router_inv_def by blast
    moreover have "incoming_new i (rs ! i) \<in> set (ins_of (ctx_device x) (numbered 0 rs))"
      using x(2) il by (auto simp: in_ins_of set_numbered)
    ultimately obtain q where "q \<in> set (incoming x)" "same_config (incoming_new i (rs ! i)) q"
      by (metis in_set_conv_nth list_all2_conv_all_nth)
    then show ?thesis using inv x unfolding routes_carried_def by (force simp: same_config_def)
  qed
  show "\<exists>x \<in> set (contexts r). ctx_device x = source_device_id (rs ! i) \<and> route_out i (rs ! i) \<in> set (outgoing x)"
    if il: "i < length rs"
  proof -
    obtain x where x: "x \<in> set (contexts r)" "ctx_device x = source_device_id (rs ! i)" using ctx(1) [OF il] by auto
    have "outgoing x = outs_of (ctx_device x) (numbered 0 rs)" using inv x(1) unfolding router_inv_def by blast
    then have "route_out i (rs ! i) \<in> set (outgoing x)" using x il by (force simp: in_outs_of set_numbered)
    then show ?thesis using x by blast
  qed
  show "k < length (contexts r) \<Longrightarrow> lists_fit (contexts r ! k) inp outp \<Longrightarrow>
      \<exists>s1 outp' r'. router_capture (outgoing (contexts r ! k)) inp (store r) = Ok (True, s1)
        \<and> router_callback k inp outp r = ret (outp', r') \<and> output_mixed (contexts r ! k) outp s1 outp'"
    using router_callback_ok [OF conjunct1 [OF inv]] unfolding Let_def by blast
qed

text \<open>C17: A running router carries the audio of every route in order. As long as the devices deliver
  lists with the channels of their routes (\<open>router_runs\<close>), after any calls in any order, every
  route \<open>i\<close> is read at its sink device by one head, whose frames are the end of the frames \<open>fed i\<close>
  that its source device has put in: nothing is lost or repeated in between, and what came out are
  mixes of neighbouring frames of \<open>fed i\<close> at positions that never go back; and the next such call of any
  device fills its output with the frames of the incoming routes. On lists of any other format, as a
  device delivers them after a change of its format, the order is lost
  (\<open>format_change_splits_a_frame\<close>), but after any calls on any valid lists (\<open>router_calls\<close>) every next one
  still returns without a panic.\<close>

theorem routes_carry_audio_in_order:
  assumes "router_start h rs s = (Ok r0, s')" "resources_of s = Some m"
  shows "(\<forall>fed out r. router_runs r0 fed out r \<longrightarrow>
      (\<forall>i < length rs. \<exists>x \<in> set (contexts r). \<exists>q \<in> set (incoming x).
        ctx_device x = sink_device_id (rs ! i) \<and> in_ring q = i
        \<and> carries (fed i) (out i) (head_of q (rings (store r) ! i)))
    \<and> (\<forall>k inp outp. k < length (contexts r) \<and> lists_fit (contexts r ! k) inp outp \<longrightarrow>
        (\<exists>s1 outp' r'. router_capture (outgoing (contexts r ! k)) inp (store r) = Ok (True, s1)
           \<and> router_callback k inp outp r = ret (outp', r') \<and> output_mixed (contexts r ! k) outp s1 outp')))
    \<and> (\<forall>r. router_calls r0 r \<longrightarrow> (\<forall>k inp outp. k < length (contexts r) \<and> valid_list inp \<and> valid_list outp \<longrightarrow>
        (\<exists>outp' r'. router_callback k inp outp r = ret (outp', r'))))"
proof -
  note inv = started_inv [OF assms]
  show ?thesis using running_router [OF inv started_carries [OF assms]] running_returns [OF inv] by blast
qed

theorem routes_carry_audio_in_order_witness:
  "\<exists>r0 s1 outp' r1. router_start demo_hal [demo_loop] demo_start = (Ok r0, s1)
     \<and> router_callback 0 (Some short_list) (Some short_list) r0 = ret (outp', r1)"
proof -
  obtain r0 s1 where r: "router_start demo_hal [demo_loop] demo_start = (Ok r0, s1)"
    "map ctx_proc (contexts r0) = [(7, 5)]" using demo_router by metis
  note inv = started_inv [OF r(1) demo_resources]
  obtain x where x: "contexts r0 = [x]" "ctx_device x = 7" using r(2) by (auto simp: ctx_proc_def)
  have "outgoing x = [route_out 0 demo_loop]"
    using inv x by (simp add: router_inv_def outs_of_def demo_loop_def)
  moreover have "list_all2 same_config [incoming_new 0 demo_loop] (incoming x)"
    using inv x by (simp add: router_inv_def ins_of_def demo_loop_def)
  then have "map in_sink_channels (incoming x) = [1]"
    by (auto simp: list_all2_Cons1 same_config_def incoming_new_def Let_def demo_loop_def)
  ultimately have "lists_fit x (Some short_list) (Some short_list)"
    by (simp add: lists_fit_def fits_def short_list_def buffer_wf_def buffer_samples_def audio_buffer_list_frames_def
        buffer_channels_def total_channels_def) (simp add: route_out_def demo_loop_def)
  then show ?thesis
    using routes_carry_audio_in_order [OF r(1) demo_resources, THEN conjunct1, rule_format, OF router_runs.start,
        THEN conjunct2, rule_format, of 0 "Some short_list" "Some short_list"] x(1) r(1) by auto
qed

end
