(* ===== verification/DaemonAudio.thy ===== *)
theory DaemonAudio
  imports DaemonProperties RouterCycles
begin

text \<open>
  The daemon of \<open>vcabled/src/main.rs\<close> on the platform layer of \<open>vcable-coreaudio\<close>. The functions the
  daemon imports, a parameter of \<open>Daemon\<close>, become those of \<open>CoreAudioHal\<close> and \<open>PlatformStreams\<close>; its
  audio state is Core Audio with the log of calls, and the router that runs. The steps of the whole
  are the daemon's requests, the callbacks of the running router in between, and anything else that
  happens in Core Audio.
\<close>

section \<open>The host of the daemon\<close>

type_synonym 'h devices = "'h core_audio \<times> AudioRouter option"

definition on_devices :: "('h, 'a, CoreAudioError) ca \<Rightarrow> 'h devices \<Rightarrow> ('a, CoreAudioError) res \<times> 'h devices" where
  "on_devices m = (\<lambda>(s, rt). let (r, s1) = m s in (r, (s1, rt)))"

text \<open>A call that does not return has no result; it stands for a panic (\<open>device_commands_return\<close>: there is none).\<close>

definition waiting ::
    "('h core_audio \<Rightarrow> ((unit, CoreAudioError) res \<times> 'h core_audio) option) \<Rightarrow>
     'h devices \<Rightarrow> (unit, CoreAudioError) res \<times> 'h devices" where
  "waiting f = (\<lambda>(s, rt). case f s of None \<Rightarrow> (Panic, (s, rt)) | Some (r, s1) \<Rightarrow> (r, (s1, rt)))"

definition start_devices :: "'h hal \<Rightarrow> AudioRoute list \<Rightarrow> 'h devices \<Rightarrow> (unit, CoreAudioError) res \<times> 'h devices" where
  "start_devices h rs = (\<lambda>(s, rt). case router_start h rs s of
      (Ok r, s1) \<Rightarrow> (Ok (), (s1, Some r))
    | (Err e, s1) \<Rightarrow> (Err e, (s1, rt))
    | (Panic, s1) \<Rightarrow> (Panic, (s1, rt)))"

definition stop_devices :: "'h hal \<Rightarrow> 'h devices \<Rightarrow> 'h devices" where
  "stop_devices h = (\<lambda>(s, rt). case rt of
      None \<Rightarrow> (s, None)
    | Some r \<Rightarrow> (snd (router_drop h (contexts r) s), None))"

definition devices_metrics :: "'h devices \<Rightarrow> u64 \<times> u64 \<times> u64" where
  "devices_metrics = (\<lambda>(s, rt). case rt of
      None \<Rightarrow> (0, 0, 0)
    | Some r \<Rightarrow> (let m = router_metrics (store r) in (underruns m, overruns m, router_format_errors m)))"

text \<open>\<open>base\<close> has the functions on floats.\<close>

definition core_audio_host :: "'h hal \<Rightarrow> 'h devices host \<Rightarrow> 'h devices host" where
  "core_audio_host h base = base\<lparr>
     h_list_devices := on_devices (list_devices h),
     h_create_virtual_device := \<lambda>i name ins outs rate. waiting (create_virtual_device h i name ins outs rate),
     h_delete_virtual_device := \<lambda>i. waiting (delete_virtual_device h i),
     h_start_router := start_devices h,
     h_stop_router := stop_devices h,
     h_router_metrics := devices_metrics\<rparr>"

lemma device_commands_return:
  assumes "clock_advances h c"
  shows "create_virtual_device h i name ins outs rate s \<noteq> None" "delete_virtual_device h i s \<noteq> None"
proof -
  have w: "wait_for_device_visibility h uid b t \<noteq> None" for uid b t
  proof -
    have w: "\<exists>r s'. visibility_loop h uid b d t = Some (r, s')" for d t using loop_ends [OF assms] by blast
    obtain now x where "ca_call (instant_now h) t = ((Ok now, x) :: (nat, CoreAudioError) res \<times> 'a core_audio)"
      by (simp add: ca_call_def)
    then show ?thesis using w [of "now + DEVICE_CHANGE_TIMEOUT" x]
      by (auto simp: wait_for_device_visibility_def ca_call_def)
  qed
  show "create_virtual_device h i name ins outs rate s \<noteq> None" "delete_virtual_device h i s \<noteq> None"
    unfolding create_virtual_device_def delete_virtual_device_def
    using w by (auto split: prod.split res.split simp del: not_None_eq)
qed

section \<open>What the daemon owns\<close>

definition router_contexts :: "AudioRouter option \<Rightarrow> DeviceIoContext list" where
  "router_contexts rt = (case rt of None \<Rightarrow> [] | Some r \<Rightarrow> contexts r)"

text \<open>
  On top of \<open>m\<close>, the daemon owns the procedures of its router and nothing else; the router that runs
  is the one the daemon believes in, started with its routes.
\<close>

definition owned :: "resources \<Rightarrow> AudioRoute list option \<Rightarrow> 'h devices \<Rightarrow> bool" where
  "owned m believed = (\<lambda>(a, rt). resources_wf m \<and> resources_of a = Some (with_contexts (router_contexts rt) m)
     \<and> (case believed of None \<Rightarrow> rt = None | Some rs \<Rightarrow> \<exists>r. rt = Some r \<and> router_safe rs r))"

abbreviation audio_inv :: "resources \<Rightarrow> 'h devices system \<Rightarrow> bool" where
  "audio_inv m s \<equiv> owned m (router s) (audio s)"

lemma owned_quiet: "owned m rs (a, rt) \<Longrightarrow> same_resources a b \<Longrightarrow> owned m rs (b, rt)"
  by (auto simp: owned_def same_resources_def)

lemma keeps_on_devices:
  assumes "keeps same_resources f"
  shows "preserves (audio_inv m) (with_audio (on_devices f))"
proof (rule preservesI)
  fix s :: "'a devices system" assume inv: "audio_inv m s"
  obtain a rt where au: "audio s = (a, rt)" by (cases "audio s")
  have "same_resources a (snd (f a))" using assms by (simp add: keeps_def)
  then show "audio_inv m (snd (with_audio (on_devices f) s))"
    using owned_quiet inv au by (auto simp: with_audio_def on_devices_def split: prod.split)
qed

lemma keeps_waiting:
  assumes "\<And>a r a1. f a = Some (r, a1) \<Longrightarrow> same_resources a a1"
  shows "preserves (audio_inv m) (with_audio (waiting f))"
proof (rule preservesI)
  fix s :: "'a devices system" assume inv: "audio_inv m s"
  obtain a rt where au: "audio s = (a, rt)" by (cases "audio s")
  show "audio_inv m (snd (with_audio (waiting f) s))"
  proof (cases "f a")
    case None
    then show ?thesis using inv au by (simp add: with_audio_def waiting_def)
  next
    case (Some p)
    then obtain r a1 where f: "f a = Some (r, a1)" by (cases p) simp
    then show ?thesis using owned_quiet [OF _ assms [OF f]] inv au by (simp add: with_audio_def waiting_def)
  qed
qed

lemma same_resources_trans: "same_resources s t \<Longrightarrow> same_resources t u \<Longrightarrow> same_resources s u"
  by (simp add: same_resources_def)

lemma commands_keep:
  "create_virtual_device h i name ins outs rate a = Some (r, a1) \<Longrightarrow> same_resources a a1"
  "delete_virtual_device h i a = Some (r, a1) \<Longrightarrow> same_resources a a1"
proof -
  have go: "same_resources a a1" if k: "keeps same_resources m" and w: "(case m a of
        (Ok _, s1) \<Rightarrow> wait_for_device_visibility h uid b s1
      | (Err e, s1) \<Rightarrow> Some (Err e, s1) | (Panic, s1) \<Rightarrow> Some (Panic, s1)) = Some (r, a1)"
    for m :: "('a, unit, CoreAudioError) ca" and uid b
  proof -
    obtain r1 s1 where m: "m a = (r1, s1)" by (cases "m a")
    have s: "same_resources a s1" by (rule keepsD [OF k m])
    show ?thesis
    proof (cases r1)
      case Ok
      then have "wait_for_device_visibility h uid b s1 = Some (r, a1)" using w m by simp
      then have "same_resources s1 a1" by (rule resources.keeps_wait)
      then show ?thesis by (rule same_resources_trans [OF s])
    qed (use w m s in auto)
  qed
  have v: "keeps same_resources (ca_then (ca_res q) (\<lambda>_ :: unit. m))" if "keeps same_resources m"
    for q and m :: "('a, unit, CoreAudioError) ca"
    by (rule resources.keeps_then [OF resources.keeps_res that])
  show "create_virtual_device h i name ins outs rate a = Some (r, a1) \<Longrightarrow> same_resources a a1"
    unfolding create_virtual_device_def
    by (rule go [rotated], assumption) (intro v keeps_branches resources.keeps_res resources.keeps_send)
  show "delete_virtual_device h i a = Some (r, a1) \<Longrightarrow> same_resources a a1"
    unfolding delete_virtual_device_def by (rule go [rotated], assumption) (intro v resources.keeps_send)
qed

text \<open>The router is dropped and started as a whole.\<close>

lemma stop_owned:
  assumes "owned m (Some rs) (a, rt)"
  shows "owned m None (stop_devices h (a, rt))"
proof -
  obtain r where r: "rt = Some r" "resources_wf m" "resources_of a = Some (with_contexts (contexts r) m)"
    using assms by (auto simp: owned_def router_contexts_def)
  obtain s1 where "router_drop h (contexts r) a = (Ok (), s1)" "resources_of s1 = Some m"
    using router_drop_releases [OF r(3,2)] by blast
  then show ?thesis using r(1,2) by (simp add: stop_devices_def owned_def router_contexts_def)
qed

lemma start_owned:
  assumes "owned m None (a, rt)" "start_devices h rs (a, rt) = (r, d)"
  shows "owned m (if is_ok r then Some rs else None) d"
proof -
  have m: "resources_wf m" "rt = None" "resources_of a = Some m"
    using assms(1) by (auto simp: owned_def router_contexts_def)
  obtain q a1 where q: "router_start h rs a = (q, a1)" by (cases "router_start h rs a")
  note own = router_start_owns [OF q m(3)]
  show ?thesis
  proof (cases q)
    case (Ok router)
    then have "router_safe rs router" using router_inv_safe started_inv q m(3) by blast
    then show ?thesis using Ok own q assms(2) m(1) by (auto simp: start_devices_def owned_def router_contexts_def)
  qed (use own q assms(2) m in \<open>auto simp: start_devices_def owned_def router_contexts_def\<close>)
qed

lemma host_simps [simp]:
  "h_list_devices (core_audio_host h base) = on_devices (list_devices h)"
  "h_create_virtual_device (core_audio_host h base) i name ins outs rate = waiting (create_virtual_device h i name ins outs rate)"
  "h_delete_virtual_device (core_audio_host h base) i = waiting (delete_virtual_device h i)"
  "h_start_router (core_audio_host h base) = start_devices h"
  "h_stop_router (core_audio_host h base) = stop_devices h"
  by (simp_all add: core_audio_host_def)

lemma drop_owned: "preserves (audio_inv m) (drop_router (core_audio_host h base))"
  "audio_inv m s \<Longrightarrow> drop_router (core_audio_host h base) s = (r, s') \<Longrightarrow> router s' = None"
proof -
  show "preserves (audio_inv m) (drop_router (core_audio_host h base))"
    unfolding drop_router_def
  proof (rule preserves_update)
    fix s :: "'a devices system" assume inv: "audio_inv m s"
    show "audio_inv m (if router s = None then s
        else s\<lparr>router := None, audio := h_stop_router (core_audio_host h base) (audio s)\<rparr>)"
      using inv stop_owned [of m _ "fst (audio s)" "snd (audio s)" h] by auto
  qed
  show "drop_router (core_audio_host h base) s = (r, s') \<Longrightarrow> router s' = None"
    by (auto simp: drop_router_def update_def split: if_splits)
qed

lemma restart_owned: "preserves (audio_inv m) (restart_router (core_audio_host h base))"
proof (rule preservesI)
  fix s :: "'a devices system" assume inv: "audio_inv m s"
  let ?h = "core_audio_host h base"
  obtain r1 s1 where d: "drop_router ?h s = (r1, s1)" by (cases "drop_router ?h s")
  have n: "router s1 = None" and i: "audio_inv m s1"
    using drop_owned(2) [OF inv d] preservesD [OF drop_owned(1) inv d] by simp_all
  obtain a rt where au: "audio s1 = (a, rt)" by (cases "audio s1")
  define go where "go = traverse (audio_route (endpoint_devices s1)) (bt_values (routes (graph s1)))"
  have "audio_inv m (snd (andthen (lift_res go) (\<lambda>rs. if rs = [] then done_with ()
      else andthen (with_audio (start_devices h rs)) (\<lambda>_. update (\<lambda>s. s\<lparr>router := Some rs\<rparr>))) s1))"
  proof (cases go)
    case (Ok rs)
    obtain r d1 where st: "start_devices h rs (a, rt) = (r, d1)" by (cases "start_devices h rs (a, rt)")
    from start_owned [OF _ st] have o: "owned m (if is_ok r then Some rs else None) d1" using i n au by simp
    show ?thesis
    proof (cases "rs = []")
      case True
      then show ?thesis using Ok i by (simp add: andthen_def lift_res_def done_with_def)
    next
      case False
      then show ?thesis using Ok st o au n
        by (cases r) (simp_all add: andthen_def lift_res_def with_audio_def update_def)
    qed
  qed (use i in \<open>simp_all add: andthen_def lift_res_def\<close>)
  then show "audio_inv m (snd (restart_router ?h s))"
    using d i by (cases r1) (simp_all add: restart_router_def andthen_def [of "drop_router ?h"] with_state_def go_def
        cong: if_cong)
qed

interpretation daemon_audio: daemon_parts "audio_inv m" "core_audio_host h base" for m h base
proof
  show "preserves (audio_inv m) (refresh_endpoints (core_audio_host h base))"
    unfolding refresh_endpoints_def host_simps
    by (auto intro!: kept keeps_on_devices resources.keeps_devices preserves_update split: prod.split)
  show "preserves (audio_inv m) (add_saved (core_audio_host h base) sv)" for sv
    unfolding add_saved_def graph_add_route_def by (auto intro!: kept preserves_update)
qed (simp_all add: preserves_stored drop_owned restart_owned keeps_waiting commands_keep)

section \<open>Requests and callbacks\<close>

text \<open>
  The steps of the whole after the start: a request of the daemon, a callback of the running router on
  any valid buffer lists, and anything else that changes Core Audio (another process, the user).
\<close>

inductive daemon_runs :: "'h hal \<Rightarrow> 'h devices host \<Rightarrow> 'h devices system \<Rightarrow> 'h devices system \<Rightarrow> bool"
  for h base s0 where
  started: "daemon_runs h base s0 (snd (start_up (core_audio_host h base) s0))"
| request: "daemon_runs h base s0 s \<Longrightarrow> daemon_runs h base s0 (snd (handle (core_audio_host h base) q s))"
| callback: "daemon_runs h base s0 s \<Longrightarrow> audio s = (a, Some r) \<Longrightarrow> k < length (contexts r) \<Longrightarrow>
    valid_list inp \<Longrightarrow> valid_list outp \<Longrightarrow> router_callback k inp outp r = ret (outp', r') \<Longrightarrow>
    daemon_runs h base s0 (s\<lparr>audio := (a, Some r')\<rparr>)"
| world: "daemon_runs h base s0 s \<Longrightarrow> audio s = (a, rt) \<Longrightarrow>
    daemon_runs h base s0 (s\<lparr>audio := (a\<lparr>hal_state := x\<rparr>, rt)\<rparr>)"

lemma with_contexts_update:
  assumes "k < length xs" "ctx_proc y = ctx_proc (xs ! k)" "ctx_running y = ctx_running (xs ! k)"
  shows "with_contexts (xs[k := y]) m = with_contexts xs m"
  using assms
proof (induction xs arbitrary: k m)
  case (Cons x xs)
  then show ?case by (cases k) auto
qed simp

lemma callback_owned:
  assumes "owned m believed (a, Some r)" "k < length (contexts r)" "valid_list inp" "valid_list outp"
    and c: "router_callback k inp outp r = ret (outp', r')"
  shows "owned m believed (a, Some r')"
proof -
  obtain rs where rs: "believed = Some rs" "router_safe rs r"
    using assms(1) by (auto simp: owned_def split: option.splits)
  obtain outp1 ins' s' r1 where r1: "router_callback k inp outp r = ret (outp1, r1)" "router_safe rs r1"
    "r1 = \<lparr>contexts = (contexts r)[k := (contexts r ! k)\<lparr>incoming := ins'\<rparr>], store = s'\<rparr>"
    by (rule router_callback_returns [OF rs(2) assms(2-4)])
  have "with_contexts (contexts r1) m = with_contexts (contexts r) m"
    unfolding r1(3) using with_contexts_update [OF assms(2)] by (simp add: ctx_proc_def)
  then show ?thesis using assms(1) rs(1) r1(1,2) c by (simp add: owned_def router_contexts_def)
qed

lemma daemon_runs_inv:
  "daemon_runs h base s0 s \<Longrightarrow> audio_inv m s0 \<Longrightarrow> audio_inv m s"
proof (induction rule: daemon_runs.induct)
  case started
  then show ?case using daemon_audio.keeps_start_up [of m h base] unfolding preserves_def by blast
next
  case (request s q)
  then show ?case using daemon_audio.keeps_handle [of m h base q] unfolding preserves_def by blast
next
  case (callback s a r k inp outp outp' r')
  then show ?case using callback_owned [of m "router s" a r k inp outp] by simp
next
  case (world s a rt x)
  then show ?case by (simp add: owned_def)
qed

text \<open>C4: The daemon and the devices fit together. In every order of requests (with any results),
  callbacks on any valid buffer lists (whatever their format) and changes of Core Audio after the start,
  the daemon owns the I/O procedures of its current router, all running, and nothing else; the router
  that runs has exactly the devices and routes that the daemon takes it to play; the next callback of
  any of its devices on any valid lists returns without a panic; and after a shutdown, which always succeeds, the daemon owns nothing.\<close>

theorem daemon_owns_its_router:
  assumes "router s0 = None" "audio s0 = (a0, None)" "resources_of a0 = Some nothing_held"
    and "daemon_runs h base s0 s"
  shows "(case audio s of
      (a, None) \<Rightarrow> router s = None \<and> resources_of a = Some nothing_held
    | (a, Some r) \<Rightarrow> resources_of a = Some (with_contexts (contexts r) nothing_held)
        \<and> list_all ctx_running (contexts r)
        \<and> (\<exists>rs. router s = Some rs \<and> router_safe rs r)
        \<and> (\<forall>k inp outp. k < length (contexts r) \<and> valid_list inp \<and> valid_list outp \<longrightarrow>
            (\<exists>outp' r'. router_callback k inp outp r = ret (outp', r'))))
    \<and> (case handle (core_audio_host h base) Shutdown s of (result, s') \<Rightarrow>
        result = Ok ''shutting down'' \<and> router s' = None \<and> snd (audio s') = None
        \<and> resources_of (fst (audio s')) = Some nothing_held)"
proof -
  have "resources_wf nothing_held" by (simp add: resources_wf_def nothing_held_def)
  then have inv: "audio_inv nothing_held s"
    using assms(1-3) by (intro daemon_runs_inv [OF assms(4)]) (simp add: owned_def router_contexts_def)
  have now: "case audio s of
      (a, None) \<Rightarrow> router s = None \<and> resources_of a = Some nothing_held
    | (a, Some r) \<Rightarrow> resources_of a = Some (with_contexts (contexts r) nothing_held)
        \<and> list_all ctx_running (contexts r) \<and> (\<exists>rs. router s = Some rs \<and> router_safe rs r)
        \<and> (\<forall>k inp outp. k < length (contexts r) \<and> valid_list inp \<and> valid_list outp \<longrightarrow>
            (\<exists>outp' r'. router_callback k inp outp r = ret (outp', r')))"
  proof (cases "router s")
    case None
    then show ?thesis using inv by (auto simp: owned_def router_contexts_def)
  next
    case (Some rs)
    then obtain a r where r: "audio s = (a, Some r)" "router_safe rs r"
      "resources_of a = Some (with_contexts (contexts r) nothing_held)"
      using inv by (auto simp: owned_def router_contexts_def)
    have "list_all ctx_running (contexts r)" using r(2) by (simp add: router_safe_def list_all_iff)
    moreover have "\<exists>outp' r'. router_callback k inp outp r = ret (outp', r')"
      if "k < length (contexts r)" "valid_list inp" "valid_list outp" for k inp outp
      using router_callback_returns [OF r(2) that] by blast
    ultimately show ?thesis using r Some by simp
  qed
  obtain x s1 where d: "drop_router (core_audio_host h base) s = (x, s1)" by (metis surj_pair)
  have "x = Ok ()" using d by (simp add: drop_router_def update_def)
  moreover have "router s1 = None" "audio_inv nothing_held s1"
    using drop_owned(2) [OF inv d] preservesD [OF drop_owned(1) inv d] by simp_all
  ultimately have "case handle (core_audio_host h base) Shutdown s of (result, s') \<Rightarrow>
      result = Ok ''shutting down'' \<and> router s' = None \<and> snd (audio s') = None
      \<and> resources_of (fst (audio s')) = Some nothing_held"
    using d by (auto simp: andthen_def done_with_def owned_def router_contexts_def)
  with now show ?thesis by blast
qed

section \<open>The framework with one device, with a route of the device to itself\<close>

definition loop_base :: "nat devices host" where
  "loop_base = \<lparr>h_list_devices = \<lambda>d. (Ok [], d), h_create_virtual_device = \<lambda>_ _ _ _ _ d. (Ok (), d),
     h_delete_virtual_device = \<lambda>_ d. (Ok (), d), h_start_router = \<lambda>_ d. (Ok (), d), h_stop_router = \<lambda>d. d,
     h_router_metrics = \<lambda>_. (0, 0, 0),
     h_powf = \<lambda>_ _. fone F32, h_show_gain = \<lambda>_. ''1.000000''\<rparr>"

abbreviation loop_host :: "nat devices host" where
  "loop_host \<equiv> core_audio_host demo_hal loop_base"

definition loop_saved :: SavedRoute where
  "loop_saved = \<lparr>sr_id = ''r'', sr_source = ''audio:dev:input'', sr_sink = ''audio:dev:output'',
     sr_gain_millidb = 0, sr_matrix_millionths = []\<rparr>"

definition loop_files :: "string \<Rightarrow> string option" where
  "loop_files p = (if p = ''/var/routes'' then Some (state_text [(''r'', loop_saved)]) else None)"

definition loop_initial :: "nat devices system" where
  "loop_initial = \<lparr>graph = graph_default, saved_routes = [(''r'', loop_saved)], endpoint_devices = bt_empty,
     router = None, state_path = ''/var/routes'', files = loop_files, faults = [], audio = (demo_start, None)\<rparr>"

definition loop_endpoint :: "string \<Rightarrow> EndpointDirection \<Rightarrow> EndpointDescriptor" where
  "loop_endpoint i dir = \<lparr>ep_id = EndpointId i, node = ''dev'', direction = dir, channels = 1,
     sample_rate = 48000, clock_domain = ClockDomain ''coreaudio:7'', is_loopback = False\<rparr>"

definition loop_maps :: endpoint_maps where
  "loop_maps = (\<lparr>endpoints = map (\<lambda>e. (ep_id e, e)) [loop_endpoint ''audio:dev:input'' Source,
       loop_endpoint ''audio:dev:output'' Sink], routes = bt_empty\<rparr>,
     [(''audio:dev:input'', demo_one), (''audio:dev:output'', demo_one)])"

definition loop_route :: Route where
  "loop_route = \<lparr>Route.route_id = RouteId ''r'', route_source = EndpointId ''audio:dev:input'',
     route_sink = EndpointId ''audio:dev:output'', gain = fone F32,
     matrix = \<lparr>output_channels = 1, input_channels = 1, coefficients = [fone F32]\<rparr>\<rparr>"

lemma loop_ids:
  "endpoint_id ''dev'' ''input'' = ''audio:dev:input''" "endpoint_id ''dev'' ''output'' = ''audio:dev:output''"
  "EndpointId_new ''audio:dev:input'' = Ok (EndpointId ''audio:dev:input'')"
  "EndpointId_new ''audio:dev:output'' = Ok (EndpointId ''audio:dev:output'')"
  "RouteId_new ''r'' = Ok (RouteId ''r'')"
  by (simp_all add: endpoint_id_def EndpointId_new_def RouteId_new_def id_byte_def is_ascii_alphanumeric_def
      is_ascii_digit_def byte_def)

lemma loop_object_id: "show_u32 7 = ''7''"
  by code_simp

lemmas loop_model = loop_endpoint_def endpoint_def bt_empty_def bt_contains_def Let_def
  less_EndpointId_def less_eq_EndpointId_def

lemma loop_maps_ok: "all_endpoints [demo_one] (graph_default, bt_empty) = Ok loop_maps"
  by (simp add: demo_one_def loop_maps_def device_endpoints_def device_endpoint_def ClockDomain_new_def
      add_endpoint_def graph_default_def loop_model loop_ids loop_object_id)

lemma loop_build: "build_route loop_host (fst loop_maps) loop_saved = Ok loop_route"
proof -
  have "gain_of loop_host 0 = fone F32" by (simp add: gain_of_def core_audio_host_def loop_base_def)
  moreover have "matrix_identity 1 = Ok \<lparr>output_channels = 1, input_channels = 1, coefficients = [fone F32]\<rparr>"
    by (simp add: matrix_identity_def matrix_new_Ok matrix_wf_def usize_bound_def isize_max_def
        fone_def fzero_def)
  ultimately show ?thesis
    by (simp add: build_route_def loop_saved_def loop_route_def loop_maps_def loop_model loop_ids)
qed

lemma loop_add: "add_route loop_route (fst loop_maps) = Ok (insert_route loop_route (fst loop_maps))"
  by (simp add: add_route_def loop_route_def loop_maps_def loop_model loop_ids insert_route_def fone_def
      path_exists_def node_is_loopback_def bt_values_def)

definition loop_listed :: "nat core_audio" where
  "loop_listed = demo_start\<lparr>events := [GotString 1, ReleasedString 1, GotString 1, ReleasedString 1]\<rparr>"

lemma loop_refresh:
  assumes "audio t = (demo_start, None)"
  shows "refresh_endpoints loop_host t
    = (Ok (), t\<lparr>graph := fst loop_maps, endpoint_devices := snd loop_maps, audio := (loop_listed, None)\<rparr>)"
proof -
  have "on_devices (list_devices demo_hal) (demo_start, None) = (Ok [demo_one], (loop_listed, None))"
    by (simp add: on_devices_def demo_devices_list loop_listed_def)
  then show ?thesis using assms
    by (cases t) (simp add: refresh_endpoints_def andthen_def with_audio_def lift_res_def update_def loop_maps_ok
        split_beta del: all_endpoints.simps)
qed

lemma loop_add_saved:
  "graph t = fst loop_maps \<Longrightarrow>
     add_saved loop_host loop_saved t = (Ok (), t\<lparr>graph := insert_route loop_route (fst loop_maps)\<rparr>)"
  using loop_build loop_add
  by (simp add: add_saved_def graph_add_route_def with_state_def andthen_def lift_res_def update_def)

lemma loop_restart:
  assumes "router t = None" "audio t = (loop_listed, None)" "endpoint_devices t = snd loop_maps"
    and "graph t = insert_route loop_route (fst loop_maps)"
  shows "\<exists>a r. restart_router loop_host t = (Ok (), t\<lparr>audio := (a, Some r), router := Some [demo_loop]\<rparr>)
    \<and> map ctx_proc (contexts r) = [(7, 5)]"
proof -
  obtain r a where r: "router_start demo_hal [demo_loop] loop_listed = (Ok r, a)" "map ctx_proc (contexts r) = [(7, 5)]"
    using demo_router unfolding loop_listed_def by metis
  have "traverse (audio_route (snd loop_maps)) (bt_values (routes (insert_route loop_route (fst loop_maps)))) = Ok [demo_loop]"
    by (simp add: insert_route_def loop_route_def loop_maps_def bt_empty_def bt_values_def audio_route_def
        demo_one_def demo_loop_def)
  then have "restart_router loop_host t = (Ok (), t\<lparr>audio := (a, Some r), router := Some [demo_loop]\<rparr>)"
    using r(1) assms
    by (cases t) (simp add: restart_router_def drop_router_def andthen_def update_def with_state_def lift_res_def
        with_audio_def start_devices_def)
  then show ?thesis using r(2) by (intro exI [of _ a] exI [of _ r]) simp
qed

lemma loop_start_up:
  "\<exists>a r. start_up loop_host loop_initial = (Ok (), loop_initial\<lparr>graph := insert_route loop_route (fst loop_maps),
      endpoint_devices := snd loop_maps, audio := (a, Some r), router := Some [demo_loop]\<rparr>)
    \<and> map ctx_proc (contexts r) = [(7, 5)]"
proof -
  define s1 where "s1 = loop_initial\<lparr>graph := fst loop_maps, endpoint_devices := snd loop_maps, audio := (loop_listed, None)\<rparr>"
  define s2 where "s2 = s1\<lparr>graph := insert_route loop_route (fst loop_maps)\<rparr>"
  have refresh: "refresh_endpoints loop_host loop_initial = (Ok (), s1)"
    unfolding s1_def by (rule loop_refresh) (simp add: loop_initial_def)
  have "add_saved loop_host loop_saved s1 = (Ok (), s2)"
    unfolding s2_def by (rule loop_add_saved) (simp add: s1_def)
  then have restore: "restore_routes loop_host s1 = (Ok (), s2)"
    by (simp add: restore_routes_def with_state_def s1_def loop_initial_def bt_values_def andthen_def done_with_def)
  obtain a r where "restart_router loop_host s2 = (Ok (), s2\<lparr>audio := (a, Some r), router := Some [demo_loop]\<rparr>)"
    "map ctx_proc (contexts r) = [(7, 5)]"
    using loop_restart [of s2] by (auto simp: s2_def s1_def loop_initial_def)
  then show ?thesis using refresh restore
    by (intro exI [of _ a] exI [of _ r]) (simp add: start_up_def andthen_def s2_def s1_def)
qed

theorem daemon_owns_its_router_witness:
  "\<exists>s a r. daemon_runs demo_hal loop_base loop_initial s \<and> audio s = (a, Some r) \<and> router s = Some [demo_loop]
     \<and> router_safe [demo_loop] r
     \<and> resources_of a = Some \<lparr>procs = {#(7, 5)#}, active = {#(7, 5)#}, held = {#}\<rparr>
     \<and> resources_of (fst (audio (snd (handle loop_host Shutdown s)))) = Some nothing_held"
proof -
  define s where "s = snd (start_up loop_host loop_initial)"
  obtain a r where s: "audio s = (a, Some r)" "router s = Some [demo_loop]" "map ctx_proc (contexts r) = [(7, 5)]"
    using loop_start_up unfolding s_def by fastforce
  have run: "daemon_runs demo_hal loop_base loop_initial s" unfolding s_def by (rule daemon_runs.started)
  have i: "router loop_initial = None" "audio loop_initial = (demo_start, None)" by (simp_all add: loop_initial_def)
  note t = daemon_owns_its_router [OF i demo_resources run]
  obtain x where x: "contexts r = [x]" "ctx_proc x = (7, 5)" using s(3) by auto
  have "resources_of a = Some (owns (7, 5) True nothing_held)" "router_safe [demo_loop] r"
    using t s(1,2) x by auto
  moreover have "resources_of (fst (audio (snd (handle loop_host Shutdown s)))) = Some nothing_held"
    using t by (simp split: prod.splits)
  ultimately show ?thesis using run s(1,2) by (fastforce simp: owns_def nothing_held_def)
qed

end
