(* ===== verification/Client.thy ===== *)
theory Client
  imports CoreAudioApi
begin

text \<open>
  \<open>crates/vcablectl/src/main.rs\<close>: the command-line client. \<open>parse_args\<close> is the part of \<open>run\<close>
  before the socket is opened, with the iterator over the arguments passed on explicitly;
  \<open>run_client\<close> is the whole of \<open>run\<close> for a socket given by two functions, what connecting to a
  path gives and what can be read once the request has been written. Every error is its text.
\<close>

section \<open>Arguments\<close>

type_synonym args = "string list"

definition usage :: string where
  "usage = join_with CHR 0x0A
    [''usage:'',
     ''  vcablectl --socket PATH ping'',
     ''  vcablectl --socket PATH status'',
     ''  vcablectl --socket PATH shutdown'',
     ''  vcablectl --socket PATH create ID NAME INPUTS OUTPUTS RATE'',
     ''  vcablectl --socket PATH delete ID'',
     ''  vcablectl --socket PATH connect ID SOURCE SINK GAIN_MILLIDB [MATRIX_MILLIONTHS]'',
     ''  vcablectl --socket PATH disconnect ID'']"

fun required :: "string \<Rightarrow> args \<Rightarrow> (string \<times> args, string) res" where
  "required name [] = Err (''missing '' @ name)"
| "required name (a # rest) = Ok (a, rest)"

definition parse_arg :: "(string \<Rightarrow> 'a option) \<Rightarrow> string \<Rightarrow> args \<Rightarrow> ('a \<times> args, string) res" where
  "parse_arg p name as =
     and_then (required name as) (\<lambda>(value, rest).
     and_then (ok_or (''invalid '' @ name @ '': '' @ value) (p value)) (\<lambda>x. Ok (x, rest)))"

definition parse_coefficients :: "string \<Rightarrow> (i32 list, string) res" where
  "parse_coefficients m =
     traverse (\<lambda>v. ok_or (''invalid matrix coefficient: '' @ v) (parse_i32 v)) (split_at CHR '','' m)"

definition create_args :: "args \<Rightarrow> (Request \<times> args, string) res" where
  "create_args as =
     and_then (required ''device id'' as) (\<lambda>(i, as).
     and_then (required ''device name'' as) (\<lambda>(name, as).
     and_then (parse_arg parse_u32 ''input channels'' as) (\<lambda>(inputs, as).
     and_then (parse_arg parse_u32 ''output channels'' as) (\<lambda>(outputs, as).
     and_then (parse_arg parse_u32 ''sample rate'' as) (\<lambda>(rate, as).
     Ok (CreateDevice i name inputs outputs rate, as))))))"

definition connect_args :: "args \<Rightarrow> (Request \<times> args, string) res" where
  "connect_args as =
     and_then (required ''route id'' as) (\<lambda>(i, as).
     and_then (required ''source endpoint'' as) (\<lambda>(src, as).
     and_then (required ''sink endpoint'' as) (\<lambda>(snk, as).
     and_then (parse_arg parse_i32 ''gain in 0.001 dB'' as) (\<lambda>(gain_mdb, as).
     case as of
       [] \<Rightarrow> Ok (Connect i src snk gain_mdb [], [])
     | m # as \<Rightarrow> and_then (parse_coefficients m) (\<lambda>mtx. Ok (Connect i src snk gain_mdb mtx, as))))))"

definition command_args :: "string \<Rightarrow> args \<Rightarrow> (Request \<times> args, string) res" where
  "command_args command as =
     (if command = ''ping'' then Ok (Ping, as)
      else if command = ''status'' then Ok (Status, as)
      else if command = ''shutdown'' then Ok (Shutdown, as)
      else if command = ''create'' then create_args as
      else if command = ''delete'' then and_then (required ''device id'' as) (\<lambda>(i, as). Ok (DeleteDevice i, as))
      else if command = ''connect'' then connect_args as
      else if command = ''disconnect'' then and_then (required ''route id'' as) (\<lambda>(i, as). Ok (Disconnect i, as))
      else Err (''unknown command: '' @ command @ CHR 0x0A # usage))"

datatype invocation = ShowHelp | Send string Request     \<comment> \<open>socket path, request\<close>

fun parse_args :: "args \<Rightarrow> (invocation, string) res" where
  "parse_args [] = Err usage"
| "parse_args (flag # as) =
     (if flag = ''--help'' \<or> flag = ''-h'' then Ok ShowHelp
      else if flag \<noteq> ''--socket'' then Err ''the first argument must be --socket PATH''
      else case as of
        [] \<Rightarrow> Err ''--socket requires a path''
      | socket # as \<Rightarrow> (case as of
          [] \<Rightarrow> Err usage
        | command # as \<Rightarrow>
            and_then (command_args command as) (\<lambda>(request, as). case as of
              [] \<Rightarrow> Ok (Send socket request)
            | extra # _ \<Rightarrow> Err (''unexpected argument: '' @ extra))))"

section \<open>The exchange\<close>

text \<open>The result is the line printed, or the text of the error.\<close>

definition exchange :: "(byte_sink \<Rightarrow> byte_source) \<Rightarrow> Request \<Rightarrow> byte_sink \<Rightarrow> (string, string) res" where
  "exchange reply request w =
     (let (r, w1) = write_message request_encode request w in
      and_then (map_err show_protocol_error r) (\<lambda>_.
      and_then (map_err show_protocol_error (fst (read_message response_decode (reply w1)))) (\<lambda>response.
      case response of
        Response_Ok message \<Rightarrow> Ok message
      | Response_Error code message \<Rightarrow> Err (code @ '': '' @ message))))"

definition run_client ::
    "(string \<Rightarrow> (byte_sink, io_error) res) \<Rightarrow> (byte_sink \<Rightarrow> byte_source) \<Rightarrow> args \<Rightarrow> (string, string) res" where
  "run_client connect reply as =
     and_then (parse_args as) (\<lambda>inv. case inv of
       ShowHelp \<Rightarrow> Ok usage
     | Send socket request \<Rightarrow>
         and_then (map_err show_io_error (connect socket)) (exchange reply request))"

section \<open>The command line of a request\<close>

text \<open>How the usage text says to write each request.\<close>

fun command_line :: "Request \<Rightarrow> args" where
  "command_line Ping = [''ping'']"
| "command_line Status = [''status'']"
| "command_line Shutdown = [''shutdown'']"
| "command_line (CreateDevice i name inputs outputs rate) =
     [''create'', i, name, show_u32 inputs, show_u32 outputs, show_u32 rate]"
| "command_line (DeleteDevice i) = [''delete'', i]"
| "command_line (Connect i src snk gain_mdb mtx) =
     [''connect'', i, src, snk, show_i32 gain_mdb]
     @ (if mtx = [] then [] else [join_with CHR '','' (map show_i32 mtx)])"
| "command_line (Disconnect i) = [''disconnect'', i]"

lemma parse_coefficients_show:
  assumes "mtx \<noteq> []"
  shows "parse_coefficients (join_with CHR '','' (map show_i32 mtx)) = Ok mtx"
proof -
  have "CHR '','' \<notin> set (show_i32 w)" for w :: i32
    using show_i32_chars [of "CHR '',''" w] by (auto simp: is_ascii_digit_def byte_def)
  then have "split_at CHR '','' (join_with CHR '','' (map show_i32 mtx)) = map show_i32 mtx"
    using assms by (intro split_join) (auto simp: list_all_iff)
  moreover have "traverse (\<lambda>v. ok_or (''invalid matrix coefficient: '' @ v) (parse_i32 v)) (map show_i32 ms)
      = Ok ms" for ms
    by (induction ms) (simp_all add: parse_show_i32)
  ultimately show ?thesis by (simp add: parse_coefficients_def)
qed

lemma command_args_line:
  "\<exists>command as. command_line q = command # as \<and> command_args command as = Ok (q, [])"
  by (cases q) (auto simp: command_args_def create_args_def connect_args_def parse_arg_def
      parse_show_u32 parse_show_i32 parse_coefficients_show)

lemma parse_command_line: "parse_args (''--socket'' # path # command_line q) = Ok (Send path q)"
  using command_args_line [of q] by auto

text \<open>A panic cannot come out of the arguments.\<close>

lemma and_then_no_panic: "r \<noteq> Panic \<Longrightarrow> (\<And>a. r = Ok a \<Longrightarrow> f a \<noteq> Panic) \<Longrightarrow> and_then r f \<noteq> Panic"
  by (cases r) simp_all

lemma required_no_panic: "required n as \<noteq> Panic"
  by (cases as) simp_all

lemma parse_arg_no_panic: "parse_arg p n as \<noteq> Panic"
  unfolding parse_arg_def
  by (intro and_then_no_panic required_no_panic) (auto simp: res_simps)

lemma parse_coefficients_no_panic: "parse_coefficients m \<noteq> Panic"
proof -
  have "traverse (\<lambda>v. ok_or (''invalid matrix coefficient: '' @ v) (parse_i32 v)) vs \<noteq> Panic" for vs
    by (induction vs) (auto simp: res_simps)
  then show ?thesis by (simp add: parse_coefficients_def)
qed

lemma case_pair_no_panic: "(\<And>a b. x = (a, b) \<Longrightarrow> f a b \<noteq> Panic) \<Longrightarrow> (case x of (a, b) \<Rightarrow> f a b) \<noteq> Panic"
  by (cases x) simp

lemmas no_panic = and_then_no_panic required_no_panic parse_arg_no_panic parse_coefficients_no_panic
  case_pair_no_panic

lemma create_args_no_panic: "create_args as \<noteq> Panic"
  unfolding create_args_def by (intro no_panic) simp

lemma connect_args_no_panic: "connect_args as \<noteq> Panic"
  unfolding connect_args_def
  by (intro no_panic) (auto simp: res_simps parse_coefficients_no_panic split: list.split)

lemma command_args_no_panic: "command_args command as \<noteq> Panic"
proof -
  have "and_then (required n as) (\<lambda>(i, as). Ok (f i, as)) \<noteq> Panic" for n and f :: "string \<Rightarrow> Request"
    by (intro no_panic) simp
  then show ?thesis
    unfolding command_args_def by (simp add: create_args_no_panic connect_args_no_panic)
qed

lemma parse_args_no_panic: "parse_args as \<noteq> Panic"
proof (cases as)
  case (Cons flag rest)
  then show ?thesis
    by (auto simp: res_simps command_args_no_panic split: list.splits)
qed simp

text \<open>Every request can be given on the command line as the usage text says: the arguments
  parse to exactly that request and socket, so no two requests share a command line; and no
  argument list makes the client panic.\<close>

theorem command_line_round_trip:
  "parse_args (''--socket'' # path # command_line q) = Ok (Send path q)
   \<and> (command_line q = command_line q' \<longleftrightarrow> q = q')
   \<and> parse_args as \<noteq> Panic"
proof (intro conjI iffI)
  assume "command_line q = command_line q'"
  then show "q = q'"
    using parse_command_line [of path q] parse_command_line [of path q']
    by (metis invocation.inject res.inject(1))
qed (simp_all only: parse_command_line parse_args_no_panic not_False_eq_True)

end
