(* ===== verification/DaemonTheorems.thy ===== *)
theory DaemonTheorems
  imports DaemonProperties Client
begin

text \<open>
  The properties of the daemon, and a concrete host on which they are applied: two virtual devices
  whose list is the state of the audio system, a directory that holds the state file, and \<open>powf\<close>
  at the exponent 0.
\<close>

section \<open>A concrete host\<close>

definition demo_device :: "string \<Rightarrow> u32 \<Rightarrow> AudioDevice" where
  "demo_device uid obj = \<lparr>dev_object_id = obj, dev_uid = uid, dev_name = uid, dev_input_channels = 1,
     dev_output_channels = 1, dev_sample_rate = 48000, dev_is_vcable = True, dev_is_virtual = True\<rparr>"

definition demo_endpoint :: "string \<Rightarrow> string \<Rightarrow> EndpointDirection \<Rightarrow> string \<Rightarrow> EndpointDescriptor" where
  "demo_endpoint uid suffix dir clock = \<lparr>ep_id = EndpointId (endpoint_id uid suffix), node = uid,
     direction = dir, channels = 1, sample_rate = 48000, clock_domain = ClockDomain (''coreaudio:'' @ clock),
     is_loopback = True\<rparr>"

abbreviation demo_a :: string where "demo_a \<equiv> ''dev.vcable.device.a''"
abbreviation demo_b :: string where "demo_b \<equiv> ''dev.vcable.device.b''"

definition demo_devices :: "AudioDevice list" where
  "demo_devices = [demo_device demo_a 10, demo_device demo_b 11]"

definition demo_maps :: endpoint_maps where
  "demo_maps =
    (\<lparr>endpoints = map (\<lambda>e. (ep_id e, e)) [demo_endpoint demo_a ''input'' Source ''10'',
       demo_endpoint demo_a ''output'' Sink ''10'', demo_endpoint demo_b ''input'' Source ''11'',
       demo_endpoint demo_b ''output'' Sink ''11''], routes = bt_empty\<rparr>,
     [(endpoint_id demo_a ''input'', demo_device demo_a 10), (endpoint_id demo_a ''output'', demo_device demo_a 10),
      (endpoint_id demo_b ''input'', demo_device demo_b 11), (endpoint_id demo_b ''output'', demo_device demo_b 11)])"

named_theorems demo_simps "evaluation on the concrete host"

lemma encode_uid_id: "list_all id_byte u \<Longrightarrow> encode_uid u = u"
  by (induction u) auto

lemma demo_endpoint_ids [demo_simps]:
  "endpoint_id demo_a ''input'' = ''audio:dev.vcable.device.a:input''"
  "endpoint_id demo_a ''output'' = ''audio:dev.vcable.device.a:output''"
  "endpoint_id demo_b ''input'' = ''audio:dev.vcable.device.b:input''"
  "endpoint_id demo_b ''output'' = ''audio:dev.vcable.device.b:output''"
  by (simp_all add: endpoint_id_def encode_uid_id id_byte_def is_ascii_alphanumeric_def
      is_ascii_digit_def byte_def)

lemma demo_ids_valid [demo_simps]:
  "EndpointId_new ''audio:dev.vcable.device.a:input'' = Ok (EndpointId ''audio:dev.vcable.device.a:input'')"
  "EndpointId_new ''audio:dev.vcable.device.a:output'' = Ok (EndpointId ''audio:dev.vcable.device.a:output'')"
  "EndpointId_new ''audio:dev.vcable.device.b:input'' = Ok (EndpointId ''audio:dev.vcable.device.b:input'')"
  "EndpointId_new ''audio:dev.vcable.device.b:output'' = Ok (EndpointId ''audio:dev.vcable.device.b:output'')"
  "RouteId_new ''r1'' = Ok (RouteId ''r1'')" "RouteId_new ''r2'' = Ok (RouteId ''r2'')"
  by (simp_all add: EndpointId_new_def RouteId_new_def id_byte_def is_ascii_alphanumeric_def
      is_ascii_digit_def byte_def)

lemma demo_object_ids [demo_simps]: "show_u32 10 = ''10''" "show_u32 11 = ''11''"
  by code_simp+

lemmas demo_model = demo_device_def demo_endpoint_def endpoint_def bt_empty_def bt_contains_def Let_def
  less_EndpointId_def less_eq_EndpointId_def

lemma demo_maps_ok: "all_endpoints demo_devices (graph_default, bt_empty) = Ok demo_maps"
  by (simp add: demo_devices_def demo_maps_def device_endpoints_def device_endpoint_def
      ClockDomain_new_def add_endpoint_def graph_default_def demo_model demo_simps)

definition demo_host :: "AudioDevice list host" where
  "demo_host = \<lparr>h_list_devices = \<lambda>ds. (Ok ds, ds),
     h_create_virtual_device = \<lambda>i name inp outp rate ds.
       (Ok (), ds @ [demo_device (''dev.vcable.device.'' @ i) (of_nat (length ds) + 10)]),
     h_delete_virtual_device = \<lambda>i ds. (Ok (), [d \<leftarrow> ds. dev_uid d \<noteq> ''dev.vcable.device.'' @ i]),
     h_start_router = \<lambda>rs ds. (Ok (), ds),
     h_stop_router = \<lambda>ds. ds,
     h_router_metrics = \<lambda>ds. (0, 0, 0),
     h_powf = \<lambda>b e. fone F32,
     h_show_gain = \<lambda>g. ''1.000000''\<rparr>"

definition demo_initial :: "AudioDevice list system" where
  "demo_initial = \<lparr>graph = graph_default, saved_routes = bt_empty, endpoint_devices = bt_empty, router = None,
     state_path = ''/var/routes'', files = (\<lambda>p. None), faults = [], audio = demo_devices\<rparr>"

definition demo_system :: "AudioDevice list system" where
  "demo_system = demo_initial\<lparr>graph := fst demo_maps, endpoint_devices := snd demo_maps\<rparr>"

lemma demo_load: "daemon_load ''/var/routes'' (\<lambda>p. None) [] demo_devices = Ok demo_initial"
  by (simp add: daemon_load_def demo_initial_def)

lemma demo_refresh: "audio s = demo_devices \<Longrightarrow> refresh_endpoints demo_host s =
    (Ok (), s\<lparr>graph := fst demo_maps, endpoint_devices := snd demo_maps\<rparr>)"
  by (cases s) (simp add: refresh_endpoints_def andthen_def with_audio_def lift_res_def update_def
      demo_maps_ok split_beta demo_host_def)

lemma demo_restart_empty:
  "routes (graph s) = bt_empty \<Longrightarrow> router s = None \<Longrightarrow> restart_router demo_host s = (Ok (), s)"
  by (simp add: restart_router_def andthen_def drop_router_def update_def with_state_def lift_res_def
      bt_values_def bt_empty_def done_with_def)

lemma demo_start_up: "start_up demo_host demo_initial = (Ok (), demo_system)"
proof -
  have "refresh_endpoints demo_host demo_initial = (Ok (), demo_system)"
    by (simp add: demo_refresh demo_system_def demo_initial_def)
  moreover have "restore_routes demo_host demo_system = (Ok (), demo_system)"
    by (simp add: restore_routes_def with_state_def demo_system_def demo_initial_def bt_values_def
        bt_empty_def done_with_def)
  moreover have "restart_router demo_host demo_system = (Ok (), demo_system)"
    by (rule demo_restart_empty) (simp_all add: demo_system_def demo_maps_def demo_initial_def)
  ultimately show ?thesis by (simp add: start_up_def andthen_def)
qed

text \<open>Connecting one device to the other.\<close>

definition demo_saved :: SavedRoute where
  "demo_saved = \<lparr>sr_id = ''r1'', sr_source = ''audio:dev.vcable.device.a:input'',
     sr_sink = ''audio:dev.vcable.device.b:output'', sr_gain_millidb = 0, sr_matrix_millionths = []\<rparr>"

definition demo_route :: Route where
  "demo_route = \<lparr>Route.route_id = RouteId ''r1'', route_source = EndpointId (sr_source demo_saved),
     route_sink = EndpointId (sr_sink demo_saved), gain = fone F32,
     matrix = \<lparr>output_channels = 1, input_channels = 1, coefficients = [fone F32]\<rparr>\<rparr>"

lemma demo_build: "build_route demo_host (fst demo_maps) demo_saved = Ok demo_route"
proof -
  have "gain_of demo_host 0 = fone F32" by (simp add: gain_of_def demo_host_def)
  moreover have "matrix_identity 1 = Ok \<lparr>output_channels = 1, input_channels = 1, coefficients = [fone F32]\<rparr>"
    by (simp add: matrix_identity_def matrix_new_Ok matrix_wf_def usize_bound_def isize_max_def
        fone_def fzero_def)
  ultimately show ?thesis
    by (simp add: build_route_def demo_saved_def demo_route_def demo_maps_def demo_model demo_simps)
qed

lemma demo_add: "add_route demo_route (fst demo_maps) = Ok (insert_route demo_route (fst demo_maps))"
proof -
  have "\<not> path_exists (fst demo_maps) demo_b demo_a"
    by (simp add: path_exists_def pushed_sinks_def demo_maps_def demo_model bt_values_def
        node_is_loopback_def)
  then show ?thesis
    by (simp add: add_route_def demo_route_def demo_saved_def demo_maps_def demo_model demo_simps
        insert_route_def fone_def)
qed

definition demo_connected :: "AudioDevice list system" where
  "demo_connected = snd (handle demo_host (connect_request demo_saved) demo_system)"

lemma demo_save:
  assumes "state_path s = ''/var/routes''" "faults s = []"
  obtains s' where "save_routes s = (Ok (), s')"
    "s' = s\<lparr>files := files s', faults := faults s'\<rparr>" "fault_free s'"
proof -
  have "fault_free s" "path_parent (state_path s) \<noteq> None" using assms by (simp_all add: fault_free_def)
  then obtain s' where s': "save_routes s = (Ok (), s')" "fault_free s'"
    by (rule save_routes_succeeds)
  show ?thesis using that save_routes_Ok(2) [OF s'(1)] s' by blast
qed

lemma demo_audio_route:
  "\<exists>r. traverse (audio_route (snd demo_maps)) [demo_route] = Ok [r]"
  by (simp add: audio_route_def demo_route_def demo_saved_def demo_maps_def demo_model demo_simps)

lemma demo_restart:
  assumes "endpoint_devices s = snd demo_maps" "bt_values (routes (graph s)) = [demo_route]"
    and "router s = None"
  shows "\<exists>r. restart_router demo_host s = (Ok (), s\<lparr>router := Some [r]\<rparr>)"
proof -
  obtain r where "traverse (audio_route (snd demo_maps)) [demo_route] = Ok [r]"
    using demo_audio_route by blast
  then have "restart_router demo_host s = (Ok (), s\<lparr>router := Some [r]\<rparr>)"
    using assms by (cases s) (simp add: restart_router_def andthen_def drop_router_def update_def
        with_state_def lift_res_def with_audio_def demo_host_def)
  then show ?thesis by blast
qed

lemma handle_connect [simp]: "handle h (connect_request sv) = connect_route h sv"
  by (cases sv) (simp add: connect_request_def)

lemma demo_connect:
  obtains s' where "handle demo_host (connect_request demo_saved) demo_system = (Ok ''connected r1'', s')"
proof -
  have i: "sr_id demo_saved = ''r1''" by (simp add: demo_saved_def)
  let ?g = "insert_route demo_route (fst demo_maps)"
  let ?s1 = "demo_system\<lparr>graph := ?g\<rparr>"
  let ?s2 = "?s1\<lparr>saved_routes := bt_insert ''r1'' demo_saved (saved_routes demo_system)\<rparr>"
  have add: "add_saved demo_host demo_saved demo_system = (Ok (), ?s1)"
    using demo_build demo_add by (simp add: add_saved_Ok) (simp add: demo_system_def)
  obtain s3 where s3: "save_routes ?s2 = (Ok (), s3)"
    "s3 = ?s2\<lparr>files := files s3, faults := faults s3\<rparr>"
    by (rule demo_save [of ?s2]) (simp_all add: demo_system_def demo_initial_def)
  have "graph s3 = ?g" "endpoint_devices s3 = snd demo_maps" "router s3 = None"
    by (subst s3(2), simp add: demo_system_def demo_initial_def)+
  moreover have "bt_values (routes ?g) = [demo_route]"
    by (simp add: bt_values_def demo_maps_def bt_empty_def)
  ultimately obtain r where "restart_router demo_host s3 = (Ok (), s3\<lparr>router := Some [r]\<rparr>)"
    using demo_restart [of s3] by auto
  then have "connect_route demo_host demo_saved demo_system = (Ok ''connected r1'', s3\<lparr>router := Some [r]\<rparr>)"
    using add s3(1) by (simp add: connect_route_def andthen_def with_state_def insert_saved_def update_def
        or_recover_def done_with_def i bt_contains_def)
      (simp add: demo_system_def demo_initial_def bt_empty_def)
  then show ?thesis using that by simp
qed

lemma demo_inv: "saved_inv demo_system" "durable demo_system" "mirrors demo_host demo_system"
  "history demo_system" "paired demo_system"
proof -
  show saved: "saved_inv demo_system" by (simp add: demo_system_def demo_initial_def)
  show "durable demo_system"
    by (simp add: durable_def demo_system_def demo_initial_def load_routes_def)
  show "mirrors demo_host demo_system"
    using start_up_mirrors [OF demo_start_up] by (simp add: demo_initial_def)
  show "history demo_system"
    using fresh_endpoints(1) [of demo_devices "fst demo_maps" "snd demo_maps"] demo_maps_ok
    by (simp add: demo_system_def)
  show "paired demo_system"
    using all_endpoints_paired [OF demo_maps_ok maps_paired_start order_refl]
    by (auto simp: paired_def demo_system_def)
qed

lemma demo_request_wf: "request_wf (connect_request demo_saved)"
  by (simp add: connect_request_def demo_saved_def utf8_ascii byte_def)

section \<open>Properties\<close>

text \<open>C2: The daemon never feeds back. Whatever is in the state file, whatever devices Core Audio lists
  at any time, whichever file operations fail, and whatever requests arrive in whatever order, the
  graph satisfies its invariant and has no cycle of loopback devices after each of them, also after
  start-up or a request that failed half way.\<close>

theorem daemon_never_feeds_back:
  assumes "daemon_load path fs flts c = Ok s"
  shows "let g = graph (fold (\<lambda>q s. snd (handle h q s)) qs (snd (start_up h s)))
    in graph_inv g \<and> acyclic (feedback g)"
proof -
  have "history s" using assms graph_history.start by (auto simp: daemon_load_def res_simps)
  then have "history (snd (start_up h s))" using history.keeps_start_up by (auto simp: preserves_def)
  then show ?thesis
    using graph_history_inv [OF history.keeps_requests] by (simp add: Let_def)
qed

theorem daemon_never_feeds_back_witness:
  "graph_inv (graph demo_system) \<and> acyclic (feedback (graph demo_system))
    \<and> bt_values (endpoints (graph demo_system)) \<noteq> []"
proof -
  have "bt_values (endpoints (graph demo_system)) \<noteq> []"
    by (simp add: demo_system_def demo_maps_def bt_values_def)
  then show ?thesis
    using daemon_never_feeds_back [OF demo_load, of demo_host "[]"] by (simp add: demo_start_up Let_def)
qed

text \<open>C11: Saving replaces the state file atomically. Under every schedule of faults of the file operations
  \<open>save_routes\<close> either succeeds and leaves exactly the rendering of the saved routes, or it fails and,
  unless the state file is its own temporary file, leaves the old contents; it touches no other file
  than these two and nothing else of the state; without faults it succeeds.\<close>

theorem save_routes_atomic:
  "case save_routes s of (r, s') \<Rightarrow> r \<noteq> Panic
    \<and> (r = Ok () \<longrightarrow> files s' (state_path s) = Some (state_text (saved_routes s)))
    \<and> (r \<noteq> Ok () \<and> with_extension_tmp (state_path s) \<noteq> state_path s \<longrightarrow>
        files s' (state_path s) = files s (state_path s))
    \<and> (\<forall>p. p \<noteq> state_path s \<longrightarrow> p \<noteq> with_extension_tmp (state_path s) \<longrightarrow> files s' p = files s p)
    \<and> s' = s\<lparr>files := files s', faults := faults s'\<rparr>
    \<and> (fault_free s \<and> path_parent (state_path s) \<noteq> None \<longrightarrow> r = Ok ())"
proof -
  obtain r s' where r: "save_routes s = (r, s')" by (cases "save_routes s")
  have "r = Ok ()" if "fault_free s" "path_parent (state_path s) \<noteq> None"
    using save_routes_succeeds [OF that] r by (metis fst_conv)
  then show ?thesis
    using save_routes_spec [of s] r by (auto simp: replaced_def only_files_def)
qed

theorem save_routes_atomic_witness:
  "files (snd (save_routes (demo_system\<lparr>faults := [None, None, Some (OtherIo ''full'', 0)]\<rparr>))) ''/var/routes''
    = None
   \<and> files (snd (save_routes demo_system)) ''/var/routes'' = Some []"
proof -
  let ?s = "demo_system\<lparr>faults := [None, None, Some (OtherIo ''full'', 0)]\<rparr>"
  have path: "state_path demo_system = ''/var/routes''" "faults demo_system = []"
    by (simp_all add: demo_system_def demo_initial_def)
  have "fst (save_routes ?s) \<noteq> Ok ()"
    by (simp add: save_routes_def with_state_def demo_system_def demo_initial_def
        andthen_def create_dir_all_def open_truncated_def sync_all_def file_op_def next_fault_def
        bt_values_def bt_empty_def done_with_def Let_def)
  moreover have "fault_free demo_system" "files demo_system ''/var/routes'' = None"
    "state_text (saved_routes demo_system) = []"
    by (simp_all add: demo_system_def demo_initial_def state_text_def bt_values_def bt_empty_def fault_free_def)
  ultimately show ?thesis
    using save_routes_atomic [of ?s] save_routes_atomic [of demo_system] path by (auto split: prod.splits)
qed

text \<open>
  A state file whose extension is \<open>tmp\<close> is its own temporary file: the save opens it with \<open>truncate\<close>, and
  when the next operation fails, the routes of before are gone with it.
\<close>

lemma save_in_place_loses_routes:
  assumes "state_path s = ''/var/routes.tmp''" "faults s = None # None # Some (e, 0) # fs"
  shows "\<exists>s'. save_routes s = (Err (DaemonIo e), s') \<and> files s' (state_path s) = Some []"
  using assms
  by (cases "bt_values (saved_routes s)")
    (simp_all add: save_routes_def with_state_def Let_def andthen_def create_dir_all_def open_truncated_def
      sync_all_def write_text_def append_to_def file_op_def next_fault_def done_with_def)

text \<open>C12: What the daemon acknowledges survives a restart. In every history of the daemon from its start,
  with any outcome of the requests before, a connection or disconnection that is answered with success
  adds or removes just its route, and loading the state file the daemon leaves behind gives
  exactly the routes it has saved now, with no route and no session state besides; every other
  request leaves the saved routes and the state file as they are.\<close>

theorem acknowledged_requests_survive_restart:
  assumes "daemon_load path fs flts c0 = Ok s0"
    and "s = fold (\<lambda>q s. snd (handle h q s)) qs (snd (start_up h s0))" "list_all request_wf (q # qs)"
    and "handle h q s = (Ok m, s')"
  shows "let reloads = (daemon_load path (files s') [] c = Ok
      \<lparr>graph = graph_default, saved_routes = saved_routes s', endpoint_devices = bt_empty, router = None,
       state_path = path, files = files s', faults = [], audio = c\<rparr>)
    in case q of
      Connect i src snk g mtx \<Rightarrow> reloads \<and> saved_routes s' = bt_insert i \<lparr>sr_id = i, sr_source = src, sr_sink = snk,
        sr_gain_millidb = g, sr_matrix_millionths = mtx\<rparr> (saved_routes s)
    | Disconnect i \<Rightarrow> reloads \<and> saved_routes s' = bt_remove i (saved_routes s)
    | _ \<Rightarrow> saved_routes s' = saved_routes s \<and> files s' = files s"
proof -
  obtain r t where t: "start_up h s0 = (r, t)" by (metis surj_pair)
  have "saved_inv s0" "state_path s0 = path"
    using assms(1) load_routes_ok by (auto simp: daemon_load_def res_simps split: option.splits list.splits)
  then have "saved_inv t" "state_path t = path"
    using preservesD [OF saved.keeps_start_up _ t] preservesD [OF at_path.keeps_start_up _ t] by auto
  then have s: "saved_inv s" "state_path s = path"
    using saved_requests [of qs t h] at_path.keeps_requests [of t path h qs] assms(2,3) t by simp_all
  have inv: "saved_inv s'" using preservesD [OF saved_handle s(1) assms(4)] assms(3) by simp
  have reload: "daemon_load path (files s') [] c = Ok \<lparr>graph = graph_default, saved_routes = saved_routes s',
      endpoint_devices = bt_empty, router = None, state_path = path, files = files s', faults = [], audio = c\<rparr>"
    if "files s' (state_path s) = Some (state_text (saved_routes s'))"
    using load_Ok [OF load_state_text [OF inv, of "files s'" path] refl] that s(2) by simp
  have other: "saved_routes s' = saved_routes s \<and> files s' = files s"
    if "\<forall>i a b g m. q \<noteq> Connect i a b g m" "\<forall>i. q \<noteq> Disconnect i"
    using stored_by [OF stored.keeps_handle [OF that] assms(4)] by simp
  show ?thesis
  proof (cases q)
    case (Connect i src snk g mtx)
    then show ?thesis using connect_writes(1,2) [OF assms(4) [unfolded Connect handle.simps]] reload by (simp add: Let_def)
  next
    case (Disconnect i)
    then show ?thesis using disconnect_writes(1,2) [OF assms(4) [unfolded Disconnect handle.simps]] reload by (simp add: Let_def)
  qed (use other in \<open>simp_all add: Let_def\<close>)
qed

theorem acknowledged_requests_survive_restart_witness:
  "\<exists>s'. handle demo_host (connect_request demo_saved) demo_system = (Ok ''connected r1'', s')
    \<and> is_ok (daemon_load ''/var/routes'' (files s') [] ())
    \<and> saved_routes s' = bt_insert ''r1'' demo_saved (saved_routes demo_system)"
proof -
  obtain s' where s': "handle demo_host (connect_request demo_saved) demo_system = (Ok ''connected r1'', s')"
    by (rule demo_connect)
  have sv: "connect_request demo_saved = Connect ''r1'' (sr_source demo_saved) (sr_sink demo_saved) 0 []"
    "demo_saved = \<lparr>sr_id = ''r1'', sr_source = sr_source demo_saved, sr_sink = sr_sink demo_saved,
      sr_gain_millidb = 0, sr_matrix_millionths = []\<rparr>" by (simp_all add: connect_request_def demo_saved_def)
  show ?thesis
    using acknowledged_requests_survive_restart [OF demo_load, of demo_system demo_host "[]"
        "connect_request demo_saved" _ s' "()"] s' demo_request_wf
    by (simp add: demo_start_up sv(1) is_ok_iff Let_def sv(2) [symmetric] del: handle_connect request_wf.simps)
qed

text \<open>C10: A connection takes effect everywhere or not at all. When the request succeeds, the identifier
  was new, the route was built from the request and accepted by the graph, and then the graph has
  exactly this route more, the saved routes and the state file have exactly this entry more, and the
  router plays exactly the routes of the graph.\<close>

theorem connect_takes_effect:
  assumes "handle h (connect_request sv) s = (Ok m, s')"
  shows "m = ''connected '' @ sr_id sv \<and> bt_get (saved_routes s) (sr_id sv) = None
    \<and> (\<exists>r. build_route h (graph s) sv = Ok r \<and> add_route r (graph s) = Ok (graph s')
        \<and> graph s' = (graph s)\<lparr>routes := bt_insert (RouteId (sr_id sv)) r (routes (graph s))\<rparr>)
    \<and> saved_routes s' = bt_insert (sr_id sv) sv (saved_routes s)
    \<and> files s' (state_path s) = Some (state_text (saved_routes s'))
    \<and> (\<exists>rs. traverse (audio_route (endpoint_devices s)) (bt_values (routes (graph s'))) = Ok rs
        \<and> router s' = (if rs = [] then None else Some rs))"
proof -
  have c: "connect_route h sv s = (Ok m, s')" using assms by simp
  obtain r where r: "build_route h (graph s) sv = Ok r" "add_route r (graph s) = Ok (graph s')"
    "graph s' = insert_route r (graph s)" "bt_get (saved_routes s) (sr_id sv) = None"
    "endpoint_devices s' = endpoint_devices s" "playing s'" "m = ''connected '' @ sr_id sv"
    by (rule connect_effect [OF c])
  moreover have "graph s' = (graph s)\<lparr>routes := bt_insert (RouteId (sr_id sv)) r (routes (graph s))\<rparr>"
    using r(3) build_route_id [OF r(1)] by (simp add: insert_route_def)
  ultimately show ?thesis
    using connect_writes [OF c] unfolding playing_def by auto
qed

theorem connect_takes_effect_witness:
  "\<exists>s' r. handle demo_host (connect_request demo_saved) demo_system = (Ok ''connected r1'', s')
    \<and> add_route r (graph demo_system) = Ok (graph s')"
proof -
  obtain s' where s': "handle demo_host (connect_request demo_saved) demo_system = (Ok ''connected r1'', s')"
    by (rule demo_connect)
  then show ?thesis using connect_takes_effect [OF s'] by blast
qed

text \<open>A connection that the graph refuses changes nothing: when the route cannot be built or added
  (unknown endpoint, wrong matrix, cycle, bad gain) or its identifier is in use, the answer is an
  error and the whole state, with the graph, the files, the router and the audio system, is as
  before.\<close>

theorem refused_connection_changes_nothing:
  assumes "mirrors h s" "saved_ok (saved_routes s)"
    and "build_route h (graph s) sv \<noteq> Panic"
    and "(\<exists>e. build_route h (graph s) sv = Err e)
      \<or> (\<exists>r e. build_route h (graph s) sv = Ok r \<and> add_route r (graph s) = Err e)
      \<or> bt_get (saved_routes s) (sr_id sv) \<noteq> None"
  shows "\<exists>e. handle h (connect_request sv) s = (Err e, s)"
proof (cases "build_route h (graph s) sv")
  case (Ok r)
  have "bt_get (routes (graph s)) (RouteId (sr_id sv)) \<noteq> None" if "bt_get (saved_routes s) (sr_id sv) \<noteq> None"
    using assms(1) that unfolding mirrors_def by (auto dest!: spec [of _ "sr_id sv"])
  then have "\<exists>e. add_route r (graph s) = Err e"
    using assms(4) Ok build_route_id [OF Ok] by (auto simp: add_route_def bt_contains_def)
  then show ?thesis
    using Ok by (auto simp: connect_route_def add_saved_def graph_add_route_def with_state_def andthen_def
        lift_res_def)
qed (use assms(3) in \<open>auto simp: connect_route_def add_saved_def with_state_def andthen_def lift_res_def\<close>)

theorem refused_connection_changes_nothing_witness:
  "\<exists>e. handle demo_host (connect_request (demo_saved\<lparr>sr_source := ''audio:gone:input''\<rparr>)) demo_system
    = (Err e, demo_system)"
proof -
  let ?sv = "demo_saved\<lparr>sr_source := ''audio:gone:input''\<rparr>"
  have "EndpointId_new ''audio:gone:input'' = Ok (EndpointId ''audio:gone:input'')"
    by (simp add: EndpointId_new_def id_byte_def is_ascii_alphanumeric_def is_ascii_digit_def byte_def)
  then have "\<exists>e. build_route demo_host (graph demo_system) ?sv = Err e"
    by (simp add: build_route_def demo_saved_def demo_system_def demo_maps_def demo_model demo_simps)
  then show ?thesis
    using refused_connection_changes_nothing [OF demo_inv(3,1), of ?sv] by auto
qed

text \<open>A run in which every request was acknowledged or left the state alone.\<close>

fun acknowledged :: "'c host \<Rightarrow> Request list \<Rightarrow> 'c system \<Rightarrow> 'c system \<Rightarrow> bool" where
  "acknowledged h [] s s' = (s' = s)"
| "acknowledged h (q # qs) s s' =
     (let (r, s1) = handle h q s in (is_ok r \<or> s1 = s) \<and> acknowledged h qs s1 s')"

lemma acknowledged_mirrors:
  "acknowledged h qs s s' \<Longrightarrow> list_all request_wf qs \<Longrightarrow>
     saved_inv s \<Longrightarrow> mirrors h s \<Longrightarrow> history s \<Longrightarrow> durable s \<Longrightarrow>
     mirrors h s' \<and> saved_inv s' \<and> durable s'"
proof (induction qs arbitrary: s)
  case (Cons q qs)
  obtain r s1 where r: "handle h q s = (r, s1)" by (cases "handle h q s")
  have rest: "acknowledged h qs s1 s'" "is_ok r \<or> s1 = s" using Cons.prems(1) r by auto
  show ?case
  proof (cases "s1 = s")
    case True
    then show ?thesis using Cons.IH [OF rest(1)] Cons.prems by simp
  next
    case False
    then obtain m where m: "handle h q s = (Ok m, s1)" using rest(2) r by (auto simp: is_ok_iff)
    have wf: "request_wf q" using Cons.prems(2) by simp
    have "mirrors h s1" "saved_inv s1" "durable s1" "history s1"
      using handle_mirrors [OF m Cons.prems(3,4,5)] handle_durable [OF Cons.prems(3) wf Cons.prems(6) m]
        preservesD [OF history.keeps_handle Cons.prems(5) m] by auto
    then show ?thesis using Cons.IH [OF rest(1)] Cons.prems(2) by simp
  qed
qed simp

text \<open>C13: The graph mirrors the saved routes and the file. After a successful start-up, and after every
  further request that was acknowledged or left the state alone, each saved route is in the graph,
  as built from its entry, the graph has no other route, and the state file reads back as the saved
  routes.\<close>

theorem graph_mirrors_saved_routes:
  assumes "daemon_load path fs flts c = Ok s0" "start_up h s0 = (Ok (), s)"
    and "acknowledged h qs s s'" "list_all request_wf qs"
  shows "(\<forall>i. case bt_get (saved_routes s') i of
      None \<Rightarrow> bt_get (routes (graph s')) (RouteId i) = None
    | Some sv \<Rightarrow> \<exists>r. build_route h (graph s') sv = Ok r \<and> bt_get (routes (graph s')) (RouteId i) = Some r)
    \<and> load_routes (state_path s') (files s') = Ok (saved_routes s')"
proof -
  have "history s0" "durable s0"
    using assms(1) graph_history.start
    by (auto simp: daemon_load_def durable_def load_routes_def res_simps split: option.splits list.splits)
  then have s0: "history s0" "durable s0" "saved_inv s0"
    using load_routes_ok by (auto simp: durable_def)
  note kept_by_start = stored_by [OF stored.keeps_start_up assms(2)]
  have "mirrors h s" using start_up_mirrors [OF assms(2) s0(3)] by simp
  moreover have "history s" using preservesD [OF history.keeps_start_up s0(1) assms(2)] .
  ultimately have "mirrors h s' \<and> saved_inv s' \<and> durable s'"
    using s0 kept_by_start
    by (intro acknowledged_mirrors [OF assms(3,4)]) (simp_all add: durable_def)
  then show ?thesis by (simp add: mirrors_def durable_def)
qed

theorem graph_mirrors_saved_routes_witness:
  "\<exists>s' r. handle demo_host (connect_request demo_saved) demo_system = (Ok ''connected r1'', s')
    \<and> bt_get (routes (graph s')) (RouteId ''r1'') = Some r
    \<and> load_routes (state_path s') (files s') = Ok (saved_routes s')"
proof -
  obtain s' where s': "handle demo_host (connect_request demo_saved) demo_system = (Ok ''connected r1'', s')"
    by (rule demo_connect)
  have run: "acknowledged demo_host [connect_request demo_saved] demo_system s'"
    using s' by (simp add: is_ok_iff del: handle_connect)
  note mirror = graph_mirrors_saved_routes [OF demo_load demo_start_up run]
  have "saved_routes s' = bt_insert ''r1'' demo_saved (saved_routes demo_system)"
    using connect_writes(2) [of demo_host demo_saved demo_system] s' by (simp add: demo_saved_def)
  then have "bt_get (saved_routes s') ''r1'' = Some demo_saved"
    by (simp add: demo_system_def demo_initial_def bt_empty_def)
  then show ?thesis
    using conjunct1 [OF mirror, THEN spec, of "''r1''"] mirror s' demo_request_wf by auto
qed

text \<open>A connection served by the daemon, as the client sees it.\<close>

definition fresh_sink :: byte_sink where
  "fresh_sink = \<lparr>written = [], room = None, write_fault = UnexpectedEof\<rparr>"

definition served :: "'c host \<Rightarrow> 'c system \<Rightarrow> byte_sink \<Rightarrow> (bool, ProtocolError) res \<times> byte_sink \<times> 'c system" where
  "served h s w = serve_connection h \<lparr>pending = written w, read_fault = None\<rparr> fresh_sink s"

definition daemon_reply :: "'c host \<Rightarrow> 'c system \<Rightarrow> byte_sink \<Rightarrow> byte_source" where
  "daemon_reply h s w = \<lparr>pending = written (fst (snd (served h s w))), read_fault = None\<rparr>"

lemma served_request:
  assumes "request_wf q" "length (request_encode q) \<le> MAX_MESSAGE_BYTES"
    and "handle h q s = (r, s1)" "response_of r = Ok resp"
    and "length (response_encode resp) \<le> MAX_MESSAGE_BYTES"
  shows "served h s (fresh_sink\<lparr>written := request.frame q\<rparr>) =
    (Ok (q = Shutdown), fresh_sink\<lparr>written := response.frame resp\<rparr>, s1)"
proof -
  have "read_message request_decode \<lparr>pending = request.frame q, read_fault = None\<rparr>
      = (Ok q, \<lparr>pending = [], read_fault = None\<rparr>)"
    using request.read_frame [OF assms(1,2), of _ "[]"] by simp
  moreover have "write_message response_encode resp fresh_sink
      = (Ok (), fresh_sink\<lparr>written := response.frame resp\<rparr>)"
    using response.write_ok [OF assms(5)] by (simp add: fresh_sink_def)
  ultimately show ?thesis
    using assms(3,4) by (simp add: served_def serve_connection_def)
qed

text \<open>C14: The client gets the daemon's answer. When the arguments of \<open>vcablectl\<close> parse to a request and
  the messages fit, then the request crosses the socket, the daemon handles it exactly once, goes on
  unless it was a shutdown, and the client prints the daemon's message, or fails with the code and
  the text of the daemon's error.\<close>

theorem client_gets_the_answer:
  assumes "parse_args as = Ok (Send path q)"
    and "request_wf q" "length (request_encode q) \<le> MAX_MESSAGE_BYTES"
    and "handle h q s = (r, s1)" "response_of r = Ok resp"
    and "response_wf resp" "length (response_encode resp) \<le> MAX_MESSAGE_BYTES"
  shows "run_client (\<lambda>p. Ok fresh_sink) (daemon_reply h s) as = (case r of
      Ok m \<Rightarrow> Ok m
    | Err e \<Rightarrow> Err (error_code e @ '': '' @ show_daemon_error e)
    | Panic \<Rightarrow> Panic)
    \<and> (\<exists>out. served h s (snd (write_message request_encode q fresh_sink)) = (Ok (q = Shutdown), out, s1))"
proof -
  have w: "write_message request_encode q fresh_sink = (Ok (), fresh_sink\<lparr>written := request.frame q\<rparr>)"
    using request.write_ok [OF assms(3)] by (simp add: fresh_sink_def)
  note served = served_request [OF assms(2,3,4,5,7)]
  have "daemon_reply h s (fresh_sink\<lparr>written := request.frame q\<rparr>)
      = \<lparr>pending = response.frame resp, read_fault = None\<rparr>"
    by (simp add: daemon_reply_def served)
  moreover have "read_message response_decode \<lparr>pending = response.frame resp, read_fault = None\<rparr>
      = (Ok resp, \<lparr>pending = [], read_fault = None\<rparr>)"
    using response.read_frame [OF assms(6,7), of _ "[]"] by simp
  ultimately have "run_client (\<lambda>p. Ok fresh_sink) (daemon_reply h s) as = (case resp of
      Response_Ok m \<Rightarrow> Ok m | Response_Error code m \<Rightarrow> Err (code @ '': '' @ m))"
    by (cases resp) (simp_all add: run_client_def assms(1) exchange_def w)
  then show ?thesis
    using served w assms(5) by (cases r) (auto simp: response_of_def)
qed

theorem client_gets_the_answer_witness:
  "run_client (\<lambda>p. Ok fresh_sink) (daemon_reply demo_host demo_system) [''--socket'', ''s'', ''ping''] = Ok ''pong''"
proof -
  have "parse_args [''--socket'', ''s'', ''ping''] = Ok (Send ''s'' Ping)"
    by (simp add: command_args_def)
  moreover have "handle demo_host Ping demo_system = (Ok ''pong'', demo_system)"
    by (simp add: done_with_def)
  moreover have "response_wf (Response_Ok ''pong'')" by (simp add: utf8_ascii byte_def)
  moreover have "length (response_encode (Response_Ok ''pong'')) \<le> MAX_MESSAGE_BYTES"
    by (simp add: MAX_MESSAGE_BYTES_def escape_allowed_def is_ascii_alphanumeric_def byte_def)
  ultimately show ?thesis
    using client_gets_the_answer [of "[''--socket'', ''s'', ''ping'']" "''s''" Ping demo_host demo_system]
    by (simp add: response_of_def MAX_MESSAGE_BYTES_def)
qed

section \<open>Where the rollback is incomplete\<close>

text \<open>
  When the state file cannot be written, \<open>connect\<close> takes the route out of the saved routes but not out
  of the graph: the request is refused, yet the graph keeps the route. A second attempt, with the
  disk working again, is then refused because the route exists.
\<close>

lemma failed_save_leaves_the_route:
  assumes "faults s = Some (e, n) # fs" "path_parent (state_path s) = Some p"
    and "saved_routes s = bt_empty" "add_saved h sv s = (Ok (), s\<lparr>graph := g\<rparr>)"
  shows "handle h (connect_request sv) s = (Err (DaemonIo e), s\<lparr>graph := g, faults := fs\<rparr>)"
  using assms
  by (cases s) (simp add: connect_route_def andthen_def with_state_def insert_saved_def update_def
      or_recover_def save_routes_def Let_def create_dir_all_def file_op_def next_fault_def bt_contains_def
      remove_saved_def restore_routes_def bt_values_def bt_empty_def done_with_def fail_def)

text \<open>
  Endpoint identifiers do not determine the device: the escape byte \<open>_\<close> of \<open>endpoint_id\<close> is itself a
  plain byte, so a device whose identifier contains \<open>_20\<close> collides with one that has a space there.
\<close>

lemma endpoint_ids_collide: "endpoint_id ''a b'' sfx = endpoint_id ''a_20b'' sfx"
proof -
  have "encode_uid ''a b'' = encode_uid ''a_20b''" by code_simp
  then show ?thesis by (simp add: endpoint_id_def)
qed

end
