(* ===== verification/ConnectedAudio.thy ===== *)
theory ConnectedAudio
  imports DaemonAudio DaemonTheorems
begin

text \<open>
  From a request to the sound: what a successful \<open>connect\<close> starts. The route that the daemon builds from
  the request is one of the routes of a router that Core Audio runs, and carries the frames of its
  source device to its sink device in every sequence of callbacks.
\<close>

section \<open>The new route in the router\<close>

lemma traverse_all2: "traverse f xs = Ok ys \<Longrightarrow> list_all2 (\<lambda>x y. f x = Ok y) xs ys"
  by (induction xs arbitrary: ys) (auto simp: res_simps)

lemma traverse_member:
  assumes "traverse f xs = Ok ys" "x \<in> set xs"
  obtains i where "i < length ys" "f x = Ok (ys ! i)"
  using traverse_all2 [OF assms(1)] assms(2) by (auto simp: in_set_conv_nth list_all2_conv_all_nth)

lemma insert_value: "v \<in> set (bt_values (bt_insert k v m))"
proof -
  have "(k, v) \<in> set (bt_insert k v m)" by (induction m) auto
  then show ?thesis by (force simp: bt_values_def)
qed

lemma build_route_ends:
  "build_route h g sv = Ok \<rho> \<Longrightarrow> endpoint_str (route_source \<rho>) = sr_source sv
     \<and> endpoint_str (route_sink \<rho>) = sr_sink sv \<and> gain \<rho> = gain_of h (sr_gain_millidb sv)"
  by (auto simp: build_route_def res_simps EndpointId_new_def split: if_splits)

text \<open>A restart that leaves a router has started it on Core Audio, after the old one was given back.\<close>

lemma restart_starts:
  assumes "restart_router (core_audio_host h base) s = (Ok (), s')" "router s' = Some rs" "audio_inv m s"
  obtains a r0 a' where "router_start h rs a = (Ok r0, a')" "resources_of a = Some m" "audio s' = (a', Some r0)"
proof -
  let ?h = "core_audio_host h base"
  obtain s1 where d: "drop_router ?h s = (Ok (), s1)"
    and r: "andthen (lift_res (traverse (audio_route (endpoint_devices s1)) (bt_values (routes (graph s1)))))
      (\<lambda>rs. if rs = [] then done_with ()
        else andthen (with_audio (start_devices h rs)) (\<lambda>_. update (\<lambda>s. s\<lparr>router := Some rs\<rparr>))) s1
      = (Ok (), s')"
    using assms(1) by (fastforce simp: restart_router_def with_state_def andthen_Ok [of "drop_router ?h"] cong: if_cong)
  have n: "router s1 = None" "audio_inv m s1"
    using drop_owned(2) [OF assms(3) d] preservesD [OF drop_owned(1) assms(3) d] by simp_all
  then obtain a where a: "audio s1 = (a, None)" "resources_of a = Some m"
    by (cases "audio s1") (auto simp: owned_def router_contexts_def)
  have st: "fst (start_devices h rs (audio s1)) = Ok ()" "audio s' = snd (start_devices h rs (audio s1))"
    using r assms(2) n(1) by (auto simp: act_simps update_def split: if_splits)
  then obtain r0 a' where "router_start h rs a = (Ok r0, a')" "audio s' = (a', Some r0)"
    using a(1) by (auto simp: start_devices_def split: prod.splits res.splits)
  then show thesis using that a(2) by blast
qed

section \<open>A connection carries audio\<close>

text \<open>C5: A successful \<open>connect\<close> is heard. After any requests, callbacks and changes of Core Audio, a
  connection that the daemon acknowledges has started a router in which one route \<open>i\<close> is the one asked
  for: from the device behind the source endpoint to the device behind the sink endpoint, with the gain
  of the request. As long as the devices deliver lists with the channels of their routes, in every sequence
  of callbacks from then on the frames that the source device takes in for \<open>i\<close> come out at the sink device
  in order, none lost or repeated on the way. On lists of any other format, as a device delivers them
  after a change of its format, the order is lost (\<open>format_change_splits_a_frame\<close>), but in every sequence of
  callbacks on any valid lists no callback fails.\<close>

theorem connected_route_carries_audio:
  assumes "router s0 = None" "audio s0 = (a0, None)" "resources_of a0 = Some nothing_held"
    and "daemon_runs h base s0 s"
    and "handle (core_audio_host h base) (connect_request sv) s = (Ok answer, s')"
  shows "\<exists>a r0 rs i src snk. audio s' = (a, Some r0) \<and> router s' = Some rs \<and> i < length rs
    \<and> bt_get (endpoint_devices s) (sr_source sv) = Some src \<and> source_device_id (rs ! i) = dev_object_id src
    \<and> bt_get (endpoint_devices s) (sr_sink sv) = Some snk \<and> sink_device_id (rs ! i) = dev_object_id snk
    \<and> route_gain (rs ! i) = gain_of (core_audio_host h base) (sr_gain_millidb sv)
    \<and> (\<forall>fed out r. router_runs r0 fed out r \<longrightarrow>
        (\<exists>x \<in> set (contexts r). ctx_device x = dev_object_id src \<and> route_out i (rs ! i) \<in> set (outgoing x))
      \<and> (\<exists>y \<in> set (contexts r). \<exists>q \<in> set (incoming y). ctx_device y = dev_object_id snk \<and> in_ring q = i
          \<and> carries (fed i) (out i) (head_of q (rings (store r) ! i))))
    \<and> (\<forall>r. router_calls r0 r \<longrightarrow> (\<forall>k inp outp. k < length (contexts r) \<and> valid_list inp \<and> valid_list outp \<longrightarrow>
        (\<exists>outp' r'. router_callback k inp outp r = ret (outp', r'))))"
proof -
  let ?h = "core_audio_host h base"
  have "resources_wf nothing_held" by (simp add: resources_wf_def nothing_held_def)
  then have inv: "audio_inv nothing_held s"
    using assms(1-3) by (intro daemon_runs_inv [OF assms(4)]) (simp add: owned_def router_contexts_def)
  have c: "connect_route ?h sv s = (Ok answer, s')" using assms(5) by simp
  obtain s1 s2 where steps: "add_saved ?h sv s = (Ok (), s1)"
    "save_routes (s1\<lparr>saved_routes := bt_insert (sr_id sv) sv (saved_routes s1)\<rparr>) = (Ok (), s2)"
    "restart_router ?h s2 = (Ok (), s')" by (rule connect_route_Ok [OF c])
  have "audio_inv nothing_held s1" by (rule preservesD [OF daemon_audio.add_saved inv steps(1)])
  then have "audio_inv nothing_held (s1\<lparr>saved_routes := bt_insert (sr_id sv) sv (saved_routes s1)\<rparr>)" by simp
  then have inv2: "audio_inv nothing_held s2" by (rule preservesD [OF daemon_audio.save _ steps(2)])
  obtain \<rho> where \<rho>: "build_route ?h (graph s) sv = Ok \<rho>" "graph s' = insert_route \<rho> (graph s)"
    "endpoint_devices s' = endpoint_devices s" "playing s'"
    by (rule connect_effect [OF c])
  have new: "\<rho> \<in> set (bt_values (routes (graph s')))" by (simp add: \<rho>(2) insert_route_def insert_value)
  obtain rs where rs: "traverse (audio_route (endpoint_devices s)) (bt_values (routes (graph s'))) = Ok rs"
    "router s' = (if rs = [] then None else Some rs)" using \<rho>(3,4) by (auto simp: playing_def)
  obtain i where i: "i < length rs" "audio_route (endpoint_devices s) \<rho> = Ok (rs ! i)"
    by (rule traverse_member [OF rs(1) new])
  then have router: "router s' = Some rs" using rs(2) by auto
  obtain a r0 a' where st: "router_start h rs a = (Ok r0, a')" "resources_of a = Some nothing_held"
    "audio s' = (a', Some r0)" by (rule restart_starts [OF steps(3) router inv2])
  note running = running_router [OF started_inv [OF st(1,2)] started_carries [OF st(1,2)]]
    and returns = running_returns [OF started_inv [OF st(1,2)]]
  obtain src snk where ends: "bt_get (endpoint_devices s) (sr_source sv) = Some src"
    "bt_get (endpoint_devices s) (sr_sink sv) = Some snk"
    "source_device_id (rs ! i) = dev_object_id src" "sink_device_id (rs ! i) = dev_object_id snk"
    "route_gain (rs ! i) = gain_of ?h (sr_gain_millidb sv)"
    using i(2) build_route_ends [OF \<rho>(1)] by (auto simp: audio_route_def res_simps dest!: sym [of _ "rs ! i"])
  show ?thesis
  proof (intro exI conjI)
    show "\<forall>fed out r. router_runs r0 fed out r \<longrightarrow>
        (\<exists>x \<in> set (contexts r). ctx_device x = dev_object_id src \<and> route_out i (rs ! i) \<in> set (outgoing x))
      \<and> (\<exists>y \<in> set (contexts r). \<exists>q \<in> set (incoming y). ctx_device y = dev_object_id snk \<and> in_ring q = i
          \<and> carries (fed i) (out i) (head_of q (rings (store r) ! i)))"
      using running(1,2) [OF _ i(1)] ends(3,4) by fastforce
    show "\<forall>r. router_calls r0 r \<longrightarrow> (\<forall>k inp outp. k < length (contexts r) \<and> valid_list inp \<and> valid_list outp \<longrightarrow>
        (\<exists>outp' r'. router_callback k inp outp r = ret (outp', r')))" using returns by blast
  qed (use st(3) router i(1) ends in auto)
qed

theorem connected_route_carries_audio_witness:
  "\<exists>s s' a r0. daemon_runs demo_hal loop_base (loop_initial\<lparr>saved_routes := bt_empty\<rparr>) s
    \<and> handle loop_host (connect_request loop_saved) s = (Ok ''connected r'', s')
    \<and> audio s' = (a, Some r0) \<and> (\<exists>y \<in> set (contexts r0). ctx_device y = 7)"
proof -
  define s0 where "s0 = loop_initial\<lparr>saved_routes := bt_empty\<rparr>"
  define s where "s = s0\<lparr>graph := fst loop_maps, endpoint_devices := snd loop_maps, audio := (loop_listed, None)\<rparr>"
  have "refresh_endpoints loop_host s0 = (Ok (), s)"
    unfolding s_def by (rule loop_refresh) (simp add: s0_def loop_initial_def)
  moreover have "restore_routes loop_host s = (Ok (), s)"
    by (simp add: restore_routes_def with_state_def s_def s0_def bt_values_def bt_empty_def done_with_def)
  moreover have "restart_router loop_host s = (Ok (), s)"
    by (simp add: restart_router_def drop_router_def update_def andthen_def with_state_def lift_res_def s_def s0_def
        loop_initial_def loop_maps_def bt_values_def bt_empty_def done_with_def)
  ultimately have "start_up loop_host s0 = (Ok (), s)" by (simp add: start_up_def andthen_def)
  then have run: "daemon_runs demo_hal loop_base s0 s" using daemon_runs.started by (metis snd_conv)
  define s1 where "s1 = s\<lparr>graph := insert_route loop_route (fst loop_maps)\<rparr>"
  define s2 where "s2 = s1\<lparr>saved_routes := bt_insert ''r'' loop_saved bt_empty\<rparr>"
  have add: "add_saved loop_host loop_saved s = (Ok (), s1)"
    unfolding s1_def by (rule loop_add_saved) (simp add: s_def)
  have "fault_free s2" by (simp add: fault_free_def s2_def s1_def s_def s0_def loop_initial_def)
  moreover have "path_parent (state_path s2) \<noteq> None" by (simp add: s2_def s1_def s_def s0_def loop_initial_def)
  ultimately obtain s3 where save: "save_routes s2 = (Ok (), s3)" by (rule save_routes_succeeds)
  have s3: "s3 = s2\<lparr>files := files s3, faults := faults s3\<rparr>" using save_routes_Ok(2) [OF save] by simp
  have "router s3 = router s2" "audio s3 = audio s2" by (subst s3, simp)+
  note same = this only_files_stored [OF s3]
  obtain a r where "restart_router loop_host s3 = (Ok (), s3\<lparr>audio := (a, Some r), router := Some [demo_loop]\<rparr>)"
    using loop_restart [of s3] same by (auto simp: s2_def s1_def s_def s0_def loop_initial_def)
  then have conn: "\<exists>s'. handle loop_host (connect_request loop_saved) s = (Ok ''connected r'', s')"
    using add save
    by (simp add: connect_route_def andthen_def with_state_def insert_saved_def update_def or_recover_def
        bt_contains_def done_with_def s2_def s1_def s_def s0_def loop_saved_def bt_empty_def)
  then obtain s' where s': "handle loop_host (connect_request loop_saved) s = (Ok ''connected r'', s')" by blast
  have i: "router s0 = None" "audio s0 = (demo_start, None)" by (simp_all add: s0_def loop_initial_def)
  obtain a r0 rs k src snk where c: "audio s' = (a, Some r0)"
    "bt_get (endpoint_devices s) (sr_sink loop_saved) = Some snk"
    "\<exists>y \<in> set (contexts r0). ctx_device y = dev_object_id snk"
    using connected_route_carries_audio [OF i demo_resources run s'] router_runs.start by blast
  have "dev_object_id snk = 7" using c(2) by (auto simp: s_def loop_maps_def loop_saved_def demo_one_def)
  with run s' c(1,3) show ?thesis unfolding s0_def
    by (intro exI [of _ s] exI [of _ s'] exI [of _ a] exI [of _ r0]) (auto simp del: handle_connect)
qed

end
