(* ===== verification/DaemonRun.thy ===== *)
theory DaemonRun
  imports DaemonAudio DaemonTheorems
begin

text \<open>
  The process of \<open>vcabled\<close>: \<open>run\<close> of \<open>crates/vcabled/src/main.rs\<close>, from the options to the end, with
  the socket file and what is dropped on the way out. The socket is a file of the same map as the
  state file; binding it, setting its permissions and removing it consult the schedule of faults.
\<close>

section \<open>The process\<close>

text \<open>The accept loop over the connections that come in, up to a shutdown; \<open>Ok False\<close> is a loop that
  still waits for the next one.\<close>

fun serve_all ::
    "'c host \<Rightarrow> (byte_source \<times> byte_sink) option list \<Rightarrow> 'c system \<Rightarrow>
     (bool, ProtocolError) res \<times> byte_sink list \<times> 'c system" where
  "serve_all h [] s = (Ok False, [], s)"
| "serve_all h (None # cs) s = serve_all h cs s"
| "serve_all h (Some (input, output) # cs) s =
     (let (r, out1, s1) = serve_connection h input output s in
      if r = Ok True \<or> r = Panic then (r, [out1], s1)
      else let (r2, outs, s2) = serve_all h cs s1 in (r2, out1 # outs, s2))"

definition bind_socket :: "string \<Rightarrow> ('c, unit) act" where
  "bind_socket p = with_state (\<lambda>s.
     if files s p \<noteq> None then fail (DaemonIo (OtherIo ''Address already in use (os error 48)''))
     else file_op (\<lambda>s. s\<lparr>files := (files s)(p := Some [])\<rparr>) (\<lambda>n s. s))"

definition restrict_socket :: "string \<Rightarrow> ('c, unit) act" where
  "restrict_socket p = file_op (\<lambda>s. s) (\<lambda>n s. s)"

text \<open>\<open>SocketGuard::drop\<close> ignores an error.\<close>

definition remove_socket :: "string \<Rightarrow> 'c system \<Rightarrow> 'c system" where
  "remove_socket p s = snd (file_op (\<lambda>s. s\<lparr>files := (files s)(p := None)\<rparr>) (\<lambda>n s. s) s)"

text \<open>\<open>DaemonState\<close> is dropped with its router.\<close>

definition drop_state :: "'c host \<Rightarrow> 'c system \<Rightarrow> 'c system" where
  "drop_state h s = snd (drop_router h s)"

fun show_load_error :: "load_error \<Rightarrow> string" where
  "show_load_error (LoadIo e) = show_io_error e"
| "show_load_error (LoadText t) = t"

datatype run_end = Finished | HelpPrinted | Failed string | Panicked | Serving

definition open_daemon :: "'c host \<Rightarrow> string \<Rightarrow> ('c, unit) act" where
  "open_daemon h socket =
     andthen (start_up h) (\<lambda>_. andthen (bind_socket socket) (\<lambda>_. restrict_socket socket))"

text \<open>The locals of \<open>run\<close> are dropped in the reverse order: the guard of the socket, then the state.\<close>

definition serve_daemon ::
    "'c host \<Rightarrow> string \<Rightarrow> (byte_source \<times> byte_sink) option list \<Rightarrow> 'c system \<Rightarrow>
     run_end \<times> byte_sink list \<times> 'c system" where
  "serve_daemon h socket conns s =
     (let (r, outs, s1) = serve_all h conns s in
      if r = Panic then (Panicked, outs, drop_state h (remove_socket socket s1))
      else if r = Ok True then (Finished, outs, drop_state h (remove_socket socket s1))
      else (Serving, outs, s1))"

text \<open>The state is \<open>None\<close> where the process ends before it has one.\<close>

definition run_daemon ::
    "'c host \<Rightarrow> string list \<Rightarrow> (byte_source \<times> byte_sink) option list \<Rightarrow> (string \<Rightarrow> string option) \<Rightarrow> fault list \<Rightarrow>
     'c \<Rightarrow> run_end \<times> byte_sink list \<times> 'c system option" where
  "run_daemon h args conns fs flts c =
     (case parse_options None None args of
        HelpShown \<Rightarrow> (HelpPrinted, [], None)
      | OptionError m \<Rightarrow> (Failed m, [], None)
      | Options socket st \<Rightarrow>
          if fs socket \<noteq> None
          then (Failed (''socket already exists: '' @ socket
            @ ''; remove it only after verifying no daemon is running''), [], None)
          else (case daemon_load st fs flts c of
              Err e \<Rightarrow> (Failed (show_load_error e), [], None)
            | Panic \<Rightarrow> (Panicked, [], None)
            | Ok s0 \<Rightarrow> (case open_daemon h socket s0 of
                (Err e, s1) \<Rightarrow> (Failed (show_daemon_error e), [], Some (drop_state h s1))
              | (Panic, s1) \<Rightarrow> (Panicked, [], Some (drop_state h s1))
              | (Ok _, s1) \<Rightarrow> (let (e, outs, s2) = serve_daemon h socket conns s1 in (e, outs, Some s2)))))"

section \<open>What a connection keeps\<close>

context daemon_parts
begin

lemma keeps_connection:
  assumes "P s" "serve_connection h input output s = (r, out1, s1)"
  shows "P s1"
proof -
  have "P (snd (handle h q s))" for q using keeps_handle assms(1) unfolding preserves_def by blast
  then have k: "handle h q s = (x, t) \<Longrightarrow> P t" for q x t by (metis snd_conv)
  show ?thesis
    using assms by (auto simp: serve_connection_def Let_def split: res.splits prod.splits dest: k)
qed

lemma keeps_serving: "P s \<Longrightarrow> serve_all h conns s = (r, outs, s1) \<Longrightarrow> P s1"
proof (induction conns arbitrary: s r outs)
  case (Cons c cs)
  show ?case
  proof (cases c)
    case None
    then show ?thesis using Cons by simp
  next
    case (Some io)
    obtain inp outp where io: "io = (inp, outp)" by (cases io)
    obtain x o1 t where sc: "serve_connection h inp outp s = (x, o1, t)" by (metis surj_pair)
    have "P t" by (rule keeps_connection [OF Cons.prems(1) sc])
    then show ?thesis using Cons.IH Cons.prems(2) Some io sc
      by (auto simp: Let_def split: if_splits prod.splits)
  qed
qed simp

end

lemma fault_free_file_op:
  assumes "\<And>s. fault_free s \<Longrightarrow> fault_free (effect s)" "\<And>n s. fault_free s \<Longrightarrow> fault_free (partial n s)"
  shows "preserves fault_free (file_op effect partial)"
  using assms
  by (fastforce simp: preserves_def file_op_def next_fault_def fault_free_def split: list.splits option.splits prod.splits)

interpretation blind_faults: service_blind fault_free
  by unfold_locales (simp add: fault_free_def)

interpretation faultless: daemon_parts fault_free h for h
proof
  have ops: "preserves fault_free (create_dir_all p)" "preserves fault_free (open_truncated p)"
    "preserves fault_free (write_text p t)" "preserves fault_free (sync_all p)" "preserves fault_free (rename_file p q)"
    for p q t
    unfolding create_dir_all_def open_truncated_def write_text_def sync_all_def rename_file_def
    by (rule fault_free_file_op; simp add: fault_free_def append_to_def)+
  have lines: "preserves fault_free (write_lines p rs)" for p rs
    by (induction rs) (auto intro: kept ops)
  show "preserves fault_free (save_routes)"
    unfolding save_routes_def Let_def by (auto intro!: kept ops lines split: option.split)
  show "preserves fault_free (insert_saved i r)" "preserves fault_free (remove_saved i)" for i r
    unfolding insert_saved_def remove_saved_def by (rule preserves_update; simp add: fault_free_def)+
qed (intro blind_faults.keeps)+

section \<open>How the process ends\<close>

lemma fault_free_op:
  "fault_free s \<Longrightarrow> \<exists>fs. file_op effect partial s = (Ok (), effect (s\<lparr>faults := fs\<rparr>)) \<and> set fs \<subseteq> {None}"
  by (cases s) (auto simp: file_op_def next_fault_def fault_free_def split: list.split)

lemma removed: "fault_free s \<Longrightarrow> files (remove_socket p s) p = None"
  using fault_free_op [of s "\<lambda>s. s\<lparr>files := (files s)(p := None)\<rparr>" "\<lambda>n s. s"]
  by (auto simp: remove_socket_def)

lemma drop_state_files [simp]: "files (drop_state h s) = files s"
  by (simp add: drop_state_def drop_router_def update_def)

text \<open>Whether the start fails or not, without faults the socket is there only at the end of a good one.\<close>

lemma open_daemon_socket:
  assumes "open_daemon h p s = (r, s1)" "fault_free s" "files s p = None"
  shows "fault_free s1 \<and> (r \<noteq> Ok () \<longrightarrow> files s1 p = None)"
proof -
  obtain x t where st: "start_up h s = (x, t)" by (metis surj_pair)
  have f: "fault_free t" using preservesD [OF faultless.keeps_start_up assms(2) st] .
  have "stored_part t = stored_part s" using preservesD [OF stored.keeps_start_up refl st] .
  then have n: "files t p = None" using assms(3) by (simp add: stored_part_def)
  show ?thesis
  proof (cases x)
    case Ok
    obtain t1 where b: "bind_socket p t = (Ok (), t1)" "fault_free t1"
      using fault_free_op [OF f, of "\<lambda>s. s\<lparr>files := (files s)(p := Some [])\<rparr>" "\<lambda>n s. s"] n
      by (fastforce simp: bind_socket_def with_state_def fault_free_def)
    obtain t2 where "restrict_socket p t1 = (Ok (), t2)" "fault_free t2"
      using fault_free_op [OF b(2), of "\<lambda>s. s" "\<lambda>n s. s"] by (fastforce simp: restrict_socket_def fault_free_def)
    then show ?thesis using assms(1) st b Ok by (auto simp: open_daemon_def andthen_def)
  qed (use assms(1) st f n in \<open>auto simp: open_daemon_def andthen_def\<close>)
qed

lemma keeps_open:
  assumes "audio_inv m s" "open_daemon (core_audio_host h base) p s = (r, s1)"
  shows "audio_inv m s1"
proof -
  have f: "preserves (audio_inv m) (file_op effect partial)"
    if "\<And>s. audio_inv m s \<Longrightarrow> audio_inv m (effect s)" "\<And>n s. audio_inv m s \<Longrightarrow> audio_inv m (partial n s)"
    for effect partial using that by (rule preserves_file_op) simp_all
  have "preserves (audio_inv m) (open_daemon (core_audio_host h base) p)"
    unfolding open_daemon_def bind_socket_def restrict_socket_def
    by (intro kept daemon_audio.keeps_start_up f; simp)
  then show ?thesis using preservesD assms by blast
qed

lemma drop_state_owned: "audio_inv m s \<Longrightarrow> let t = drop_state (core_audio_host h base) s in
    router t = None \<and> snd (audio t) = None \<and> resources_of (fst (audio t)) = Some m"
proof -
  assume inv: "audio_inv m s"
  obtain r t where d: "drop_router (core_audio_host h base) s = (r, t)" by (metis surj_pair)
  have "router t = None" "audio_inv m t"
    using drop_owned(2) [OF inv d] preservesD [OF drop_owned(1) inv d] by simp_all
  then show ?thesis using d by (auto simp: drop_state_def owned_def router_contexts_def)
qed

lemma remove_socket_audio [simp]: "audio (remove_socket p s) = audio s" "router (remove_socket p s) = router s"
  by (auto simp: remove_socket_def file_op_def next_fault_def split: list.split option.split)


lemma daemon_load_Ok:
  assumes "daemon_load p fs flts c = Ok s"
  shows "router s = None" "audio s = c" "files s = fs" "state_path s = p" "set (faults s) \<subseteq> set flts"
proof -
  from assms have "router s = None \<and> audio s = c \<and> files s = fs \<and> state_path s = p \<and> set (faults s) \<subseteq> set flts"
    by (auto simp: daemon_load_def res_simps list.set_sel(2) split: option.splits list.splits)
  then show "router s = None" "audio s = c" "files s = fs" "state_path s = p" "set (faults s) \<subseteq> set flts"
    by blast+
qed

text \<open>How a run gets to a state.\<close>

lemma run_daemon_state:
  assumes "run_daemon h args conns fs flts c = (e, outs, Some s)"
  obtains socket st s0 r s1 where "parse_options None None args = Options socket st" "fs socket = None"
    "daemon_load st fs flts c = Ok s0" "open_daemon h socket s0 = (r, s1)"
    "if r = Ok () then serve_daemon h socket conns s1 = (e, outs, s) else s = drop_state h s1"
proof -
  obtain socket st where o: "parse_options None None args = Options socket st"
    using assms by (cases "parse_options None None args") (auto simp: run_daemon_def)
  have f: "fs socket = None" using assms o by (cases "fs socket") (simp_all add: run_daemon_def)
  obtain s0 where l: "daemon_load st fs flts c = Ok s0"
    using assms o f by (cases "daemon_load st fs flts c") (simp_all add: run_daemon_def)
  obtain r s1 where op: "open_daemon h socket s0 = (r, s1)" by (metis surj_pair)
  have "if r = Ok () then serve_daemon h socket conns s1 = (e, outs, s) else s = drop_state h s1"
    using assms o f l op by (cases r) (simp_all add: run_daemon_def split: prod.splits)
  with o f l op show thesis by (rule that)
qed

text \<open>C6: The daemon process cleans up. However the process ends after it has loaded its state (a
  shutdown, a failed start, a panic) and whatever failed on the way, there is no router any more and
  nothing is held of Core Audio: every I/O procedure is stopped and destroyed. When no file operation
  failed, the socket file is gone too, so that the daemon can be started again.\<close>

theorem daemon_process_cleans_up:
  assumes "run_daemon (core_audio_host h base) args conns fs flts (a0, None) = (e, outs, Some s)"
    and "resources_of a0 = Some nothing_held"
  shows "(e \<noteq> Serving \<longrightarrow> router s = None \<and> snd (audio s) = None
      \<and> resources_of (fst (audio s)) = Some nothing_held)
    \<and> (e \<noteq> Serving \<and> set flts \<subseteq> {None} \<longrightarrow>
      (\<exists>socket st. parse_options None None args = Options socket st \<and> fs socket = None \<and> files s socket = None))"
proof -
  let ?h = "core_audio_host h base"
  obtain socket st s0 r s1 where o: "parse_options None None args = Options socket st" "fs socket = None"
    "daemon_load st fs flts (a0, None) = Ok s0" "open_daemon ?h socket s0 = (r, s1)"
    and start: "if r = Ok () then serve_daemon ?h socket conns s1 = (e, outs, s) else s = drop_state ?h s1"
    by (rule run_daemon_state [OF assms(1)])
  note load = daemon_load_Ok [OF o(3)]
  have "resources_wf nothing_held" by (simp add: resources_wf_def nothing_held_def)
  then have "audio_inv nothing_held s0" using assms(2) load by (simp add: owned_def router_contexts_def)
  then have inv: "audio_inv nothing_held s1" by (rule keeps_open [OF _ o(4)])
  have sock: "fault_free s1 \<and> (r \<noteq> Ok () \<longrightarrow> files s1 socket = None)" if "set flts \<subseteq> {None}"
    using that o(2) load by (intro open_daemon_socket [OF o(4)]) (auto simp: fault_free_def)
  have "\<exists>t. s = drop_state ?h t \<and> audio_inv nothing_held t
      \<and> (set flts \<subseteq> {None} \<longrightarrow> files t socket = None)" if ended: "e \<noteq> Serving"
  proof (cases "r = Ok ()")
    case False
    then show ?thesis using start inv sock by auto
  next
    case True
    obtain x s2 where s2: "serve_all ?h conns s1 = (x, outs, s2)" "s = drop_state ?h (remove_socket socket s2)"
      using ended start True by (auto simp: serve_daemon_def split: prod.splits if_splits)
    moreover have "audio_inv nothing_held s2" by (rule daemon_audio.keeps_serving [OF inv s2(1)])
    moreover have "files (remove_socket socket s2) socket = None" if "set flts \<subseteq> {None}"
      using removed faultless.keeps_serving [OF _ s2(1)] sock [OF that] by blast
    ultimately show ?thesis by (intro exI [of _ "remove_socket socket s2"]) simp
  qed
  then show ?thesis using drop_state_owned [of nothing_held _ h base] o(1,2) by (fastforce simp: Let_def)
qed

definition quit_args :: "string list" where
  "quit_args = [''--socket'', ''/run/s'', ''--state'', ''/var/routes'']"

definition quit_connection :: "(byte_source \<times> byte_sink) option" where
  "quit_connection = Some (\<lparr>pending = request.frame Shutdown, read_fault = None\<rparr>, fresh_sink)"

lemma loop_load: "daemon_load ''/var/routes'' loop_files [] (demo_start, None) = Ok loop_initial"
proof -
  have "saved_ok (bt_insert ''r'' loop_saved bt_empty)"
    by (intro saved_ok_insert saved_ok_empty) (simp_all add: loop_saved_def connect_request_def utf8_ascii byte_def)
  then have "saved_ok [(''r'', loop_saved)]" by (simp add: bt_empty_def)
  then have "load_routes ''/var/routes'' loop_files = Ok [(''r'', loop_saved)]"
    by (intro load_state_text) (simp_all add: loop_files_def)
  then show ?thesis
    by (simp add: daemon_load_def loop_initial_def) (simp add: loop_files_def)
qed

lemma quit_served: "served h s (fresh_sink\<lparr>written := request.frame Shutdown\<rparr>)
    = (Ok True, fresh_sink\<lparr>written := response.frame (Response_Ok ''shutting down'')\<rparr>, drop_state h s)"
proof -
  have "handle h Shutdown s = (Ok ''shutting down'', drop_state h s)"
    by (simp add: andthen_def drop_router_def update_def done_with_def drop_state_def)
  then have "served h s (fresh_sink\<lparr>written := request.frame Shutdown\<rparr>)
    = (Ok (Shutdown = Shutdown), fresh_sink\<lparr>written := response.frame (Response_Ok ''shutting down'')\<rparr>, drop_state h s)"
    by (rule served_request [rotated 2])
      (simp_all add: response_of_def MAX_MESSAGE_BYTES_def escape_allowed_def is_ascii_alphanumeric_def byte_def)
  then show ?thesis by simp
qed

theorem daemon_process_cleans_up_witness:
  "\<exists>outs s. run_daemon loop_host quit_args [quit_connection] loop_files [] (demo_start, None)
        = (Finished, outs, Some s)
     \<and> resources_of (fst (audio s)) = Some nothing_held \<and> files s ''/run/s'' = None"
proof -
  obtain s1 where up: "start_up loop_host loop_initial = (Ok (), s1)" "files s1 = loop_files" "faults s1 = []"
    using loop_start_up by (fastforce simp: loop_initial_def)
  define s2 where "s2 = s1\<lparr>files := (files s1)(''/run/s'' := Some [])\<rparr>"
  have op: "open_daemon loop_host ''/run/s'' loop_initial = (Ok (), s2)"
    using up by (simp add: open_daemon_def andthen_def bind_socket_def restrict_socket_def with_state_def
        file_op_def next_fault_def loop_files_def s2_def)
  have "serve_all loop_host [quit_connection] s2 = (Ok True,
      [fresh_sink\<lparr>written := response.frame (Response_Ok ''shutting down'')\<rparr>], drop_state loop_host s2)"
    using quit_served [of loop_host s2] by (simp add: quit_connection_def served_def)
  then have "\<exists>outs s. run_daemon loop_host quit_args [quit_connection] loop_files [] (demo_start, None)
      = (Finished, outs, Some s)"
    using op loop_load by (simp add: run_daemon_def quit_args_def serve_daemon_def) (simp add: loop_files_def)
  then obtain outs s where run: "run_daemon loop_host quit_args [quit_connection] loop_files [] (demo_start, None)
      = (Finished, outs, Some s)" by blast
  have "parse_options None None quit_args = Options ''/run/s'' ''/var/routes''" by (simp add: quit_args_def)
  then show ?thesis
    using daemon_process_cleans_up [OF run demo_resources] run by auto
qed

section \<open>Ends that are not clean\<close>

text \<open>
  The guard that removes the socket is made only after the permissions are set: when that fails the
  process ends and the socket stays, and the next start is refused because of it.
\<close>

lemma failed_permissions_leave_socket:
  assumes "parse_options None None args = Options p st" "fs p = None" "daemon_load st fs flts c = Ok s0"
    and "start_up h s0 = (Ok (), s1)" "files s1 p = None" "faults s1 = None # Some (e, n) # fs2"
  shows "\<exists>s2. run_daemon h args conns fs flts c = (Failed (show_io_error e), [], Some s2)
    \<and> files s2 p = Some []
    \<and> run_daemon h args conns' (files s2) flts' c'
      = (Failed (''socket already exists: '' @ p @ ''; remove it only after verifying no daemon is running''), [], None)"
proof -
  define s2 where "s2 = drop_state h (s1\<lparr>files := (files s1)(p := Some []), faults := fs2\<rparr>)"
  have "open_daemon h p s0 = (Err (DaemonIo e), s1\<lparr>files := (files s1)(p := Some []), faults := fs2\<rparr>)"
    using assms(4-6) by (cases s1) (simp add: open_daemon_def andthen_def bind_socket_def restrict_socket_def
        with_state_def file_op_def next_fault_def)
  then have "run_daemon h args conns fs flts c = (Failed (show_io_error e), [], Some s2)"
    using assms(1-3) by (simp add: run_daemon_def s2_def)
  moreover have "files s2 p = Some []" by (simp add: s2_def)
  ultimately show ?thesis using assms(1) by (simp add: run_daemon_def)
qed

text \<open>
  A shutdown whose reply cannot be written (the client is gone) has dropped the router, but the loop
  takes the error of the connection for one of the client and goes on.
\<close>

lemma unanswered_shutdown_keeps_serving:
  assumes "fst (read_message request_decode inp) = Ok Shutdown"
    and "write_message response_encode (Response_Ok ''shutting down'') outp = (Err e, out1)"
  shows "serve_all h (Some (inp, outp) # cs) s
    = (let (r, outs, s2) = serve_all h cs (drop_state h s) in (r, out1 # outs, s2))"
proof -
  have "handle h Shutdown s = (Ok ''shutting down'', drop_state h s)"
    by (simp add: andthen_def drop_router_def update_def done_with_def drop_state_def)
  then have "serve_connection h inp outp s = (Err e, out1, drop_state h s)"
    using assms by (simp add: serve_connection_def response_of_def)
  then show ?thesis by simp
qed

end
