(* ===== verification/Spec2Isabelle.thy ===== *)
theory Spec2Isabelle
  imports RoutingGraph StreamConcurrency Protocol PcmCycles DriverAudio ConnectedAudio DaemonRun
begin

text \<open>
  A verification development for VCable: virtual audio devices for macOS, a daemon that routes audio
  between devices, a command-line client, and streams with which a process plays and captures audio.

  \<^bold>\<open>The program.\<close> \<open>vcable-core\<close> has the data: the lock-free ring of samples (\<open>ring.rs\<close>), the channel
  matrix (\<open>matrix.rs\<close>) and the routing graph (\<open>graph.rs\<close>). \<open>vcable-coreaudio\<close> talks to macOS: the types
  and errors (\<open>lib.rs\<close>), the PCM streams of a process (\<open>pcm.rs\<close>), and on top of Core Audio
  (\<open>platform.rs\<close>) the listing of devices, the commands to the driver, the streams and the router,
  whose callback runs once per I/O cycle of every device. \<open>vcable-protocol\<close> encodes requests and
  responses as framed lines of text. \<open>vcabled\<close> is the daemon: it owns the graph, the state file, the
  router and a socket; \<open>vcablectl\<close> sends it one request. A request therefore goes from the arguments of
  the client through the protocol to the daemon, which changes the saved routes, the graph, the state
  file and the router; the router's callbacks then move the samples through one ring per route. The
  virtual devices themselves live in the driver plug-in (\<open>native/VCableDriver/VCableDriver.cpp\<close>): it makes
  and removes them on commands from \<open>platform.rs\<close> and gives back on the input of a device what is played
  into its output.

  \<^bold>\<open>Foundations.\<close>
  \<^item> \<open>Prelude\<close>: machine integers, results with errors and panics, loops that may not end, slices.
  \<^item> \<open>BTreeMap\<close>: the standard library's ordered map as a sorted association list; locale
    \<open>ordered_map\<close> for its laws.
  \<^item> \<open>IeeeFloat\<close>, \<open>FloatBounds\<close>: \<open>f32\<close> and \<open>f64\<close> with rounding to nearest even, executable; bounds of
    results (used where a phase must make progress in spite of rounding).
  \<^item> \<open>RustText\<close>: UTF-8 validation, splitting, the parsing and printing of integers.

  \<^bold>\<open>Components\<close> (theory, source, contents).
  \<^item> \<open>Ring\<close> (\<open>ring.rs\<close>): \<open>spsc_ring_buffer\<close>, \<open>push_slice\<close>, \<open>pop_slice\<close>, \<open>push\<close>, \<open>pop\<close> on the record of
    \<open>Inner\<close>, one call at a time; locale \<open>bounded_queue\<close> is the abstract queue that they implement.
    \<open>RingConcurrency\<close>: the two threads with every load and store a step of \<open>spsc_step\<close>; order, absence
    of conflicting accesses, progress, and that a call never finds less than \<open>available\<close> had promised.
  \<^item> \<open>ChannelMatrix\<close> (\<open>matrix.rs\<close>): construction and the mixer, against a reference mix.
  \<^item> \<open>RoutingGraph\<close> (\<open>graph.rs\<close>): the four operations that change the graph and the search for feedback,
    with the invariant that no cycle of loopback devices exists, and the one order of calls that escapes
    it (\<open>late_loopback_endpoint_feeds_back\<close>).
  \<^item> \<open>Protocol\<close> (\<open>vcable-protocol\<close>): escaping, both messages, framing; locale \<open>message_codec\<close> proves the
    framing once and is interpreted for requests and for responses.
  \<^item> \<open>PcmStream\<close>, \<open>PcmProperties\<close> (\<open>pcm.rs\<close>): both halves of a stream, the resampler with its drift
    correction, metrics; the abstract play head over the buffered frames that the resampler refines.
  \<^item> \<open>CoreAudioApi\<close> (\<open>lib.rs\<close>): devices, routes, errors and their texts.
  \<^item> \<open>AudioBuffers\<close> (\<open>platform.rs\<close>): samples in the buffer lists of Core Audio, with every access checked
    against the memory behind the list; locale \<open>sample_grid\<close>. \<open>PcmIo\<close>: the callback of a PCM stream.
    \<open>AudioOrder\<close>, \<open>PcmCycles\<close>: a started stream under any calls of its process and its device; what comes
    out is what went in, in order (\<open>in_transit\<close>, shared with the routes of the router).
    \<open>StreamConcurrency\<close>: the writing thread, the reading thread and the close of a stream interleaved at
    single accesses of the ring, the fill counter and the closed flag (\<open>stream_step\<close>): writes are whole,
    the fill metric is bounded, and every one-step operation of \<open>PcmStream\<close> is a run of these steps.
    \<open>RouterIo\<close>, \<open>RouterProperties\<close>: the callback of the router, capture, resampling and mixing.
  \<^item> \<open>CoreAudioHal\<close> (\<open>platform.rs\<close>): property reads, \<open>list_devices\<close>, driver commands, the wait for a device.
    \<open>PlatformStreams\<close>: start and drop of PCM streams and of \<open>AudioRouter\<close>, validation of formats and
    routes. \<open>HalProperties\<close>, \<open>StreamProperties\<close>: a monitor over the log of calls shows that every I/O
    procedure and string is given back, whatever the framework answers (locale \<open>hal_relation\<close>); a started
    router satisfies the invariant of its callback. \<open>DeviceProperties\<close>: the shape of listed devices and
    of commands. \<open>RouterSafety\<close>: the callbacks of a running router on any valid buffer lists
    (\<open>router_calls\<close>); none of them fails. \<open>RouterCycles\<close>: the callbacks on lists with the channels of the
    routes (\<open>router_runs\<close>); each route carries its frames in order. After a change of a device's format
    its lists are not of that kind, and the order is lost (\<open>format_change_splits_a_frame\<close>).
  \<^item> \<open>Daemon\<close> (\<open>vcabled/src/main.rs\<close>): every method of \<open>DaemonState\<close> and the handling of connections, as
    actions on the record \<open>system\<close> that keep what a failing method has already changed.
    \<open>DaemonState\<close>, \<open>DaemonProperties\<close>, \<open>DaemonTheorems\<close>: preservation rules (locales \<open>daemon_parts\<close>,
    \<open>graph_only\<close>, \<open>service_blind\<close>), the atomic replacement of the state file (unless it is its own temporary
    file, \<open>save_in_place_loses_routes\<close>) and its round trip, the agreement of graph, saved routes and file after acknowledged requests, and where the code's rollback
    is incomplete. \<open>DaemonAudio\<close>: the daemon on the modelled platform layer, with requests, callbacks on
    any valid lists and changes of Core Audio in any order. \<open>ConnectedAudio\<close>: from a successful \<open>connect\<close> to the frames at the
    sink device. \<open>DaemonRun\<close>: the process from its options to its end, with the
    socket file.
  \<^item> \<open>Client\<close> (\<open>vcablectl/src/main.rs\<close>): the command line and the exchange with the daemon.
  \<^item> \<open>DriverLoopback\<close>, \<open>DriverDevices\<close> (\<open>VCableDriver.cpp\<close>): the loopback memory of a device, which refines a
    delay line, and the table of devices with the entry points that change it, on the record \<open>driver\<close>.
    \<open>DriverInventory\<close>: over any history of calls (\<open>driver_reachable\<close>) devices keep their identity and
    their object ids, a call either writes exactly the new inventory as the last thing it stores or changes
    nothing and stores nothing, and the stored inventory reads back as the same devices. \<open>DriverCommands\<close>: \<open>create_virtual_device\<close> and \<open>delete_virtual_device\<close> of \<open>platform.rs\<close>
    against the driver, and a creation that a pending deletion undoes (\<open>create_during_pending_delete\<close>).
    \<open>DriverAudio\<close>: which calls reach the memory of a device, so that every device is a delay line of
    its own.

  \<^bold>\<open>Correspondence.\<close> A struct is a record and an enum a datatype with the source's constructors; integers
  keep their width as words, with \<open>usize\<close> as 64 bits (lengths of slices are \<open>nat\<close> below that bound).
  A result is \<open>Ok\<close>, \<open>Err\<close> or \<open>Panic\<close>; every early return and every checked access of the source is a
  branch. What is shared through \<open>Arc\<close> is passed as state, and the rings of a router live in a store
  in which a route holds an index. A \<open>Drop\<close> is part of the definition at whose end it runs. Names that
  clash with others carry a prefix (\<open>dev_uid\<close>, \<open>sr_id\<close>, \<open>ep_id\<close>).

  \<^bold>\<open>Loops.\<close> There is no fuel. A loop over data is recursion on it; the search of the graph terminates by
  a measure on the nodes not visited; the loops of the resamplers, whose end depends on rounding, and the
  wait for a device are partial (\<open>None\<close> is a loop that does not end), and it is proved that they end:
  for every phase and step of a route, and for a PCM stream under its invariant; for the wait as soon as
  the clock advances.

  \<^bold>\<open>Outside of the model\<close>, as parameters: Core Audio, Core Foundation and the clock are the record \<open>hal\<close>
  with one function per call and no assumption on the answers, except that the clock advances where a
  wait is to end, and that the size of a string's C form is a length or \<open>kCFNotFound\<close> (\<open>cf_index\<close>); \<open>powf\<close>
  and the rendering of a gain are fields of the record \<open>host\<close>; which file operations fail is a list of faults, over which the theorems quantify; what
  arrives on a socket is a byte source that may end or fail at any point. The answers of other
  drivers arrive through \<open>hal\<close>. For VCable's own driver the host, the allocator and the clock are the
  record \<open>driver_host\<close>, again with no assumption on the answers.

  \<^bold>\<open>Granularity.\<close> The daemon serves one connection at a time, so a request is a step. Callbacks of the
  router are steps between the requests and between each other; what two threads do to one ring at the
  same time is the subject of \<open>RingConcurrency\<close>, on sequentially consistent steps (the theory proves
  that the slots are never accessed at the same time, which the acquire and release orderings rest on),
  and what they do to one stream that of \<open>StreamConcurrency\<close>, in the same way. What the driver does under
  \<open>gStateMutex\<close> is one step; the calls of the host that follow without the mutex belong to the same step.

  \<^bold>\<open>Not modelled.\<close> The driver's property getters and their sizes, its reference count and
  \<open>QueryInterface\<close>, its zero time stamps and \<open>WillDo\<close>, \<open>Begin\<close> and \<open>EndIOOperation\<close>, which do not change
  its devices, and its casts between numbers, \<open>Float64\<close> and \<open>CFString\<close>;
  the loopback test, which needs a sound system; the stubs for systems other than macOS, which only
  return an error; printing to the terminal and the exit code (results of \<open>run_daemon\<close>
  and \<open>run_client\<close>); the texts of those errors that no other text contains. Paths are
  compared as texts, so two names of one file are two files, and a socket is a file like any other.
  Allocation fails only where a size exceeds what the allocator accepts.
\<close>

end
